(* ===== verification/Prelude.thy ===== *)
theory Prelude
  imports Main "HOL-Library.Word"
begin

text \<open>
  Shared vocabulary of the development: the machine integers of the target, faults as
  values, blocks of C memory with their bounds-checked accesses, C strings and the byte
  comparison of \<open>memcmp\<close>, and the generic lemmas the component theories use.

  A function of the program that can misbehave returns a value of type \<open>'a res\<close>:
  \<open>Inl\<close> of a \<open>fault\<close> where the C standard gives the execution no meaning
  (or where a loop does not end), \<open>Inr\<close> of the result otherwise.  Allocation is
  taken to succeed, as the program takes it: it never tests a result of \<open>malloc\<close>.
\<close>

section \<open>Machine integers\<close>

type_synonym u16 = "16 word"
type_synonym u32 = "32 word"  \<comment> \<open>\<open>unsigned int\<close>, \<open>dstrlen_t\<close>, \<open>packet_time_t\<close>\<close>
type_synonym u64 = "64 word"  \<comment> \<open>\<open>size_t\<close> and \<open>unsigned long\<close> on the LP64 targets\<close>

section \<open>Faults\<close>

datatype fault =
    OutOfBounds   \<comment> \<open>an access outside its block\<close>
  | Uninit        \<comment> \<open>a decision on an indeterminate byte\<close>
  | NullDeref     \<comment> \<open>a null pointer is followed\<close>
  | Dangling      \<comment> \<open>a pointer to a freed or foreign cell is followed\<close>
  | Diverge       \<comment> \<open>the loop does not end\<close>
  | DivByZero     \<comment> \<open>a division by zero\<close>
  | BadConv       \<comment> \<open>a conversion to a type that cannot hold the value\<close>

type_synonym 'a res = "fault + 'a"

definition bindR :: "'a res \<Rightarrow> ('a \<Rightarrow> 'b res) \<Rightarrow> 'b res" where
  "bindR m f = (case m of Inl e \<Rightarrow> Inl e | Inr x \<Rightarrow> f x)"

named_theorems res_iff \<open>when a sequence of fallible steps returns\<close>

lemma bindR_simps [simp]:
  "bindR (Inl e) f = Inl e"
  "bindR (Inr x) f = f x"
  by (simp_all add: bindR_def)

lemma bindR_eq_Inr [res_iff]: "bindR m f = Inr y \<longleftrightarrow> (\<exists>x. m = Inr x \<and> f x = Inr y)"
  by (cases m) auto

lemma bindR_eq_Inl [res_iff]:
  "bindR m f = Inl e \<longleftrightarrow> m = Inl e \<or> (\<exists>x. m = Inr x \<and> f x = Inl e)"
  by (cases m) auto

lemma bindR_assoc: "bindR (bindR m f) g = bindR m (\<lambda>x. bindR (f x) g)"
  by (cases m) auto

lemma bindR_Inr_right [simp]: "bindR m Inr = m"
  by (cases m) auto

text \<open>
  \<open>gives m P\<close>: the computation returns, and its result satisfies \<open>P\<close>.  The total
  correctness statements of the component theories have this form.
\<close>

definition gives :: "'a res \<Rightarrow> ('a \<Rightarrow> bool) \<Rightarrow> bool" where
  "gives m P \<longleftrightarrow> (\<exists>x. m = Inr x \<and> P x)"

lemma gives_simps [simp]:
  "gives (Inr x) P \<longleftrightarrow> P x"
  "gives (Inl e) P \<longleftrightarrow> False"
  by (simp_all add: gives_def)

lemma givesI [intro?]: "m = Inr x \<Longrightarrow> P x \<Longrightarrow> gives m P"
  by simp

lemma givesE: "gives m P \<Longrightarrow> (\<And>x. m = Inr x \<Longrightarrow> P x \<Longrightarrow> thesis) \<Longrightarrow> thesis"
  by (auto simp: gives_def)

lemma gives_bind: "gives m Q \<Longrightarrow> (\<And>x. Q x \<Longrightarrow> gives (f x) P) \<Longrightarrow> gives (bindR m f) P"
  by (auto simp: gives_def)

lemma gives_mono: "gives m Q \<Longrightarrow> (\<And>x. Q x \<Longrightarrow> P x) \<Longrightarrow> gives m P"
  by (auto simp: gives_def)

lemma gives_bindD: "gives (bindR m f) P \<Longrightarrow> gives m (\<lambda>x. gives (f x) P)"
  by (cases m) auto

text \<open>A loop over a list of inputs, left at the first fault.\<close>

fun foldR :: "('a \<Rightarrow> 'b \<Rightarrow> 'b res) \<Rightarrow> 'a list \<Rightarrow> 'b \<Rightarrow> 'b res" where
  "foldR f [] s = Inr s"
| "foldR f (x # xs) s = bindR (f x s) (foldR f xs)"

lemma foldR_Nil_fun [simp]: "foldR f [] = Inr"
  by (rule ext) simp

lemma foldR_append [simp]: "foldR f (xs @ ys) s = bindR (foldR f xs s) (foldR f ys)"
  by (induction xs arbitrary: s) (simp_all add: bindR_def split: sum.splits)

lemma foldR_cong [fundef_cong]:
  "(\<And>x s. x \<in> set xs \<Longrightarrow> f x s = g x s) \<Longrightarrow> xs = ys \<Longrightarrow> s = s' \<Longrightarrow> foldR f xs s = foldR g ys s'"
proof (induction xs arbitrary: ys s s')
  case (Cons x xs)
  have "foldR f xs = foldR g xs" by (rule ext, rule Cons.IH) (use Cons.prems(1) in auto)
  with Cons.prems show ?case by auto
qed auto

lemma foldR_map: "foldR f (map g xs) s = foldR (\<lambda>x. f (g x)) xs s"
  by (induction xs arbitrary: s) (simp_all add: bindR_def split: sum.splits)

section \<open>Blocks of memory\<close>

text \<open>
  A block is what one call of \<open>malloc\<close> returns: as many bytes as were asked for, each
  indeterminate (\<open>None\<close>) until it is written.
\<close>

type_synonym block = "char option list"

abbreviation nul :: char where "nul \<equiv> CHR 0x00"

definition malloc :: "nat \<Rightarrow> block" where
  "malloc n = replicate n None"

definition peek :: "block \<Rightarrow> nat \<Rightarrow> char res" where
  "peek b i = (if i < length b then (case b ! i of None \<Rightarrow> Inl Uninit | Some c \<Rightarrow> Inr c)
               else Inl OutOfBounds)"

definition poke :: "block \<Rightarrow> nat \<Rightarrow> char \<Rightarrow> block res" where
  "poke b i c = (if i < length b then Inr (b[i := Some c]) else Inl OutOfBounds)"

text \<open>\<open>memcpy(dst + i, src + j, n)\<close>: indeterminate bytes may be copied.\<close>

definition memcpy :: "block \<Rightarrow> nat \<Rightarrow> block \<Rightarrow> nat \<Rightarrow> nat \<Rightarrow> block res" where
  "memcpy d i s j n =
     (if i + n \<le> length d \<and> j + n \<le> length s
      then Inr (take i d @ take n (drop j s) @ drop (i + n) d)
      else Inl OutOfBounds)"

text \<open>The bytes \<open>b[j .. j+n-1]\<close>, read to be looked at.\<close>

definition peeks :: "block \<Rightarrow> nat \<Rightarrow> nat \<Rightarrow> string res" where
  "peeks b j n =
     (if j + n \<le> length b
      then (if None \<in> set (take n (drop j b)) then Inl Uninit
            else Inr (map the (take n (drop j b))))
      else Inl OutOfBounds)"

text \<open>
  The order of \<open>memcmp\<close>: bytes compared as \<open>unsigned char\<close>, from the left.  The
  standard fixes the sign of the result only; the model returns -1, 0 or 1, and the program
  looks at the sign only.
\<close>

fun cmp_bytes :: "string \<Rightarrow> string \<Rightarrow> int" where
  "cmp_bytes (x # xs) (y # ys) =
     (if x = y then cmp_bytes xs ys
      else if (of_char x :: nat) < of_char y then - 1 else 1)"
| "cmp_bytes _ _ = 0"

definition memcmp :: "block \<Rightarrow> nat \<Rightarrow> block \<Rightarrow> nat \<Rightarrow> nat \<Rightarrow> int res" where
  "memcmp a i b j n =
     bindR (peeks a i n) (\<lambda>xs. bindR (peeks b j n) (\<lambda>ys. Inr (cmp_bytes xs ys)))"

section \<open>C strings\<close>

text \<open>
  A \<open>const char*\<close> argument is given by its characters; its memory is those characters
  and a terminating zero.  \<open>strlen\<close> stops at the first zero.
\<close>

definition cmem :: "string \<Rightarrow> block" where
  "cmem s = map Some s @ [Some nul]"

definition cstr :: "string \<Rightarrow> string" where
  "cstr s = takeWhile (\<lambda>c. c \<noteq> nul) s"

definition strlen :: "string \<Rightarrow> u64" where
  "strlen s = of_nat (length (cstr s))"

text \<open>The promotion of a (signed) \<open>char\<close> to \<open>int\<close>, and its inverse conversion.\<close>

definition schar :: "char \<Rightarrow> int" where
  "schar c = (let n = of_char c in if n < 128 then n else n - 256)"

definition to_char :: "int \<Rightarrow> char" where
  "to_char i = char_of (i mod 256)"

section \<open>Lemmas\<close>

lemma length_malloc [simp]: "length (malloc n) = n"
  by (simp add: malloc_def)

lemma length_cmem [simp]: "length (cmem s) = Suc (length s)"
  by (simp add: cmem_def)

lemma cstr_id [simp]: "nul \<notin> set s \<Longrightarrow> cstr s = s"
  by (induction s) (auto simp: cstr_def)

lemma nul_notin_cstr [simp]: "nul \<notin> set (cstr s)"
  unfolding cstr_def by (auto dest: set_takeWhileD)

lemma length_cstr_le: "length (cstr s) \<le> length s"
  by (simp add: cstr_def length_takeWhile_le)

lemma cstr_Nil [simp]: "cstr [] = []"
  by (simp add: cstr_def)

lemma cstr_cstr [simp]: "cstr (cstr s) = cstr s"
  by simp

lemma take_cstr_cmem: "take (Suc (length (cstr s))) (cmem s) = cmem (cstr s)"
  by (induction s) (auto simp: cstr_def cmem_def)

lemma take_cstr_cmem' [simp]: "take (length (cstr s)) (cmem s) = map Some (cstr s)"
  by (induction s) (auto simp: cstr_def cmem_def)

lemma unat_strlen: "length s < 2 ^ 64 \<Longrightarrow> unat (strlen s) = length (cstr s)"
  using length_cstr_le [of s] unfolding strlen_def
  by (simp add: unat_of_nat)

lemma of_char_int_bounds [simp]: "(0::int) \<le> of_char c" "(of_char c :: int) < 256"
proof -
  have "(of_char c :: int) = int (of_char c)" by (simp add: of_nat_of_char)
  moreover have "(of_char c :: nat) < 256" by (rule nat_of_char_less_256)
  ultimately show "(0::int) \<le> of_char c" "(of_char c :: int) < 256" by simp_all
qed

lemma to_char_schar [simp]: "to_char (schar c) = c"
proof -
  have "schar c mod 256 = of_char c"
  proof (cases "(of_char c :: int) < 128")
    case True
    then show ?thesis by (simp add: schar_def Let_def)
  next
    case False
    have "(of_char c - 256) mod 256 = (of_char c :: int) mod 256" by simp
    with False show ?thesis by (simp add: schar_def Let_def)
  qed
  then show ?thesis by (simp add: to_char_def)
qed

lemma schar_inj [simp]: "schar c = schar d \<longleftrightarrow> c = d"
  by (metis to_char_schar)

lemma cmp_bytes_self [simp]: "cmp_bytes xs xs = 0"
  by (induction xs) auto

lemma cmp_bytes_eq_0 [simp]:
  "length xs = length ys \<Longrightarrow> cmp_bytes xs ys = 0 \<longleftrightarrow> xs = ys"
  by (induction xs ys rule: cmp_bytes.induct) auto

lemma cmp_bytes_range: "cmp_bytes xs ys \<in> {- 1, 0, 1}"
  by (induction xs ys rule: cmp_bytes.induct) auto

lemma cmp_bytes_swap: "cmp_bytes ys xs = - cmp_bytes xs ys"
proof (induction xs ys rule: cmp_bytes.induct)
  case (1 x xs y ys)
  have "x \<noteq> y \<Longrightarrow> (of_char x :: nat) \<noteq> of_char y" by simp
  with 1 show ?case by auto
qed auto

lemma cmp_bytes_trans:
  "cmp_bytes xs ys < 0 \<Longrightarrow> cmp_bytes ys zs < 0 \<Longrightarrow> length xs = length ys \<Longrightarrow>
   length ys = length zs \<Longrightarrow> cmp_bytes xs zs < 0"
proof (induction xs ys arbitrary: zs rule: cmp_bytes.induct)
  case (1 x xs y ys)
  then obtain z zs' where "zs = z # zs'" by (cases zs) auto
  with 1 show ?case by (auto split: if_splits)
qed auto

lemma peeks_eq:
  "j + n \<le> length b \<Longrightarrow> take n (drop j b) = map Some xs \<Longrightarrow> peeks b j n = Inr xs"
  by (auto simp: peeks_def comp_def)

lemma poke_simp: "i < length b \<Longrightarrow> poke b i c = Inr (b[i := Some c])"
  by (simp add: poke_def)

lemma memcpy_simp:
  "i + n \<le> length d \<Longrightarrow> j + n \<le> length s \<Longrightarrow>
   memcpy d i s j n = Inr (take i d @ take n (drop j s) @ drop (i + n) d)"
  by (simp add: memcpy_def)

text \<open>The successor of a position in a ring of \<open>sz\<close> slots.\<close>

lemma unat_ring_next:
  fixes pos sz :: u32
  assumes "unat pos < unat sz"
  shows "unat (if pos = sz - 1 then 0 else pos + 1) = Suc (unat pos) mod unat sz"
proof (cases "Suc (unat pos) = unat sz")
  case True
  then have "sz \<noteq> 0" by auto
  with True have "pos = sz - 1" by (simp add: word_unat_eq_iff unat_minus_one)
  with True show ?thesis by simp
next
  case False
  have "pos \<noteq> sz - 1"
  proof
    assume "pos = sz - 1"
    moreover have "sz \<noteq> 0" using assms by auto
    ultimately have "unat pos = unat sz - 1" by (simp add: unat_minus_one)
    with False assms show False by simp
  qed
  moreover have "unat (pos + 1) = Suc (unat pos)"
    using assms False unsigned_less [of sz, where ?'a = nat] by (simp add: unat_plus_if')
  ultimately show ?thesis using assms False by simp
qed

end
