(* ===== verification/Dstr.thy ===== *)
theory Dstr
  imports Prelude
begin

text \<open>
  The dynamic strings of \<open>src/common/dstr.h\<close> and \<open>src/common/dstr.c\<close>: a
  record of length, allocated size and data block; one definition per function, at the
  machine widths of the code, every access of the data block checked against its bounds.
  A function that changes its first argument in place returns the new value of it.  The
  two arguments of a binary operation are distinct objects, as at every call of the
  program.
\<close>

section \<open>The data type and its allocation\<close>

record dstring =
  dlen :: u32
  dsize :: u32
  ddata :: block

definition put_z :: "dstring \<Rightarrow> dstring res" where
  "put_z s = bindR (poke (ddata s) (unat (dlen s)) nul) (\<lambda>b. Inr (s\<lparr>ddata := b\<rparr>))"

text \<open>The macro \<open>align\<close>, at the width of its argument.\<close>

definition align :: "'a::len word \<Rightarrow> 'a word" where
  "align l = push_bit 6 (drop_bit 6 l + 1)"

definition set_size :: "dstring \<Rightarrow> u32 \<Rightarrow> dstring" where
  "set_size s sz =
     (let new_size = align sz in
      if new_size \<le> dsize s \<and> dsize s \<le> new_size + 32 then s
      else s\<lparr>ddata := malloc (unat new_size), dsize := new_size\<rparr>)"

definition add_size :: "dstring \<Rightarrow> u32 \<Rightarrow> dstring res" where
  "add_size s sz =
     (if dlen s + sz \<le> dsize s then Inr s
      else let new_size = align (dlen s + sz) in
        bindR (memcpy (malloc (unat new_size)) 0 (ddata s) 0 (unat (dlen s + 1)))
          (\<lambda>tmp. Inr (s\<lparr>ddata := tmp, dsize := new_size\<rparr>)))"

section \<open>Construction\<close>

definition dnew :: dstring where
  "dnew = \<lparr>dlen = 0, dsize = 32, ddata = malloc 32\<rparr>"

definition dnewcopy :: "dstring \<Rightarrow> dstring res" where
  "dnewcopy str =
     bindR (memcpy (malloc (unat (align (dlen str)))) 0 (ddata str) 0 (unat (dlen str + 1)))
       (\<lambda>b. Inr \<lparr>dlen = dlen str, dsize = align (dlen str), ddata = b\<rparr>)"

definition dclear :: "dstring \<Rightarrow> dstring res" where
  "dclear str = bindR (poke (ddata str) 0 nul) (\<lambda>b. put_z (str\<lparr>ddata := b, dlen := 0\<rparr>))"

definition dfromc :: "int \<Rightarrow> dstring res" where
  "dfromc chr =
     bindR (poke (ddata dnew) 0 (to_char chr)) (\<lambda>b. put_z (dnew\<lparr>ddata := b, dlen := 1\<rparr>))"

text \<open>
  \<open>dfrommem(mem + j, size)\<close>.  The length is computed at the width of \<open>size_t\<close>
  and stored in 32 bits.
\<close>

definition dfrommem :: "block \<Rightarrow> nat \<Rightarrow> u64 \<Rightarrow> dstring res" where
  "dfrommem mem j sz =
     (let s = \<lparr>dlen = ucast sz, dsize = ucast (align sz),
               ddata = malloc (unat (ucast (align sz) :: u32))\<rparr> in
      bindR (memcpy (ddata s) 0 mem j (unat sz)) (\<lambda>b. put_z (s\<lparr>ddata := b\<rparr>)))"

definition dfromcs :: "string \<Rightarrow> dstring res" where
  "dfromcs str =
     (let n = strlen str;
          s = \<lparr>dlen = ucast n, dsize = ucast (align n),
               ddata = malloc (unat (ucast (align n) :: u32))\<rparr> in
      bindR (memcpy (ddata s) 0 (cmem str) 0 (unat n)) (\<lambda>b. put_z (s\<lparr>ddata := b\<rparr>)))"

section \<open>Copying\<close>

definition dcpy :: "dstring \<Rightarrow> dstring \<Rightarrow> dstring res" where
  "dcpy dst src =
     (let s = set_size dst (dlen src + 1) in
      bindR (memcpy (ddata s) 0 (ddata src) 0 (unat (dlen src + 1)))
        (\<lambda>b. Inr (s\<lparr>ddata := b, dlen := dlen src\<rparr>)))"

definition dcpyc :: "dstring \<Rightarrow> int \<Rightarrow> dstring res" where
  "dcpyc dst src =
     (let s = set_size dst 1 in
      bindR (poke (ddata s) 0 (to_char src)) (\<lambda>b. bindR (poke b 1 nul)
        (\<lambda>b. Inr (s\<lparr>ddata := b, dlen := 1\<rparr>))))"

definition dcpycs :: "dstring \<Rightarrow> string \<Rightarrow> dstring res" where
  "dcpycs dst src =
     (let n = strlen src; s = set_size dst (ucast (n + 1)) in
      bindR (memcpy (ddata s) 0 (cmem src) 0 (unat (n + 1)))
        (\<lambda>b. Inr (s\<lparr>ddata := b, dlen := ucast n\<rparr>)))"

definition dcpymem :: "dstring \<Rightarrow> block \<Rightarrow> nat \<Rightarrow> u64 \<Rightarrow> dstring res" where
  "dcpymem dst mem j sz =
     (let s = set_size dst (ucast (sz + 1)) in
      bindR (memcpy (ddata s) 0 mem j (unat sz))
        (\<lambda>b. put_z (s\<lparr>ddata := b, dlen := ucast sz\<rparr>)))"

definition dncpy :: "dstring \<Rightarrow> dstring \<Rightarrow> u32 \<Rightarrow> dstring res" where
  "dncpy dst src n0 =
     (let n = (if dlen src < n0 then dlen src else n0); s = set_size dst (n + 1) in
      bindR (memcpy (ddata s) 0 (ddata src) 0 (unat n))
        (\<lambda>b. put_z (s\<lparr>ddata := b, dlen := n\<rparr>)))"

definition dncpycs :: "dstring \<Rightarrow> string \<Rightarrow> u32 \<Rightarrow> dstring res" where
  "dncpycs dst src n0 =
     (let l = strlen src; n = (if l < ucast n0 then ucast l else n0);
          s = set_size dst (n + 1) in
      bindR (memcpy (ddata s) 0 (cmem src) 0 (unat n))
        (\<lambda>b. put_z (s\<lparr>ddata := b, dlen := n\<rparr>)))"

section \<open>Appending\<close>

definition dcat :: "dstring \<Rightarrow> dstring \<Rightarrow> dstring res" where
  "dcat dst src =
     bindR (add_size dst (dlen src + 1)) (\<lambda>s.
       bindR (memcpy (ddata s) (unat (dlen s)) (ddata src) 0 (unat (dlen src + 1)))
         (\<lambda>b. Inr (s\<lparr>ddata := b, dlen := dlen s + dlen src\<rparr>)))"

definition dcatc :: "dstring \<Rightarrow> int \<Rightarrow> dstring res" where
  "dcatc dst src =
     bindR (add_size dst 1) (\<lambda>s.
       bindR (poke (ddata s) (unat (dlen s)) (to_char src))
         (\<lambda>b. put_z (s\<lparr>ddata := b, dlen := dlen s + 1\<rparr>)))"

definition dcatcs :: "dstring \<Rightarrow> string \<Rightarrow> dstring res" where
  "dcatcs dst src =
     (let n = strlen src in
      bindR (add_size dst (ucast (n + 1))) (\<lambda>s.
        bindR (memcpy (ddata s) (unat (dlen s)) (cmem src) 0 (unat (n + 1)))
          (\<lambda>b. Inr (s\<lparr>ddata := b, dlen := dlen s + ucast n\<rparr>))))"

definition dcatmem :: "dstring \<Rightarrow> block \<Rightarrow> nat \<Rightarrow> u64 \<Rightarrow> dstring res" where
  "dcatmem dst src j sz =
     bindR (add_size dst (ucast sz)) (\<lambda>s.
       bindR (memcpy (ddata s) (unat (dlen s)) src j (unat sz))
         (\<lambda>b. put_z (s\<lparr>ddata := b, dlen := dlen s + ucast sz\<rparr>)))"

definition dncat :: "dstring \<Rightarrow> dstring \<Rightarrow> u32 \<Rightarrow> dstring res" where
  "dncat dst src n0 =
     (let n = (if dlen src < n0 then dlen src else n0) in
      bindR (memcpy (ddata dst) (unat (dlen dst)) (ddata src) 0 (unat n))
        (\<lambda>b. put_z (dst\<lparr>ddata := b, dlen := dlen dst + n\<rparr>)))"

definition dncatcs :: "dstring \<Rightarrow> string \<Rightarrow> u32 \<Rightarrow> dstring res" where
  "dncatcs dst src n0 =
     (let l = strlen src; n = (if l < ucast n0 then ucast l else n0) in
      bindR (memcpy (ddata dst) (unat (dlen dst)) (cmem src) 0 (unat n))
        (\<lambda>b. put_z (dst\<lparr>ddata := b, dlen := dlen dst + n\<rparr>)))"

section \<open>Comparison\<close>

definition dcmp :: "dstring \<Rightarrow> dstring \<Rightarrow> int res" where
  "dcmp a b =
     (if dlen a < dlen b then Inr (- 1)
      else if dlen b < dlen a then Inr 1
      else memcmp (ddata a) 0 (ddata b) 0 (unat (dlen a)))"

definition dcmpc :: "dstring \<Rightarrow> int \<Rightarrow> int res" where
  "dcmpc a b =
     (if dlen a = 0 then Inr (- 1)
      else if 1 < dlen a then Inr 1
      else bindR (peek (ddata a) 0) (\<lambda>c.
        if schar c < b then Inr (- 1) else if b < schar c then Inr 1 else Inr 0))"

definition dcmpcs :: "dstring \<Rightarrow> string \<Rightarrow> int res" where
  "dcmpcs a b =
     (let n = strlen b in
      if ucast (dlen a) < n then Inr (- 1)
      else if n < ucast (dlen a) then Inr 1
      else memcmp (ddata a) 0 (cmem b) 0 (unat n))"

definition dcmpmem :: "dstring \<Rightarrow> block \<Rightarrow> u64 \<Rightarrow> int res" where
  "dcmpmem a b sz =
     (if ucast (dlen a) < sz then Inr (- 1)
      else if sz < ucast (dlen a) then Inr 1
      else memcmp (ddata a) 0 b 0 (unat (dlen a)))"

section \<open>Substrings, prefixes and suffixes\<close>

definition dsub :: "dstring \<Rightarrow> u32 \<Rightarrow> u32 \<Rightarrow> dstring res" where
  "dsub a start n =
     (if dlen a < start then Inr dnew
      else dfrommem (ddata a) (unat start)
        (ucast (if dlen a < start + n then dlen a - start else n)))"

definition dstartswith :: "dstring \<Rightarrow> dstring \<Rightarrow> bool res" where
  "dstartswith a b =
     (if dlen b = 0 then Inr True
      else if dlen a < dlen b then Inr False
      else bindR (memcmp (ddata a) 0 (ddata b) 0 (unat (dlen b))) (\<lambda>r. Inr (r = 0)))"

definition dstartswithc :: "dstring \<Rightarrow> int \<Rightarrow> bool res" where
  "dstartswithc a b =
     (if dlen a = 0 then Inr False
      else bindR (peek (ddata a) 0) (\<lambda>c. Inr (schar c = b)))"

definition dstartswithcs :: "dstring \<Rightarrow> string \<Rightarrow> bool res" where
  "dstartswithcs a b =
     (let n = strlen b in
      if n = 0 then Inr True
      else if ucast (dlen a) < n then Inr False
      else bindR (memcmp (ddata a) 0 (cmem b) 0 (unat n)) (\<lambda>r. Inr (r = 0)))"

definition dendswith :: "dstring \<Rightarrow> dstring \<Rightarrow> bool res" where
  "dendswith a b =
     (if dlen b = 0 then Inr True
      else if dlen a < dlen b then Inr False
      else bindR (memcmp (ddata a) (unat (dlen a) - unat (dlen b)) (ddata b) 0 (unat (dlen b)))
        (\<lambda>r. Inr (r = 0)))"

definition dendswithc :: "dstring \<Rightarrow> int \<Rightarrow> bool res" where
  "dendswithc a b =
     (if dlen a = 0 then Inr False
      else bindR (peek (ddata a) (unat (dlen a - 1))) (\<lambda>c. Inr (schar c = b)))"

text \<open>Here the length of \<open>b\<close> is an \<open>int\<close>, compared with the unsigned
  length of \<open>a\<close>.\<close>

definition dendswithcs :: "dstring \<Rightarrow> string \<Rightarrow> bool res" where
  "dendswithcs a b =
     (let n = ucast (strlen b) :: u32 in
      if n = 0 then Inr True
      else if dlen a < n then Inr False
      else bindR (memcmp (ddata a) (unat (dlen a) - unat n) (cmem b) 0 (unat n))
        (\<lambda>r. Inr (r = 0)))"

section \<open>Searching\<close>

text \<open>
  The loops run \<open>i\<close> from \<open>start\<close> to \<open>last\<close> (here \<open>lst\<close>), both below \<open>2 ^ 32\<close>; the counter
  is a natural number here.  It could wrap only if \<open>last\<close> were the greatest
  \<open>unsigned int\<close>, where the needle is empty and the first comparison succeeds.
  The position is converted to \<open>int\<close> by the return.
\<close>

function find_mem :: "block \<Rightarrow> block \<Rightarrow> nat \<Rightarrow> nat \<Rightarrow> nat \<Rightarrow> int res" where
  "find_mem a b n i lst =
     (if i \<le> lst
      then bindR (memcmp a i b 0 n) (\<lambda>r.
             if r = 0 then Inr (sint (word_of_nat i :: u32)) else find_mem a b n (Suc i) lst)
      else Inr (- 1))"
  by pat_completeness auto
termination
  by (relation "measure (\<lambda>(a, b, n, i, lst). Suc lst - i)") auto

function find_chr :: "block \<Rightarrow> int \<Rightarrow> nat \<Rightarrow> nat \<Rightarrow> int res" where
  "find_chr a b i lst =
     (if i \<le> lst
      then bindR (peek a i) (\<lambda>c.
             if schar c = b then Inr (sint (word_of_nat i :: u32)) else find_chr a b (Suc i) lst)
      else Inr (- 1))"
  by pat_completeness auto
termination
  by (relation "measure (\<lambda>(a, b, i, lst). Suc lst - i)") auto

declare find_mem.simps [simp del] find_chr.simps [simp del]

definition dpos :: "dstring \<Rightarrow> dstring \<Rightarrow> u32 \<Rightarrow> int res" where
  "dpos a b start =
     (if dlen a < dlen b then Inr (- 1)
      else let lst = dlen a - dlen b in
        if lst < start then Inr (- 1)
        else find_mem (ddata a) (ddata b) (unat (dlen b)) (unat start) (unat lst))"

definition dposc :: "dstring \<Rightarrow> int \<Rightarrow> u32 \<Rightarrow> int res" where
  "dposc a b start =
     (if dlen a = 0 then Inr (- 1)
      else let lst = dlen a - 1 in
        if lst < start then Inr (- 1)
        else find_chr (ddata a) b (unat start) (unat lst))"

definition dposcs :: "dstring \<Rightarrow> string \<Rightarrow> u32 \<Rightarrow> int res" where
  "dposcs a b start =
     (let n = strlen b in
      if ucast (dlen a) < n then Inr (- 1)
      else let lst = (ucast (ucast (dlen a) - n) :: u32) in
        if lst < start then Inr (- 1)
        else find_mem (ddata a) (cmem b) (unat n) (unat start) (unat lst))"

end
