(* ===== verification/DstrSpec.thy ===== *)
theory DstrSpec
  imports Dstr
begin

text \<open>
  What the functions of \<open>src/common/dstr.c\<close> compute, stated over the byte
  sequence a dynamic string holds.  \<open>drep s xs\<close> says that \<open>s\<close> is well formed and
  holds \<open>xs\<close>; \<open>dterm s\<close> that the byte after them is the terminating zero, which
  \<open>dnew\<close> alone does not write.  Lengths are bounded by \<open>dmax\<close>, below which
  \<open>align\<close> does not wrap.
\<close>

section \<open>Abstraction\<close>

definition dstr :: "dstring \<Rightarrow> string" where
  "dstr s = map the (take (unat (dlen s)) (ddata s))"

definition drep :: "dstring \<Rightarrow> string \<Rightarrow> bool" where
  "drep s xs \<longleftrightarrow>
     length (ddata s) = unat (dsize s) \<and> unat (dlen s) = length xs \<and>
     length xs < unat (dsize s) \<and> take (length xs) (ddata s) = map Some xs"

definition dterm :: "dstring \<Rightarrow> bool" where
  "dterm s \<longleftrightarrow> ddata s ! unat (dlen s) = Some nul"

abbreviation dmax :: nat where "dmax \<equiv> 2 ^ 32 - 64"

abbreviation dcap :: "dstring \<Rightarrow> nat" where "dcap s \<equiv> unat (dsize s)"

section \<open>Words\<close>

named_theorems unats \<open>reading word arithmetic as arithmetic on naturals\<close>

lemma unat_add_small [unats]:
  "unat a + unat b < 2 ^ LENGTH('a) \<Longrightarrow> unat (a + b :: 'a::len word) = unat a + unat b"
  by (rule unat_add_lem [THEN iffD1])

lemma unat_Suc_small [unats]:
  "unat a + 1 < 2 ^ LENGTH('a) \<Longrightarrow> unat (a + 1 :: 'a::len word) = unat a + 1"
  by (subst unat_add_small) auto

lemma unat_ucast_small [unats]:
  "unat (a :: 'a::len word) < 2 ^ LENGTH('b) \<Longrightarrow> unat (ucast a :: 'b::len word) = unat a"
  by (simp add: unsigned_ucast_eq take_bit_nat_eq_self)

lemma u32_less: "unat (a :: u32) < 2 ^ 32"
  using unsigned_less [of a, where ?'a = nat] by simp

lemma unat_ucast_up [unats]: "unat (ucast (a :: u32) :: u64) = unat a"
  by (rule unat_ucast_small) (use u32_less [of a] in simp)

lemma unat_align_mod:
  "unat (align l :: 'a::len word) = ((unat l div 64 + 1) * 64) mod 2 ^ LENGTH('a)"
proof -
  have "unat (drop_bit 6 l) = unat l div 64"
    using unat_drop_bit_eq [of 6 l] by (simp add: drop_bit_eq_div [where 'a = nat])
  then have "unat (drop_bit 6 l + 1) = (unat l div 64 + 1) mod 2 ^ LENGTH('a)"
    by (simp add: unat_word_ariths)
  moreover have "unat (push_bit 6 w) = (unat w * 64) mod 2 ^ LENGTH('a)" for w :: "'a word"
    by (simp add: push_bit_eq_mult unat_word_ariths unsigned_numeral take_bit_eq_mod mod_mult_right_eq)
  ultimately show ?thesis
    by (simp add: align_def mod_mult_left_eq del: push_bit_eq_mult)
qed

lemma unat_align:
  "unat (l :: u32) < dmax \<Longrightarrow> unat (align l) = (unat l div 64 + 1) * 64"
  by (simp add: unat_align_mod)

lemma unat_align64:
  "unat (l :: u64) < dmax \<Longrightarrow> unat (ucast (align l) :: u32) = (unat l div 64 + 1) * 64"
  by (subst unat_ucast_small) (simp_all add: unat_align_mod)

lemma align_gt: "unat (l :: u32) < dmax \<Longrightarrow> unat l < unat (align l)"
  by (simp add: unat_align)

lemma align_gt64: "unat (l :: u64) < dmax \<Longrightarrow> unat l < unat (ucast (align l) :: u32)"
  by (simp add: unat_align64)

lemma align_ge64: "unat (l :: u32) < dmax \<Longrightarrow> 64 \<le> unat (align l)"
  by (simp add: unat_align)

lemma align_ge64': "unat (l :: u64) < dmax \<Longrightarrow> 64 \<le> unat (ucast (align l) :: u32)"
  by (simp add: unat_align64)

section \<open>Basic facts\<close>

lemma drep_dstr: "drep s xs \<Longrightarrow> dstr s = xs"
  by (simp add: drep_def dstr_def comp_def)

lemma drep_unique: "drep s xs \<Longrightarrow> drep s ys \<Longrightarrow> xs = ys"
  using drep_dstr by blast

lemma drep_less: "drep s xs \<Longrightarrow> length xs < 2 ^ 32"
  using u32_less [of "dsize s"] by (auto simp: drep_def)

lemma drep_len: "drep s xs \<Longrightarrow> unat (dlen s) = length xs"
  by (simp add: drep_def)

lemma drep_take: "drep s xs \<Longrightarrow> take (length xs) (ddata s) = map Some xs"
  by (simp add: drep_def)

lemma drep_slice:
  assumes "drep s xs" and "j + n \<le> length xs"
  shows "take n (drop j (ddata s)) = map Some (take n (drop j xs))"
proof -
  have "take n (drop j (ddata s)) = take n (drop j (take (length xs) (ddata s)))"
    using assms(2) by (simp add: drop_take)
  then show ?thesis using assms(1) by (simp add: drep_take take_map drop_map)
qed

lemma drep_nth: "drep s xs \<Longrightarrow> i < length xs \<Longrightarrow> ddata s ! i = Some (xs ! i)"
  by (metis drep_take length_map nth_map nth_take)

lemma peek_drep [simp]: "drep s xs \<Longrightarrow> i < length xs \<Longrightarrow> peek (ddata s) i = Inr (xs ! i)"
  using drep_nth [of s xs i] by (auto simp: peek_def drep_def)

lemma peeks_drep [simp]:
  "drep s xs \<Longrightarrow> j + n \<le> length xs \<Longrightarrow> peeks (ddata s) j n = Inr (take n (drop j xs))"
  by (rule peeks_eq) (auto simp: drep_slice, simp add: drep_def)

lemma peeks_cmem [simp]:
  "n \<le> length (cstr s) \<Longrightarrow> peeks (cmem s) 0 n = Inr (take n (cstr s))"
proof (rule peeks_eq)
  assume n: "n \<le> length (cstr s)"
  then show "0 + n \<le> length (cmem s)" using length_cstr_le [of s] by simp
  have "take n (drop 0 (cmem s)) = take n (take (length (cstr s)) (cmem s))"
    using n by (simp add: min_def del: take_cstr_cmem')
  then show "take n (drop 0 (cmem s)) = map Some (take n (cstr s))" by (simp add: take_map)
qed

text \<open>Writing the bytes \<open>ys\<close> after the contents keeps the string well formed.\<close>

lemma drep_append:
  assumes "drep s xs" and "length xs + length ys < dcap s"
    and b: "length b = dcap s" "take (length xs) b = map Some xs"
      "take (length ys) (drop (length xs) b) = map Some ys"
    and "unat n = length xs + length ys"
  shows "drep (s\<lparr>ddata := b, dlen := n\<rparr>) (xs @ ys)"
proof -
  have "take (length xs + length ys) b = map Some (xs @ ys)"
    using b(2,3) by (simp add: take_add)
  with assms show ?thesis by (simp add: drep_def)
qed

text \<open>The result shared by most functions: well formed, terminated, holding \<open>xs\<close>.\<close>

definition dholds :: "string \<Rightarrow> dstring \<Rightarrow> bool" where
  "dholds xs s \<longleftrightarrow> drep s xs \<and> dterm s"

lemma put_z_gives:
  "drep s xs \<Longrightarrow> gives (put_z s) (\<lambda>s'. dholds xs s' \<and> dsize s' = dsize s)"
  by (auto simp: put_z_def drep_def dterm_def dholds_def poke_simp)

lemma put_z_fault: "length (ddata s) \<le> unat (dlen s) \<Longrightarrow> put_z s = Inl OutOfBounds"
  by (simp add: put_z_def poke_def)

section \<open>Allocation\<close>

lemma set_size_spec:
  assumes "length (ddata s) = dcap s" and "unat sz < dmax"
  shows "length (ddata (set_size s sz)) = dcap (set_size s sz)"
    and "unat sz < dcap (set_size s sz)" and "64 \<le> dcap (set_size s sz)"
proof -
  have "align sz \<le> dsize s \<Longrightarrow> unat (align sz) \<le> dcap s" by (simp add: word_le_nat_alt)
  with assms align_gt [of sz] align_ge64 [of sz]
  show "length (ddata (set_size s sz)) = dcap (set_size s sz)"
    "unat sz < dcap (set_size s sz)" "64 \<le> dcap (set_size s sz)"
    by (auto simp: set_size_def Let_def)
qed

lemma add_size_spec:
  assumes d: "drep s xs" and small: "length xs + unat sz < dmax"
  shows "gives (add_size s sz) (\<lambda>s'. drep s' xs \<and> dcap s \<le> dcap s' \<and>
     (if length xs + unat sz \<le> dcap s then s' = s else length xs + unat sz < dcap s'))"
proof -
  have sum: "unat (dlen s + sz) = length xs + unat sz"
    using d small by (subst unat_add_small) (auto simp: drep_def)
  show ?thesis
  proof (cases "dlen s + sz \<le> dsize s")
    case True
    with sum d show ?thesis by (simp add: add_size_def word_le_nat_alt)
  next
    case False
    define ns where "ns = align (dlen s + sz)"
    from False sum have grow: "dcap s < length xs + unat sz" by (simp add: word_le_nat_alt)
    from sum small have ns: "length xs + unat sz < unat ns" using align_gt [of "dlen s + sz"]
      by (simp add: ns_def)
    have l1: "unat (dlen s + 1) = length xs + 1"
      using d small drep_less [OF d] u32_less [of "dsize s"]
      by (subst unat_Suc_small) (auto simp: drep_def)
    have fits: "length xs + 1 \<le> length (ddata s)" using d by (simp add: drep_def)
    define tmp where
      "tmp = take (length xs + 1) (ddata s) @ drop (length xs + 1) (malloc (unat ns))"
    have cp: "memcpy (malloc (unat ns)) 0 (ddata s) 0 (unat (dlen s + 1)) = Inr tmp"
      using l1 fits ns grow d by (simp add: memcpy_simp tmp_def drep_def)
    have "drep (s\<lparr>ddata := tmp, dsize := ns\<rparr>) xs"
      using d ns fits grow unfolding drep_def tmp_def by simp
    moreover have "add_size s sz = Inr (s\<lparr>ddata := tmp, dsize := ns\<rparr>)"
      using False cp by (simp add: add_size_def Let_def ns_def)
    ultimately show ?thesis using ns grow by auto
  qed
qed

section \<open>Construction\<close>

lemma dnew_drep [simp]: "drep dnew []"
  by (simp add: dnew_def drep_def)

lemma dcap_dnew [simp]: "dcap dnew = 32"
  by (simp add: dnew_def)

lemma dnew_not_terminated: "\<not> dterm dnew"
  by (simp add: dnew_def dterm_def malloc_def)

text \<open>Filling a fresh block of a given size and closing it with a zero.\<close>

lemma fresh_put_z:
  assumes "unat l = length xs" "length xs < unat sz"
    and "take (length xs) src = map Some xs" "length xs \<le> length src"
  shows "gives (bindR (memcpy (malloc (unat sz)) 0 src 0 (length xs))
           (\<lambda>b. put_z \<lparr>dlen = l, dsize = sz, ddata = b\<rparr>))
         (\<lambda>s. dholds xs s \<and> dsize s = sz)"
proof -
  let ?b = "map Some xs @ drop (length xs) (malloc (unat sz))"
  have m: "memcpy (malloc (unat sz)) 0 src 0 (length xs) = Inr ?b"
    using assms by (simp add: memcpy_simp)
  have "drep \<lparr>dlen = l, dsize = sz, ddata = ?b\<rparr> xs"
    using assms by (simp add: drep_def)
  from put_z_gives [OF this] show ?thesis by (simp add: m)
qed

lemma dnewcopy_gives:
  assumes d: "drep s xs" and small: "length xs < dmax"
  shows "gives (dnewcopy s) (\<lambda>s'. drep s' xs \<and> (dterm s \<longrightarrow> dterm s') \<and>
    dcap s' = (length xs div 64 + 1) * 64)"
proof -
  have l: "unat (dlen s) = length xs" using d by (rule drep_len)
  with small have l1: "unat (dlen s + 1) = length xs + 1" by (subst unat_Suc_small) auto
  have al: "unat (align (dlen s)) = (length xs div 64 + 1) * 64"
    using l small by (simp add: unat_align)
  define sz where "sz = unat (align (dlen s))"
  have sz: "length xs + 1 \<le> sz" using al by (simp add: sz_def) 
  let ?b = "take (length xs + 1) (ddata s) @ drop (length xs + 1) (malloc sz)"
  have "length xs + 1 \<le> length (ddata s)" using d by (simp add: drep_def)
  then have "memcpy (malloc sz) 0 (ddata s) 0 (unat (dlen s + 1)) = Inr ?b"
    using l1 sz by (simp add: memcpy_simp)
  then have eq: "dnewcopy s = Inr \<lparr>dlen = dlen s, dsize = align (dlen s), ddata = ?b\<rparr>"
    by (simp add: dnewcopy_def sz_def)
  have "drep \<lparr>dlen = dlen s, dsize = align (dlen s), ddata = ?b\<rparr> xs"
    using d sz by (auto simp: drep_def sz_def)
  moreover have "dterm s \<Longrightarrow> dterm \<lparr>dlen = dlen s, dsize = align (dlen s), ddata = ?b\<rparr>"
    using d l by (auto simp: dterm_def drep_def nth_append)
  ultimately show ?thesis using al eq by simp
qed

lemma dclear_gives:
  "drep s xs \<Longrightarrow> gives (dclear s) (\<lambda>s'. dholds [] s' \<and> dsize s' = dsize s)"
  by (auto simp: dclear_def drep_def dholds_def dterm_def put_z_def poke_simp)

lemma take_1_update: "xs \<noteq> [] \<Longrightarrow> take (Suc 0) (xs[0 := a]) = [a]"
  by (cases xs) auto

lemma dfromc_gives: "gives (dfromc c) (\<lambda>s. dholds [to_char c] s)"
  by (simp add: dfromc_def dnew_def drep_def dholds_def dterm_def put_z_def poke_simp malloc_def
      take_1_update)

lemma dfrommem_gives:
  assumes small: "length xs < dmax" and n: "unat n = length xs"
    and src: "take (length xs) (drop j mem) = map Some xs" "j + length xs \<le> length mem"
  shows "gives (dfrommem mem j n) (\<lambda>s. dholds xs s \<and> dcap s = (length xs div 64 + 1) * 64)"
proof -
  define sz where "sz = (ucast (align n) :: u32)"
  have sz: "unat sz = (length xs div 64 + 1) * 64"
    using unat_align64 [of n] small n by (simp add: sz_def)
  have len: "unat (ucast n :: u32) = length xs" using n small by (simp add: unat_ucast_small)
  have m: "memcpy b 0 mem j (length xs) = memcpy b 0 (drop j mem) 0 (length xs)" for b
    using src(2) by (auto simp: memcpy_def)
  have "length xs < unat sz" using sz by simp
  moreover have "length xs \<le> length (drop j mem)" using src(2) by simp
  ultimately have "gives (bindR (memcpy (malloc (unat sz)) 0 (drop j mem) 0 (length xs))
      (\<lambda>b. put_z \<lparr>dlen = ucast n, dsize = sz, ddata = b\<rparr>)) (\<lambda>s. dholds xs s \<and> dsize s = sz)"
    using fresh_put_z [OF len _ src(1)] by blast
  then have "gives (dfrommem mem j n) (\<lambda>s. dholds xs s \<and> dsize s = sz)"
    by (simp add: dfrommem_def Let_def sz_def n m)
  then show ?thesis by (rule gives_mono) (simp add: sz)
qed

lemma dfromcs_gives:
  assumes "length str < dmax"
  shows "gives (dfromcs str)
    (\<lambda>s. dholds (cstr str) s \<and> dcap s = (length (cstr str) div 64 + 1) * 64)"
proof -
  have "dfromcs str = dfrommem (cmem str) 0 (strlen str)"
    by (simp add: dfromcs_def dfrommem_def Let_def)
  moreover have "unat (strlen str) = length (cstr str)"
    using assms by (simp add: unat_strlen)
  ultimately show ?thesis
    using dfrommem_gives [of "cstr str" "strlen str" 0 "cmem str"] assms length_cstr_le [of str]
    by simp
qed

section \<open>Copying\<close>

text \<open>
  Overwriting the buffer with \<open>n\<close> bytes from a source, after \<open>set_size\<close> has made
  room: with a closing zero written afterwards, or copied as the last byte.
\<close>

lemma overwrite_put_z:
  assumes "length (ddata s) = dcap s" "length xs < dcap s" "unat l = length xs"
    and "take (length xs) (drop j src) = map Some xs" "j + length xs \<le> length src"
  shows "gives (bindR (memcpy (ddata s) 0 src j (length xs)) (\<lambda>b. put_z (s\<lparr>ddata := b, dlen := l\<rparr>)))
     (\<lambda>s'. dholds xs s' \<and> dsize s' = dsize s)"
proof -
  let ?b = "map Some xs @ drop (length xs) (ddata s)"
  have m: "memcpy (ddata s) 0 src j (length xs) = Inr ?b"
    using assms by (simp add: memcpy_simp)
  have "drep (s\<lparr>ddata := ?b, dlen := l\<rparr>) xs" using assms by (simp add: drep_def)
  from put_z_gives [OF this] show ?thesis by (simp add: m)
qed

lemma overwrite_with_z:
  assumes "length (ddata s) = dcap s" "length xs < dcap s" "unat l = length xs"
    and "take (length xs) src = map Some xs" "length xs < length src"
    and "src ! length xs = Some nul \<or> \<not> t"
  shows "gives (bindR (memcpy (ddata s) 0 src 0 (length xs + 1)) (\<lambda>b. Inr (s\<lparr>ddata := b, dlen := l\<rparr>)))
     (\<lambda>s'. drep s' xs \<and> (t \<longrightarrow> dterm s') \<and> dsize s' = dsize s)"
proof -
  let ?b = "map Some xs @ src ! length xs # drop (length xs + 1) (ddata s)"
  have "take (length xs + 1) src = map Some xs @ [src ! length xs]"
    using assms(4,5) by (simp add: take_Suc_conv_app_nth)
  then have m: "memcpy (ddata s) 0 src 0 (Suc (length xs)) = Inr ?b"
    using assms by (simp add: memcpy_simp)
  have "drep (s\<lparr>ddata := ?b, dlen := l\<rparr>) xs" using assms by (simp add: drep_def)
  moreover have "t \<Longrightarrow> dterm (s\<lparr>ddata := ?b, dlen := l\<rparr>)"
    using assms by (auto simp: dterm_def nth_append)
  ultimately show ?thesis by (simp add: m)
qed

lemma dcpy_gives:
  assumes d: "length (ddata dst) = dcap dst" and s: "drep src xs" and small: "length xs + 1 < dmax"
  shows "gives (dcpy dst src) (\<lambda>s. drep s xs \<and> (dterm src \<longrightarrow> dterm s))"
proof -
  have l: "unat (dlen src) = length xs" using s by (rule drep_len)
  with small have l1: "unat (dlen src + 1) = length xs + 1" by (subst unat_Suc_small) auto
  note sz = set_size_spec [OF d, of "dlen src + 1"]
  have "gives (bindR (memcpy (ddata (set_size dst (dlen src + 1))) 0 (ddata src) 0 (length xs + 1))
      (\<lambda>b. Inr (set_size dst (dlen src + 1)\<lparr>ddata := b, dlen := dlen src\<rparr>)))
    (\<lambda>s'. drep s' xs \<and> (dterm src \<longrightarrow> dterm s') \<and> dsize s' = dsize (set_size dst (dlen src + 1)))"
    by (rule overwrite_with_z) (use sz s l l1 small in \<open>auto simp: drep_def dterm_def\<close>)
  then show ?thesis by (auto simp: dcpy_def Let_def l1 gives_def)
qed

lemma dcpyc_gives:
  assumes d: "length (ddata dst) = dcap dst"
  shows "gives (dcpyc dst c) (\<lambda>s. dholds [to_char c] s)"
proof -
  note sz = set_size_spec [OF d, of 1]
  from sz have "ddata (set_size dst 1) \<noteq> []" by auto
  with sz show ?thesis
    by (auto simp: dcpyc_def Let_def poke_simp dholds_def drep_def dterm_def take_1_update
        list_update_swap)
qed

lemma dcpycs_gives:
  assumes d: "length (ddata dst) = dcap dst" and small: "length str + 1 < dmax"
  shows "gives (dcpycs dst str) (\<lambda>s. dholds (cstr str) s)"
proof -
  define n where "n = strlen str"
  have n: "unat n = length (cstr str)" using small by (simp add: n_def unat_strlen)
  have le: "length (cstr str) \<le> length str" by (rule length_cstr_le)
  have n1: "unat (n + 1) = length (cstr str) + 1" using n small le by (subst unat_Suc_small) auto
  have u: "unat (ucast n :: u32) = length (cstr str)" using n small le by (subst unat_ucast_small) auto
  have u1: "unat (ucast (n + 1) :: u32) = length (cstr str) + 1"
    using n1 small le by (subst unat_ucast_small) auto
  have z: "cmem str ! length (cstr str) = Some nul"
    by (induction str) (auto simp: cstr_def cmem_def)
  define s where "s = set_size dst (ucast (n + 1))"
  have sz: "length (ddata s) = dcap s" "length (cstr str) + 1 < dcap s"
    using set_size_spec [OF d, of "ucast (n + 1)"] u1 small le by (auto simp: s_def)
  have "gives (bindR (memcpy (ddata s) 0 (cmem str) 0 (length (cstr str) + 1))
      (\<lambda>b. Inr (s\<lparr>ddata := b, dlen := ucast n\<rparr>)))
    (\<lambda>s'. drep s' (cstr str) \<and> (True \<longrightarrow> dterm s') \<and> dsize s' = dsize s)"
    by (rule overwrite_with_z) (use sz u z le in simp_all)
  then show ?thesis
    by (simp add: dcpycs_def Let_def n_def [symmetric] s_def [symmetric] n1 dholds_def gives_def)
      blast
qed

lemma dcpymem_gives:
  assumes d: "length (ddata dst) = dcap dst" and small: "length xs + 1 < dmax"
    and n: "unat n = length xs"
    and src: "take (length xs) (drop j mem) = map Some xs" "j + length xs \<le> length mem"
  shows "gives (dcpymem dst mem j n) (\<lambda>s. dholds xs s)"
proof -
  have n1: "unat (n + 1) = length xs + 1" using n small by (subst unat_Suc_small) auto
  have u: "unat (ucast n :: u32) = length xs" using n small by (subst unat_ucast_small) auto
  have u1: "unat (ucast (n + 1) :: u32) = length xs + 1"
    using n1 small by (subst unat_ucast_small) auto
  define s where "s = set_size dst (ucast (n + 1))"
  have sz: "length (ddata s) = dcap s" "length xs + 1 < dcap s"
    using set_size_spec [OF d, of "ucast (n + 1)"] u1 small by (auto simp: s_def)
  have "gives (bindR (memcpy (ddata s) 0 mem j (length xs))
      (\<lambda>b. put_z (s\<lparr>ddata := b, dlen := ucast n\<rparr>))) (\<lambda>s'. dholds xs s' \<and> dsize s' = dsize s)"
    by (rule overwrite_put_z) (use sz u src in simp_all)
  then show ?thesis
    by (auto simp: dcpymem_def Let_def s_def [symmetric] n gives_def)
qed

lemma unat_clip:
  "unat (if l < n then l else n :: u32) = min (unat l) (unat n)"
  by (simp add: word_less_nat_alt)

lemma unat_clip64:
  "unat (l :: u64) < dmax \<Longrightarrow>
   unat (if l < ucast (n :: u32) then ucast l else n :: u32) = min (unat l) (unat n)"
  by (simp add: word_less_nat_alt unat_ucast_up unat_ucast_small)

lemma dncpy_gives:
  assumes d: "length (ddata dst) = dcap dst" and s: "drep src xs" and small: "length xs + 1 < dmax"
  shows "gives (dncpy dst src n) (\<lambda>s. dholds (take (unat n) xs) s)"
proof -
  define m where "m = (if dlen src < n then dlen src else n)"
  have m: "unat m = min (length xs) (unat n)" using s by (simp only: m_def unat_clip drep_def)
  have mle: "unat m \<le> length xs" by (simp add: m)
  define ys where "ys = take (unat m) xs"
  have ys: "length ys = unat m" "take (unat n) xs = ys"
    using m by (auto simp: ys_def min_def)
  have m1: "unat (m + 1) = unat m + 1" using m small by (subst unat_Suc_small) auto
  define t where "t = set_size dst (m + 1)"
  have sz: "length (ddata t) = dcap t" "unat m + 1 < dcap t"
    using set_size_spec [OF d, of "m + 1"] m1 m small by (auto simp: t_def)
  have "gives (bindR (memcpy (ddata t) 0 (ddata src) 0 (length ys))
      (\<lambda>b. put_z (t\<lparr>ddata := b, dlen := m\<rparr>))) (\<lambda>s'. dholds ys s' \<and> dsize s' = dsize t)"
  proof (rule overwrite_put_z)
    show "take (length ys) (drop 0 (ddata src)) = map Some ys"
      using drep_slice [OF s, of 0 "unat m"] mle by (simp add: ys_def min_absorb2)
  qed (use sz ys s m in \<open>auto simp: drep_def\<close>)
  then show ?thesis
    by (auto simp: dncpy_def Let_def m_def [symmetric] t_def [symmetric] ys gives_def)
qed

lemma dncpycs_gives:
  assumes d: "length (ddata dst) = dcap dst" and small: "length str + 1 < dmax"
  shows "gives (dncpycs dst str n) (\<lambda>s. dholds (take (unat n) (cstr str)) s)"
proof -
  define m where "m = (if strlen str < ucast n then ucast (strlen str) else n)"
  have le: "length (cstr str) \<le> length str" by (rule length_cstr_le)
  have "unat (strlen str) = length (cstr str)" using small by (simp add: unat_strlen)
  then have m: "unat m = min (length (cstr str)) (unat n)"
    using le small by (simp only: m_def) (subst unat_clip64, auto)
  have mle: "unat m \<le> length (cstr str)" by (simp add: m)
  define ys where "ys = take (unat m) (cstr str)"
  have ys: "length ys = unat m" "take (unat n) (cstr str) = ys"
    using m by (auto simp: ys_def min_def)
  have m1: "unat (m + 1) = unat m + 1" using m small le by (subst unat_Suc_small) auto
  define t where "t = set_size dst (m + 1)"
  have sz: "length (ddata t) = dcap t" "unat m + 1 < dcap t"
    using set_size_spec [OF d, of "m + 1"] m1 m small le by (auto simp: t_def)
  have "gives (bindR (memcpy (ddata t) 0 (cmem str) 0 (length ys))
      (\<lambda>b. put_z (t\<lparr>ddata := b, dlen := m\<rparr>))) (\<lambda>s'. dholds ys s' \<and> dsize s' = dsize t)"
  proof (rule overwrite_put_z)
    have "take (unat m) (take (length (cstr str)) (cmem str)) = map Some (take (unat m) (cstr str))"
      by (simp add: take_map)
    then show "take (length ys) (drop 0 (cmem str)) = map Some ys"
      using mle by (simp add: ys_def min_absorb1 min_absorb2 del: take_cstr_cmem')
  qed (use sz ys m le in auto)
  then show ?thesis
    by (auto simp: dncpycs_def Let_def m_def [symmetric] t_def [symmetric] ys gives_def)
qed

section \<open>Appending\<close>

lemma take_append_data:
  assumes "drep s xs" and "i = length xs"
  shows "take i (ddata s) = map Some xs"
  using assms by (simp add: drep_take)

lemma append_put_z:
  assumes s: "drep s xs" and room: "length xs + length ys < dcap s"
    and l: "unat l = length xs + length ys"
    and src: "take (length ys) (drop j src) = map Some ys" "j + length ys \<le> length src"
  shows "gives (bindR (memcpy (ddata s) (unat (dlen s)) src j (length ys))
       (\<lambda>b. put_z (s\<lparr>ddata := b, dlen := l\<rparr>)))
     (\<lambda>s'. dholds (xs @ ys) s' \<and> dsize s' = dsize s)"
proof -
  let ?b = "map Some xs @ map Some ys @ drop (length xs + length ys) (ddata s)"
  have m: "memcpy (ddata s) (unat (dlen s)) src j (length ys) = Inr ?b"
    using s room src by (auto simp: memcpy_def drep_def)
  have "drep (s\<lparr>ddata := ?b, dlen := l\<rparr>) (xs @ ys)"
    using s room l by (simp add: drep_def)
  from put_z_gives [OF this] show ?thesis by (simp add: m)
qed

lemma append_with_z:
  assumes s: "drep s xs" and room: "length xs + length ys < dcap s"
    and l: "unat l = length xs + length ys"
    and src: "take (length ys) src = map Some ys" "length ys < length src"
    and z: "src ! length ys = Some nul \<or> \<not> t"
  shows "gives (bindR (memcpy (ddata s) (unat (dlen s)) src 0 (Suc (length ys)))
       (\<lambda>b. Inr (s\<lparr>ddata := b, dlen := l\<rparr>)))
     (\<lambda>s'. drep s' (xs @ ys) \<and> (t \<longrightarrow> dterm s') \<and> dsize s' = dsize s)"
proof -
  let ?b = "map Some xs @ map Some ys @ src ! length ys # drop (Suc (length xs + length ys)) (ddata s)"
  have "take (Suc (length ys)) src = map Some ys @ [src ! length ys]"
    using src by (simp add: take_Suc_conv_app_nth)
  then have m: "memcpy (ddata s) (unat (dlen s)) src 0 (Suc (length ys)) = Inr ?b"
    using s room src(2) by (simp add: memcpy_simp drep_def)
  have "drep (s\<lparr>ddata := ?b, dlen := l\<rparr>) (xs @ ys)"
    using s room l by (simp add: drep_def)
  moreover have "t \<Longrightarrow> dterm (s\<lparr>ddata := ?b, dlen := l\<rparr>)"
    using l z by (simp add: dterm_def nth_append)
  ultimately show ?thesis by (simp add: m)
qed

lemma dcat_gives:
  assumes d: "drep dst xs" and s: "drep src ys" and small: "length xs + length ys + 1 < dmax"
  shows "gives (dcat dst src)
    (\<lambda>s. drep s (xs @ ys) \<and> (dterm src \<longrightarrow> dterm s) \<and> dcap dst \<le> dcap s)"
proof -
  have l: "unat (dlen src) = length ys" using s by (rule drep_len)
  with small have l1: "unat (dlen src + 1) = Suc (length ys)" by (subst unat_Suc_small) auto
  have "length xs + unat (dlen src + 1) < dmax" using small l1 by simp
  note add_size_spec [OF d this]
  then show ?thesis unfolding dcat_def
  proof (rule gives_bind)
    fix s assume "drep s xs \<and> dcap dst \<le> dcap s \<and>
      (if length xs + unat (dlen src + 1) \<le> dcap dst then s = dst
       else length xs + unat (dlen src + 1) < dcap s)"
    then have s': "drep s xs" "dcap dst \<le> dcap s" "length xs + length ys < dcap s"
      using l1 by (auto split: if_splits)
    have "unat (dlen s + dlen src) = length xs + length ys"
      using drep_len [OF s'(1)] l small by (subst unat_add_small) auto
    from append_with_z [OF s'(1,3) this, of "ddata src" "dterm src"] s
    have "gives (bindR (memcpy (ddata s) (unat (dlen s)) (ddata src) 0 (Suc (length ys)))
        (\<lambda>b. Inr (s\<lparr>ddata := b, dlen := dlen s + dlen src\<rparr>)))
      (\<lambda>s'. drep s' (xs @ ys) \<and> (dterm src \<longrightarrow> dterm s') \<and> dsize s' = dsize s)"
      by (auto simp: drep_def dterm_def)
    then show "gives (bindR (memcpy (ddata s) (unat (dlen s)) (ddata src) 0 (unat (dlen src + 1)))
        (\<lambda>b. Inr (s\<lparr>ddata := b, dlen := dlen s + dlen src\<rparr>)))
      (\<lambda>s. drep s (xs @ ys) \<and> (dterm src \<longrightarrow> dterm s) \<and> dcap dst \<le> dcap s)"
      unfolding l1 by (rule gives_mono) (use s'(2) in simp)
  qed
qed

lemma dcatcs_gives:
  assumes d: "drep dst xs" and small: "length xs + length str + 1 < dmax"
  shows "gives (dcatcs dst str) (\<lambda>s. dholds (xs @ cstr str) s \<and> dcap dst \<le> dcap s)"
proof -
  define n where "n = strlen str"
  have le: "length (cstr str) \<le> length str" by (rule length_cstr_le)
  have n: "unat n = length (cstr str)" using small by (simp add: n_def unat_strlen)
  have n1: "unat (n + 1) = Suc (length (cstr str))" using n small le by (subst unat_Suc_small) auto
  have u: "unat (ucast n :: u32) = length (cstr str)" using n small le by (subst unat_ucast_small) auto
  have u1: "unat (ucast (n + 1) :: u32) = Suc (length (cstr str))"
    using n1 small le by (subst unat_ucast_small) auto
  have z: "cmem str ! length (cstr str) = Some nul"
    by (induction str) (auto simp: cstr_def cmem_def)
  have "length xs + unat (ucast (n + 1) :: u32) < dmax" using small u1 le by simp
  note add_size_spec [OF d this]
  then show ?thesis unfolding dcatcs_def Let_def n_def [symmetric]
  proof (rule gives_bind)
    fix s assume "drep s xs \<and> dcap dst \<le> dcap s \<and>
      (if length xs + unat (ucast (n + 1) :: u32) \<le> dcap dst then s = dst
       else length xs + unat (ucast (n + 1) :: u32) < dcap s)"
    then have s': "drep s xs" "dcap dst \<le> dcap s" "length xs + length (cstr str) < dcap s"
      using u1 by (auto split: if_splits)
    have "unat (dlen s + ucast n) = length xs + length (cstr str)"
      using drep_len [OF s'(1)] u small le by (subst unat_add_small) auto
    from append_with_z [OF s'(1,3) this, of "cmem str" True] z le
    show "gives (bindR (memcpy (ddata s) (unat (dlen s)) (cmem str) 0 (unat (n + 1)))
        (\<lambda>b. Inr (s\<lparr>ddata := b, dlen := dlen s + ucast n\<rparr>)))
      (\<lambda>s. dholds (xs @ cstr str) s \<and> dcap dst \<le> dcap s)"
      using s'(2) by (auto simp: n1 dholds_def gives_def)
  qed
qed

text \<open>
  \<open>dcatc\<close> and \<open>dcatmem\<close> make room for the new bytes only, not for the zero that
  \<open>put_z\<close> then writes: when the new bytes exactly fill the block, that zero is
  written one byte past its end.
\<close>

lemma dcatmem_gives:
  assumes d: "drep dst xs" and small: "length xs + length ys < dmax"
    and n: "unat n = length ys"
    and src: "take (length ys) (drop j mem) = map Some ys" "j + length ys \<le> length mem"
    and room: "length xs + length ys \<noteq> dcap dst"
  shows "gives (dcatmem dst mem j n) (\<lambda>s. dholds (xs @ ys) s \<and> dcap dst \<le> dcap s)"
proof -
  have u: "unat (ucast n :: u32) = length ys" using n small by (subst unat_ucast_small) auto
  have "length xs + unat (ucast n :: u32) < dmax" using small u by simp
  note add_size_spec [OF d this]
  then show ?thesis unfolding dcatmem_def
  proof (rule gives_bind)
    fix s assume "drep s xs \<and> dcap dst \<le> dcap s \<and>
      (if length xs + unat (ucast n :: u32) \<le> dcap dst then s = dst
       else length xs + unat (ucast n :: u32) < dcap s)"
    then have s': "drep s xs" "dcap dst \<le> dcap s" "length xs + length ys < dcap s"
      using u room by (auto split: if_splits)
    have "unat (dlen s + ucast n) = length xs + length ys"
      using drep_len [OF s'(1)] u small by (subst unat_add_small) auto
    from append_put_z [OF s'(1,3) this src] s'(2)
    show "gives (bindR (memcpy (ddata s) (unat (dlen s)) mem j (unat n))
        (\<lambda>b. put_z (s\<lparr>ddata := b, dlen := dlen s + ucast n\<rparr>)))
      (\<lambda>s. dholds (xs @ ys) s \<and> dcap dst \<le> dcap s)"
      by (auto simp: n gives_def)
  qed
qed

lemma dcatmem_fault:
  assumes d: "drep dst xs" and small: "length xs + length ys < dmax"
    and n: "unat n = length ys" and src: "j + length ys \<le> length mem"
    and full: "length xs + length ys = dcap dst"
  shows "dcatmem dst mem j n = Inl OutOfBounds"
proof -
  have u: "unat (ucast n :: u32) = length ys" using n small by (subst unat_ucast_small) auto
  have sum: "unat (dlen dst + ucast n) = length xs + length ys"
    using drep_len [OF d] u small by (subst unat_add_small) auto
  with full have "add_size dst (ucast n) = Inr dst"
    by (simp add: add_size_def word_le_nat_alt)
  then show ?thesis using d full src sum
    by (simp add: dcatmem_def n memcpy_simp drep_def put_z_def poke_def)
qed

lemma dcatc_eq_dcatmem: "dcatc dst c = dcatmem dst [Some (to_char c)] 0 1"
  by (cases "add_size dst 1")
    (auto simp: dcatc_def dcatmem_def memcpy_def poke_def upd_conv_take_nth_drop Suc_le_eq)

lemma dcatc_gives:
  assumes "drep dst xs" and "length xs + 1 < dmax" and "length xs + 1 \<noteq> dcap dst"
  shows "gives (dcatc dst c) (\<lambda>s. dholds (xs @ [to_char c]) s \<and> dcap dst \<le> dcap s)"
  using dcatmem_gives [of dst xs "[to_char c]" 1 0 "[Some (to_char c)]"] assms
  by (simp add: dcatc_eq_dcatmem)

lemma dcatc_fault:
  assumes "drep dst xs" and "length xs + 1 < dmax" and "length xs + 1 = dcap dst"
  shows "dcatc dst c = Inl OutOfBounds"
  using dcatmem_fault [of dst xs "[to_char c]" 1 0 "[Some (to_char c)]"] assms
  by (simp add: dcatc_eq_dcatmem)

text \<open>
  \<open>dncat\<close> and \<open>dncatcs\<close> do not make room at all: they return exactly when
  the block has room left for the bytes and the zero.
\<close>

lemma dncat_gives:
  assumes d: "drep dst xs" and s: "drep src ys" and small: "length xs + length ys < 2 ^ 32"
    and room: "length xs + min (length ys) (unat n) < dcap dst"
  shows "gives (dncat dst src n) (\<lambda>s. dholds (xs @ take (unat n) ys) s \<and> dsize s = dsize dst)"
proof -
  define m where "m = (if dlen src < n then dlen src else n)"
  have m: "unat m = min (length ys) (unat n)" using s by (simp only: m_def unat_clip drep_def)
  have mle: "unat m \<le> length ys" by (simp add: m)
  define zs where "zs = take (unat m) ys"
  have zs: "length zs = unat m" "take (unat n) ys = zs" using m by (auto simp: zs_def min_def)
  have l: "unat (dlen dst + m) = length xs + length zs"
    using drep_len [OF d] zs small mle by (subst unat_add_small) auto
  have "take (length zs) (drop 0 (ddata src)) = map Some zs"
    using drep_slice [OF s, of 0 "unat m"] mle by (simp add: zs_def min_absorb2)
  moreover have "0 + length zs \<le> length (ddata src)" using s mle zs by (simp add: drep_def)
  moreover have "length xs + length zs < dcap dst" using room m zs by simp
  ultimately show ?thesis using append_put_z [OF d _ l, of 0 "ddata src"]
    by (simp add: dncat_def Let_def m_def [symmetric] zs)
qed

lemma dncat_fault:
  assumes d: "drep dst xs" and s: "drep src ys" and small: "length xs + length ys < 2 ^ 32"
    and full: "dcap dst \<le> length xs + min (length ys) (unat n)"
  shows "dncat dst src n = Inl OutOfBounds"
proof -
  define m where "m = (if dlen src < n then dlen src else n)"
  have m: "unat m = min (length ys) (unat n)" using s by (simp only: m_def unat_clip drep_def)
  have l: "unat (dlen dst + m) = length xs + unat m"
    using drep_len [OF d] small m by (subst unat_add_small) auto
  show ?thesis
    using d s full m l
    by (auto simp: dncat_def Let_def m_def [symmetric] memcpy_def put_z_def poke_def drep_def)
qed

lemma dncatcs_gives:
  assumes d: "drep dst xs" and small: "length xs + length str < dmax"
    and room: "length xs + min (length (cstr str)) (unat n) < dcap dst"
  shows "gives (dncatcs dst str n) (\<lambda>s. dholds (xs @ take (unat n) (cstr str)) s \<and> dsize s = dsize dst)"
proof -
  define m where "m = (if strlen str < ucast n then ucast (strlen str) else n)"
  have le: "length (cstr str) \<le> length str" by (rule length_cstr_le)
  have "unat (strlen str) = length (cstr str)" using small by (simp add: unat_strlen)
  then have m: "unat m = min (length (cstr str)) (unat n)"
    using le small by (simp only: m_def) (subst unat_clip64, auto)
  have mle: "unat m \<le> length (cstr str)" by (simp add: m)
  define zs where "zs = take (unat m) (cstr str)"
  have zs: "length zs = unat m" "take (unat n) (cstr str) = zs" using m by (auto simp: zs_def min_def)
  have l: "unat (dlen dst + m) = length xs + length zs"
    using drep_len [OF d] zs small mle le by (subst unat_add_small) auto
  have "take (unat m) (take (length (cstr str)) (cmem str)) = map Some (take (unat m) (cstr str))"
    by (simp add: take_map)
  then have "take (length zs) (drop 0 (cmem str)) = map Some zs"
    using mle by (simp add: zs_def min_absorb1 min_absorb2 del: take_cstr_cmem')
  moreover have "0 + length zs \<le> length (cmem str)" using mle le zs by simp
  moreover have "length xs + length zs < dcap dst" using room m zs by simp
  ultimately show ?thesis using append_put_z [OF d _ l, of 0 "cmem str"]
    by (simp add: dncatcs_def Let_def m_def [symmetric] zs)
qed

section \<open>Comparison\<close>

text \<open>The order of the comparison functions: shorter first, then byte by byte.\<close>

definition shortlex :: "string \<Rightarrow> string \<Rightarrow> int" where
  "shortlex xs ys =
     (if length xs < length ys then - 1 else if length ys < length xs then 1
      else cmp_bytes xs ys)"

lemma shortlex_eq_0 [simp]: "shortlex xs ys = 0 \<longleftrightarrow> xs = ys"
  by (auto simp: shortlex_def)

lemma shortlex_swap: "shortlex ys xs = - shortlex xs ys"
  by (auto simp: shortlex_def cmp_bytes_swap [of ys xs])

lemma shortlex_trans: "shortlex xs ys < 0 \<Longrightarrow> shortlex ys zs < 0 \<Longrightarrow> shortlex xs zs < 0"
  by (auto simp: shortlex_def split: if_splits intro: cmp_bytes_trans)

lemma dcmp_drep [simp]: "drep a xs \<Longrightarrow> drep b ys \<Longrightarrow> dcmp a b = Inr (shortlex xs ys)"
  by (simp add: dcmp_def word_less_nat_alt drep_len shortlex_def memcmp_def)

lemma dcmpcs_drep [simp]:
  assumes "drep a xs" "length str < dmax"
  shows "dcmpcs a str = Inr (shortlex xs (cstr str))"
proof -
  have "unat (strlen str) = length (cstr str)" using assms by (simp add: unat_strlen)
  then show ?thesis using assms
    by (simp add: dcmpcs_def Let_def word_less_nat_alt drep_len shortlex_def memcmp_def unat_ucast_up)
qed

lemma dcmpmem_drep [simp]:
  assumes "drep a xs" "unat n = length ys" "take (length ys) b = map Some ys" "length ys \<le> length b"
  shows "dcmpmem a b n = Inr (shortlex xs ys)"
proof -
  have "peeks b 0 (length ys) = Inr ys" by (rule peeks_eq) (use assms in auto)
  then show ?thesis using assms
    by (auto simp: dcmpmem_def word_less_nat_alt drep_len shortlex_def memcmp_def unat_ucast_up)
qed

lemma dcmpc_drep:
  assumes "drep a xs"
  shows "dcmpc a c = Inr (if length xs = 0 then - 1 else if 1 < length xs then 1
    else sgn (schar (hd xs) - c))"
proof -
  have "dlen a = 0 \<longleftrightarrow> length xs = 0" "1 < dlen a \<longleftrightarrow> 1 < length xs"
    using drep_len [OF assms] by (simp_all add: unat_eq_zero [symmetric] word_less_nat_alt)
  then show ?thesis using assms
    by (auto simp: dcmpc_def hd_conv_nth sgn_if)
qed

section \<open>Substrings, prefixes and suffixes\<close>

lemma dsub_gives:
  assumes d: "drep a xs" and small: "length xs < dmax"
    and nowrap: "unat start + unat n < 2 ^ 32"
  shows "gives (dsub a start n) (\<lambda>s. drep s (take (unat n) (drop (unat start) xs)) \<and>
     (unat start \<le> length xs \<longrightarrow> dterm s))"
proof (cases "dlen a < start")
  case True
  then have "length xs < unat start" using drep_len [OF d] by (simp add: word_less_nat_alt)
  with True show ?thesis by (simp add: dsub_def)
next
  case False
  then have st: "unat start \<le> length xs" using drep_len [OF d] by (simp add: word_less_nat_alt)
  define m where "m = (if dlen a < start + n then dlen a - start else n)"
  have "unat (start + n) = unat start + unat n" by (rule unat_add_small) (use nowrap in simp)
  moreover have "unat (dlen a - start) = length xs - unat start"
    using st drep_len [OF d] by (simp add: unat_sub word_le_nat_alt)
  ultimately have m: "unat m = min (unat n) (length xs - unat start)"
    using st drep_len [OF d] by (auto simp: m_def word_less_nat_alt)
  define ys where "ys = take (unat n) (drop (unat start) xs)"
  have ys: "length ys = unat m" by (simp add: ys_def m min.commute)
  have ys2: "ys = take (unat m) (drop (unat start) xs)" by (simp add: ys_def m min_def)
  have sl: "take (unat m) (drop (unat start) (ddata a)) = map Some ys"
    unfolding ys2 by (rule drep_slice [OF d]) (use st m in linarith)
  have "gives (dfrommem (ddata a) (unat start) (ucast m))
      (\<lambda>s. dholds ys s \<and> dcap s = (length ys div 64 + 1) * 64)"
  proof (rule dfrommem_gives)
    have "unat start + length ys \<le> length xs" using st m ys by linarith
    with d show "unat start + length ys \<le> length (ddata a)" by (simp add: drep_def)
  qed (use ys sl small m in \<open>simp_all add: unat_ucast_up\<close>)
  then show ?thesis using False
    by (auto simp: dsub_def m_def ys_def dholds_def gives_def)
qed

lemma dstartswith_drep:
  assumes "drep a xs" "drep b ys"
  shows "dstartswith a b = Inr (take (length ys) xs = ys)"
  using assms drep_len [OF assms(1)] drep_len [OF assms(2)]
  by (auto simp: dstartswith_def memcmp_def word_less_nat_alt unat_eq_zero [symmetric])

lemma dendswith_drep:
  assumes "drep a xs" "drep b ys"
  shows "dendswith a b = Inr (length ys \<le> length xs \<and> drop (length xs - length ys) xs = ys)"
  using assms drep_len [OF assms(1)] drep_len [OF assms(2)]
  by (auto simp: dendswith_def memcmp_def word_less_nat_alt unat_eq_zero [symmetric])

lemma dstartswithc_drep:
  assumes "drep a xs"
  shows "dstartswithc a c = Inr (xs \<noteq> [] \<and> schar (hd xs) = c)"
  using assms drep_len [OF assms]
  by (auto simp: dstartswithc_def hd_conv_nth unat_eq_zero [symmetric])

lemma dendswithc_drep:
  assumes "drep a xs"
  shows "dendswithc a c = Inr (xs \<noteq> [] \<and> schar (last xs) = c)"
proof (cases "xs = []")
  case True
  then show ?thesis using drep_len [OF assms] by (auto simp: dendswithc_def unat_eq_zero [symmetric])
next
  case False
  with drep_len [OF assms] have "dlen a \<noteq> 0" by (auto simp: unat_eq_zero [symmetric])
  moreover from this have "unat (dlen a - 1) = length xs - 1"
    using drep_len [OF assms] unat_gt_0 [of "dlen a"] by (subst unat_minus_one) auto
  ultimately show ?thesis using False assms by (simp add: dendswithc_def last_conv_nth)
qed

lemma dstartswithcs_drep:
  assumes "drep a xs" "length str < dmax"
  shows "dstartswithcs a str = Inr (take (length (cstr str)) xs = cstr str)"
proof -
  have n: "unat (strlen str) = length (cstr str)" using assms by (simp add: unat_strlen)
  then show ?thesis using assms drep_len [OF assms(1)]
    by (auto simp: dstartswithcs_def Let_def memcmp_def word_less_nat_alt unat_ucast_up
        unat_eq_zero [symmetric])
qed

lemma dendswithcs_drep:
  assumes "drep a xs" "length str < dmax"
  shows "dendswithcs a str =
    Inr (length (cstr str) \<le> length xs \<and> drop (length xs - length (cstr str)) xs = cstr str)"
proof -
  have "unat (strlen str) = length (cstr str)" using assms by (simp add: unat_strlen)
  then have n: "unat (ucast (strlen str) :: u32) = length (cstr str)"
    using assms length_cstr_le [of str] by (subst unat_ucast_small) auto
  then show ?thesis using assms drep_len [OF assms(1)]
    by (auto simp: dendswithcs_def Let_def memcmp_def word_less_nat_alt unat_eq_zero [symmetric])
qed

section \<open>Searching\<close>

text \<open>The least position from \<open>i\<close> on at which \<open>p\<close> occurs in \<open>xs\<close>.\<close>

definition occurs :: "string \<Rightarrow> string \<Rightarrow> nat \<Rightarrow> bool" where
  "occurs p xs i \<longleftrightarrow> i + length p \<le> length xs \<and> take (length p) (drop i xs) = p"

definition first_occ :: "string \<Rightarrow> string \<Rightarrow> nat \<Rightarrow> nat option" where
  "first_occ p xs i = find (occurs p xs) [i..<Suc (length xs)]"

lemma find_Some_iff':
  "find P [i..<n] = Some k \<longleftrightarrow> i \<le> k \<and> k < n \<and> P k \<and> (\<forall>j. i \<le> j \<and> j < k \<longrightarrow> \<not> P j)"
proof (induction "n - i" arbitrary: i)
  case 0
  then show ?case by auto
next
  case (Suc m)
  then have "i < n" by simp
  then have eq: "[i..<n] = i # [Suc i..<n]" by (simp add: upt_conv_Cons)
  from Suc(2) have IH: "find P [Suc i..<n] = Some k \<longleftrightarrow>
      Suc i \<le> k \<and> k < n \<and> P k \<and> (\<forall>j. Suc i \<le> j \<and> j < k \<longrightarrow> \<not> P j)"
    by (intro Suc(1)) simp
  show ?case unfolding eq using \<open>i < n\<close>
    by (auto simp: IH) (metis Suc_leI le_eq_less_or_eq not_less_eq_eq)+
qed

lemma first_occ_Some:
  "first_occ p xs i = Some k \<longleftrightarrow>
     i \<le> k \<and> occurs p xs k \<and> (\<forall>j. i \<le> j \<and> j < k \<longrightarrow> \<not> occurs p xs j)"
  unfolding first_occ_def find_Some_iff' by (auto simp: occurs_def)

lemma first_occ_None:
  "first_occ p xs i = None \<longleftrightarrow> (\<forall>k\<ge>i. \<not> occurs p xs k)"
  by (auto simp: first_occ_def find_None_iff occurs_def)

lemma first_occ_step:
  "i \<le> length xs \<Longrightarrow>
   first_occ p xs i = (if occurs p xs i then Some i else first_occ p xs (Suc i))"
  by (simp add: first_occ_def upt_conv_Cons del: upt_Suc)

text \<open>The position as the \<open>int\<close> the search functions return.\<close>

definition pos_int :: "nat option \<Rightarrow> int" where
  "pos_int r = (case r of None \<Rightarrow> - 1 | Some k \<Rightarrow> sint (word_of_nat k :: u32))"

lemma find_mem_first_occ:
  assumes a: "drep a xs" and b: "take (length p) b = map Some p" "length p \<le> length b"
    and lst: "lst + length p = length xs" and i: "i \<le> Suc lst"
  shows "find_mem (ddata a) b (length p) i lst = Inr (pos_int (first_occ p xs i))"
  using i
proof (induction "Suc lst - i" arbitrary: i)
  case 0
  then have "first_occ p xs i = None" using lst by (auto simp: first_occ_None occurs_def)
  with 0 show ?case by (simp add: find_mem.simps pos_int_def)
next
  case (Suc m)
  then have i: "i \<le> lst" by simp
  have p: "peeks b 0 (length p) = Inr p" by (rule peeks_eq) (use b in auto)
  have m: "memcmp (ddata a) i b 0 (length p) = Inr (cmp_bytes (take (length p) (drop i xs)) p)"
    using a i lst p by (simp add: memcmp_def)
  have "occurs p xs i \<longleftrightarrow> cmp_bytes (take (length p) (drop i xs)) p = 0"
    using i lst by (simp add: occurs_def)
  moreover have "find_mem (ddata a) b (length p) (Suc i) lst = Inr (pos_int (first_occ p xs (Suc i)))"
    using Suc by simp
  ultimately show ?case using i lst
    by (subst find_mem.simps) (simp add: m first_occ_step [of i] pos_int_def)
qed

lemma dpos_drep:
  assumes a: "drep a xs" and b: "drep b p"
  shows "dpos a b start = Inr (pos_int (first_occ p xs (unat start)))"
proof (cases "length p \<le> length xs")
  case False
  then have "first_occ p xs (unat start) = None" by (auto simp: first_occ_None occurs_def)
  with False show ?thesis
    by (simp add: dpos_def word_less_nat_alt drep_len [OF a] drep_len [OF b] pos_int_def)
next
  case True
  have l: "unat (dlen a - dlen b) = length xs - length p"
    using True by (simp add: unat_sub word_le_nat_alt drep_len [OF a] drep_len [OF b])
  have "find_mem (ddata a) (ddata b) (unat (dlen b)) (unat start) (length xs - length p) =
      Inr (pos_int (first_occ p xs (unat start)))" if "unat start \<le> length xs - length p"
    unfolding drep_len [OF b]
    by (rule find_mem_first_occ [OF a]) (use b True that in \<open>auto simp: drep_def\<close>)
  moreover have "first_occ p xs (unat start) = None" if "length xs - length p < unat start"
    using that True by (auto simp: first_occ_None occurs_def)
  ultimately show ?thesis using True
    by (auto simp: dpos_def Let_def word_less_nat_alt l drep_len [OF a] drep_len [OF b] pos_int_def
        not_less)
qed

lemma dposcs_drep:
  assumes a: "drep a xs" and small: "length str < dmax"
  shows "dposcs a str start = Inr (pos_int (first_occ (cstr str) xs (unat start)))"
proof -
  define p where "p = cstr str"
  define n where "n = strlen str"
  have n: "unat n = length p" using small by (simp add: n_def p_def unat_strlen)
  have la: "unat (ucast (dlen a) :: u64) = length xs" by (simp add: unat_ucast_up drep_len [OF a])
  show ?thesis
  proof (cases "length p \<le> length xs")
    case False
    then have "first_occ p xs (unat start) = None" by (auto simp: first_occ_None occurs_def)
    with False n la show ?thesis
      by (simp add: dposcs_def n_def [symmetric] p_def [symmetric] word_less_nat_alt pos_int_def)
  next
    case True
    have "unat (ucast (dlen a) - n :: u64) = length xs - length p"
      using True by (simp add: unat_sub word_le_nat_alt la n)
    then have l: "unat (ucast (ucast (dlen a) - n :: u64) :: u32) = length xs - length p"
      using drep_less [OF a] by (subst unat_ucast_small) auto
    have "find_mem (ddata a) (cmem str) (unat n) (unat start) (length xs - length p) =
        Inr (pos_int (first_occ p xs (unat start)))" if "unat start \<le> length xs - length p"
      unfolding n
      by (rule find_mem_first_occ [OF a])
        (use True that length_cstr_le [of str] in \<open>auto simp: p_def\<close>)
    moreover have "first_occ p xs (unat start) = None" if "length xs - length p < unat start"
      using that True by (auto simp: first_occ_None occurs_def)
    ultimately show ?thesis using True n la l
      by (auto simp: dposcs_def Let_def n_def [symmetric] p_def [symmetric] word_less_nat_alt
          pos_int_def not_less)
  qed
qed

lemma find_chr_first:
  assumes a: "drep a xs" and lst: "Suc lst = length xs" and i: "i \<le> Suc lst"
  shows "find_chr (ddata a) c i lst =
    Inr (pos_int (find (\<lambda>k. schar (xs ! k) = c) [i..<length xs]))"
  using i
proof (induction "Suc lst - i" arbitrary: i)
  case 0
  then show ?case using lst by (simp add: find_chr.simps pos_int_def)
next
  case (Suc m)
  then have i: "i \<le> lst" by simp
  have "find_chr (ddata a) c (Suc i) lst =
      Inr (pos_int (find (\<lambda>k. schar (xs ! k) = c) [Suc i..<length xs]))"
    using Suc by simp
  moreover have "[i..<length xs] = i # [Suc i..<length xs]" using i lst by (simp add: upt_conv_Cons)
  ultimately show ?case using i lst a
    by (subst find_chr.simps) (simp add: pos_int_def)
qed

lemma dposc_drep:
  assumes a: "drep a xs"
  shows "dposc a c start =
    Inr (pos_int (find (\<lambda>k. schar (xs ! k) = c) [unat start..<length xs]))"
proof (cases "xs = []")
  case True
  then show ?thesis using drep_len [OF a]
    by (simp add: dposc_def unat_eq_zero [symmetric] pos_int_def)
next
  case False
  with drep_len [OF a] have nz: "dlen a \<noteq> 0" by (auto simp: unat_eq_zero [symmetric])
  then have l: "unat (dlen a - 1) = length xs - 1"
    using drep_len [OF a] by (subst unat_minus_one) auto
  have "find_chr (ddata a) c (unat start) (length xs - 1) =
      Inr (pos_int (find (\<lambda>k. schar (xs ! k) = c) [unat start..<length xs]))"
    if "unat start \<le> length xs - 1"
    by (rule find_chr_first [OF a]) (use that False in auto)
  then show ?thesis using nz False
    by (auto simp: dposc_def Let_def word_less_nat_alt l pos_int_def not_less)
qed

end
