(* ===== verification/LinkedList.thy ===== *)
theory LinkedList
  imports Prelude
begin

text \<open>
  The intrusive doubly linked lists of \<open>src/common/dstrutils.c\<close> (the macros
  \<open>list_init\<close>, \<open>list_append\<close>, \<open>list_prepend\<close> and \<open>list_erase\<close>, the same text
  as in \<open>src/common/list.h\<close>), over an explicit store of cells: pointers are addresses,
  \<open>None\<close> is \<open>NULL\<close>, and following a pointer to no cell is a fault.  A list value
  carries the store its cells live in; \<open>malloc\<close> takes a fresh address.  \<open>lrep\<close>
  abstracts a list to the sequence of the values in its cells, and every operation is
  shown to act on that sequence.
\<close>

section \<open>Cells and pointers\<close>

record 'a lnode =
  nprev :: "nat option"
  nnext :: "nat option"
  nval :: 'a

record 'a store =
  lcells :: "nat \<rightharpoonup> 'a lnode"
  lbrk :: nat                      \<comment> \<open>the next fresh address\<close>

record 'a llist = "'a store" +
  lfront :: "nat option"
  lback :: "nat option"
  lsize :: u64

definition follow :: "nat option \<Rightarrow> nat res" where
  "follow p = (case p of None \<Rightarrow> Inl NullDeref | Some a \<Rightarrow> Inr a)"

definition cell :: "('a, 'z) store_scheme \<Rightarrow> nat \<Rightarrow> 'a lnode res" where
  "cell l a = (case lcells l a of None \<Rightarrow> Inl Dangling | Some n \<Rightarrow> Inr n)"

definition set_prev :: "nat option \<Rightarrow> nat option \<Rightarrow> ('a, 'z) store_scheme \<Rightarrow> ('a, 'z) store_scheme res" where
  "set_prev p v l = bindR (follow p) (\<lambda>a. bindR (cell l a)
     (\<lambda>n. Inr (l\<lparr>lcells := (lcells l)(a \<mapsto> n\<lparr>nprev := v\<rparr>)\<rparr>)))"

definition set_next :: "nat option \<Rightarrow> nat option \<Rightarrow> ('a, 'z) store_scheme \<Rightarrow> ('a, 'z) store_scheme res" where
  "set_next p v l = bindR (follow p) (\<lambda>a. bindR (cell l a)
     (\<lambda>n. Inr (l\<lparr>lcells := (lcells l)(a \<mapsto> n\<lparr>nnext := v\<rparr>)\<rparr>)))"

definition set_val :: "nat \<Rightarrow> 'a \<Rightarrow> ('a, 'z) store_scheme \<Rightarrow> ('a, 'z) store_scheme res" where
  "set_val a v l = bindR (cell l a)
     (\<lambda>n. Inr (l\<lparr>lcells := (lcells l)(a \<mapsto> n\<lparr>nval := v\<rparr>)\<rparr>))"

text \<open>A fresh cell; its links are written when it is put on a list.\<close>

definition new_cell :: "'a \<Rightarrow> ('a, 'z) store_scheme \<Rightarrow> ('a, 'z) store_scheme \<times> nat" where
  "new_cell v l =
     (l\<lparr>lcells := (lcells l)(lbrk l \<mapsto> \<lparr>nprev = None, nnext = None, nval = v\<rparr>),
        lbrk := Suc (lbrk l)\<rparr>, lbrk l)"

definition free_cell :: "nat \<Rightarrow> ('a, 'z) store_scheme \<Rightarrow> ('a, 'z) store_scheme res" where
  "free_cell a l = bindR (cell l a) (\<lambda>_. Inr (l\<lparr>lcells := (lcells l)(a := None)\<rparr>))"

section \<open>The list macros\<close>

definition list_init :: "'a llist" where
  "list_init = \<lparr>lcells = Map.empty, lbrk = 0, lfront = None, lback = None, lsize = 0\<rparr>"

definition list_append :: "nat \<Rightarrow> 'a llist \<Rightarrow> 'a llist res" where
  "list_append a l =
     (if lback l \<noteq> None then
        bindR (set_prev (Some a) (lback l) l) (\<lambda>l.
        bindR (set_next (Some a) None l) (\<lambda>l.
        bindR (set_next (lback l) (Some a) l) (\<lambda>l.
        Inr (l\<lparr>lback := Some a, lsize := lsize l + 1\<rparr>))))
      else
        let l = l\<lparr>lfront := Some a, lback := Some a\<rparr> in
        bindR (set_prev (Some a) None l) (\<lambda>l.
        bindR (set_next (Some a) None l) (\<lambda>l. Inr (l\<lparr>lsize := 1\<rparr>))))"

definition list_prepend :: "nat \<Rightarrow> 'a llist \<Rightarrow> 'a llist res" where
  "list_prepend a l =
     (if lfront l \<noteq> None then
        bindR (set_next (Some a) (lfront l) l) (\<lambda>l.
        bindR (set_prev (Some a) None l) (\<lambda>l.
        bindR (set_prev (lfront l) (Some a) l) (\<lambda>l.
        Inr (l\<lparr>lfront := Some a, lsize := lsize l + 1\<rparr>))))
      else
        let l = l\<lparr>lfront := Some a, lback := Some a\<rparr> in
        bindR (set_prev (Some a) None l) (\<lambda>l.
        bindR (set_next (Some a) None l) (\<lambda>l. Inr (l\<lparr>lsize := 1\<rparr>))))"

definition list_erase :: "nat \<Rightarrow> 'a llist \<Rightarrow> 'a llist res" where
  "list_erase a l =
     (if lfront l = Some a \<and> lback l = Some a then
        Inr (l\<lparr>lfront := None, lback := None, lsize := lsize l - 1\<rparr>)
      else bindR (cell l a) (\<lambda>n.
        if Some a = lfront l then
          bindR (set_prev (nnext n) None l) (\<lambda>l.
          Inr (l\<lparr>lfront := nnext n, lsize := lsize l - 1\<rparr>))
        else if Some a = lback l then
          bindR (set_next (nprev n) None l) (\<lambda>l.
          Inr (l\<lparr>lback := nprev n, lsize := lsize l - 1\<rparr>))
        else
          bindR (set_next (nprev n) (nnext n) l) (\<lambda>l.
          bindR (set_prev (nnext n) (nprev n) l) (\<lambda>l.
          Inr (l\<lparr>lsize := lsize l - 1\<rparr>)))))"

section \<open>Walking a list\<close>

text \<open>
  The \<open>while(node)\<close> loops of the program.  They follow the \<open>next\<close> pointers; a chain
  longer than the number of cells ever allocated visits a cell twice, and the loop does
  not end, so that number is the fuel.
\<close>

fun find_from :: "('a \<Rightarrow> bool res) \<Rightarrow> ('a, 'z) store_scheme \<Rightarrow> nat \<Rightarrow> nat option \<Rightarrow> nat option res" where
  "find_from P l k None = Inr None"
| "find_from P l 0 (Some a) = Inl Diverge"
| "find_from P l (Suc k) (Some a) =
     bindR (cell l a) (\<lambda>n. bindR (P (nval n)) (\<lambda>b.
       if b then Inr (Some a) else find_from P l k (nnext n)))"

text \<open>The body sees the value of the node and whether another node follows.\<close>

fun fold_from :: "('b \<Rightarrow> 'a \<Rightarrow> bool \<Rightarrow> 'b res) \<Rightarrow> ('a, 'z) store_scheme \<Rightarrow> nat \<Rightarrow> 'b \<Rightarrow> nat option \<Rightarrow> 'b res" where
  "fold_from f l k s None = Inr s"
| "fold_from f l 0 s (Some a) = Inl Diverge"
| "fold_from f l (Suc k) s (Some a) =
     bindR (cell l a) (\<lambda>n. bindR (f s (nval n) (nnext n \<noteq> None)) (\<lambda>s.
       fold_from f l k s (nnext n)))"

text \<open>The loop of the \<open>_free\<close> functions: unlink the front cell and free it.\<close>

fun free_from :: "nat \<Rightarrow> 'a llist \<Rightarrow> 'a llist res" where
  "free_from k l =
     (case lfront l of None \<Rightarrow> Inr l
      | Some a \<Rightarrow> (case k of 0 \<Rightarrow> Inl Diverge
         | Suc k \<Rightarrow> bindR (cell l a) (\<lambda>n.
             bindR (free_cell a (l\<lparr>lfront := nnext n\<rparr>)) (\<lambda>l. free_from k l))))"

declare free_from.simps [simp del]

section \<open>Abstraction\<close>

text \<open>A chain of cells, with the pointers that lead out of it at both ends.\<close>

fun seg :: "(nat \<rightharpoonup> 'a lnode) \<Rightarrow> nat option \<Rightarrow> nat list \<Rightarrow> nat option \<Rightarrow> bool" where
  "seg c p [] q \<longleftrightarrow> True"
| "seg c p (a # as) q \<longleftrightarrow>
     (\<exists>n. c a = Some n \<and> nprev n = p \<and>
          nnext n = (case as of [] \<Rightarrow> q | b # _ \<Rightarrow> Some b)) \<and> seg c (Some a) as q"

definition first_ptr :: "nat list \<Rightarrow> nat option \<Rightarrow> nat option" where
  "first_ptr as q = (case as of [] \<Rightarrow> q | b # _ \<Rightarrow> Some b)"

definition last_ptr :: "nat option \<Rightarrow> nat list \<Rightarrow> nat option" where
  "last_ptr p as = (if as = [] then p else Some (last as))"

definition linv :: "'a llist \<Rightarrow> nat list \<Rightarrow> bool" where
  "linv l as \<longleftrightarrow>
     distinct as \<and> seg (lcells l) None as None \<and> lfront l = first_ptr as None \<and>
     lback l = last_ptr None as \<and> lsize l = of_nat (length as) \<and>
     (\<forall>a. lcells l a \<noteq> None \<longrightarrow> a < lbrk l)"

definition vals :: "('a, 'z) store_scheme \<Rightarrow> nat list \<Rightarrow> 'a list" where
  "vals l as = map (\<lambda>a. nval (the (lcells l a))) as"

definition lrep :: "'a llist \<Rightarrow> 'a list \<Rightarrow> bool" where
  "lrep l xs \<longleftrightarrow> (\<exists>as. linv l as \<and> vals l as = xs)"

section \<open>Chains\<close>

lemma first_ptr_simps [simp]:
  "first_ptr [] q = q" "first_ptr (a # as) q = Some a"
  by (simp_all add: first_ptr_def)

lemma last_ptr_simps [simp]:
  "last_ptr p [] = p" "last_ptr p (as @ [a]) = Some a"
  by (simp_all add: last_ptr_def)

lemma last_ptr_Cons [simp]: "last_ptr p (a # as) = last_ptr (Some a) as"
  by (simp add: last_ptr_def)

lemma first_ptr_append [simp]: "first_ptr (as @ bs) q = first_ptr as (first_ptr bs q)"
  by (cases as) auto

lemma last_ptr_append [simp]: "last_ptr p (as @ bs) = last_ptr (last_ptr p as) bs"
  by (cases bs rule: rev_cases) (auto simp: last_ptr_def)

lemma seg_Cons [simp]:
  "seg c p (a # as) q \<longleftrightarrow>
     (\<exists>n. c a = Some n \<and> nprev n = p \<and> nnext n = first_ptr as q) \<and> seg c (Some a) as q"
  by (simp add: first_ptr_def)

declare seg.simps(2) [simp del]

lemma seg_append [simp]:
  "seg c p (as @ bs) q \<longleftrightarrow> seg c p as (first_ptr bs q) \<and> seg c (last_ptr p as) bs q"
  by (induction as arbitrary: p) auto

lemma seg_upd [simp]: "a \<notin> set as \<Longrightarrow> seg (c(a := v)) p as q \<longleftrightarrow> seg c p as q"
  by (induction as arbitrary: p) auto

lemma seg_dom: "seg c p as q \<Longrightarrow> a \<in> set as \<Longrightarrow> \<exists>n. c a = Some n"
  by (induction as arbitrary: p) auto

lemma seg_set_val:
  "c a = Some n \<Longrightarrow> seg (c(a \<mapsto> n\<lparr>nval := v\<rparr>)) p as q \<longleftrightarrow> seg c p as q"
  by (induction as arbitrary: p) auto

lemma linv_length: "linv l as \<Longrightarrow> length as \<le> lbrk l"
proof -
  assume l: "linv l as"
  then have "set as \<subseteq> {..<lbrk l}" by (auto simp: linv_def dest: seg_dom)
  then have "card (set as) \<le> lbrk l" using card_mono [of "{..<lbrk l}"] by fastforce
  with l show ?thesis by (simp add: linv_def distinct_card)
qed

lemma linv_unique_aux:
  "seg c p as None \<Longrightarrow> seg c p bs None \<Longrightarrow> first_ptr as None = first_ptr bs None \<Longrightarrow> as = bs"
proof (induction as arbitrary: p bs)
  case Nil
  then show ?case by (cases bs) auto
next
  case (Cons a as)
  then obtain bs' where "bs = a # bs'" by (cases bs) auto
  with Cons show ?case by auto
qed

lemma linv_unique: "linv l as \<Longrightarrow> linv l bs \<Longrightarrow> as = bs"
  by (auto simp: linv_def intro: linv_unique_aux)

lemma lrep_unique: "lrep l xs \<Longrightarrow> lrep l ys \<Longrightarrow> xs = ys"
  by (auto simp: lrep_def dest: linv_unique)

lemma lrep_size: "lrep l xs \<Longrightarrow> lsize l = of_nat (length xs)"
  by (auto simp: lrep_def linv_def vals_def)

lemma lrep_front: "lrep l xs \<Longrightarrow> lfront l = None \<longleftrightarrow> xs = []"
  unfolding lrep_def linv_def vals_def by (metis first_ptr_simps list.exhaust
      list.map_disc_iff option.distinct(1))

section \<open>The operations on the sequence\<close>

lemma linv_init [simp]: "linv list_init []"
  by (simp add: linv_def list_init_def)

lemma lrep_init [simp]: "lrep list_init []"
  by (auto simp: lrep_def vals_def intro!: exI [of _ "[]"])

lemma cell_simp [simp]: "lcells l a = Some n \<Longrightarrow> cell l a = Inr n"
  by (simp add: cell_def)

lemma follow_simp [simp]: "follow (Some a) = Inr a" "follow None = Inl NullDeref"
  by (simp_all add: follow_def)

lemma linv_cell: "linv l as \<Longrightarrow> a \<in> set as \<Longrightarrow> \<exists>n. lcells l a = Some n"
  by (auto simp: linv_def dest: seg_dom)

lemma new_cell_linv:
  assumes "linv l as" and "new_cell v l = (l', a)"
  shows "linv l' as" "a \<notin> set as" "vals l' as = vals l as"
    "\<exists>n. lcells l' a = Some n \<and> nval n = v"
proof -
  have eq: "l' = l\<lparr>lcells := (lcells l)(lbrk l \<mapsto> \<lparr>nprev = None, nnext = None, nval = v\<rparr>),
      lbrk := Suc (lbrk l)\<rparr>" "a = lbrk l"
    using assms(2) by (auto simp: new_cell_def)
  show "a \<notin> set as" using assms(1) eq by (auto simp: linv_def dest!: seg_dom)
  then show "linv l' as" "vals l' as = vals l as"
    using assms(1) eq by (auto simp: linv_def vals_def less_Suc_eq)
  show "\<exists>n. lcells l' a = Some n \<and> nval n = v" using eq by simp
qed

text \<open>Appending a cell that is not on the list puts its value at the end.\<close>

lemma list_append_linv:
  assumes l: "linv l as" and a: "a \<notin> set as" "lcells l a = Some n"
  shows "gives (list_append a l) (\<lambda>l'. linv l' (as @ [a]) \<and>
     vals l' (as @ [a]) = vals l as @ [nval n])"
proof (cases as rule: rev_cases)
  case Nil
  have v: "lcells l x \<noteq> None \<Longrightarrow> x < lbrk l" for x using l by (simp add: linv_def)
  from Nil l a show ?thesis
    by (auto simp: list_append_def Let_def set_prev_def set_next_def linv_def vals_def dest: v)
next
  case (snoc bs b)
  with l obtain m where m: "lcells l b = Some m" using linv_cell [of l as b] by auto
  have v: "lcells l x \<noteq> None \<Longrightarrow> x < lbrk l" for x using l by (simp add: linv_def)
  have ne: "a \<noteq> b" using a snoc by auto
  define c where "c = (lcells l)(a \<mapsto> n\<lparr>nprev := Some b, nnext := None\<rparr>,
    b \<mapsto> m\<lparr>nnext := Some a\<rparr>)"
  have "list_append a l = Inr (l\<lparr>lcells := c, lback := Some a, lsize := lsize l + 1\<rparr>)"
    using l a m ne snoc
    by (simp add: list_append_def set_prev_def set_next_def linv_def c_def)
  moreover have "seg c None (as @ [a]) None"
    using l a m ne snoc by (auto simp: linv_def c_def)
  moreover have "vals (l\<lparr>lcells := c, lback := Some a, lsize := lsize l + 1\<rparr>) (as @ [a]) =
      vals l as @ [nval n]"
    using l a m ne snoc by (auto simp: vals_def c_def)
  ultimately show ?thesis using l a snoc v m
    by (auto simp: linv_def c_def)
qed

text \<open>The pattern of the program: allocate a node, fill it, append it.\<close>

definition push_back :: "'a \<Rightarrow> 'a llist \<Rightarrow> 'a llist res" where
  "push_back v l = (case new_cell v l of (l, a) \<Rightarrow> list_append a l)"

lemma push_back_linv:
  assumes l: "linv l as"
  shows "gives (push_back v l) (\<lambda>l'. linv l' (as @ [lbrk l]) \<and>
     vals l' (as @ [lbrk l]) = vals l as @ [v])"
proof -
  obtain l' a where n: "new_cell v l = (l', a)" by fastforce
  then have a: "a = lbrk l" by (simp add: new_cell_def)
  note nc = new_cell_linv [OF l n]
  from nc(4) obtain m where m: "lcells l' a = Some m" "nval m = v" by blast
  from list_append_linv [OF nc(1,2) m(1)] m(2) nc(3) show ?thesis
    by (simp add: push_back_def n a)
qed

lemma push_back_lrep: "lrep l xs \<Longrightarrow> gives (push_back v l) (\<lambda>l'. lrep l' (xs @ [v]))"
  using push_back_linv [of l _ v] by (fastforce simp: lrep_def gives_def)

lemma list_prepend_linv:
  assumes l: "linv l as" and a: "a \<notin> set as" "lcells l a = Some n"
  shows "gives (list_prepend a l) (\<lambda>l'. linv l' (a # as) \<and>
     vals l' (a # as) = nval n # vals l as)"
proof (cases as)
  case Nil
  have v: "lcells l x \<noteq> None \<Longrightarrow> x < lbrk l" for x using l by (simp add: linv_def)
  from Nil l a show ?thesis
    by (auto simp: list_prepend_def Let_def set_prev_def set_next_def linv_def vals_def dest: v)
next
  case (Cons b bs)
  with l obtain m where m: "lcells l b = Some m" using linv_cell [of l as b] by auto
  have v: "lcells l x = Some k \<Longrightarrow> x < lbrk l" for x k using l by (simp add: linv_def)
  have ne: "a \<noteq> b" using a Cons by auto
  define c where "c = (lcells l)(a \<mapsto> n\<lparr>nnext := Some b, nprev := None\<rparr>,
    b \<mapsto> m\<lparr>nprev := Some a\<rparr>)"
  have "list_prepend a l = Inr (l\<lparr>lcells := c, lfront := Some a, lsize := lsize l + 1\<rparr>)"
    using l a m ne Cons
    by (simp add: list_prepend_def set_prev_def set_next_def linv_def c_def)
  moreover have "seg c None (a # as) None"
    using l a m ne Cons by (auto simp: linv_def c_def)
  moreover have "vals (l\<lparr>lcells := c, lfront := Some a, lsize := lsize l + 1\<rparr>) (a # as) =
      nval n # vals l as"
    using l a m ne Cons by (auto simp: vals_def c_def)
  moreover have "\<forall>x. c x \<noteq> None \<longrightarrow> x < lbrk l" using a m by (auto simp: c_def dest: v)
  moreover have "lback l = last_ptr None (a # as)" "lsize l + 1 = of_nat (length (a # as))"
    using l Cons by (simp_all add: linv_def last_ptr_def)
  ultimately show ?thesis using l a(1) by (simp add: linv_def)
qed

text \<open>Erasing a node of the list removes its value; the cell itself stays allocated.\<close>

lemma list_erase_linv:
  assumes l: "linv l (xs @ a # ys)"
  shows "gives (list_erase a l) (\<lambda>l'. linv l' (xs @ ys) \<and> vals l' (xs @ ys) = vals l (xs @ ys) \<and>
     lcells l' a = lcells l a)"
proof -
  from l have dist: "distinct (xs @ a # ys)" and
    sg: "seg (lcells l) None (xs @ a # ys) None" and
    fb: "lfront l = first_ptr (xs @ a # ys) None" "lback l = last_ptr None (xs @ a # ys)"
    and v: "\<And>x k. lcells l x = Some k \<Longrightarrow> x < lbrk l"
    and sz: "lsize l - 1 = of_nat (length (xs @ ys))"
    by (auto simp: linv_def)
  from sg obtain n where n: "lcells l a = Some n" "nprev n = last_ptr None xs"
    "nnext n = first_ptr ys None" by auto
  show ?thesis
  proof (cases "xs = []")
    case True
    show ?thesis
    proof (cases ys)
      case Nil
      with True fb n v sz show ?thesis
        by (auto simp: list_erase_def linv_def vals_def)
    next
      case (Cons b bs)
      with sg obtain m where m: "lcells l b = Some m" by auto
      define c where "c = (lcells l)(b \<mapsto> m\<lparr>nprev := None\<rparr>)"
      have "lback l \<noteq> Some a" using dist fb(2) Cons True by (auto simp: last_ptr_def)
      then have eq: "list_erase a l = Inr (l\<lparr>lcells := c, lfront := Some b, lsize := lsize l - 1\<rparr>)"
        using True Cons fb n m by (simp add: list_erase_def set_prev_def c_def)
      have "seg c None ys None" using sg dist True Cons m by (auto simp: c_def)
      moreover have "\<forall>x. c x \<noteq> None \<longrightarrow> x < lbrk l" using m by (auto simp: c_def dest: v)
      moreover have "vals (l\<lparr>lcells := c, lfront := Some b, lsize := lsize l - 1\<rparr>) ys = vals l ys"
        using Cons m by (auto simp: vals_def c_def)
      ultimately show ?thesis using True Cons dist fb sz n eq
        by (auto simp: linv_def c_def last_ptr_def)
    qed
  next
    case False
    then obtain ws w where xs: "xs = ws @ [w]" by (cases xs rule: rev_cases) auto
    with sg obtain k where k: "lcells l w = Some k" by auto
    have front: "lfront l \<noteq> Some a" using dist fb(1) xs by (cases ws) auto
    have ne: "w \<noteq> a" "w \<notin> set ws" "w \<notin> set ys" using dist xs by auto
    show ?thesis
    proof (cases ys)
      case Nil
      define c where "c = (lcells l)(w \<mapsto> k\<lparr>nnext := None\<rparr>)"
      have eq: "list_erase a l = Inr (l\<lparr>lcells := c, lback := Some w, lsize := lsize l - 1\<rparr>)"
        using Nil xs fb n k front by (simp add: list_erase_def set_next_def c_def)
      have "seg c None xs None" using sg ne xs Nil k by (auto simp: c_def)
      moreover have "\<forall>x. c x \<noteq> None \<longrightarrow> x < lbrk l" using k by (auto simp: c_def dest: v)
      moreover have "vals (l\<lparr>lcells := c, lback := Some w, lsize := lsize l - 1\<rparr>) xs = vals l xs"
        using xs k ne by (auto simp: vals_def c_def)
      ultimately show ?thesis using Nil xs dist fb sz n ne eq
        by (auto simp: linv_def c_def)
    next
      case (Cons b bs)
      with sg obtain m where m: "lcells l b = Some m" by auto
      have ne': "b \<noteq> a" "b \<noteq> w" "b \<notin> set xs" using dist Cons xs by auto
      define c where "c = (lcells l)(w \<mapsto> k\<lparr>nnext := Some b\<rparr>, b \<mapsto> m\<lparr>nprev := Some w\<rparr>)"
      have bk: "lback l \<noteq> Some a" using dist fb(2) Cons by (auto simp: last_ptr_def)
      have eq: "list_erase a l = Inr (l\<lparr>lcells := c, lsize := lsize l - 1\<rparr>)"
        using Cons xs n k m front bk ne'
        by (simp add: list_erase_def set_next_def set_prev_def c_def)
      have "seg c None (xs @ ys) None" using sg ne ne' dist xs Cons k m by (auto simp: c_def)
      moreover have "\<forall>x. c x \<noteq> None \<longrightarrow> x < lbrk l" using k m by (auto simp: c_def dest: v)
      moreover have "vals (l\<lparr>lcells := c, lsize := lsize l - 1\<rparr>) (xs @ ys) = vals l (xs @ ys)"
        using xs Cons k m ne' ne by (auto simp: vals_def c_def)
      ultimately show ?thesis using Cons xs dist fb sz n ne ne' eq
        by (auto simp: linv_def c_def)
    qed
  qed
qed

lemma free_cell_linv:
  "linv l as \<Longrightarrow> a \<notin> set as \<Longrightarrow> lcells l a = Some n \<Longrightarrow>
   gives (free_cell a l) (\<lambda>l'. linv l' as \<and> vals l' as = vals l as \<and> lcells l' a = None)"
  by (auto simp: free_cell_def linv_def vals_def)

section \<open>The loops on the sequence\<close>

text \<open>
  A search stops at the first value the (total) predicate accepts.  \<open>pos\<close> of it is
  the number of nodes before it.
\<close>

lemma find_from_seg:
  assumes "seg (lcells l) p as None" and "length as \<le> k"
    and "\<And>a. a \<in> set as \<Longrightarrow> P (nval (the (lcells l a))) = Inr (Q a)"
  shows "find_from P l k (first_ptr as None) = Inr (find Q as)"
  using assms
proof (induction as arbitrary: k p)
  case Nil
  then show ?case by simp
next
  case (Cons a as)
  then obtain k' where k': "k = Suc k'" by (cases k) auto
  from Cons.prems(1) obtain n where n: "lcells l a = Some n" "nnext n = first_ptr as None"
    "seg (lcells l) (Some a) as None" by auto
  have "find_from P l k' (first_ptr as None) = Inr (find Q as)"
    by (rule Cons.IH [OF n(3)]) (use Cons.prems k' in auto)
  with n Cons.prems(3) [of a] k' show ?case by simp
qed

lemma find_from_linv:
  assumes "linv l as" and "\<And>v. v \<in> set (vals l as) \<Longrightarrow> P v = Inr (Q v)"
  shows "find_from P l (lbrk l) (lfront l) = Inr (find (\<lambda>a. Q (nval (the (lcells l a)))) as)"
proof -
  have "seg (lcells l) None as None" "lfront l = first_ptr as None"
    using assms(1) by (simp_all add: linv_def)
  then show ?thesis
    using find_from_seg [of l None as "lbrk l" P "\<lambda>a. Q (nval (the (lcells l a)))"]
      linv_length [OF assms(1)] assms(2)
    by (simp add: vals_def)
qed

text \<open>The same loop over the values, as the program's body sees them.\<close>

fun fold_seq :: "('b \<Rightarrow> 'a \<Rightarrow> bool \<Rightarrow> 'b res) \<Rightarrow> 'b \<Rightarrow> 'a list \<Rightarrow> 'b res" where
  "fold_seq f s [] = Inr s"
| "fold_seq f s (x # xs) = bindR (f s x (xs \<noteq> [])) (\<lambda>s. fold_seq f s xs)"

lemma fold_from_seg:
  assumes "seg (lcells l) p as None" and "length as \<le> k"
  shows "fold_from f l k s (first_ptr as None) = fold_seq f s (vals l as)"
  using assms
proof (induction as arbitrary: k p s)
  case Nil
  then show ?case by (simp add: vals_def)
next
  case (Cons a as)
  then obtain k' where k': "k = Suc k'" by (cases k) auto
  from Cons.prems(1) obtain n where n: "lcells l a = Some n" "nnext n = first_ptr as None"
    "seg (lcells l) (Some a) as None" by auto
  have "fold_from f l k' s' (first_ptr as None) = fold_seq f s' (vals l as)" for s'
    by (rule Cons.IH [OF n(3)]) (use Cons.prems k' in auto)
  moreover have "nnext n \<noteq> None \<longleftrightarrow> vals l as \<noteq> []" using n(2) by (cases as) (auto simp: vals_def)
  ultimately show ?case using n k' by (simp add: vals_def)
qed

lemma fold_from_lrep:
  assumes "lrep l xs"
  shows "fold_from f l (lbrk l) s (lfront l) = fold_seq f s xs"
proof -
  from assms obtain as where as: "linv l as" "vals l as = xs" by (auto simp: lrep_def)
  then have "seg (lcells l) None as None" "lfront l = first_ptr as None"
    by (simp_all add: linv_def)
  with fold_from_seg [OF this(1) linv_length [OF as(1)]] as(2) show ?thesis by simp
qed

lemma fold_seq_total:
  "(\<And>s x b. x \<in> set xs \<Longrightarrow> f s x b = Inr (g s x b)) \<Longrightarrow> \<exists>s'. fold_seq f s xs = Inr s'"
  by (induction xs arbitrary: s) auto

text \<open>Freeing a list frees every one of its cells once, and no other.\<close>

lemma free_from_seg:
  assumes "seg (lcells l) p as None" and "distinct as" and "lfront l = first_ptr as None"
    and "length as \<le> k"
  shows "gives (free_from k l) (\<lambda>l'. lfront l' = None \<and>
     lcells l' = (\<lambda>a. if a \<in> set as then None else lcells l a))"
  using assms
proof (induction as arbitrary: k l p)
  case Nil
  then show ?case by (simp add: free_from.simps [of k l])
next
  case (Cons a as)
  then obtain k' where k': "k = Suc k'" by (cases k) auto
  from Cons.prems obtain n where n: "lcells l a = Some n" "nnext n = first_ptr as None"
    "seg (lcells l) (Some a) as None" and a: "a \<notin> set as" "distinct as" by auto
  define l1 where "l1 = l\<lparr>lfront := first_ptr as None, lcells := (lcells l)(a := None)\<rparr>"
  have "gives (free_from k' l1) (\<lambda>l'. lfront l' = None \<and>
     lcells l' = (\<lambda>x. if x \<in> set as then None else lcells l1 x))"
  proof (rule Cons.IH)
    have "lcells l1 = (lcells l)(a := None)" by (simp add: l1_def)
    then show "seg (lcells l1) (Some a) as None" using n(3) a(1) by simp
  qed (use a Cons.prems k' in \<open>auto simp: l1_def\<close>)
  moreover have "free_from k l = free_from k' l1"
    using Cons.prems(3) k' n by (simp add: free_from.simps [of "Suc k'" l] free_cell_def l1_def)
  ultimately show ?case by (auto simp: gives_def l1_def fun_eq_iff)
qed

lemma free_from_linv:
  assumes "linv l as"
  shows "gives (free_from (lbrk l) l) (\<lambda>l'. lfront l' = None \<and>
     lcells l' = (\<lambda>a. if a \<in> set as then None else lcells l a))"
  by (rule free_from_seg) (use assms linv_length [OF assms] in \<open>auto simp: linv_def\<close>)

text \<open>Overwriting the value of one node.\<close>

lemma set_val_linv:
  assumes l: "linv l (xs @ a # ys)"
  shows "gives (set_val a v l) (\<lambda>l'. linv l' (xs @ a # ys) \<and>
     vals l' (xs @ a # ys) = vals l xs @ v # vals l ys)"
proof -
  from l obtain n where n: "lcells l a = Some n" using linv_cell [OF l, of a] by auto
  have "a \<notin> set xs" "a \<notin> set ys" using l by (auto simp: linv_def)
  with n have "vals (l\<lparr>lcells := (lcells l)(a \<mapsto> n\<lparr>nval := v\<rparr>)\<rparr>) (xs @ a # ys) =
      vals l xs @ v # vals l ys"
    by (auto simp: vals_def)
  moreover have "linv (l\<lparr>lcells := (lcells l)(a \<mapsto> n\<lparr>nval := v\<rparr>)\<rparr>) (xs @ a # ys)"
    using l n unfolding linv_def by (simp add: seg_set_val del: seg_append seg_Cons)
  ultimately show ?thesis using n by (simp add: set_val_def)
qed

end
