(* ===== verification/DstrList.thy ===== *)
theory DstrList
  imports DstrSpec LinkedList
begin

text \<open>
  The lists of dynamic strings of \<open>src/common/dstrutils.c\<close> (\<open>dlist_*\<close>) over the
  linked lists of theory \<open>LinkedList\<close>, and the \<open>NULL\<close>-terminated vectors
  (\<open>dvec_*\<close>).  A node's string is stored in the node: the program never shares one
  between nodes.
\<close>

section \<open>Lists\<close>

type_synonym dstrlist = "dstring llist"

definition dlist_new :: dstrlist where
  "dlist_new = list_init"

definition dlist_free :: "dstrlist \<Rightarrow> dstrlist res" where
  "dlist_free l = free_from (lbrk l) l"

definition dlist_push :: "dstrlist \<Rightarrow> dstring \<Rightarrow> dstrlist res" where
  "dlist_push l text = push_back text l"

definition dlist_add :: "dstrlist \<Rightarrow> dstring \<Rightarrow> dstrlist res" where
  "dlist_add l text = bindR (dnewcopy text) (\<lambda>s. push_back s l)"

definition dlist_addcs :: "dstrlist \<Rightarrow> string \<Rightarrow> dstrlist res" where
  "dlist_addcs l text = bindR (dfromcs text) (\<lambda>s. push_back s l)"

definition dlist_addmem :: "dstrlist \<Rightarrow> block \<Rightarrow> nat \<Rightarrow> u64 \<Rightarrow> dstrlist res" where
  "dlist_addmem l text j sz = bindR (dfrommem text j sz) (\<lambda>s. push_back s l)"

definition dlist_addnode :: "dstrlist \<Rightarrow> nat \<Rightarrow> dstrlist res" where
  "dlist_addnode l node = list_append node l"

definition dlist_erase :: "dstrlist \<Rightarrow> nat \<Rightarrow> dstrlist res" where
  "dlist_erase l node =
     bindR (cell l node) (\<lambda>_. bindR (list_erase node l) (\<lambda>l. free_cell node l))"

definition dlist_remove :: "dstrlist \<Rightarrow> nat \<Rightarrow> dstrlist res" where
  "dlist_remove l node = list_erase node l"

definition dlist_find :: "dstrlist \<Rightarrow> dstring \<Rightarrow> nat option res" where
  "dlist_find l pat =
     find_from (\<lambda>s. bindR (dcmp s pat) (\<lambda>r. Inr (r = 0))) l (lbrk l) (lfront l)"

definition dlist_findcs :: "dstrlist \<Rightarrow> string \<Rightarrow> nat option res" where
  "dlist_findcs l pat =
     find_from (\<lambda>s. bindR (dcmpcs s pat) (\<lambda>r. Inr (r = 0))) l (lbrk l) (lfront l)"

definition dlist_join :: "dstrlist \<Rightarrow> dstring \<Rightarrow> dstring res" where
  "dlist_join l glue =
     fold_from (\<lambda>s str more. bindR (dcat s str) (\<lambda>s. if more then dcat s glue else Inr s))
       l (lbrk l) dnew (lfront l)"

definition dlist_joinc :: "dstrlist \<Rightarrow> int \<Rightarrow> dstring res" where
  "dlist_joinc l c =
     fold_from (\<lambda>s str more. bindR (dcat s str) (\<lambda>s. if more then dcatc s c else Inr s))
       l (lbrk l) dnew (lfront l)"

text \<open>The length of the glue goes through an \<open>int\<close>.\<close>

definition dlist_joincs :: "dstrlist \<Rightarrow> string \<Rightarrow> dstring res" where
  "dlist_joincs l glue =
     (let n = (scast (ucast (strlen glue) :: u32) :: u64) in
      fold_from (\<lambda>s str more. bindR (dcat s str) (\<lambda>s.
          if more then dcatmem s (cmem glue) 0 n else Inr s))
        l (lbrk l) dnew (lfront l))"

fun equals_from :: "dstrlist \<Rightarrow> dstrlist \<Rightarrow> nat \<Rightarrow> nat option \<Rightarrow> nat option \<Rightarrow> bool res" where
  "equals_from l1 l2 k None n2 = Inr True"
| "equals_from l1 l2 0 (Some a) n2 = Inl Diverge"
| "equals_from l1 l2 (Suc k) (Some a) n2 =
     bindR (cell l1 a) (\<lambda>n. bindR (follow n2) (\<lambda>b. bindR (cell l2 b) (\<lambda>m.
     bindR (dcmp (nval n) (nval m)) (\<lambda>r.
       if r \<noteq> 0 then Inr False else equals_from l1 l2 k (nnext n) (nnext m)))))"

definition dlist_equals :: "dstrlist \<Rightarrow> dstrlist \<Rightarrow> bool res" where
  "dlist_equals l1 l2 =
     (if lsize l1 \<noteq> lsize l2 then Inr False
      else equals_from l1 l2 (lbrk l1) (lfront l1) (lfront l2))"

section \<open>Vectors\<close>

text \<open>
  An array of pointers to strings: \<open>None\<close> is a slot not written yet,
  \<open>Some None\<close> the \<open>NULL\<close> pointer.
\<close>

type_synonym dvec = "dstring option option list"

definition vec_put :: "dvec \<Rightarrow> nat \<Rightarrow> dstring option \<Rightarrow> dvec res" where
  "vec_put v i x = (if i < length v then Inr (v[i := Some x]) else Inl OutOfBounds)"

definition dlist_tovector :: "dstrlist \<Rightarrow> dvec res" where
  "dlist_tovector l =
     bindR (vec_put (replicate (unat (lsize l + 1)) None) (unat (lsize l)) None) (\<lambda>vec.
     bindR (fold_from (\<lambda>(i, vec) str more.
         bindR (dnewcopy str) (\<lambda>s. bindR (vec_put vec i (Some s)) (\<lambda>vec. Inr (Suc i, vec))))
       l (lbrk l) (0, vec) (lfront l)) (\<lambda>(i, vec). Inr vec))"

definition dvec_new :: "u64 \<Rightarrow> dvec res" where
  "dvec_new sz =
     (let vec = fold (\<lambda>i vec. vec[i := Some (Some dnew)]) [0..<unat sz]
        (replicate (unat (sz + 1)) None)
      in vec_put vec (unat sz) None)"

fun vec_size_from :: "dvec \<Rightarrow> nat \<Rightarrow> nat res" where
  "vec_size_from [] i = Inl OutOfBounds"
| "vec_size_from (None # v) i = Inl Uninit"
| "vec_size_from (Some None # v) i = Inr i"
| "vec_size_from (Some (Some s) # v) i = vec_size_from v (Suc i)"

definition dvec_size :: "dvec \<Rightarrow> nat res" where
  "dvec_size v = vec_size_from v 0"

section \<open>What the list operations compute\<close>

text \<open>
  \<open>dlrep t l xs\<close>: the nodes of \<open>l\<close> hold, in order, the byte sequences \<open>xs\<close>;
  with \<open>t\<close> every one of them is also zero-terminated.
\<close>

definition drept :: "bool \<Rightarrow> dstring \<Rightarrow> string \<Rightarrow> bool" where
  "drept t s x \<longleftrightarrow> drep s x \<and> (t \<longrightarrow> dterm s)"

definition dlrep :: "bool \<Rightarrow> dstrlist \<Rightarrow> string list \<Rightarrow> bool" where
  "dlrep t l xs \<longleftrightarrow> (\<exists>ss. lrep l ss \<and> list_all2 (drept t) ss xs)"

lemma dlrep_new [simp]: "dlrep t dlist_new []"
  by (auto simp: dlrep_def dlist_new_def)

lemma dlrep_size: "dlrep t l xs \<Longrightarrow> lsize l = of_nat (length xs)"
  by (metis dlrep_def lrep_size list_all2_lengthD)

lemma dlrep_push:
  assumes "dlrep t l xs" and "drept t s x"
  shows "gives (push_back s l) (\<lambda>l'. dlrep t l' (xs @ [x]))"
proof -
  from assms(1) obtain ss where ss: "lrep l ss" "list_all2 (drept t) ss xs"
    by (auto simp: dlrep_def)
  from push_back_lrep [OF ss(1), of s] show ?thesis
    by (rule gives_mono) (use ss(2) assms(2) in \<open>auto simp: dlrep_def intro!: list_all2_appendI\<close>)
qed

lemma dlist_push_gives:
  "dlrep t l xs \<Longrightarrow> drept t s x \<Longrightarrow> gives (dlist_push l s) (\<lambda>l'. dlrep t l' (xs @ [x]))"
  by (simp add: dlist_push_def dlrep_push)

lemma dlist_add_gives:
  assumes "dlrep t l xs" and "drept t s x" and "length x < dmax"
  shows "gives (dlist_add l s) (\<lambda>l'. dlrep t l' (xs @ [x]))"
  unfolding dlist_add_def
proof (rule gives_bind)
  show "gives (dnewcopy s) (\<lambda>s'. drept t s' x)"
    by (rule gives_mono [OF dnewcopy_gives]) (use assms in \<open>auto simp: drept_def\<close>)
qed (use assms in \<open>auto intro: dlrep_push\<close>)

lemma dlist_addcs_gives:
  assumes "dlrep t l xs" and "length str < dmax"
  shows "gives (dlist_addcs l str) (\<lambda>l'. dlrep t l' (xs @ [cstr str]))"
  unfolding dlist_addcs_def
proof (rule gives_bind)
  show "gives (dfromcs str) (\<lambda>s'. drept t s' (cstr str))"
    by (rule gives_mono [OF dfromcs_gives]) (use assms in \<open>auto simp: drept_def dholds_def\<close>)
qed (use assms in \<open>auto intro: dlrep_push\<close>)

text \<open>Erasing a node: the node is unlinked and its cell freed.\<close>

lemma dlist_erase_linv:
  assumes l: "linv l (as @ a # bs)"
  shows "gives (dlist_erase l a) (\<lambda>l'. linv l' (as @ bs) \<and>
    vals l' (as @ bs) = vals l as @ vals l bs \<and> lcells l' a = None)"
proof -
  from l obtain n where n: "lcells l a = Some n" using linv_cell [OF l, of a] by auto
  have a: "a \<notin> set (as @ bs)" using l by (auto simp: linv_def)
  have "gives (bindR (list_erase a l) (free_cell a)) (\<lambda>l'. linv l' (as @ bs) \<and>
    vals l' (as @ bs) = vals l (as @ bs) \<and> lcells l' a = None)"
  proof (rule gives_bind [OF list_erase_linv [OF l]])
    fix l' assume l': "linv l' (as @ bs) \<and> vals l' (as @ bs) = vals l (as @ bs) \<and>
      lcells l' a = lcells l a"
    with free_cell_linv [of l' "as @ bs" a n] a n
    show "gives (free_cell a l') (\<lambda>l'. linv l' (as @ bs) \<and>
        vals l' (as @ bs) = vals l (as @ bs) \<and> lcells l' a = None)"
      by (auto simp: gives_def)
  qed
  then show ?thesis using n by (simp add: dlist_erase_def vals_def)
qed

text \<open>Joining: the strings with the glue between them.\<close>

fun join :: "string \<Rightarrow> string list \<Rightarrow> string" where
  "join g [] = []"
| "join g [x] = x"
| "join g (x # y # xs) = x @ g @ join g (y # xs)"

lemma join_step: "join g (x # xs) = x @ (if xs = [] then [] else g) @ join g xs"
  by (cases xs) auto

lemma join_fold:
  assumes cat: "\<And>s ys more x str. drep s ys \<Longrightarrow> drep str x \<Longrightarrow>
      length ys + length x + (if more then length g else 0) < m \<Longrightarrow>
      gives (f s str more) (\<lambda>s'. drep s' (ys @ x @ (if more then g else [])))"
    and "list_all2 drep ss xs" and "drep s ys" and "length ys + length (join g xs) < m"
  shows "gives (fold_seq f s ss) (\<lambda>s'. drep s' (ys @ join g xs))"
  using assms(2-)
proof (induction ss xs arbitrary: s ys rule: list_all2_induct)
  case Nil
  then show ?case by simp
next
  case (Cons str ss x xs)
  have ne: "ss \<noteq> [] \<longleftrightarrow> xs \<noteq> []" using Cons.hyps(2) by (auto dest: list_all2_lengthD)
  have "gives (f s str (ss \<noteq> [])) (\<lambda>s'. drep s' (ys @ x @ (if ss \<noteq> [] then g else [])))"
    by (rule cat [OF Cons.prems(1) Cons.hyps(1)])
      (use Cons.prems(2) ne in \<open>auto simp: join_step [of g x xs] split: if_splits\<close>)
  then show ?case
  proof (simp, rule gives_bind)
    fix s' assume "drep s' (ys @ x @ (if ss \<noteq> [] then g else []))"
    from Cons.IH [OF this] show "gives (fold_seq f s' ss) (\<lambda>s'. drep s' (ys @ join g (x # xs)))"
      using Cons.prems(2) ne by (auto simp: join_step [of g x xs] split: if_splits)
  qed
qed

lemma dlrep_drep: "dlrep t l xs \<Longrightarrow> \<exists>ss. lrep l ss \<and> list_all2 drep ss xs"
  unfolding dlrep_def by (metis (mono_tags, lifting) drept_def list_all2_mono)

lemma dlist_join_gives:
  assumes "dlrep t l xs" and "drep glue g" and "length (join g xs) + 1 < dmax"
  shows "gives (dlist_join l glue) (\<lambda>s. drep s (join g xs))"
proof -
  obtain ss where ss: "lrep l ss" "list_all2 drep ss xs" using dlrep_drep [OF assms(1)] by blast
  have "gives (fold_seq (\<lambda>s str more. bindR (dcat s str) (\<lambda>s. if more then dcat s glue else Inr s))
      dnew ss) (\<lambda>s'. drep s' ([] @ join g xs))"
  proof (rule join_fold [where m = "dmax - 1", OF _ ss(2)])
    fix s ys more x str
    assume s: "drep s ys" and x: "drep str x"
      and len: "length ys + length x + (if more then length g else 0) < dmax - 1"
    have "gives (dcat s str) (\<lambda>s'. drep s' (ys @ x))"
      by (rule gives_mono [OF dcat_gives [OF s x]]) (use len in auto)
    then show "gives (bindR (dcat s str) (\<lambda>s. if more then dcat s glue else Inr s))
        (\<lambda>s'. drep s' (ys @ x @ (if more then g else [])))"
    proof (rule gives_bind)
      fix s' assume s': "drep s' (ys @ x)"
      show "gives (if more then dcat s' glue else Inr s') (\<lambda>s'. drep s' (ys @ x @ (if more then g else [])))"
        using s' len gives_mono [OF dcat_gives [OF s' assms(2)]] by auto
    qed
  qed (use assms(3) in auto)
  then show ?thesis unfolding dlist_join_def fold_from_lrep [OF ss(1)] by simp
qed

text \<open>
  The joins by a character and by a C string append the glue with the functions that
  make no room for the zero, so their result is bounded by the initial block.
\<close>

lemma join_short:
  assumes cat: "\<And>s ys. drep s ys \<Longrightarrow> 32 \<le> dcap s \<Longrightarrow> length ys + length g < 32 \<Longrightarrow>
      gives (f s) (\<lambda>s'. drep s' (ys @ g) \<and> 32 \<le> dcap s')"
    and "list_all2 drep ss xs" and "drep s ys" and "32 \<le> dcap s"
    and "length ys + length (join g xs) < 32"
  shows "gives (fold_seq (\<lambda>s str more. bindR (dcat s str) (\<lambda>s. if more then f s else Inr s)) s ss)
    (\<lambda>s'. drep s' (ys @ join g xs))"
  using assms(2-)
proof (induction ss xs arbitrary: s ys rule: list_all2_induct)
  case Nil
  then show ?case by simp
next
  case (Cons str ss x xs)
  have ne: "ss \<noteq> [] \<longleftrightarrow> xs \<noteq> []" using Cons.hyps(2) by (auto dest: list_all2_lengthD)
  have len: "length ys + length x + (if ss \<noteq> [] then length g else 0) +
      length (join g xs) < 32"
    using Cons.prems(3) ne by (auto simp: join_step [of g x xs] split: if_splits)
  have "gives (dcat s str) (\<lambda>s'. drep s' (ys @ x) \<and> 32 \<le> dcap s')"
    by (rule gives_mono [OF dcat_gives [OF Cons.prems(1) Cons.hyps(1)]])
      (use len Cons.prems in auto)
  then have "gives (bindR (dcat s str) (\<lambda>s. if ss \<noteq> [] then f s else Inr s))
      (\<lambda>s'. drep s' (ys @ x @ (if ss \<noteq> [] then g else [])) \<and> 32 \<le> dcap s')"
  proof (rule gives_bind)
    fix s' assume "drep s' (ys @ x) \<and> 32 \<le> dcap s'"
    with cat [of s' "ys @ x"] len show "gives (if ss \<noteq> [] then f s' else Inr s')
        (\<lambda>s'. drep s' (ys @ x @ (if ss \<noteq> [] then g else [])) \<and> 32 \<le> dcap s')"
      by auto
  qed
  then show ?case
  proof (simp, rule gives_bind)
    fix s' assume "drep s' (ys @ x @ (if ss \<noteq> [] then g else [])) \<and> 32 \<le> dcap s'"
    then have s': "drep s' (ys @ x @ (if ss \<noteq> [] then g else []))" "32 \<le> dcap s'" by auto
    from Cons.IH [OF s'] show "gives (fold_seq (\<lambda>s str more. bindR (dcat s str)
        (\<lambda>s. if more then f s else Inr s)) s' ss) (\<lambda>s'. drep s' (ys @ join g (x # xs)))"
      using len ne by (auto simp: join_step [of g x xs] split: if_splits)
  qed
qed

lemma dlist_joinc_gives:
  assumes "dlrep t l xs" and "length (join [to_char c] xs) < 32"
  shows "gives (dlist_joinc l c) (\<lambda>s. drep s (join [to_char c] xs))"
proof -
  obtain ss where ss: "lrep l ss" "list_all2 drep ss xs" using dlrep_drep [OF assms(1)] by blast
  have "gives (fold_seq (\<lambda>s str more. bindR (dcat s str) (\<lambda>s. if more then dcatc s c else Inr s))
      dnew ss) (\<lambda>s'. drep s' ([] @ join [to_char c] xs))"
  proof (rule join_short [OF _ ss(2)])
    fix s ys assume "drep s ys" "32 \<le> dcap s" "length ys + length [to_char c] < 32"
    then show "gives (dcatc s c) (\<lambda>s'. drep s' (ys @ [to_char c]) \<and> 32 \<le> dcap s')"
      by (intro gives_mono [OF dcatc_gives]) (auto simp: dholds_def)
  qed (use assms(2) in auto)
  then show ?thesis unfolding dlist_joinc_def fold_from_lrep [OF ss(1)] by simp
qed

lemma dlist_equals_seg:
  assumes "seg (lcells l1) p as None" and "seg (lcells l2) q bs None" and "length as \<le> k"
    and "list_all2 drep (vals l1 as) xs" and "list_all2 drep (vals l2 bs) ys"
    and "length xs = length ys"
  shows "equals_from l1 l2 k (first_ptr as None) (first_ptr bs None) = Inr (xs = ys)"
  using assms
proof (induction as arbitrary: p q bs k xs ys)
  case Nil
  then show ?case by (auto simp: vals_def)
next
  case (Cons a as)
  then obtain k' x xs' where k': "k = Suc k'" and x: "xs = x # xs'"
    by (cases k; cases xs) (auto simp: vals_def)
  with Cons.prems obtain y ys' where y: "ys = y # ys'" by (cases ys) auto
  with Cons.prems obtain b bs' where b: "bs = b # bs'" by (cases bs) (auto simp: vals_def)
  from Cons.prems(1) obtain n where n: "lcells l1 a = Some n" "nnext n = first_ptr as None"
    "seg (lcells l1) (Some a) as None" by auto
  from Cons.prems(2) b obtain m where m: "lcells l2 b = Some m" "nnext m = first_ptr bs' None"
    "seg (lcells l2) (Some b) bs' None" by auto
  have "drep (nval n) x" "list_all2 drep (vals l1 as) xs'"
    "drep (nval m) y" "list_all2 drep (vals l2 bs') ys'"
    using Cons.prems(4,5) n m x y b by (simp_all add: vals_def)
  with Cons.IH [OF n(3) m(3), of k' xs' ys'] n m k' b x y Cons.prems(3,6) show ?case by simp
qed

lemma dlist_equals_dlrep:
  assumes "dlrep t l1 xs" and "dlrep t' l2 ys" and "length xs < 2 ^ 64" and "length ys < 2 ^ 64"
  shows "dlist_equals l1 l2 = Inr (xs = ys)"
proof (cases "length xs = length ys")
  case True
  obtain as where as: "linv l1 as" "list_all2 drep (vals l1 as) xs"
    using dlrep_drep [OF assms(1)] by (auto simp: lrep_def)
  obtain bs where bs: "linv l2 bs" "list_all2 drep (vals l2 bs) ys"
    using dlrep_drep [OF assms(2)] by (auto simp: lrep_def)
  have "lsize l1 = lsize l2" using dlrep_size [OF assms(1)] dlrep_size [OF assms(2)] True by simp
  moreover have "equals_from l1 l2 (lbrk l1) (lfront l1) (lfront l2) = Inr (xs = ys)"
    using dlist_equals_seg [of l1 None as l2 None bs "lbrk l1" xs ys] as bs True linv_length [OF as(1)]
    by (simp add: linv_def)
  ultimately show ?thesis by (simp add: dlist_equals_def)
next
  case False
  have "unat (lsize l1) = length xs" "unat (lsize l2) = length ys"
    using dlrep_size [OF assms(1)] dlrep_size [OF assms(2)] assms(3,4)
    by (simp_all add: unat_of_nat)
  with False have "lsize l1 \<noteq> lsize l2" by auto
  with False show ?thesis by (auto simp: dlist_equals_def)
qed

text \<open>The vector holds a copy of every string, in order, and the final \<open>NULL\<close>.\<close>

definition vrep :: "bool \<Rightarrow> dvec \<Rightarrow> string list \<Rightarrow> bool" where
  "vrep t v xs \<longleftrightarrow> (\<exists>ss. v = map (Some \<circ> Some) ss @ [Some None] \<and> list_all2 (drept t) ss xs)"

lemma tovector_fold:
  assumes "list_all2 (drept t) ss xs" and "\<forall>x\<in>set xs. length x < dmax"
  shows "gives (fold_seq (\<lambda>(i, vec) str more.
      bindR (dnewcopy str) (\<lambda>s. bindR (vec_put vec i (Some s)) (\<lambda>vec. Inr (Suc i, vec))))
    (length v, v @ replicate (length ss) None @ [Some None]) ss)
    (\<lambda>(i, vec). \<exists>cs. vec = v @ map (Some \<circ> Some) cs @ [Some None] \<and> list_all2 (drept t) cs xs)"
  using assms
proof (induction ss xs arbitrary: v rule: list_all2_induct)
  case Nil
  then show ?case by simp
next
  case (Cons s ss x xs)
  from Cons.hyps Cons.prems have "gives (dnewcopy s) (\<lambda>s'. drept t s' x)"
    by (intro gives_mono [OF dnewcopy_gives]) (auto simp: drept_def)
  then obtain c where c: "dnewcopy s = Inr c" "drept t c x" by (rule givesE)
  have put: "vec_put (v @ replicate (length (s # ss)) None @ [Some None]) (length v) (Some c) =
      Inr ((v @ [Some (Some c)]) @ replicate (length ss) None @ [Some None])"
    by (simp add: vec_put_def)
  have "gives (fold_seq (\<lambda>(i, vec) str more.
      bindR (dnewcopy str) (\<lambda>s. bindR (vec_put vec i (Some s)) (\<lambda>vec. Inr (Suc i, vec))))
    (Suc (length v), (v @ [Some (Some c)]) @ replicate (length ss) None @ [Some None]) ss)
    (\<lambda>(i, vec). \<exists>cs. vec = v @ map (Some \<circ> Some) cs @ [Some None] \<and> list_all2 (drept t) cs (x # xs))"
    (is "gives ?m _")
  proof -
    from Cons.IH [of "v @ [Some (Some c)]"] Cons.prems obtain i cs where
      cs: "?m = Inr (i, (v @ [Some (Some c)]) @ map (Some \<circ> Some) cs @ [Some None])"
        "list_all2 (drept t) cs xs"
      by (auto simp: gives_def comp_def)
    show ?thesis unfolding cs(1) using c(2) cs(2)
      by (simp, intro exI [of _ "c # cs"]) simp
  qed
  with c(1) put show ?case by (simp add: comp_def)
qed

lemma dlist_tovector_gives:
  assumes "dlrep t l xs" and "\<forall>x\<in>set xs. length x < dmax" and "length xs < 2 ^ 64 - 1"
  shows "gives (dlist_tovector l) (\<lambda>v. vrep t v xs)"
proof -
  from assms(1) obtain ss where ss: "lrep l ss" "list_all2 (drept t) ss xs"
    by (auto simp: dlrep_def)
  have len: "length ss = length xs" using ss(2) by (rule list_all2_lengthD)
  have sz: "unat (lsize l) = length ss" "unat (lsize l + 1) = Suc (length ss)"
    using lrep_size [OF ss(1)] len assms(3)
    by (simp_all add: unat_of_nat unat_word_ariths)
  have "(replicate (Suc n) None)[n := Some None] = replicate n None @ [Some None]"
    for n and z :: dvec
    by (induction n) auto
  then have "vec_put (replicate (Suc (length ss)) None) (length ss) None =
      Inr (replicate (length ss) None @ [Some None] :: dvec)"
    by (simp add: vec_put_def del: replicate_Suc)
  with tovector_fold [OF ss(2) assms(2), of "[]"] sz show ?thesis
    unfolding dlist_tovector_def fold_from_lrep [OF ss(1)]
    by (auto simp: vrep_def gives_def simp del: replicate_Suc split: prod.splits)
qed

lemma vrep_size: "vrep t v xs \<Longrightarrow> dvec_size v = Inr (length xs)"
proof -
  have "vec_size_from (map (Some \<circ> Some) ss @ [Some None]) i = Inr (i + length ss)" for ss i
    by (induction ss arbitrary: i) auto
  then show "vrep t v xs \<Longrightarrow> ?thesis"
    by (auto simp: vrep_def dvec_size_def dest: list_all2_lengthD)
qed

lemma vrep_nth: "vrep t v xs \<Longrightarrow> i < length xs \<Longrightarrow> \<exists>s. v ! i = Some (Some s) \<and> drept t s (xs ! i)"
  by (auto simp: vrep_def nth_append list_all2_conv_all_nth)

end
