(* ===== verification/Split.thy ===== *)
theory Split
  imports DstrList
begin

text \<open>
  Splitting a dynamic string (\<open>dsplit\<close>, \<open>dsplit_on_cs\<close>, \<open>dsplitcs\<close> and
  \<open>dsplitcs_on_cs\<close> of \<open>src/common/dstrutils.c\<close>): the loop that cuts at every
  occurrence of the separator, with the limit on the number of pieces, and the
  specification of its result.
\<close>

section \<open>The code\<close>

text \<open>
  The loop need not end (an empty separator never advances), so it is a partial function:
  \<open>None\<close> is the run that does not return.  The position is an \<open>unsigned int\<close>
  compared with the converted -1.
\<close>

partial_function (option) split_loop ::
  "(u32 \<Rightarrow> int res) \<Rightarrow> dstring \<Rightarrow> u32 \<Rightarrow> u64 \<Rightarrow> dstrlist \<Rightarrow> u32 \<Rightarrow> u32 \<Rightarrow> u32 \<Rightarrow>
   dstrlist res option" where
  "split_loop pos text slen mx result i j k =
     (if i = - 1 then Some (bindR (dsub text j (dlen text - j)) (dlist_push result))
      else case bindR (dsub text j (i - j)) (dlist_push result) of
             Inl e \<Rightarrow> Some (Inl e)
           | Inr result \<Rightarrow>
               if ucast (k + 1 + 1) = mx
               then Some (bindR (dsub text (i + slen) (dlen text - (i + slen))) (dlist_push result))
               else (case pos (i + slen) of
                       Inl e \<Rightarrow> Some (Inl e)
                     | Inr p \<Rightarrow>
                         split_loop pos text slen mx result (word_of_int p) (i + slen) (k + 1)))"

definition split_on :: "(u32 \<Rightarrow> int res) \<Rightarrow> u32 \<Rightarrow> dstring \<Rightarrow> u64 \<Rightarrow> dstrlist res" where
  "split_on pos slen text mx0 =
     (if mx0 = 1 then dlist_add dlist_new text
      else let mx = (if mx0 = 0 then ucast (dlen text) else mx0) in
        bindR (pos 0) (\<lambda>p.
          case split_loop pos text slen mx dlist_new (word_of_int p) 0 0 of
            None \<Rightarrow> Inl Diverge
          | Some r \<Rightarrow> r))"

definition dsplit :: "dstring \<Rightarrow> dstring \<Rightarrow> u64 \<Rightarrow> dstrlist res" where
  "dsplit text on mx = split_on (dpos text on) (dlen on) text mx"

definition dsplit_on_cs :: "dstring \<Rightarrow> string \<Rightarrow> u64 \<Rightarrow> dstrlist res" where
  "dsplit_on_cs text on mx = split_on (dposcs text on) (ucast (strlen on)) text mx"

definition dsplitcs :: "string \<Rightarrow> dstring \<Rightarrow> u64 \<Rightarrow> dstrlist res" where
  "dsplitcs text on mx = bindR (dfromcs text) (\<lambda>s. dsplit s on mx)"

definition dsplitcs_on_cs :: "string \<Rightarrow> string \<Rightarrow> u64 \<Rightarrow> dstrlist res" where
  "dsplitcs_on_cs text on mx = bindR (dfromcs text) (\<lambda>s. dsplit_on_cs s on mx)"

section \<open>The pieces of a string\<close>

text \<open>\<open>pieces p n xs\<close>: cut \<open>xs\<close> at the first \<open>n\<close> occurrences of \<open>p\<close>, from the left.\<close>

fun pieces :: "string \<Rightarrow> nat \<Rightarrow> string \<Rightarrow> string list" where
  "pieces p 0 xs = [xs]"
| "pieces p (Suc n) xs =
     (case first_occ p xs 0 of
        None \<Rightarrow> [xs]
      | Some i \<Rightarrow> take i xs # pieces p n (drop (i + length p) xs))"

text \<open>
  The number of cuts the code makes at most, for a limit \<open>mx\<close> and a text of length
  \<open>n\<close>: the limit 0 is replaced by the length of the text, and a limit that is then 0 or
  1 is never met.
\<close>

definition cuts :: "nat \<Rightarrow> nat \<Rightarrow> nat" where
  "cuts mx n = (if mx = 1 then 0
                else let m = (if mx = 0 then n else mx) in if m \<le> 1 then n else m - 1)"

lemma pieces_ne [simp]: "pieces p n xs \<noteq> []"
  by (cases n) (auto split: option.splits)

lemma occurs_split: "occurs p xs i \<Longrightarrow> xs = take i xs @ p @ drop (i + length p) xs"
  unfolding occurs_def by (metis append_take_drop_id drop_drop add.commute)

lemma join_pieces: "join p (pieces p n xs) = xs"
proof (induction n arbitrary: xs)
  case 0
  then show ?case by simp
next
  case (Suc n)
  show ?case
  proof (cases "first_occ p xs 0")
    case None
    then show ?thesis by simp
  next
    case (Some i)
    then have "occurs p xs i" by (simp add: first_occ_Some)
    with Some show ?thesis using occurs_split [of p xs i]
      by (simp add: join_step [of p "take i xs"] Suc.IH)
  qed
qed

lemma length_pieces: "length (pieces p n xs) \<le> Suc n"
  by (induction n arbitrary: xs) (auto split: option.splits)

lemma piece_length: "y \<in> set (pieces p n xs) \<Longrightarrow> length y \<le> length xs"
  by (induction n arbitrary: xs) (auto split: option.splits dest!: Suc_le_D
      intro: order_trans [rotated] simp: le_diff_conv, fastforce)

text \<open>No piece but the last holds an occurrence; with enough cuts the last does not either.\<close>

lemma occurs_take: "occurs p (take k xs) i \<Longrightarrow> occurs p xs i"
  by (auto simp: occurs_def drop_take min_def split: if_splits)

lemma pieces_butlast:
  assumes "p \<noteq> []"
  shows "y \<in> set (butlast (pieces p n xs)) \<Longrightarrow> \<not> occurs p y i"
proof (induction n arbitrary: xs)
  case (Suc n)
  from Suc.prems obtain j where j: "first_occ p xs 0 = Some j"
    by (auto split: option.splits)
  from Suc.prems j consider "y = take j xs" | "y \<in> set (butlast (pieces p n (drop (j + length p) xs)))"
    by (auto split: if_splits)
  then show ?case
  proof cases
    case 1
    show ?thesis
    proof
      assume o: "occurs p y i"
      then have "occurs p xs i" using 1 by (auto dest: occurs_take)
      moreover have "i < j" using o 1 assms
        by (cases p) (auto simp: occurs_def min_def split: if_splits)
      ultimately show False using j by (auto simp: first_occ_Some)
    qed
  qed (use Suc.IH in blast)
qed simp

lemma pieces_all:
  assumes "p \<noteq> []"
  shows "length xs \<le> n \<Longrightarrow> y \<in> set (pieces p n xs) \<Longrightarrow> \<not> occurs p y i"
proof (induction n arbitrary: xs)
  case 0
  then show ?case using assms by (auto simp: occurs_def)
next
  case (Suc n)
  show ?case
  proof (cases "first_occ p xs 0")
    case None
    with Suc.prems show ?thesis by (auto simp: first_occ_None)
  next
    case (Some j)
    have "length (drop (j + length p) xs) \<le> n" using Suc.prems(1) assms by (cases p) auto
    from Suc.IH [OF this] have rest: "y \<in> set (pieces p n (drop (j + length p) xs)) \<Longrightarrow> ?thesis" .
    have "y \<in> set (butlast (pieces p (Suc n) xs)) \<or> y \<in> set (pieces p n (drop (j + length p) xs))"
      using Suc.prems(2) Some by auto
    with rest pieces_butlast [OF assms, of y "Suc n" xs i] show ?thesis by blast
  qed
qed

section \<open>The code computes the pieces\<close>

text \<open>
  What the loop needs of the search: from every position, the first occurrence of \<open>p\<close>
  at or after it.
\<close>

definition finds :: "(u32 \<Rightarrow> int res) \<Rightarrow> string \<Rightarrow> string \<Rightarrow> bool" where
  "finds pos p xs \<longleftrightarrow> (\<forall>i. pos i = Inr (pos_int (first_occ p xs (unat i))))"

lemma finds_dpos: "drep text xs \<Longrightarrow> drep on p \<Longrightarrow> finds (dpos text on) p xs"
  by (simp add: finds_def dpos_drep)

lemma finds_dposcs:
  "drep text xs \<Longrightarrow> length on < dmax \<Longrightarrow> finds (dposcs text on) (cstr on) xs"
  by (simp add: finds_def dposcs_drep)

lemma first_occ_drop:
  assumes "j \<le> length xs"
  shows "first_occ p (drop j xs) 0 = map_option (\<lambda>i. i - j) (first_occ p xs j)"
proof (cases "first_occ p xs j")
  case None
  have "\<not> occurs p (drop j xs) i" for i
    using None assms by (auto simp: first_occ_None occurs_def le_diff_conv2 add.commute
        dest!: spec [of _ "j + i"])
  then have "first_occ p (drop j xs) 0 = None" by (simp add: first_occ_None)
  then show ?thesis using None by simp
next
  case (Some k)
  have eq: "occurs p (drop j xs) i = occurs p xs (i + j)" for i
    using assms by (auto simp: occurs_def add.commute)
  from Some have k: "j \<le> k" "occurs p xs k" "\<And>i. j \<le> i \<Longrightarrow> i < k \<Longrightarrow> \<not> occurs p xs i"
    by (auto simp: first_occ_Some)
  then have "first_occ p (drop j xs) 0 = Some (k - j)"
    by (auto simp: first_occ_Some eq)
  with Some show ?thesis by simp
qed

lemma word_of_pos_int:
  "(word_of_int (pos_int r) :: u32) = (case r of None \<Rightarrow> - 1 | Some k \<Rightarrow> of_nat k)"
  by (auto simp: pos_int_def split: option.splits)

lemma dsub_drept:
  assumes d: "drep text xs" and small: "length xs < dmax"
    and a: "unat a = i" and n: "unat n = m" and le: "i + m \<le> length xs"
  shows "gives (dsub text a n) (\<lambda>s. drept t s (take m (drop i xs)))"
  by (rule gives_mono [OF dsub_gives [OF d small]])
    (use drep_less [OF d] le a n in \<open>auto simp: drept_def\<close>)

text \<open>
  The counter \<open>k\<close> against the limit: \<open>r\<close> more cuts are allowed, exactly, or at
  least as many as there are bytes left.
\<close>

definition limit_ok :: "u64 \<Rightarrow> nat \<Rightarrow> nat \<Rightarrow> nat \<Rightarrow> bool" where
  "limit_ok mx k r rest \<longleftrightarrow>
     unat mx = k + 1 + r \<and> 0 < r \<or> unat mx \<le> k + 1 \<and> rest \<le> r"

lemma unat_minus_one_word_32: "unat (- 1 :: u32) = 2 ^ 32 - 1"
  by (simp add: unsigned_minus_1_eq_mask mask_eq_exp_minus_1)

lemma split_loop_pieces:
  assumes d: "drep text xs" and small: "length xs < dmax"
    and f: "finds pos p xs" and p: "p \<noteq> []" "slen = of_nat (length p)"
  shows "unat j + length ys = length xs \<Longrightarrow> ys = drop (unat j) xs \<Longrightarrow>
    unat k \<le> unat j \<Longrightarrow> limit_ok mx (unat k) r (length ys) \<Longrightarrow> dlrep t l zs \<Longrightarrow>
    pos j = Inr i \<Longrightarrow>
    \<exists>res. split_loop pos text slen mx l (word_of_int i) j k = Some res \<and>
      gives res (\<lambda>l'. dlrep t l' (zs @ pieces p r ys))"
proof (induction r arbitrary: ys j k l zs i)
  case (0 ys j k l zs i)
  then have "ys = []" by (auto simp: limit_ok_def)
  with 0 p have "first_occ p xs (unat j) = None" by (auto simp: first_occ_None occurs_def)
  with 0 f have i: "i = - 1" by (simp add: finds_def pos_int_def)
  have "gives (dsub text j (dlen text - j)) (\<lambda>s. drept t s (take 0 (drop (unat j) xs)))"
    by (rule dsub_drept [OF d small])
      (use 0 \<open>ys = []\<close> drep_len [OF d] in \<open>auto simp: unat_sub word_le_nat_alt\<close>)
  then have "gives (bindR (dsub text j (dlen text - j)) (dlist_push l)) (\<lambda>l'. dlrep t l' (zs @ [[]]))"
    by (rule gives_bind) (use 0 dlist_push_gives in auto)
  with i \<open>ys = []\<close> show ?case by (subst split_loop.simps) simp
next
  case (Suc r ys j k l zs i)
  show ?case
  proof (cases "first_occ p xs (unat j)")
    case None
    then have i: "i = - 1" using Suc.prems(6) f by (simp add: finds_def pos_int_def)
    have "gives (dsub text j (dlen text - j)) (\<lambda>s. drept t s (take (length ys) (drop (unat j) xs)))"
      by (rule dsub_drept [OF d small])
        (use Suc.prems drep_len [OF d] in \<open>auto simp: unat_sub word_le_nat_alt\<close>)
    then have "gives (bindR (dsub text j (dlen text - j)) (dlist_push l)) (\<lambda>l'. dlrep t l' (zs @ [ys]))"
      by (rule gives_bind) (use Suc.prems dlist_push_gives in auto)
    moreover have "first_occ p ys 0 = None"
      using None Suc.prems(1,2) by (simp add: first_occ_drop)
    ultimately show ?thesis using i by (subst split_loop.simps) simp
  next
    case (Some m)
    then have m: "unat j \<le> m" "m + length p \<le> length xs" by (auto simp: first_occ_Some occurs_def)
    have i: "word_of_int i = (of_nat m :: u32)"
      using Suc.prems(6) f Some word_of_pos_int [of "Some m"] by (auto simp: finds_def)
    have um: "unat (of_nat m :: u32) = m" using m small by (simp add: unat_of_nat)
    have ne: "(of_nat m :: u32) \<noteq> - 1"
    proof
      assume "(of_nat m :: u32) = - 1"
      then have "m = unat (- 1 :: u32)" using um by metis
      also have "\<dots> = 2 ^ 32 - 1" by (simp add: unat_minus_one_word_32)
      finally show False using m small by simp
    qed
    define ys' where "ys' = drop (m - unat j + length p) ys"
    define j' where "j' = (of_nat m + slen :: u32)"
    have j': "unat j' = m + length p" using m small p um
      by (simp add: j'_def unat_word_ariths unat_of_nat)
    have ys': "ys' = drop (unat j') xs" "unat j' + length ys' = length xs"
      using Suc.prems(1,2) m j' by (simp_all add: ys'_def)
    have pieces: "pieces p (Suc r) ys = take (m - unat j) ys # pieces p r ys'"
      using Some Suc.prems(1,2) by (simp add: first_occ_drop ys'_def)
    have "gives (dsub text j (of_nat m - j)) (\<lambda>s. drept t s (take (m - unat j) (drop (unat j) xs)))"
      by (rule dsub_drept [OF d small])
        (use Suc.prems m um in \<open>auto simp: unat_sub word_le_nat_alt\<close>)
    then have "gives (bindR (dsub text j (of_nat m - j)) (dlist_push l))
        (\<lambda>l'. dlrep t l' (zs @ [take (m - unat j) ys]))"
      by (rule gives_bind) (use Suc.prems dlist_push_gives in auto)
    then obtain l' where l': "bindR (dsub text j (of_nat m - j)) (dlist_push l) = Inr l'"
      "dlrep t l' (zs @ [take (m - unat j) ys])" by (rule givesE)
    have kj: "unat k < unat j'" using Suc.prems(3) m j' p by (cases p) auto
    have k1: "unat (k + 1) = unat k + 1" using kj j' m small by (subst unat_add_small) auto
    have k2: "unat (k + 1 + 1) = unat k + 2" using kj j' m small k1 by (subst unat_add_small) auto
    have test: "ucast (k + 1 + 1) = mx \<longleftrightarrow> unat mx = unat k + 2"
      by (metis k2 unat_ucast_up word_unat_eq_iff)
    show ?thesis
    proof (cases "unat mx = unat k + 2")
      case True
      with Suc.prems(4) have r: "r = 0" by (auto simp: limit_ok_def)
      then have r0: "pieces p r ys' = [ys']" by simp
      have "gives (dsub text j' (dlen text - j')) (\<lambda>s. drept t s (take (length ys') (drop (unat j') xs)))"
        by (rule dsub_drept [OF d small])
          (use ys' j' drep_len [OF d] in \<open>auto simp: unat_sub word_le_nat_alt\<close>)
      then have "gives (bindR (dsub text j' (dlen text - j')) (dlist_push l'))
          (\<lambda>l'. dlrep t l' ((zs @ [take (m - unat j) ys]) @ [ys']))"
        by (rule gives_bind) (use ys' dlist_push_gives [OF l'(2)] in auto)
      then show ?thesis using ne l'(1) True test r0 pieces
        by (subst split_loop.simps) (simp add: i j'_def [symmetric] del: pieces.simps)
    next
      case False
      with test have nt: "ucast (k + 1 + 1) \<noteq> mx" by simp
      have lim: "limit_ok mx (unat (k + 1)) r (length ys')"
        using Suc.prems(4) False k1 ys' j' Suc.prems(1) m p
        by (cases p) (auto simp: limit_ok_def)
      obtain i' where i': "pos j' = Inr i'" using f by (auto simp: finds_def)
      from Suc.IH [OF ys'(2,1) _ lim l'(2) i'] kj k1 obtain res where
        "split_loop pos text slen mx l' (word_of_int i') j' (k + 1) = Some res"
        "gives res (\<lambda>l''. dlrep t l'' ((zs @ [take (m - unat j) ys]) @ pieces p r ys'))"
        by auto
      then show ?thesis using ne l'(1) nt i' pieces
        by (subst split_loop.simps) (simp add: i j'_def [symmetric] del: pieces.simps)
    qed
  qed
qed

lemma split_on_gives:
  assumes d: "drept t text xs" and small: "length xs < dmax"
    and f: "finds pos p xs" and p: "p \<noteq> []" "slen = of_nat (length p)"
  shows "gives (split_on pos slen text mx)
    (\<lambda>l. dlrep t l (pieces p (cuts (unat mx) (length xs)) xs))"
proof (cases "mx = 1")
  case True
  then show ?thesis using dlist_add_gives [OF dlrep_new d small]
    by (simp add: split_on_def cuts_def)
next
  case False
  then have mx1: "unat mx \<noteq> 1" by (metis unat_1 word_unat_eq_iff)
  define m where "m = (if mx = 0 then ucast (dlen text) else mx)"
  have d': "drep text xs" using d by (simp add: drept_def)
  have m: "unat m = (if unat mx = 0 then length xs else unat mx)"
    using drep_len [OF d'] by (simp add: m_def unat_ucast_up unat_eq_zero)
  have lim: "limit_ok m (unat (0::u32)) (cuts (unat mx) (length xs)) (length xs)"
    using m mx1 by (auto simp: limit_ok_def cuts_def Let_def)
  obtain i where i: "pos 0 = Inr i" using f by (auto simp: finds_def)
  from split_loop_pieces [OF d' small f p, of 0 xs 0 m _ t dlist_new "[]" i] lim i obtain res where
    "split_loop pos text slen m dlist_new (word_of_int i) 0 0 = Some res"
    "gives res (\<lambda>l'. dlrep t l' (pieces p (cuts (unat mx) (length xs)) xs))"
    by auto
  then show ?thesis using False i by (simp add: split_on_def m_def)
qed

lemma dsplit_gives:
  assumes "drept t text xs" and "drep on p" and "length xs < dmax" and "p \<noteq> []"
  shows "gives (dsplit text on mx) (\<lambda>l. dlrep t l (pieces p (cuts (unat mx) (length xs)) xs))"
  unfolding dsplit_def
proof (rule split_on_gives)
  show "dlen on = of_nat (length p)" by (simp add: drep_len [OF assms(2), symmetric])
qed (use assms finds_dpos in \<open>auto simp: drept_def\<close>)

lemma dsplit_on_cs_gives:
  assumes "drept t text xs" and "length on < dmax" and "length xs < dmax" and "cstr on \<noteq> []"
  shows "gives (dsplit_on_cs text on mx)
    (\<lambda>l. dlrep t l (pieces (cstr on) (cuts (unat mx) (length xs)) xs))"
  unfolding dsplit_on_cs_def
proof (rule split_on_gives)
  show "ucast (strlen on) = (of_nat (length (cstr on)) :: u32)" 
    by (simp add: strlen_def unsigned_of_nat) (rule bit_word_eqI, simp add: bit_simps)
qed (use assms finds_dposcs in \<open>auto simp: drept_def\<close>)

lemma dsplitcs_on_cs_gives:
  assumes "length str < dmax" and "length on < dmax" and "cstr on \<noteq> []"
  shows "gives (dsplitcs_on_cs str on mx)
    (\<lambda>l. dlrep True l (pieces (cstr on) (cuts (unat mx) (length (cstr str))) (cstr str)))"
  unfolding dsplitcs_on_cs_def
proof (rule gives_bind [OF dfromcs_gives])
  fix s assume "dholds (cstr str) s \<and> dcap s = (length (cstr str) div 64 + 1) * 64"
  with length_cstr_le [of str] assms show "gives (dsplit_on_cs s on mx)
    (\<lambda>l. dlrep True l (pieces (cstr on) (cuts (unat mx) (length (cstr str))) (cstr str)))"
    by (intro dsplit_on_cs_gives) (auto simp: drept_def dholds_def)
qed (use assms in auto)

end
