(* ===== verification/Lexer.thy ===== *)
theory Lexer
  imports DstrList
begin

text \<open>
  The command lexer of \<open>src/common/dstrutils.c\<close> (\<open>dstrlex_parse\<close>,
  \<open>dstrlex_escape\<close> and its variants, \<open>dstrlex_errstr\<close>), which both ends of the
  network protocol use to read and to write the words of a command; a lexer on plain
  strings that specifies it, the refinement between the two, and the round trip of
  escaping and lexing.
\<close>

section \<open>The code\<close>

definition DSTRLEX_OK :: int where "DSTRLEX_OK = 0"
definition DSTRLEX_ESCAPE :: int where "DSTRLEX_ESCAPE = 1"
definition DSTRLEX_STRING :: int where "DSTRLEX_STRING = 2"

abbreviation (input) chr_quote :: char where "chr_quote \<equiv> CHR 0x22"
abbreviation (input) chr_bslash :: char where "chr_bslash \<equiv> CHR 0x5C"
abbreviation (input) chr_tab :: char where "chr_tab \<equiv> CHR 0x09"
abbreviation (input) chr_nl :: char where "chr_nl \<equiv> CHR 0x0A"
abbreviation (input) chr_cr :: char where "chr_cr \<equiv> CHR 0x0D"
abbreviation (input) chr_sp :: char where "chr_sp \<equiv> CHR 0x20"

record lexer =
  lx_escape :: bool
  lx_string :: bool
  lx_buffer :: dstring
  lx_tokens :: dstrlist

definition lx_emit :: "char \<Rightarrow> lexer \<Rightarrow> lexer res" where
  "lx_emit c st = bindR (dcatc (lx_buffer st) (schar c)) (\<lambda>b. Inr (st\<lparr>lx_buffer := b\<rparr>))"

definition lx_flush :: "lexer \<Rightarrow> lexer res" where
  "lx_flush st =
     bindR (dlist_add (lx_tokens st) (lx_buffer st)) (\<lambda>ts.
     bindR (dclear (lx_buffer st)) (\<lambda>b. Inr (st\<lparr>lx_tokens := ts, lx_buffer := b\<rparr>)))"

text \<open>The character an escape stands for (the inner \<open>switch\<close>).\<close>

definition unescape :: "char \<Rightarrow> char" where
  "unescape ch =
     (if ch = CHR ''n'' then chr_nl
      else if ch = CHR ''r'' then chr_cr
      else if ch = CHR ''0'' then nul
      else if ch = chr_quote then chr_quote
      else if ch = CHR ''t'' then chr_tab
      else if ch = chr_bslash then chr_bslash
      else ch)"

text \<open>One turn of the loop.\<close>

definition lex_char :: "char \<Rightarrow> lexer \<Rightarrow> lexer res" where
  "lex_char ch st =
     (if lx_escape st then
        bindR (lx_emit (unescape ch) st) (\<lambda>st. Inr (st\<lparr>lx_escape := False\<rparr>))
      else if lx_string st then
        (if ch = chr_quote then
           bindR (lx_flush st) (\<lambda>st. Inr (st\<lparr>lx_string := False\<rparr>))
         else if ch = chr_bslash then Inr (st\<lparr>lx_escape := True\<rparr>)
         else lx_emit ch st)
      else
        (if ch = chr_quote then
           bindR (if dlen (lx_buffer st) \<noteq> 0 then lx_flush st else Inr st)
             (\<lambda>st. Inr (st\<lparr>lx_string := True\<rparr>))
         else if ch = chr_bslash then Inr (st\<lparr>lx_escape := True\<rparr>)
         else if ch = chr_sp \<or> ch = chr_tab \<or> ch = chr_nl \<or> ch = chr_cr then
           (if dlen (lx_buffer st) \<noteq> 0 then lx_flush st else Inr st)
         else lx_emit ch st))"

text \<open>
  The result is the error code and the list of words, \<open>None\<close> for \<open>NULL\<close>.
\<close>

definition dstrlex_parse :: "dstring \<Rightarrow> (int \<times> dstrlist option) res" where
  "dstrlex_parse str =
     bindR (foldR (\<lambda>i st. bindR (peek (ddata str) i) (\<lambda>ch. lex_char ch st)) [0..<unat (dlen str)]
       \<lparr>lx_escape = False, lx_string = False, lx_buffer = dnew, lx_tokens = dlist_new\<rparr>) (\<lambda>st.
     if lx_escape st then
       bindR (dlist_free (lx_tokens st)) (\<lambda>_. Inr (DSTRLEX_ESCAPE, None))
     else if lx_string st then
       bindR (dlist_free (lx_tokens st)) (\<lambda>_. Inr (DSTRLEX_STRING, None))
     else if dlen (lx_buffer st) \<noteq> 0 then
       bindR (dlist_add (lx_tokens st) (lx_buffer st)) (\<lambda>ts. Inr (DSTRLEX_OK, Some ts))
     else Inr (DSTRLEX_OK, Some (lx_tokens st)))"

text \<open>The \<open>switch\<close> of \<open>dstrlex_escape_mem\<close>, on one byte of the text.\<close>

definition escape_char :: "char \<Rightarrow> dstring \<Rightarrow> dstring res" where
  "escape_char c out =
     (if c = chr_nl then dcatcs out [chr_bslash, CHR ''n'']
      else if c = chr_cr then dcatcs out [chr_bslash, CHR ''r'']
      else if c = nul then dcatcs out [chr_bslash, CHR ''0'']
      else if c = chr_quote then dcatcs out [chr_bslash, chr_quote]
      else if c = chr_tab then dcatcs out [chr_bslash, CHR ''t'']
      else if c = chr_bslash then dcatcs out [chr_bslash, chr_bslash]
      else dcatc out (schar c))"

definition dstrlex_escape_mem :: "block \<Rightarrow> u32 \<Rightarrow> dstring res" where
  "dstrlex_escape_mem mem sz =
     foldR (\<lambda>i out. bindR (peek mem i) (\<lambda>c. escape_char c out)) [0..<unat sz] dnew"

definition dstrlex_escape :: "dstring \<Rightarrow> dstring res" where
  "dstrlex_escape str = dstrlex_escape_mem (ddata str) (dlen str)"

definition dstrlex_escape_cs :: "string \<Rightarrow> dstring res" where
  "dstrlex_escape_cs str = dstrlex_escape_mem (cmem str) (ucast (strlen str))"

definition dstrlex_errstr :: "int \<Rightarrow> string" where
  "dstrlex_errstr code =
     (if code = DSTRLEX_OK then ''Ok''
      else if code = DSTRLEX_ESCAPE then ''Invalid escape sequence''
      else if code = DSTRLEX_STRING then ''Unterminated string''
      else ''Unknown error'')"

section \<open>The lexer on strings\<close>

text \<open>
  The state: inside an escape, inside quotes, the word being read, the words read.
  \<open>lex_fits\<close>: the word being read never reaches the 32 bytes of the code's buffer.
\<close>

type_synonym lexst = "bool \<times> bool \<times> string \<times> string list"

fun lstep :: "lexst \<Rightarrow> char \<Rightarrow> lexst" where
  "lstep (True, q, w, ws) c = (False, q, w @ [unescape c], ws)"
| "lstep (False, True, w, ws) c =
     (if c = chr_quote then (False, False, [], ws @ [w])
      else if c = chr_bslash then (True, True, w, ws)
      else (False, True, w @ [c], ws))"
| "lstep (False, False, w, ws) c =
     (if c = chr_quote then (False, True, [], if w = [] then ws else ws @ [w])
      else if c = chr_bslash then (True, False, w, ws)
      else if c \<in> {chr_sp, chr_tab, chr_nl, chr_cr}
        then (False, False, [], if w = [] then ws else ws @ [w])
      else (False, False, w @ [c], ws))"

abbreviation word_of :: "lexst \<Rightarrow> string" where "word_of a \<equiv> fst (snd (snd a))"
abbreviation words_of :: "lexst \<Rightarrow> string list" where "words_of a \<equiv> snd (snd (snd a))"

definition lfinish :: "lexst \<Rightarrow> int \<times> string list option" where
  "lfinish a = (case a of (e, q, w, ws) \<Rightarrow>
     if e then (DSTRLEX_ESCAPE, None) else if q then (DSTRLEX_STRING, None)
     else (DSTRLEX_OK, Some (if w = [] then ws else ws @ [w])))"

definition lex :: "string \<Rightarrow> int \<times> string list option" where
  "lex xs = lfinish (foldl lstep (False, False, [], []) xs)"

fun lex_fits_from :: "lexst \<Rightarrow> string \<Rightarrow> bool" where
  "lex_fits_from a [] \<longleftrightarrow> True"
| "lex_fits_from a (c # cs) \<longleftrightarrow>
     length (word_of (lstep a c)) < 32 \<and> lex_fits_from (lstep a c) cs"

definition lex_fits :: "string \<Rightarrow> bool" where
  "lex_fits xs \<longleftrightarrow> lex_fits_from (False, False, [], []) xs"

section \<open>The code implements it\<close>

lemma foldR_peeks:
  assumes "take (length xs) b = map Some xs" and "length xs \<le> length b"
  shows "foldR (\<lambda>i st. bindR (peek b i) (\<lambda>c. f c st)) [0..<length xs] s = foldR f xs s"
proof -
  have nth: "peek b i = Inr (xs ! i)" if "i < length xs" for i
  proof -
    have "take (length xs) b ! i = Some (xs ! i)" using assms(1) that by simp
    with that assms(2) show ?thesis by (simp add: peek_def)
  qed
  have "foldR (\<lambda>i st. bindR (peek b i) (\<lambda>c. f c st)) [0..<length xs] s =
      foldR (\<lambda>i. f (xs ! i)) [0..<length xs] s"
    by (rule foldR_cong) (auto simp: nth)
  also have "\<dots> = foldR f (map ((!) xs) [0..<length xs]) s"
    by (simp add: foldR_map)
  finally show ?thesis by (simp add: map_nth)
qed

text \<open>
  The simulation relation.  The words are zero-terminated, unless the first one is an
  empty string in quotes: it is a copy of the buffer before anything was written to it.
\<close>

definition first_ok :: "string list \<Rightarrow> bool" where
  "first_ok ws \<longleftrightarrow> (case ws of [] \<Rightarrow> True | w # _ \<Rightarrow> w \<noteq> [])"

definition lx_rel :: "lexer \<Rightarrow> lexst \<Rightarrow> bool" where
  "lx_rel st a \<longleftrightarrow> (case a of (e, q, w, ws) \<Rightarrow>
     lx_escape st = e \<and> lx_string st = q \<and>
     drep (lx_buffer st) w \<and> dsize (lx_buffer st) = 32 \<and> length w < 32 \<and>
     dlrep (first_ok ws) (lx_tokens st) ws \<and>
     (dterm (lx_buffer st) \<or> ws = [] \<and> w = []))"

lemma first_ok_snoc: "first_ok (ws @ [w]) \<longleftrightarrow> (if ws = [] then w \<noteq> [] else first_ok ws)"
  by (cases ws) (auto simp: first_ok_def)

lemma first_ok_snocD: "first_ok (ws @ [w]) \<Longrightarrow> first_ok ws"
  by (cases ws) (auto simp: first_ok_def)

lemma dlrep_mono: "dlrep t l xs \<Longrightarrow> (t' \<Longrightarrow> t) \<Longrightarrow> dlrep t' l xs"
  unfolding dlrep_def drept_def by (metis (mono_tags, lifting) list_all2_mono)

lemma dcatc_small:
  assumes "drep dst xs" and "length xs + 1 < dcap dst" and "length xs + 1 < dmax"
  shows "gives (dcatc dst c) (\<lambda>s. dholds (xs @ [to_char c]) s \<and> dsize s = dsize dst)"
proof -
  have u: "unat (dlen dst + 1) = length xs + length [to_char c]"
    using drep_len [OF assms(1)] assms(3) by (subst unat_add_small) auto
  then have "add_size dst 1 = Inr dst" using assms(2) by (simp add: add_size_def word_le_nat_alt)
  then show ?thesis using append_put_z [OF assms(1) _ u, of 0 "[Some (to_char c)]"] assms(2)
    by (simp add: dcatc_eq_dcatmem dcatmem_def)
qed

lemma lx_emit_rel:
  assumes "lx_rel st (e, q, w, ws)"
  shows "length w < 31 \<Longrightarrow> gives (lx_emit c st) (\<lambda>st. lx_rel st (e, q, w @ [c], ws))"
    and "length w = 31 \<Longrightarrow> lx_emit c st = Inl OutOfBounds"
proof -
  assume w: "length w < 31"
  have "gives (dcatc (lx_buffer st) (schar c))
      (\<lambda>b. dholds (w @ [to_char (schar c)]) b \<and> dsize b = dsize (lx_buffer st))"
    by (rule dcatc_small) (use assms w in \<open>auto simp: lx_rel_def\<close>)
  then show "gives (lx_emit c st) (\<lambda>st. lx_rel st (e, q, w @ [c], ws))"
    unfolding lx_emit_def by (rule gives_bind) (use assms w in \<open>auto simp: lx_rel_def dholds_def\<close>)
next
  assume w: "length w = 31"
  then show "lx_emit c st = Inl OutOfBounds"
    using assms dcatc_fault [of "lx_buffer st" w "schar c"] by (simp add: lx_emit_def lx_rel_def)
qed

lemma lx_flush_rel:
  assumes "lx_rel st (e, q, w, ws)"
  shows "gives (lx_flush st) (\<lambda>st. lx_rel st (e, q, [], ws @ [w]))"
  unfolding lx_flush_def
proof (rule gives_bind [OF dlist_add_gives], rule dlrep_mono)
  show "dlrep (first_ok ws) (lx_tokens st) ws" using assms by (simp add: lx_rel_def)
  show "drept (first_ok (ws @ [w])) (lx_buffer st) w"
    using assms by (auto simp: lx_rel_def drept_def first_ok_snoc)
  fix ts assume ts: "dlrep (first_ok (ws @ [w])) ts (ws @ [w])"
  have "gives (dclear (lx_buffer st)) (\<lambda>s'. dholds [] s' \<and> dsize s' = dsize (lx_buffer st))"
    using assms by (intro dclear_gives [of _ w]) (simp add: lx_rel_def)
  then show "gives (bindR (dclear (lx_buffer st))
      (\<lambda>b. Inr (st\<lparr>lx_tokens := ts, lx_buffer := b\<rparr>))) (\<lambda>st. lx_rel st (e, q, [], ws @ [w]))"
    by (rule gives_bind) (use assms ts in \<open>auto simp: lx_rel_def dholds_def\<close>)
qed (use assms first_ok_snocD in \<open>auto simp: lx_rel_def\<close>)

lemma lx_rel_dlen: "lx_rel st (e, q, w, ws) \<Longrightarrow> dlen (lx_buffer st) = 0 \<longleftrightarrow> w = []"
  using drep_len [of "lx_buffer st" w] by (auto simp: lx_rel_def unat_eq_zero [symmetric])

lemma lx_opt_flush_rel:
  assumes "lx_rel st (e, q, w, ws)"
  shows "gives (if dlen (lx_buffer st) \<noteq> 0 then lx_flush st else Inr st)
    (\<lambda>st. lx_rel st (e, q, [], if w = [] then ws else ws @ [w]))"
  using lx_flush_rel [OF assms] lx_rel_dlen [OF assms] assms by auto

lemma lex_char_step:
  assumes r: "lx_rel st a"
  shows "if length (word_of (lstep a c)) < 32
    then gives (lex_char c st) (\<lambda>st. lx_rel st (lstep a c))
    else lex_char c st = Inl OutOfBounds"
proof -
  obtain e q w ws where a: "a = (e, q, w, ws)" by (cases a)
  note r = r [unfolded a]
  have sel: "lx_escape st = e" "lx_string st = q" "length w < 32" using r by (auto simp: lx_rel_def)
  have set_e: "lx_rel st (x, q', w', ws') \<Longrightarrow> lx_rel (st\<lparr>lx_escape := e'\<rparr>) (e', q', w', ws')"
    and set_q: "lx_rel st (e', x, w', ws') \<Longrightarrow> lx_rel (st\<lparr>lx_string := q'\<rparr>) (e', q', w', ws')"
    for st x e' q' w' ws' by (auto simp: lx_rel_def)
  have emit: "if length (w @ [d]) < 32
      then gives (lx_emit d st) (\<lambda>st. lx_rel st (e, q, w @ [d], ws))
      else lx_emit d st = Inl OutOfBounds" for d
    using lx_emit_rel [OF r, of d] sel(3) by auto
  have bind: "gives m (\<lambda>st. lx_rel st (e, q, w', ws')) \<Longrightarrow>
      gives (bindR m (\<lambda>st. Inr (st\<lparr>lx_string := q'\<rparr>))) (\<lambda>st. lx_rel st (e, q', w', ws'))"
    for m w' ws' q' by (erule gives_bind) (auto intro: set_q)
  consider "e" | "\<not> e" "q" | "\<not> e" "\<not> q" by blast
  then show ?thesis
  proof cases
    case 1
    have "gives (lx_emit (unescape c) st) (\<lambda>st. lx_rel st (True, q, w @ [unescape c], ws)) \<Longrightarrow>
        gives (bindR (lx_emit (unescape c) st) (\<lambda>st. Inr (st\<lparr>lx_escape := False\<rparr>)))
          (\<lambda>st. lx_rel st (False, q, w @ [unescape c], ws))"
      by (erule gives_bind) (auto intro: set_e)
    then show ?thesis using 1 emit [of "unescape c"] sel
      by (simp add: a lex_char_def split: if_splits)
  next
    case 2
    then have "e = False" "q = True" by auto
    note eq = this
    with emit [of c, unfolded eq] bind [OF lx_flush_rel [OF r], of False] sel set_e [OF r, of True]
    show ?thesis by (simp add: a lex_char_def)
  next
    case 3
    then have "e = False" "q = False" by auto
    note eq = this
    with emit [of c, unfolded eq] bind [OF lx_opt_flush_rel [OF r], of True] lx_opt_flush_rel [OF r, unfolded eq]
      sel set_e [OF r, of True]
    show ?thesis by (simp add: a lex_char_def)
  qed
qed

lemma lex_loop:
  "lx_rel st a \<Longrightarrow>
   if lex_fits_from a xs then gives (foldR lex_char xs st) (\<lambda>st. lx_rel st (foldl lstep a xs))
   else foldR lex_char xs st = Inl OutOfBounds"
proof (induction xs arbitrary: st a)
  case (Cons c xs)
  from lex_char_step [OF Cons.prems, of c] Cons.IH [of _ "lstep a c"] show ?case
    by (auto simp: gives_def split: if_splits)
qed simp

text \<open>
  The lexer of the code, against the one on strings: the same error code and the same
  words when the words fit the buffer; otherwise a write past the end of it.
\<close>

definition lex_result :: "int \<times> string list option \<Rightarrow> int \<times> dstrlist option \<Rightarrow> bool" where
  "lex_result r r' \<longleftrightarrow> fst r' = fst r \<and>
     (case snd r of None \<Rightarrow> snd r' = None
      | Some ws \<Rightarrow> (\<exists>l. snd r' = Some l \<and> dlrep (first_ok ws) l ws))"

lemma dlist_free_gives: "dlrep t l xs \<Longrightarrow> gives (dlist_free l) (\<lambda>l'. lfront l' = None)"
  by (auto simp: dlrep_def lrep_def dlist_free_def intro: gives_mono [OF free_from_linv])

lemma dstrlex_parse_gives:
  assumes d: "drep str xs" and fits: "lex_fits xs"
  shows "gives (dstrlex_parse str) (lex_result (lex xs))"
  unfolding dstrlex_parse_def
proof (rule gives_bind)
  let ?st = "\<lparr>lx_escape = False, lx_string = False, lx_buffer = dnew, lx_tokens = dlist_new\<rparr>"
  let ?a = "foldl lstep (False, False, [], []) xs"
  have "lx_rel ?st (False, False, [], [])"
    by (simp add: lx_rel_def) (simp add: dnew_def)
  from lex_loop [OF this, of xs] fits show "gives (foldR (\<lambda>i st. bindR (peek (ddata str) i)
      (\<lambda>ch. lex_char ch st)) [0..<unat (dlen str)] ?st) (\<lambda>st. lx_rel st ?a)"
    using d drep_len [OF d] by (simp add: foldR_peeks drep_def lex_fits_def)
  fix st assume r: "lx_rel st ?a"
  obtain e q w ws where a: "?a = (e, q, w, ws)" by (cases ?a)
  note r = r [unfolded a]
  have sel: "lx_escape st = e" "lx_string st = q" "dlrep (first_ok ws) (lx_tokens st) ws"
    "length w < 32" using r by (auto simp: lx_rel_def)
  obtain l where l: "dlist_free (lx_tokens st) = Inr l"
    using dlist_free_gives [OF sel(3)] by (rule givesE)
  have add: "gives (dlist_add (lx_tokens st) (lx_buffer st))
      (\<lambda>l'. dlrep (first_ok (ws @ [w])) l' (ws @ [w]))" if "w \<noteq> []"
    by (rule dlist_add_gives, rule dlrep_mono [OF sel(3)])
      (use r that first_ok_snocD in \<open>auto simp: lx_rel_def drept_def\<close>)
  show "gives (if lx_escape st then
       bindR (dlist_free (lx_tokens st)) (\<lambda>_. Inr (DSTRLEX_ESCAPE, None))
     else if lx_string st then
       bindR (dlist_free (lx_tokens st)) (\<lambda>_. Inr (DSTRLEX_STRING, None))
     else if dlen (lx_buffer st) \<noteq> 0 then
       bindR (dlist_add (lx_tokens st) (lx_buffer st)) (\<lambda>ts. Inr (DSTRLEX_OK, Some ts))
     else Inr (DSTRLEX_OK, Some (lx_tokens st))) (lex_result (lex xs))"
    using sel l lx_rel_dlen [OF r] add
    by (auto simp: lex_def lfinish_def a lex_result_def gives_def)
qed

lemma dstrlex_parse_fault:
  assumes d: "drep str xs" and fits: "\<not> lex_fits xs"
  shows "dstrlex_parse str = Inl OutOfBounds"
proof -
  have "lx_rel \<lparr>lx_escape = False, lx_string = False, lx_buffer = dnew, lx_tokens = dlist_new\<rparr>
      (False, False, [], [])"
    by (simp add: lx_rel_def) (simp add: dnew_def)
  from lex_loop [OF this, of xs] fits show ?thesis
    using d drep_len [OF d] by (simp add: foldR_peeks drep_def lex_fits_def dstrlex_parse_def)
qed

section \<open>Escaping\<close>

definition esc :: "char \<Rightarrow> string" where
  "esc c =
     (if c = chr_nl then [chr_bslash, CHR ''n'']
      else if c = chr_cr then [chr_bslash, CHR ''r'']
      else if c = nul then [chr_bslash, CHR ''0'']
      else if c = chr_quote then [chr_bslash, chr_quote]
      else if c = chr_tab then [chr_bslash, CHR ''t'']
      else if c = chr_bslash then [chr_bslash, chr_bslash]
      else [c])"

definition escape :: "string \<Rightarrow> string" where
  "escape xs = concat (map esc xs)"

definition quote :: "string \<Rightarrow> string" where
  "quote xs = chr_quote # escape xs @ [chr_quote]"

text \<open>The bytes that are escaped.\<close>

definition special :: "char \<Rightarrow> bool" where
  "special c \<longleftrightarrow> c \<in> {chr_nl, chr_cr, nul, chr_quote, chr_tab, chr_bslash}"

lemma escape_simps [simp]:
  "escape [] = []" "escape (c # cs) = esc c @ escape cs" "escape (xs @ ys) = escape xs @ escape ys"
  by (simp_all add: escape_def)

lemma escape_plain: "\<forall>c\<in>set xs. \<not> special c \<Longrightarrow> escape xs = xs"
  by (induction xs) (auto simp: esc_def special_def)

lemma escape_no_special:
  "c \<in> set (escape xs) \<Longrightarrow> c \<notin> {chr_nl, chr_cr, nul, chr_tab}"
  by (induction xs) (auto simp: esc_def split: if_splits)

lemma escape_length: "length xs \<le> length (escape xs)" "length (escape xs) \<le> 2 * length xs"
  by (induction xs) (auto simp: esc_def)

text \<open>Read back inside quotes, an escaped byte is the byte.\<close>

lemma lstep_esc: "foldl lstep (False, True, w, ws) (esc c) = (False, True, w @ [c], ws)"
  by (simp add: esc_def unescape_def)

lemma lstep_escape: "foldl lstep (False, True, w, ws) (escape xs) = (False, True, w @ xs, ws)"
  by (induction xs arbitrary: w) (simp_all add: lstep_esc)

lemma lstep_quote: "foldl lstep (False, False, [], ws) (quote xs) = (False, False, [], ws @ [xs])"
  by (simp add: quote_def lstep_escape)

lemma lstep_quotes:
  "foldl lstep (False, False, [], ws) (join [chr_sp] (map quote xss)) =
     (False, False, [], ws @ xss)"
proof (induction xss arbitrary: ws)
  case (Cons xs xss)
  then show ?case by (cases xss) (auto simp: join_step [of _ "quote xs"] lstep_quote)
qed simp

lemma lex_quotes: "lex (join [chr_sp] (map quote xss)) = (DSTRLEX_OK, Some xss)"
  by (simp add: lex_def lstep_quotes lfinish_def)

lemma lex_fits_append:
  "lex_fits_from a (xs @ ys) \<longleftrightarrow> lex_fits_from a xs \<and> lex_fits_from (foldl lstep a xs) ys"
  by (induction xs arbitrary: a) auto

lemma fits_esc: "length w < 31 \<Longrightarrow> lex_fits_from (False, True, w, ws) (esc c)"
  by (simp add: esc_def)

lemma fits_escape: "length w + length xs < 32 \<Longrightarrow> lex_fits_from (False, True, w, ws) (escape xs)"
  by (induction xs arbitrary: w) (simp_all add: lex_fits_append fits_esc lstep_esc)

lemma fits_quote: "length xs < 32 \<Longrightarrow> lex_fits_from (False, False, [], ws) (quote xs)"
  by (simp add: quote_def lex_fits_append fits_escape lstep_escape)

lemma fits_quotes:
  "\<forall>xs\<in>set xss. length xs < 32 \<Longrightarrow>
   lex_fits_from (False, False, [], ws) (join [chr_sp] (map quote xss))"
proof (induction xss arbitrary: ws)
  case (Cons xs xss)
  then show ?case
    by (cases xss) (auto simp: join_step [of _ "quote xs"] lex_fits_append fits_quote lstep_quote)
qed simp

text \<open>A text shorter than the buffer always fits.\<close>

lemma word_of_lstep: "length (word_of (lstep a c)) \<le> Suc (length (word_of a))"
  by (induction a c rule: lstep.induct) auto

lemma lex_fits_from_short: "length (word_of a) + length xs < 32 \<Longrightarrow> lex_fits_from a xs"
proof (induction xs arbitrary: a)
  case (Cons c xs)
  with word_of_lstep [of a c] show ?case by auto
qed simp

lemma lex_fits_short: "length xs < 32 \<Longrightarrow> lex_fits xs"
  by (simp add: lex_fits_def lex_fits_from_short)

text \<open>A word of 32 plain bytes does not.\<close>

lemma lex_fits_plain:
  assumes "\<forall>c\<in>set xs. \<not> special c \<and> c \<noteq> chr_sp"
  shows "length w < 32 \<Longrightarrow> lex_fits_from (False, False, w, ws) xs \<longleftrightarrow> length w + length xs < 32"
  using assms
proof (induction xs arbitrary: w)
  case (Cons c xs)
  then have "lstep (False, False, w, ws) c = (False, False, w @ [c], ws)" by (simp add: special_def)
  then have "lex_fits_from (False, False, w, ws) (c # xs) \<longleftrightarrow>
      length w < 31 \<and> lex_fits_from (False, False, w @ [c], ws) xs"
    by (simp only: lex_fits_from.simps) simp
  also have "\<dots> \<longleftrightarrow> length w + length (c # xs) < 32"
    using Cons.IH [of "w @ [c]"] Cons.prems by (cases "length w < 31") auto
  finally show ?case .
qed simp

text \<open>The code writes the escaped text, while it fits the first block.\<close>

lemma escape_char_gives:
  assumes "drep out ys" and "32 \<le> dcap out" and "length ys + length (esc c) < 32"
  shows "gives (escape_char c out) (\<lambda>s. dholds (ys @ esc c) s \<and> 32 \<le> dcap s)"
proof (cases "special c")
  case True
  then have "escape_char c out = dcatcs out (esc c)" "length (esc c) = 2" "cstr (esc c) = esc c"
    by (auto simp: special_def escape_char_def esc_def)
  with dcatcs_gives [OF assms(1), of "esc c"] assms(2,3) show ?thesis by (auto simp: gives_def)
next
  case False
  then have "escape_char c out = dcatc out (schar c)" "esc c = [c]"
    by (auto simp: special_def escape_char_def esc_def)
  with dcatc_gives [OF assms(1), of "schar c"] assms(2,3) show ?thesis by (auto simp: gives_def)
qed

lemma escape_loop_gives:
  "drep out ys \<Longrightarrow> 32 \<le> dcap out \<Longrightarrow> length ys + length (escape xs) < 32 \<Longrightarrow>
   gives (foldR escape_char xs out) (\<lambda>s. drep s (ys @ escape xs) \<and>
     (xs \<noteq> [] \<or> dterm out \<longrightarrow> dterm s))"
proof (induction xs arbitrary: out ys)
  case (Cons c xs)
  have "gives (escape_char c out) (\<lambda>s. dholds (ys @ esc c) s \<and> 32 \<le> dcap s)"
    by (rule escape_char_gives) (use Cons.prems in auto)
  then have "gives (bindR (escape_char c out) (foldR escape_char xs))
      (\<lambda>s. drep s (ys @ escape (c # xs)) \<and> dterm s)"
  proof (rule gives_bind)
    fix s assume s: "dholds (ys @ esc c) s \<and> 32 \<le> dcap s"
    have "gives (foldR escape_char xs s) (\<lambda>s'. drep s' ((ys @ esc c) @ escape xs) \<and>
        (xs \<noteq> [] \<or> dterm s \<longrightarrow> dterm s'))"
      by (rule Cons.IH) (use s Cons.prems in \<open>auto simp: dholds_def\<close>)
    then show "gives (foldR escape_char xs s) (\<lambda>s. drep s (ys @ escape (c # xs)) \<and> dterm s)"
      using s by (auto simp: dholds_def gives_def)
  qed
  then show ?case by (simp add: gives_def)
qed simp

lemma dstrlex_escape_gives:
  assumes d: "drep str xs" and fits: "length (escape xs) < 32"
  shows "gives (dstrlex_escape str) (\<lambda>s. drep s (escape xs) \<and> (xs \<noteq> [] \<longrightarrow> dterm s))"
proof -
  have "dstrlex_escape str = foldR escape_char xs dnew"
    using d by (simp add: dstrlex_escape_def dstrlex_escape_mem_def drep_len [OF d] foldR_peeks drep_def)
  with escape_loop_gives [of dnew "[]" xs] fits show ?thesis by (auto simp: gives_def)
qed

text \<open>A text of 32 or more bytes that need no escape is written past the end of the block.\<close>

lemma escape_loop_fault:
  assumes "\<forall>c\<in>set xs. \<not> special c"
  shows "drep out ys \<Longrightarrow> dsize out = 32 \<Longrightarrow> length ys < 32 \<Longrightarrow> 32 \<le> length ys + length xs \<Longrightarrow>
    foldR escape_char xs out = Inl OutOfBounds"
  using assms
proof (induction xs arbitrary: out ys)
  case (Cons c xs)
  then have c: "escape_char c out = dcatc out (schar c)"
    by (simp add: escape_char_def special_def)
  show ?case
  proof (cases "length ys = 31")
    case True
    with Cons.prems dcatc_fault [of out ys "schar c"] c show ?thesis by simp
  next
    case False
    with Cons.prems have "gives (dcatc out (schar c))
        (\<lambda>s. dholds (ys @ [to_char (schar c)]) s \<and> dsize s = dsize out)"
      by (intro dcatc_small) auto
    then obtain s where s: "dcatc out (schar c) = Inr s" "drep s (ys @ [c])" "dsize s = 32"
      using Cons.prems by (auto simp: gives_def dholds_def)
    have "foldR escape_char xs s = Inl OutOfBounds"
      by (rule Cons.IH [OF s(2,3)]) (use Cons.prems False in auto)
    with c s show ?thesis by simp
  qed
qed simp

lemma dstrlex_escape_fault:
  assumes d: "drep str xs" and "\<forall>c\<in>set xs. \<not> special c" and "32 \<le> length xs"
  shows "dstrlex_escape str = Inl OutOfBounds"
proof -
  have "dstrlex_escape str = foldR escape_char xs dnew"
    using d by (simp add: dstrlex_escape_def dstrlex_escape_mem_def drep_len [OF d] foldR_peeks drep_def)
  moreover have "foldR escape_char xs dnew = Inl OutOfBounds"
    by (rule escape_loop_fault [OF assms(2) dnew_drep]) (use assms(3) in \<open>auto simp: dnew_def\<close>)
  ultimately show ?thesis by simp
qed

end
