(* ===== verification/Dictionary.thy ===== *)
theory Dictionary
  imports DstrSpec LinkedList "HOL-Library.AList"
begin

text \<open>
  The interface of a dictionary from C strings to C strings.  The program has two of them:
  \<open>dsdict\<close> of \<open>src/common/dstrutils.c\<close> (theory \<open>Dsdict\<close>), which the client uses, and the
  server's own \<open>DataDict\<close> (theory \<open>DataDict\<close>).  What a user of a dictionary relies on is
  proved here once.
\<close>

section \<open>Searching a chain of nodes by key\<close>

text \<open>
  Both dictionaries are chains of nodes, related to an association list by \<open>R\<close>, and both
  search for a key with a predicate that tests it.
\<close>

lemma list_all2_in1:
  "list_all2 R es kvs \<Longrightarrow> e \<in> set es \<Longrightarrow> \<exists>kv\<in>set kvs. R e kv"
  by (induction rule: list_all2_induct) auto

lemma find_key:
  assumes sg: "seg (lcells st) p as None" and k: "length as \<le> k"
    and R: "list_all2 R (vals st as) kvs"
    and test: "\<And>e kv. R e kv \<Longrightarrow> P e = Inr (fst kv = key)"
    and dist: "distinct (map fst kvs)"
  obtains (found) xs a ys kvs1 v kvs2 n where
      "find_from P st k (first_ptr as None) = Inr (Some a)" "as = xs @ a # ys"
      "lcells st a = Some n" "kvs = kvs1 @ (key, v) # kvs2" "R (nval n) (key, v)"
      "list_all2 R (vals st xs) kvs1" "list_all2 R (vals st ys) kvs2"
      "key \<notin> fst ` set kvs1" "key \<notin> fst ` set kvs2"
  | (missing) "find_from P st k (first_ptr as None) = Inr None" "key \<notin> fst ` set kvs"
proof -
  define Q where "Q a \<longleftrightarrow> P (nval (the (lcells st a))) = Inr True" for a
  have PQ: "P (nval (the (lcells st a))) = Inr (Q a)" if "a \<in> set as" for a
  proof -
    have "nval (the (lcells st a)) \<in> set (vals st as)" using that by (simp add: vals_def)
    from list_all2_in1 [OF R this] obtain kv where "R (nval (the (lcells st a))) kv" by blast
    from test [OF this] show ?thesis by (simp add: Q_def)
  qed
  have eq: "find_from P st k (first_ptr as None) = Inr (find Q as)"
    by (rule find_from_seg [OF sg k]) (rule PQ)
  have nth: "Q (as ! i) \<longleftrightarrow> fst (kvs ! i) = key" if "i < length as" for i
  proof -
    have "R (nval (the (lcells st (as ! i)))) (kvs ! i)"
      using R that by (auto simp: list_all2_conv_all_nth vals_def)
    from test [OF this] show ?thesis by (simp add: Q_def)
  qed
  have len: "length as = length kvs" using list_all2_lengthD [OF R] by (simp add: vals_def)
  show thesis
  proof (cases "find Q as")
    case None
    have "key \<notin> fst ` set kvs"
    proof
      assume "key \<in> fst ` set kvs"
      then obtain i where i: "i < length kvs" "fst (kvs ! i) = key" by (auto simp: in_set_conv_nth)
      with nth [of i] len None show False by (auto simp: find_None_iff)
    qed
    with None eq show ?thesis by (intro missing) auto
  next
    case (Some a)
    then obtain i where i: "i < length as" "as ! i = a" "Q (as ! i)" by (auto simp: find_Some_iff)
    define xs where "xs = take i as"
    define ys where "ys = drop (Suc i) as"
    have split: "as = xs @ a # ys" using id_take_nth_drop [OF i(1)] i by (simp add: xs_def ys_def)
    obtain n where n: "lcells st a = Some n" using seg_dom [OF sg, of a] split by auto
    have kv: "fst (kvs ! i) = key" using nth [OF i(1)] i(3) by simp
    have "kvs = take i kvs @ kvs ! i # drop (Suc i) kvs"
      using id_take_nth_drop [of i kvs] i(1) len by simp
    moreover have "kvs ! i = (key, snd (kvs ! i))" using kv by (simp add: prod_eq_iff)
    ultimately have kvs: "kvs = take i kvs @ (key, snd (kvs ! i)) # drop (Suc i) kvs" by metis
    have R': "list_all2 R (vals st xs @ nval n # vals st ys)
        (take i kvs @ (key, snd (kvs ! i)) # drop (Suc i) kvs)"
      using R kvs split n by (simp add: vals_def)
    have "length (vals st xs) = length (take i kvs)" using i(1) len by (simp add: vals_def xs_def)
    with R' have R3: "list_all2 R (vals st xs) (take i kvs)" "R (nval n) (key, snd (kvs ! i))"
      "list_all2 R (vals st ys) (drop (Suc i) kvs)" by (simp_all add: list_all2_append)
    have "distinct (map fst (take i kvs @ (key, snd (kvs ! i)) # drop (Suc i) kvs))"
      using dist kvs by simp
    then have "key \<notin> fst ` set (take i kvs)" "key \<notin> fst ` set (drop (Suc i) kvs)" by auto
    then show ?thesis
      by (intro found [OF _ split n kvs R3(2,1,3)]) (simp_all add: eq Some)
  qed
qed

text \<open>Updating an association list at a key.\<close>

lemma update_split:
  "k \<notin> fst ` set kvs1 \<Longrightarrow> AList.update k v (kvs1 @ (k, w) # kvs2) = kvs1 @ (k, v) # kvs2"
  by (induction kvs1) auto

lemma update_new: "k \<notin> fst ` set kvs \<Longrightarrow> AList.update k v kvs = kvs @ [(k, v)]"
  by (induction kvs) auto

lemma delete_split:
  fixes kvs1 :: "('a \<times> 'b) list"
  assumes "k \<notin> fst ` set kvs1" "k \<notin> fst ` set kvs2"
  shows "AList.delete k (kvs1 @ (k, w) # kvs2) = kvs1 @ kvs2"
proof -
  have "AList.delete k kvs = kvs" if "k \<notin> fst ` set kvs" for kvs :: "('a \<times> 'b) list"
    using that by (simp add: delete_id)
  with assms show ?thesis by (simp add: AList.delete_eq)
qed

section \<open>The interface\<close>

locale dictionary =
  fixes rep :: "'d \<Rightarrow> (string \<rightharpoonup> string) \<Rightarrow> bool"
    and empty_dict :: 'd
    and put :: "string \<Rightarrow> string \<Rightarrow> 'd \<Rightarrow> 'd res"
    and get :: "string \<Rightarrow> 'd \<Rightarrow> dstring option res"
  assumes rep_empty: "rep empty_dict Map.empty"
    and put_law: "rep d m \<Longrightarrow> length k < dmax \<Longrightarrow> length v + 1 < dmax \<Longrightarrow>
      gives (put k v d) (\<lambda>d'. rep d' (m(cstr k \<mapsto> cstr v)))"
    and get_law: "rep d m \<Longrightarrow> length k < dmax \<Longrightarrow> gives (get k d) (\<lambda>r. rel_option drep r (m (cstr k)))"
begin

text \<open>A value is read back as it was written, whatever its key was bound to.\<close>

lemma get_put_same:
  assumes "rep d m" "length k < dmax" "length v + 1 < dmax"
  shows "gives (bindR (put k v d) (get k)) (\<lambda>r. \<exists>s. r = Some s \<and> drep s (cstr v))"
proof (rule gives_bind [OF put_law [OF assms]])
  fix d' assume "rep d' (m(cstr k \<mapsto> cstr v))"
  from get_law [OF this assms(2)] show "gives (get k d') (\<lambda>r. \<exists>s. r = Some s \<and> drep s (cstr v))"
    by (auto simp: gives_def option_rel_Some2)
qed

text \<open>Writing one key leaves the others.\<close>

lemma get_put_other:
  assumes "rep d m" "length k < dmax" "length v + 1 < dmax" "length k' < dmax" "cstr k' \<noteq> cstr k"
  shows "gives (bindR (put k v d) (get k')) (\<lambda>r. rel_option drep r (m (cstr k')))"
proof (rule gives_bind [OF put_law [OF assms(1-3)]])
  fix d' assume "rep d' (m(cstr k \<mapsto> cstr v))"
  from get_law [OF this assms(4)] assms(5)
  show "gives (get k' d') (\<lambda>r. rel_option drep r (m (cstr k')))" by simp
qed

text \<open>A sequence of writes: the last write of a key wins.\<close>

definition puts :: "(string \<times> string) list \<Rightarrow> 'd \<Rightarrow> 'd res" where
  "puts kvs = foldR (\<lambda>(k, v). put k v) kvs"

lemma puts_rep:
  assumes "\<forall>(k, v)\<in>set kvs. length k < dmax \<and> length v + 1 < dmax" and "rep d m"
  shows "gives (puts kvs d)
    (\<lambda>d'. rep d' (m ++ map_of (rev (map (map_prod cstr cstr) kvs))))"
  using assms
proof (induction kvs arbitrary: d m)
  case (Cons kv kvs)
  obtain k v where kv: "kv = (k, v)" by (cases kv)
  with Cons.prems have "gives (put k v d) (\<lambda>d'. rep d' (m(cstr k \<mapsto> cstr v)))"
    by (intro put_law) auto
  then have "gives (bindR (put k v d) (puts kvs)) (\<lambda>d'. rep d'
      (m(cstr k \<mapsto> cstr v) ++ map_of (rev (map (map_prod cstr cstr) kvs))))"
    by (rule gives_bind) (use Cons in auto)
  moreover have "m ++ map_of (rev (map (map_prod cstr cstr) (kv # kvs))) =
      m(cstr k \<mapsto> cstr v) ++ map_of (rev (map (map_prod cstr cstr) kvs))"
    by (simp add: kv)
  ultimately show ?case by (simp add: kv puts_def)
qed (simp add: puts_def)

lemma puts_from_empty:
  assumes "\<forall>(k, v)\<in>set kvs. length k < dmax \<and> length v + 1 < dmax" and "length k < dmax"
  shows "gives (bindR (puts kvs empty_dict) (get k))
    (\<lambda>r. rel_option drep r (map_of (rev (map (map_prod cstr cstr) kvs)) (cstr k)))"
proof (rule gives_bind [OF puts_rep [OF assms(1) rep_empty]])
  fix d' assume "rep d' (Map.empty ++ map_of (rev (map (map_prod cstr cstr) kvs)))"
  from get_law [OF this assms(2)]
  show "gives (get k d')
      (\<lambda>r. rel_option drep r (map_of (rev (map (map_prod cstr cstr) kvs)) (cstr k)))"
    by simp
qed

end

end
