(* ===== verification/Dsdict.thy ===== *)
theory Dsdict
  imports DstrList Dictionary
begin

text \<open>
  The dictionary of \<open>src/common/dstrutils.c\<close> (\<open>dsdict_*\<close>): a linked list of
  key/value nodes, searched from the front.  \<open>dsrep\<close> abstracts it to an association
  list with distinct keys in insertion order.
\<close>

section \<open>The code\<close>

record dsentry =
  dskey :: dstring
  dsvalue :: dstring

type_synonym dsdict = "dsentry llist"

definition dsdict_new :: dsdict where
  "dsdict_new = list_init"

definition dsdict_free :: "dsdict \<Rightarrow> dsdict res" where
  "dsdict_free dict = free_from (lbrk dict) dict"

definition dsdict_iter :: "dsdict \<Rightarrow> string \<Rightarrow> nat option res" where
  "dsdict_iter dict key =
     find_from (\<lambda>e. bindR (dcmpmem (dskey e) (cmem key) (strlen key)) (\<lambda>r. Inr (r = 0)))
       dict (lbrk dict) (lfront dict)"

definition dsdict_set :: "dsdict \<Rightarrow> string \<Rightarrow> dstring \<Rightarrow> dsdict res" where
  "dsdict_set dict key value =
     bindR (dsdict_iter dict key) (\<lambda>node. case node of
       Some a \<Rightarrow>
         bindR (cell dict a) (\<lambda>n. bindR (dcpy (dsvalue (nval n)) value) (\<lambda>s.
           set_val a ((nval n)\<lparr>dsvalue := s\<rparr>) dict))
     | None \<Rightarrow>
         bindR (dfromcs key) (\<lambda>k. bindR (dnewcopy value) (\<lambda>v.
           push_back \<lparr>dskey = k, dsvalue = v\<rparr> dict)))"

definition dsdict_setcs :: "dsdict \<Rightarrow> string \<Rightarrow> string \<Rightarrow> dsdict res" where
  "dsdict_setcs dict key value =
     bindR (dsdict_iter dict key) (\<lambda>node. case node of
       Some a \<Rightarrow>
         bindR (cell dict a) (\<lambda>n. bindR (dcpycs (dsvalue (nval n)) value) (\<lambda>s.
           set_val a ((nval n)\<lparr>dsvalue := s\<rparr>) dict))
     | None \<Rightarrow>
         bindR (dfromcs key) (\<lambda>k. bindR (dfromcs value) (\<lambda>v.
           push_back \<lparr>dskey = k, dsvalue = v\<rparr> dict)))"

definition dsdict_get :: "dsdict \<Rightarrow> string \<Rightarrow> dstring option res" where
  "dsdict_get dict key =
     bindR (dsdict_iter dict key) (\<lambda>node. case node of
       Some a \<Rightarrow> bindR (cell dict a) (\<lambda>n. Inr (Some (dsvalue (nval n))))
     | None \<Rightarrow> Inr None)"

definition dsdict_remove :: "dsdict \<Rightarrow> string \<Rightarrow> dsdict res" where
  "dsdict_remove dict key =
     bindR (dsdict_iter dict key) (\<lambda>node. case node of
       Some a \<Rightarrow> bindR (list_erase a dict) (free_cell a)
     | None \<Rightarrow> Inr dict)"

text \<open>The searches by value resume after a given node.\<close>

definition iter_start :: "dsdict \<Rightarrow> nat option \<Rightarrow> nat option res" where
  "iter_start dict iterator =
     (case iterator of Some a \<Rightarrow> bindR (cell dict a) (\<lambda>n. Inr (nnext n))
      | None \<Rightarrow> Inr (lfront dict))"

definition dsdict_find :: "dsdict \<Rightarrow> dstring \<Rightarrow> nat option \<Rightarrow> nat option res" where
  "dsdict_find dict value iterator =
     bindR (iter_start dict iterator) (\<lambda>node.
       find_from (\<lambda>e. bindR (dcmp (dsvalue e) value) (\<lambda>r. Inr (r = 0))) dict (lbrk dict) node)"

definition dsdict_findcs :: "dsdict \<Rightarrow> string \<Rightarrow> nat option \<Rightarrow> nat option res" where
  "dsdict_findcs dict value iterator =
     bindR (iter_start dict iterator) (\<lambda>node.
       find_from (\<lambda>e. bindR (dcmpmem (dsvalue e) (cmem value) (strlen value)) (\<lambda>r. Inr (r = 0)))
         dict (lbrk dict) node)"

section \<open>Abstraction\<close>

definition entry_rep :: "bool \<Rightarrow> dsentry \<Rightarrow> string \<times> string \<Rightarrow> bool" where
  "entry_rep t e kv \<longleftrightarrow> drep (dskey e) (fst kv) \<and> drept t (dsvalue e) (snd kv)"

definition dsrep :: "bool \<Rightarrow> dsdict \<Rightarrow> (string \<times> string) list \<Rightarrow> bool" where
  "dsrep t d kvs \<longleftrightarrow>
     (\<exists>es. lrep d es \<and> list_all2 (entry_rep t) es kvs) \<and> distinct (map fst kvs)"

lemma dsrep_new [simp]: "dsrep t dsdict_new []"
  by (auto simp: dsrep_def dsdict_new_def)

text \<open>The search by key finds the node of the key, when there is one.\<close>

lemma dsrepE:
  assumes "dsrep t d kvs"
  obtains as where "linv d as" "list_all2 (entry_rep t) (vals d as) kvs" "distinct (map fst kvs)"
  using assms by (auto simp: dsrep_def lrep_def)

lemma key_test:
  assumes "drep s x" "length key < dmax"
  shows "bindR (dcmpmem s (cmem key) (strlen key)) (\<lambda>r. Inr (r = 0)) = Inr (x = cstr key)"
proof -
  have "dcmpmem s (cmem key) (strlen key) = Inr (shortlex x (cstr key))"
    by (rule dcmpmem_drep [OF assms(1)])
      (use assms(2) length_cstr_le [of key] in \<open>auto simp: unat_strlen\<close>)
  then show ?thesis by simp
qed

lemma iter_split:
  assumes as: "linv d as" and es: "list_all2 (entry_rep t) (vals d as) kvs"
    and key: "length key < dmax" and dist: "distinct (map fst kvs)"
  obtains (found) xs a ys kvs1 v kvs2 n where
      "dsdict_iter d key = Inr (Some a)" "as = xs @ a # ys" "lcells d a = Some n"
      "kvs = kvs1 @ (cstr key, v) # kvs2" "entry_rep t (nval n) (cstr key, v)"
      "list_all2 (entry_rep t) (vals d xs) kvs1" "list_all2 (entry_rep t) (vals d ys) kvs2"
      "cstr key \<notin> fst ` set kvs1" "cstr key \<notin> fst ` set kvs2"
  | (missing) "dsdict_iter d key = Inr None" "cstr key \<notin> fst ` set kvs"
proof -
  have sg: "seg (lcells d) None as None" "lfront d = first_ptr as None"
    using as by (simp_all add: linv_def)
  have test: "bindR (dcmpmem (dskey e) (cmem key) (strlen key)) (\<lambda>r. Inr (r = 0)) =
      Inr (fst kv = cstr key)" if "entry_rep t e kv" for e kv
    using that by (intro key_test [OF _ key]) (simp add: entry_rep_def)
  have it: "find_from (\<lambda>e. bindR (dcmpmem (dskey e) (cmem key) (strlen key)) (\<lambda>r. Inr (r = 0)))
      d (lbrk d) (first_ptr as None) = dsdict_iter d key"
    by (simp add: dsdict_iter_def sg(2))
  show thesis
    by (rule find_key [OF sg(1) linv_length [OF as] es _ dist, where key = "cstr key" and
          P = "\<lambda>e. bindR (dcmpmem (dskey e) (cmem key) (strlen key)) (\<lambda>r. Inr (r = 0))",
          unfolded it]) (rule test found missing; assumption)+
qed

text \<open>Both setters have this shape.\<close>

lemma dsdict_put_gives:
  assumes d: "dsrep t d kvs" and key: "length key < dmax"
    and upd: "\<And>s y. drep s y \<Longrightarrow> gives (f s) (\<lambda>s'. drept t s' x)"
    and mk: "gives v (\<lambda>s. drept t s x)"
  shows "gives (bindR (dsdict_iter d key) (\<lambda>node. case node of
       Some a \<Rightarrow> bindR (cell d a) (\<lambda>n. bindR (f (dsvalue (nval n))) (\<lambda>s.
           set_val a ((nval n)\<lparr>dsvalue := s\<rparr>) d))
     | None \<Rightarrow> bindR (dfromcs key) (\<lambda>k. bindR v (\<lambda>v.
           push_back \<lparr>dskey = k, dsvalue = v\<rparr> d))))
    (\<lambda>d'. dsrep t d' (AList.update (cstr key) x kvs))"
proof -
  from d obtain as where as: "linv d as" "list_all2 (entry_rep t) (vals d as) kvs"
    and dist: "distinct (map fst kvs)" by (rule dsrepE)
  from as key dist show ?thesis
  proof (cases rule: iter_split)
    case (found xs a ys kvs1 w kvs2 n)
    from upd [of "dsvalue (nval n)" w] found(5) obtain s where
      s: "f (dsvalue (nval n)) = Inr s" "drept t s x"
      by (auto simp: entry_rep_def drept_def gives_def)
    have "gives (set_val a ((nval n)\<lparr>dsvalue := s\<rparr>) d)
        (\<lambda>d'. dsrep t d' (kvs1 @ (cstr key, x) # kvs2))"
    proof (rule gives_mono [OF set_val_linv [OF as(1) [unfolded found(2)]]])
      fix d' assume d': "linv d' (xs @ a # ys) \<and>
        vals d' (xs @ a # ys) = vals d xs @ (nval n)\<lparr>dsvalue := s\<rparr> # vals d ys"
      have "list_all2 (entry_rep t) (vals d xs @ (nval n)\<lparr>dsvalue := s\<rparr> # vals d ys)
          (kvs1 @ (cstr key, x) # kvs2)"
        using found s(2) by (intro list_all2_appendI) (auto simp: entry_rep_def)
      with d' show "dsrep t d' (kvs1 @ (cstr key, x) # kvs2)"
        using dist found(4) by (auto simp: dsrep_def lrep_def)
    qed
    with found(1,3,4,8) s(1) show ?thesis by (simp add: update_split)
  next
    case missing
    have "gives (dfromcs key) (\<lambda>s. drep s (cstr key))"
      by (rule gives_mono [OF dfromcs_gives]) (use key in \<open>auto simp: dholds_def\<close>)
    then obtain k where k: "dfromcs key = Inr k" "drep k (cstr key)" by (rule givesE)
    from mk obtain s where s: "v = Inr s" "drept t s x" by (rule givesE)
    have "gives (push_back \<lparr>dskey = k, dsvalue = s\<rparr> d) (\<lambda>d'. dsrep t d' (kvs @ [(cstr key, x)]))"
    proof (rule gives_mono [OF push_back_lrep])
      show "lrep d (vals d as)" using as by (auto simp: lrep_def)
      fix d' assume "lrep d' (vals d as @ [\<lparr>dskey = k, dsvalue = s\<rparr>])"
      moreover have "list_all2 (entry_rep t) (vals d as @ [\<lparr>dskey = k, dsvalue = s\<rparr>])
          (kvs @ [(cstr key, x)])"
        using as(2) k(2) s(2) by (intro list_all2_appendI) (auto simp: entry_rep_def)
      ultimately show "dsrep t d' (kvs @ [(cstr key, x)])"
        using dist missing(2) by (auto simp: dsrep_def)
    qed
    with missing k(1) s(1) show ?thesis by (simp add: update_new)
  qed
qed

lemma dsdict_set_gives:
  assumes "dsrep t d kvs" and "length key < dmax" and "drept t value x" and "length x + 1 < dmax"
  shows "gives (dsdict_set d key value) (\<lambda>d'. dsrep t d' (AList.update (cstr key) x kvs))"
  unfolding dsdict_set_def
proof (rule dsdict_put_gives [OF assms(1,2)])
  fix s y assume "drep s y"
  then show "gives (dcpy s value) (\<lambda>s'. drept t s' x)"
    using assms(3,4) by (intro gives_mono [OF dcpy_gives]) (auto simp: drept_def drep_def)
next
  show "gives (dnewcopy value) (\<lambda>s. drept t s x)"
    using assms(3,4) by (intro gives_mono [OF dnewcopy_gives]) (auto simp: drept_def)
qed

lemma dsdict_setcs_gives:
  assumes "dsrep t d kvs" and "length key < dmax" and "length value + 1 < dmax"
  shows "gives (dsdict_setcs d key value) (\<lambda>d'. dsrep t d' (AList.update (cstr key) (cstr value) kvs))"
  unfolding dsdict_setcs_def
proof (rule dsdict_put_gives [OF assms(1,2)])
  fix s y assume "drep s y"
  then show "gives (dcpycs s value) (\<lambda>s'. drept t s' (cstr value))"
    using assms(3) by (intro gives_mono [OF dcpycs_gives]) (auto simp: drept_def dholds_def drep_def)
next
  show "gives (dfromcs value) (\<lambda>s. drept t s (cstr value))"
    using assms(3) by (intro gives_mono [OF dfromcs_gives]) (auto simp: drept_def dholds_def)
qed

lemma dsdict_get_gives:
  assumes d: "dsrep t d kvs" and key: "length key < dmax"
  shows "gives (dsdict_get d key) (\<lambda>r. rel_option (drept t) r (map_of kvs (cstr key)))"
proof -
  from d obtain as where as: "linv d as" "list_all2 (entry_rep t) (vals d as) kvs"
    and dist: "distinct (map fst kvs)" by (rule dsrepE)
  from as key dist show ?thesis
  proof (cases rule: iter_split)
    case (found xs a ys kvs1 w kvs2 n)
    then have "map_of kvs1 (cstr key) = None" by (auto simp: map_of_eq_None_iff)
    with found show ?thesis by (auto simp: dsdict_get_def entry_rep_def map_add_def)
  next
    case missing
    then have "map_of kvs (cstr key) = None" by (auto simp: map_of_eq_None_iff)
    with missing show ?thesis by (simp add: dsdict_get_def)
  qed
qed

lemma dsdict_remove_gives:
  assumes d: "dsrep t d kvs" and key: "length key < dmax"
  shows "gives (dsdict_remove d key) (\<lambda>d'. dsrep t d' (AList.delete (cstr key) kvs))"
proof -
  from d obtain as where as: "linv d as" "list_all2 (entry_rep t) (vals d as) kvs"
    and dist: "distinct (map fst kvs)" by (rule dsrepE)
  from as key dist show ?thesis
  proof (cases rule: iter_split)
    case (found xs a ys kvs1 w kvs2 n)
    have a: "a \<notin> set (xs @ ys)" using as(1) found(2) by (auto simp: linv_def)
    have "gives (bindR (list_erase a d) (free_cell a)) (\<lambda>d'. dsrep t d' (kvs1 @ kvs2))"
    proof (rule gives_bind [OF list_erase_linv [OF as(1) [unfolded found(2)]]])
      fix l assume l: "linv l (xs @ ys) \<and> vals l (xs @ ys) = vals d (xs @ ys) \<and>
        lcells l a = lcells d a"
      have "list_all2 (entry_rep t) (vals d (xs @ ys)) (kvs1 @ kvs2)"
        using found(6,7) by (simp add: vals_def list_all2_appendI)
      with free_cell_linv [of l "xs @ ys" a n] l a found(3,4) dist
      show "gives (free_cell a l) (\<lambda>d'. dsrep t d' (kvs1 @ kvs2))"
        by (auto simp: gives_def dsrep_def lrep_def)
    qed
    with found(1,4,8,9) show ?thesis by (simp add: dsdict_remove_def delete_split)
  next
    case missing
    then have "AList.delete (cstr key) kvs = kvs" by (simp add: delete_id)
    with missing d show ?thesis by (simp add: dsdict_remove_def)
  qed
qed

section \<open>The dictionary interface\<close>

definition dsmap :: "dsdict \<Rightarrow> (string \<rightharpoonup> string) \<Rightarrow> bool" where
  "dsmap d m \<longleftrightarrow> (\<exists>kvs. dsrep True d kvs \<and> map_of kvs = m)"

interpretation ds: dictionary dsmap dsdict_new "\<lambda>k v d. dsdict_setcs d k v" "\<lambda>k d. dsdict_get d k"
proof unfold_locales
  show "dsmap dsdict_new Map.empty" unfolding dsmap_def by (intro exI [of _ "[]"]) simp
next
  fix d m and k v :: string
  assume "dsmap d m" "length k < dmax" "length v + 1 < dmax"
  then show "gives (dsdict_setcs d k v) (\<lambda>d'. dsmap d' (m(cstr k \<mapsto> cstr v)))"
    using dsdict_setcs_gives [of True d _ k v] by (fastforce simp: dsmap_def gives_def update_conv')
next
  fix d m and k :: string
  assume "dsmap d m" "length k < dmax"
  then obtain kvs where "dsrep True d kvs" "m = map_of kvs" by (auto simp: dsmap_def)
  from dsdict_get_gives [OF this(1) \<open>length k < dmax\<close>] this(2)
  show "gives (dsdict_get d k) (\<lambda>r. rel_option drep r (m (cstr k)))"
    by (auto simp: gives_def drept_def elim!: option.rel_mono_strong)
qed

end
