(* ===== verification/DataDict.thy ===== *)
theory DataDict
  imports Dictionary DstrList
begin

text \<open>
  The server's dictionary (\<open>DataDict\<close> in \<open>src/network/svcenet/server/main.c\<close>): its own
  doubly linked list without a size, whose nodes also carry a flag for values not yet sent
  to the clients.
\<close>

section \<open>The code\<close>

record ddnode =
  dd_dirty :: bool
  dd_key :: dstring
  dd_value :: dstring

record ddict = "ddnode store" +
  dd_front :: "nat option"
  dd_back :: "nat option"

definition dd_new :: ddict where
  "dd_new = \<lparr>lcells = Map.empty, lbrk = 0, dd_front = None, dd_back = None\<rparr>"

fun dd_free_from :: "nat \<Rightarrow> ddict \<Rightarrow> ddict res" where
  "dd_free_from k dd =
     (case dd_front dd of None \<Rightarrow> Inr dd
      | Some a \<Rightarrow> (case k of 0 \<Rightarrow> Inl Diverge
         | Suc k \<Rightarrow> bindR (cell dd a) (\<lambda>n.
             bindR (free_cell a (dd\<lparr>dd_front := nnext n\<rparr>)) (\<lambda>dd. dd_free_from k dd))))"

declare dd_free_from.simps [simp del]

definition dd_free :: "ddict \<Rightarrow> ddict res" where
  "dd_free dd = dd_free_from (lbrk dd) dd"

definition dd_find :: "ddict \<Rightarrow> string \<Rightarrow> nat option res" where
  "dd_find dd key =
     find_from (\<lambda>e. bindR (dcmpcs (dd_key e) key) (\<lambda>r. Inr (r = 0))) dd (lbrk dd) (dd_front dd)"

text \<open>A fresh node put at the end of the chain.\<close>

definition dd_append :: "ddnode \<Rightarrow> ddict \<Rightarrow> ddict res" where
  "dd_append v dd =
     (case new_cell v dd of (dd, ddn) \<Rightarrow>
        if dd_front dd = None then
          bindR (set_next (Some ddn) None dd) (\<lambda>dd.
          bindR (set_prev (Some ddn) None dd) (\<lambda>dd.
            Inr (dd\<lparr>dd_front := Some ddn, dd_back := Some ddn\<rparr>)))
        else
          bindR (set_prev (Some ddn) (dd_back dd) dd) (\<lambda>dd.
          bindR (set_next (dd_back dd) (Some ddn) dd) (\<lambda>dd.
          bindR (set_next (Some ddn) None dd) (\<lambda>dd.
            Inr (dd\<lparr>dd_back := Some ddn\<rparr>)))))"

definition dd_set :: "ddict \<Rightarrow> string \<Rightarrow> string \<Rightarrow> ddict res" where
  "dd_set dd key value =
     bindR (dd_find dd key) (\<lambda>node. case node of
       Some a \<Rightarrow>
         bindR (cell dd a) (\<lambda>n. bindR (dcpycs (dd_value (nval n)) value) (\<lambda>s.
           set_val a ((nval n)\<lparr>dd_value := s, dd_dirty := True\<rparr>) dd))
     | None \<Rightarrow>
         bindR (dfromcs key) (\<lambda>k. bindR (dfromcs value) (\<lambda>v.
           dd_append \<lparr>dd_dirty = True, dd_key = k, dd_value = v\<rparr> dd)))"

definition dd_lookup :: "ddict \<Rightarrow> string \<Rightarrow> dstring option res" where
  "dd_lookup dd key =
     bindR (dd_find dd key) (\<lambda>node. case node of
       Some a \<Rightarrow> bindR (cell dd a) (\<lambda>n. Inr (Some (dd_value (nval n))))
     | None \<Rightarrow> Inr None)"

text \<open>
  \<open>dd_get\<close> returns a pointer to the bytes and their number; a missing key is the empty
  string.
\<close>

definition dd_get :: "ddict \<Rightarrow> string \<Rightarrow> (block \<times> u32) res" where
  "dd_get dd key =
     bindR (dd_lookup dd key) (\<lambda>r. Inr (case r of
       None \<Rightarrow> (cmem [], 0)
     | Some v \<Rightarrow> (ddata v, dlen v)))"

section \<open>Abstraction\<close>

definition dinv :: "ddict \<Rightarrow> nat list \<Rightarrow> bool" where
  "dinv d as \<longleftrightarrow>
     distinct as \<and> seg (lcells d) None as None \<and> dd_front d = first_ptr as None \<and>
     dd_back d = last_ptr None as \<and> (\<forall>a. lcells d a \<noteq> None \<longrightarrow> a < lbrk d)"

definition ddentry :: "ddnode \<Rightarrow> string \<times> bool \<times> string \<Rightarrow> bool" where
  "ddentry e kv \<longleftrightarrow> drep (dd_key e) (fst kv) \<and> dd_dirty e = fst (snd kv) \<and>
     drep (dd_value e) (snd (snd kv)) \<and> dterm (dd_value e)"

text \<open>
  \<open>ddrep d kvs\<close>: the nodes of \<open>d\<close> are \<open>kvs\<close>, in order, with distinct keys; each entry has
  its key, its dirty flag and its value.
\<close>

definition ddrep :: "ddict \<Rightarrow> (string \<times> bool \<times> string) list \<Rightarrow> bool" where
  "ddrep d kvs \<longleftrightarrow>
     (\<exists>as. dinv d as \<and> list_all2 ddentry (vals d as) kvs) \<and> distinct (map fst kvs)"

lemma dinv_length: "dinv d as \<Longrightarrow> length as \<le> lbrk d"
proof -
  assume d: "dinv d as"
  then have "set as \<subseteq> {..<lbrk d}" by (auto simp: dinv_def dest: seg_dom)
  then have "card (set as) \<le> lbrk d" using card_mono [of "{..<lbrk d}"] by fastforce
  with d show ?thesis by (simp add: dinv_def distinct_card)
qed

lemma ddrep_new [simp]: "ddrep dd_new []"
  by (auto simp: ddrep_def dinv_def dd_new_def vals_def intro!: exI [of _ "[]"])

lemma ddrepE:
  assumes "ddrep d kvs"
  obtains as where "dinv d as" "list_all2 ddentry (vals d as) kvs" "distinct (map fst kvs)"
  using assms by (auto simp: ddrep_def)

lemma dd_split:
  assumes as: "dinv d as" and es: "list_all2 ddentry (vals d as) kvs"
    and key: "length key < dmax" and dist: "distinct (map fst kvs)"
  obtains (found) xs a ys kvs1 v kvs2 n where
      "dd_find d key = Inr (Some a)" "as = xs @ a # ys" "lcells d a = Some n"
      "kvs = kvs1 @ (cstr key, v) # kvs2" "ddentry (nval n) (cstr key, v)"
      "list_all2 ddentry (vals d xs) kvs1" "list_all2 ddentry (vals d ys) kvs2"
      "cstr key \<notin> fst ` set kvs1" "cstr key \<notin> fst ` set kvs2"
  | (missing) "dd_find d key = Inr None" "cstr key \<notin> fst ` set kvs"
proof -
  have sg: "seg (lcells d) None as None" "dd_front d = first_ptr as None"
    using as by (simp_all add: dinv_def)
  have test: "bindR (dcmpcs (dd_key e) key) (\<lambda>r. Inr (r = 0)) = Inr (fst kv = cstr key)"
    if "ddentry e kv" for e kv
    using that key by (auto simp: ddentry_def)
  have it: "find_from (\<lambda>e. bindR (dcmpcs (dd_key e) key) (\<lambda>r. Inr (r = 0)))
      d (lbrk d) (first_ptr as None) = dd_find d key"
    by (simp add: dd_find_def sg(2))
  show thesis
    by (rule find_key [OF sg(1) dinv_length [OF as] es _ dist, where key = "cstr key" and
          P = "\<lambda>e. bindR (dcmpcs (dd_key e) key) (\<lambda>r. Inr (r = 0))",
          unfolded it]) (rule test found missing; assumption)+
qed

lemma dd_append_gives:
  assumes inv: "dinv d as"
  shows "gives (dd_append v d) (\<lambda>d'. dinv d' (as @ [lbrk d]) \<and>
    vals d' (as @ [lbrk d]) = vals d as @ [v])"
proof -
  let ?a = "lbrk d"
  have lt: "lcells d x \<noteq> None \<Longrightarrow> x < lbrk d" for x using inv by (simp add: dinv_def)
  have a: "?a \<notin> set as" using inv by (auto simp: dinv_def dest!: seg_dom)
  show ?thesis
  proof (cases as rule: rev_cases)
    case Nil
    with inv show ?thesis
      by (auto simp: dd_append_def new_cell_def set_next_def set_prev_def dinv_def vals_def less_Suc_eq)
  next
    case (snoc bs b)
    from inv snoc obtain m where m: "lcells d b = Some m" by (auto simp: dinv_def)
    have b: "b \<noteq> ?a" "b \<notin> set bs" "?a \<notin> set bs" using inv snoc a by (auto simp: dinv_def)
    have front: "dd_front d \<noteq> None" using inv snoc by (cases bs) (auto simp: dinv_def)
    define c where "c = (lcells d)(?a \<mapsto> \<lparr>nprev = Some b, nnext = None, nval = v\<rparr>,
      b \<mapsto> m\<lparr>nnext := Some ?a\<rparr>)"
    define d' where "d' = d\<lparr>lcells := c, lbrk := Suc ?a, dd_back := Some ?a\<rparr>"
    have "dd_append v d = Inr d'"
      using inv snoc m b front
      by (auto simp: dd_append_def new_cell_def set_next_def set_prev_def dinv_def d'_def c_def
          fun_upd_twist)
    moreover have "seg c None (as @ [?a]) None"
      using inv snoc m b by (auto simp: dinv_def c_def)
    moreover have "vals d' (as @ [?a]) = vals d as @ [v]"
      using snoc m b by (auto simp: vals_def d'_def c_def)
    ultimately show ?thesis
      using inv a m lt snoc by (auto simp: dinv_def d'_def c_def less_Suc_eq)
  qed
qed

lemma dd_set_val_gives:
  assumes inv: "dinv d (xs @ a # ys)" and n: "lcells d a = Some n"
  shows "gives (set_val a v d) (\<lambda>d'. dinv d' (xs @ a # ys) \<and>
    vals d' (xs @ a # ys) = vals d xs @ v # vals d ys)"
proof -
  have a: "a \<notin> set xs" "a \<notin> set ys" using inv by (auto simp: dinv_def)
  let ?d = "d\<lparr>lcells := (lcells d)(a \<mapsto> n\<lparr>nval := v\<rparr>)\<rparr>"
  have "vals ?d (xs @ a # ys) = vals d xs @ v # vals d ys" using a n by (auto simp: vals_def)
  moreover have "seg (lcells ?d) None (xs @ a # ys) None"
    using inv seg_set_val [of "lcells d" a n] n by (simp add: dinv_def del: seg_append seg_Cons)
  ultimately show ?thesis using inv n by (auto simp: set_val_def dinv_def)
qed

lemma dd_set_gives:
  assumes d: "ddrep d kvs" and key: "length key < dmax" and vl: "length value + 1 < dmax"
  shows "gives (dd_set d key value)
    (\<lambda>d'. ddrep d' (AList.update (cstr key) (True, cstr value) kvs))"
proof -
  from d obtain as where as: "dinv d as" "list_all2 ddentry (vals d as) kvs"
    and dist: "distinct (map fst kvs)" by (rule ddrepE)
  from as key dist show ?thesis
  proof (cases rule: dd_split)
    case (found xs a ys kvs1 w kvs2 n)
    have "drep (dd_value (nval n)) (snd w)" using found(5) by (simp add: ddentry_def)
    then have "gives (dcpycs (dd_value (nval n)) value) (\<lambda>s. drep s (cstr value) \<and> dterm s)"
      using vl by (intro gives_mono [OF dcpycs_gives]) (auto simp: dholds_def drep_def)
    then obtain s where s: "dcpycs (dd_value (nval n)) value = Inr s" "drep s (cstr value)" "dterm s"
      by (auto simp: gives_def)
    let ?e = "(nval n)\<lparr>dd_value := s, dd_dirty := True\<rparr>"
    have "gives (set_val a ?e d) (\<lambda>d'. ddrep d' (kvs1 @ (cstr key, True, cstr value) # kvs2))"
    proof (rule gives_mono [OF dd_set_val_gives [OF as(1) [unfolded found(2)] found(3)]])
      fix d' assume d': "dinv d' (xs @ a # ys) \<and> vals d' (xs @ a # ys) = vals d xs @ ?e # vals d ys"
      have "list_all2 ddentry (vals d xs @ ?e # vals d ys) (kvs1 @ (cstr key, True, cstr value) # kvs2)"
        using found s by (intro list_all2_appendI) (auto simp: ddentry_def)
      with d' show "ddrep d' (kvs1 @ (cstr key, True, cstr value) # kvs2)"
        using dist found(4) by (auto simp: ddrep_def)
    qed
    with found(1,3,4,8) s(1) show ?thesis by (simp add: dd_set_def update_split)
  next
    case missing
    have "gives (dfromcs key) (\<lambda>s. drep s (cstr key))"
      by (rule gives_mono [OF dfromcs_gives]) (use key in \<open>auto simp: dholds_def\<close>)
    then obtain k where k: "dfromcs key = Inr k" "drep k (cstr key)" by (rule givesE)
    have "gives (dfromcs value) (\<lambda>s. drep s (cstr value) \<and> dterm s)"
      by (rule gives_mono [OF dfromcs_gives]) (use vl in \<open>auto simp: dholds_def\<close>)
    then obtain s where s: "dfromcs value = Inr s" "drep s (cstr value)" "dterm s"
      by (auto simp: gives_def)
    let ?e = "\<lparr>dd_dirty = True, dd_key = k, dd_value = s\<rparr>"
    have "gives (dd_append ?e d) (\<lambda>d'. ddrep d' (kvs @ [(cstr key, True, cstr value)]))"
    proof (rule gives_mono [OF dd_append_gives [OF as(1)]])
      fix d' assume d': "dinv d' (as @ [lbrk d]) \<and> vals d' (as @ [lbrk d]) = vals d as @ [?e]"
      have "list_all2 ddentry (vals d as @ [?e]) (kvs @ [(cstr key, True, cstr value)])"
        using as(2) k(2) s by (intro list_all2_appendI) (auto simp: ddentry_def)
      with d' show "ddrep d' (kvs @ [(cstr key, True, cstr value)])"
        using dist missing(2) by (auto simp: ddrep_def intro!: exI [of _ "as @ [lbrk d]"])
    qed
    with missing k(1) s(1) show ?thesis by (simp add: dd_set_def update_new)
  qed
qed

lemma dd_lookup_gives:
  assumes d: "ddrep d kvs" and key: "length key < dmax"
  shows "gives (dd_lookup d key)
    (\<lambda>r. rel_option (\<lambda>s v. drep s (snd v) \<and> dterm s) r (map_of kvs (cstr key)))"
proof -
  from d obtain as where as: "dinv d as" "list_all2 ddentry (vals d as) kvs"
    and dist: "distinct (map fst kvs)" by (rule ddrepE)
  from as key dist show ?thesis
  proof (cases rule: dd_split)
    case (found xs a ys kvs1 w kvs2 n)
    then have "map_of kvs1 (cstr key) = None" by (auto simp: map_of_eq_None_iff)
    with found show ?thesis by (auto simp: dd_lookup_def ddentry_def map_add_def)
  next
    case missing
    then have "map_of kvs (cstr key) = None" by (auto simp: map_of_eq_None_iff)
    with missing show ?thesis by (simp add: dd_lookup_def)
  qed
qed

text \<open>\<open>dd_get\<close> delivers the bytes of the value, or none.\<close>

lemma dd_get_gives:
  assumes "ddrep d kvs" and "length key < dmax"
  shows "gives (dd_get d key) (\<lambda>(b, n).
    peeks b 0 (unat n) = Inr (case map_of kvs (cstr key) of None \<Rightarrow> [] | Some v \<Rightarrow> snd v))"
proof -
  from dd_lookup_gives [OF assms] obtain r where r: "dd_lookup d key = Inr r"
    "rel_option (\<lambda>s v. drep s (snd v) \<and> dterm s) r (map_of kvs (cstr key))" by (rule givesE)
  show ?thesis
  proof (cases r)
    case None
    with r show ?thesis by (simp add: dd_get_def peeks_def)
  next
    case (Some s)
    with r(2) obtain v where "map_of kvs (cstr key) = Some v" "drep s (snd v)"
      by (auto simp: option_rel_Some1)
    with r Some show ?thesis by (simp add: dd_get_def drep_len)
  qed
qed

text \<open>Freeing empties the chain.\<close>

lemma dd_free_gives:
  assumes "dinv d as" and "length as \<le> k"
  shows "gives (dd_free_from k d) (\<lambda>d'. dd_front d' = None \<and>
    lcells d' = (\<lambda>a. if a \<in> set as then None else lcells d a))"
proof -
  have "seg (lcells d) p as None \<Longrightarrow> distinct as \<Longrightarrow> dd_front d = first_ptr as None \<Longrightarrow>
    length as \<le> k \<Longrightarrow> gives (dd_free_from k d) (\<lambda>d'. dd_front d' = None \<and>
      lcells d' = (\<lambda>a. if a \<in> set as then None else lcells d a))" for p
  proof (induction as arbitrary: k d p)
    case Nil
    then show ?case by (simp add: dd_free_from.simps [of k d])
  next
    case (Cons a as)
    then obtain k' where k': "k = Suc k'" by (cases k) auto
    from Cons.prems obtain n where n: "lcells d a = Some n" "nnext n = first_ptr as None"
      "seg (lcells d) (Some a) as None" and a: "a \<notin> set as" "distinct as" by auto
    define d1 where "d1 = d\<lparr>dd_front := first_ptr as None, lcells := (lcells d)(a := None)\<rparr>"
    have "gives (dd_free_from k' d1) (\<lambda>d'. dd_front d' = None \<and>
       lcells d' = (\<lambda>x. if x \<in> set as then None else lcells d1 x))"
    proof (rule Cons.IH)
      have "lcells d1 = (lcells d)(a := None)" by (simp add: d1_def)
      then show "seg (lcells d1) (Some a) as None" using n(3) a(1) by simp
    qed (use a Cons.prems k' in \<open>auto simp: d1_def\<close>)
    moreover have "dd_free_from k d = dd_free_from k' d1"
      using Cons.prems(3) k' n by (simp add: dd_free_from.simps [of "Suc k'" d] free_cell_def d1_def)
    ultimately show ?case by (auto simp: gives_def d1_def fun_eq_iff)
  qed
  from this [of None] assms show ?thesis by (simp add: dinv_def)
qed

section \<open>The dictionary interface\<close>

definition ddmap :: "ddict \<Rightarrow> (string \<rightharpoonup> string) \<Rightarrow> bool" where
  "ddmap d m \<longleftrightarrow> (\<exists>kvs. ddrep d kvs \<and> m = map_option snd \<circ> map_of kvs)"

interpretation dd: dictionary ddmap dd_new "\<lambda>k v d. dd_set d k v" "\<lambda>k d. dd_lookup d k"
proof unfold_locales
  show "ddmap dd_new Map.empty" unfolding ddmap_def by (intro exI [of _ "[]"]) auto
next
  fix d m and k v :: string
  assume "ddmap d m" and kv: "length k < dmax" "length v + 1 < dmax"
  then obtain kvs where d: "ddrep d kvs" "m = map_option snd \<circ> map_of kvs" by (auto simp: ddmap_def)
  have eq: "map_option snd \<circ> map_of (AList.update (cstr k) (True, cstr v) kvs) = m(cstr k \<mapsto> cstr v)"
    by (auto simp: d(2) update_conv' fun_eq_iff)
  show "gives (dd_set d k v) (\<lambda>d'. ddmap d' (m(cstr k \<mapsto> cstr v)))"
  proof (rule gives_mono [OF dd_set_gives [OF d(1) kv]])
    fix d' assume "ddrep d' (AList.update (cstr k) (True, cstr v) kvs)"
    then show "ddmap d' (m(cstr k \<mapsto> cstr v))" unfolding ddmap_def eq [symmetric] by blast
  qed
next
  fix d m and k :: string
  assume "ddmap d m" and k: "length k < dmax"
  then obtain kvs where d: "ddrep d kvs" "m = map_option snd \<circ> map_of kvs" by (auto simp: ddmap_def)
  from dd_lookup_gives [OF d(1) k] d(2) show "gives (dd_lookup d k) (\<lambda>r. rel_option drep r (m (cstr k)))"
    by (cases "map_of kvs (cstr k)") (auto simp: gives_def option_rel_Some2)
qed

end
