(* ===== verification/TextProps.thy ===== *)
theory TextProps
  imports Split Lexer Dsdict DataDict
begin

text \<open>
  The properties of the text utilities (\<open>src/common/dstr.c\<close>, \<open>src/common/dstrutils.c\<close>) and
  of the server's dictionary: strings, splitting and joining, the lexer, dictionaries.
\<close>

section \<open>Concrete strings\<close>

text \<open>A string in a block of 64 bytes, as \<open>dfromcs\<close> makes it.\<close>

definition lit :: "string \<Rightarrow> dstring" where
  "lit xs = \<lparr>dlen = of_nat (length xs), dsize = 64,
     ddata = map Some xs @ Some nul # replicate (63 - length xs) None\<rparr>"

lemma lit_drept: "length xs < 64 \<Longrightarrow> drept t (lit xs) xs"
  by (simp add: lit_def drept_def drep_def dterm_def unsigned_of_nat take_bit_nat_eq_self nth_append)

lemma lit_drep: "length xs < 64 \<Longrightarrow> drep (lit xs) xs"
  using lit_drept [of xs True] by (simp add: drept_def)

section \<open>The lexer\<close>

text \<open>C17: \<open>dstrlex_parse\<close> computes the same error code and the same words as the
  character-by-character reference lexer, for every input whose words stay below the 32 bytes
  of its buffer; for every other input it writes past the end of that buffer.\<close>

theorem dstrlex_parse_spec:
  "drep str xs \<Longrightarrow>
   if lex_fits xs then gives (dstrlex_parse str) (lex_result (lex xs))
   else dstrlex_parse str = Inl OutOfBounds"
  by (simp add: dstrlex_parse_gives dstrlex_parse_fault)

theorem dstrlex_parse_spec_witness:
  "gives (dstrlex_parse (lit ''a b'')) (lex_result (DSTRLEX_OK, Some [''a'', ''b'']))"
proof -
  have "lex ''a b'' = (DSTRLEX_OK, Some [''a'', ''b''])"
    by (simp add: lex_def lfinish_def)
  then show ?thesis
    using dstrlex_parse_spec [OF lit_drep [of "''a b''"]] lex_fits_short [of "''a b''"] by simp
qed

text \<open>An escaped text between quotes, as the server puts it into a packet.\<close>

definition quoted :: "dstring \<Rightarrow> dstring res" where
  "quoted e = bindR (dcatcs dnew [chr_quote]) (\<lambda>b. bindR (dcat b e) (\<lambda>b. dcatcs b [chr_quote]))"

lemma quoted_gives:
  assumes "drep e (escape xs)" "length (escape xs) < 32"
  shows "gives (quoted e) (\<lambda>b. drep b (quote xs))"
proof -
  have q: "cstr [chr_quote] = [chr_quote]" by (simp add: cstr_def)
  have "gives (dcatcs dnew [chr_quote]) (\<lambda>b. drep b [chr_quote])"
    by (rule gives_mono [OF dcatcs_gives [OF dnew_drep]]) (simp_all add: dholds_def q)
  then obtain b where b: "dcatcs dnew [chr_quote] = Inr b" "drep b [chr_quote]" by (rule givesE)
  have "gives (dcat b e) (\<lambda>b. drep b (chr_quote # escape xs))"
    by (rule gives_mono [OF dcat_gives [OF b(2) assms(1)]]) (use assms(2) in auto)
  then obtain c where c: "dcat b e = Inr c" "drep c (chr_quote # escape xs)" by (rule givesE)
  have "gives (dcatcs c [chr_quote]) (\<lambda>b. drep b (quote xs))"
    by (rule gives_mono [OF dcatcs_gives [OF c(2)]]) (use assms(2) in \<open>auto simp: dholds_def q quote_def\<close>)
  with b c show ?thesis by (simp add: quoted_def)
qed



text \<open>Escaping a text of 32 or more bytes that need no escape writes past the end of the
  32 bytes of the block the result starts with.\<close>

theorem escape_overflow:
  "drep str xs \<Longrightarrow> \<forall>c\<in>set xs. \<not> special c \<Longrightarrow> 32 \<le> length xs \<Longrightarrow>
   dstrlex_escape str = Inl OutOfBounds"
  by (rule dstrlex_escape_fault)

theorem escape_overflow_witness: "dstrlex_escape (lit (replicate 32 CHR ''a'')) = Inl OutOfBounds"
  by (rule escape_overflow [OF lit_drep]) (simp_all add: special_def)

section \<open>Strings\<close>



section \<open>Splitting and joining\<close>

text \<open>C37: joining with the separator what \<open>dsplit\<close> made of a text gives the text back, for
  every limit.\<close>

theorem split_join_roundtrip:
  "drep text1 xs \<Longrightarrow> drep on p \<Longrightarrow> length xs + 1 < dmax \<Longrightarrow> p \<noteq> [] \<Longrightarrow>
   gives (bindR (dsplit text1 on mx) (\<lambda>l. dlist_join l on)) (\<lambda>s. drep s xs)"
proof -
  assume t: "drep text1 xs" and on: "drep on p" and len: "length xs + 1 < dmax" and p: "p \<noteq> []"
  have "drept False text1 xs" using t by (simp add: drept_def)
  then have "gives (dsplit text1 on mx)
      (\<lambda>l. dlrep False l (pieces p (cuts (unat mx) (length xs)) xs))"
    using on len p by (intro dsplit_gives) auto
  then show ?thesis
  proof (rule gives_bind)
    fix l assume "dlrep False l (pieces p (cuts (unat mx) (length xs)) xs)"
    from dlist_join_gives [OF this on] len show "gives (dlist_join l on) (\<lambda>s. drep s xs)"
      by (simp add: join_pieces)
  qed
qed

theorem split_join_roundtrip_witness:
  "gives (bindR (dsplit (lit ''a,b,,c'') (lit '','') 3) (\<lambda>l. dlist_join l (lit '','')))
     (\<lambda>s. drep s ''a,b,,c'')"
  by (rule split_join_roundtrip [OF lit_drep lit_drep]) simp_all

text \<open>No piece of a split but the last holds the separator, and with a limit above the
  length of the text the last does not either; there are never more pieces than the limit.\<close>

theorem dsplit_separates:
  "drept t text1 xs \<Longrightarrow> drep on p \<Longrightarrow> length xs < dmax \<Longrightarrow> p \<noteq> [] \<Longrightarrow>
   gives (dsplit text1 on mx) (\<lambda>l. \<exists>ys. dlrep t l ys \<and>
     (\<forall>y\<in>set (butlast ys). \<forall>i. \<not> occurs p y i) \<and>
     (length xs < unat mx \<longrightarrow> (\<forall>y\<in>set ys. \<forall>i. \<not> occurs p y i)) \<and>
     (1 < unat mx \<longrightarrow> length ys \<le> unat mx))"
proof -
  assume t: "drept t text1 xs" and on: "drep on p" and len: "length xs < dmax" and p: "p \<noteq> []"
  let ?ys = "pieces p (cuts (unat mx) (length xs)) xs"
  have "length xs < unat mx \<Longrightarrow> length xs \<le> cuts (unat mx) (length xs)"
    by (auto simp: cuts_def Let_def)
  moreover have "1 < unat mx \<Longrightarrow> Suc (cuts (unat mx) (length xs)) = unat mx"
    by (auto simp: cuts_def Let_def)
  ultimately show ?thesis
    using pieces_butlast [OF p] pieces_all [OF p] length_pieces [of p "cuts (unat mx) (length xs)" xs]
    by (intro gives_mono [OF dsplit_gives [OF t on len p]] exI [of _ ?ys]) auto
qed

theorem dsplit_separates_witness:
  "gives (dsplit (lit ''a,b'') (lit '','') 2) (\<lambda>l. \<exists>ys. dlrep True l ys \<and>
     (\<forall>y\<in>set (butlast ys). \<forall>i. \<not> occurs '','' y i) \<and>
     (length ''a,b'' < unat (2 :: u64) \<longrightarrow> (\<forall>y\<in>set ys. \<forall>i. \<not> occurs '','' y i)) \<and>
     (1 < unat (2 :: u64) \<longrightarrow> length ys \<le> unat (2 :: u64)))"
  by (rule dsplit_separates [OF lit_drept lit_drep]) simp_all

section \<open>Lists and dictionaries\<close>

text \<open>C38: the client's dictionary refines a map: after any sequence of \<open>dsdict_setcs\<close> on a
  new dictionary, \<open>dsdict_get\<close> returns the last value written for the key, and \<open>NULL\<close> when
  none was.\<close>

theorem dsdict_is_map:
  "\<forall>(k, v)\<in>set kvs. length k < dmax \<and> length v + 1 < dmax \<Longrightarrow> length k < dmax \<Longrightarrow>
   gives (bindR (foldR (\<lambda>(k, v) d. dsdict_setcs d k v) kvs dsdict_new) (\<lambda>d. dsdict_get d k))
     (\<lambda>r. rel_option drep r (map_of (rev (map (map_prod cstr cstr) kvs)) (cstr k)))"
  using ds.puts_from_empty [of kvs k] by (simp add: ds.puts_def case_prod_unfold)

theorem dsdict_is_map_witness:
  "gives (bindR (foldR (\<lambda>(k, v) d. dsdict_setcs d k v) [(''a'', ''1''), (''a'', ''2'')] dsdict_new)
       (\<lambda>d. dsdict_get d ''a''))
     (\<lambda>r. rel_option drep r (map_of (rev (map (map_prod cstr cstr) [(''a'', ''1''), (''a'', ''2'')])) (cstr ''a'')))"
  by (rule dsdict_is_map) simp_all

text \<open>The server's dictionary refines a map in the same way.\<close>

theorem dd_is_map:
  "\<forall>(k, v)\<in>set kvs. length k < dmax \<and> length v + 1 < dmax \<Longrightarrow> length k < dmax \<Longrightarrow>
   gives (bindR (foldR (\<lambda>(k, v) d. dd_set d k v) kvs dd_new) (\<lambda>d. dd_lookup d k))
     (\<lambda>r. rel_option drep r (map_of (rev (map (map_prod cstr cstr) kvs)) (cstr k)))"
  using dd.puts_from_empty [of kvs k] by (simp add: dd.puts_def case_prod_unfold)

theorem dd_is_map_witness:
  "gives (bindR (foldR (\<lambda>(k, v) d. dd_set d k v) [(''a'', ''1''), (''b'', ''2'')] dd_new)
       (\<lambda>d. dd_lookup d ''b''))
     (\<lambda>r. rel_option drep r (map_of (rev (map (map_prod cstr cstr) [(''a'', ''1''), (''b'', ''2'')])) (cstr ''b'')))"
  by (rule dd_is_map) simp_all

end
