(* ===== verification/Audio.thy ===== *)
theory Audio
  imports Prelude
begin

text \<open>
  The audio buffers of \<open>src/libsvc/audio.c\<close>: allocation, copying, silencing and
  mixing.  A sample is a \<open>float\<close> in the code; here it is any type with a zero and an
  addition, and nothing is assumed of them.  A sample is indeterminate (\<open>None\<close>) until
  it is written.
\<close>

section \<open>The code\<close>

record 'a audio =
  asize :: u32
  adata :: "'a option list"

definition svc_audio_data_create :: "u32 \<Rightarrow> 'a audio" where
  "svc_audio_data_create sz = \<lparr>asize = sz, adata = replicate (unat sz) None\<rparr>"

text \<open>A fake buffer has no samples of its own: any access to them is out of bounds.\<close>

definition svc_audio_fake_data_create :: "u32 \<Rightarrow> 'a audio" where
  "svc_audio_fake_data_create sz = \<lparr>asize = sz, adata = []\<rparr>"

definition sample_get :: "'a audio \<Rightarrow> nat \<Rightarrow> 'a res" where
  "sample_get a k =
     (if k < length (adata a)
      then (case adata a ! k of None \<Rightarrow> Inl Uninit | Some x \<Rightarrow> Inr x)
      else Inl OutOfBounds)"

definition sample_set :: "nat \<Rightarrow> 'a \<Rightarrow> 'a audio \<Rightarrow> 'a audio res" where
  "sample_set k x a =
     (if k < length (adata a) then Inr (a\<lparr>adata := (adata a)[k := Some x]\<rparr>)
      else Inl OutOfBounds)"

text \<open>The result is the return value and the destination.\<close>

definition svc_audio_data_copy :: "'a audio \<Rightarrow> 'a audio \<Rightarrow> (int \<times> 'a audio) res" where
  "svc_audio_data_copy dest src =
     (if asize dest \<noteq> asize src then Inr (- 1, dest)
      else let n = unat (asize src) in
        if n \<le> length (adata dest) \<and> n \<le> length (adata src)
        then Inr (0, dest\<lparr>adata := take n (adata src) @ drop n (adata dest)\<rparr>)
        else Inl OutOfBounds)"

definition svc_clear_audio_data :: "'a::zero audio \<Rightarrow> 'a audio res" where
  "svc_clear_audio_data a = foldR (\<lambda>i. sample_set i 0) [0..<unat (asize a)] a"

definition mix_in :: "'a::plus audio \<Rightarrow> 'a audio \<Rightarrow> 'a audio res" where
  "mix_in inp result =
     foldR (\<lambda>k r. bindR (sample_get r k) (\<lambda>x. bindR (sample_get inp k) (\<lambda>y.
         sample_set k (x + y) r)))
       [0..<unat (asize result)] result"

fun mix_streams :: "'a::plus audio list \<Rightarrow> 'a audio \<Rightarrow> (int \<times> 'a audio) res" where
  "mix_streams [] result = Inr (0, result)"
| "mix_streams (inp # inps) result =
     (if asize inp \<noteq> asize result then Inr (- 1, result)
      else bindR (mix_in inp result) (mix_streams inps))"

definition svc_mix_audio_streams :: "'a::{zero, plus} audio list \<Rightarrow> 'a audio \<Rightarrow> (int \<times> 'a audio) res" where
  "svc_mix_audio_streams inputs result =
     bindR (svc_clear_audio_data result) (mix_streams inputs)"

section \<open>What it computes\<close>

text \<open>\<open>arep a xs\<close>: the buffer is well-formed and holds the samples \<open>xs\<close>, all written.\<close>

definition awf :: "'a audio \<Rightarrow> bool" where
  "awf a \<longleftrightarrow> length (adata a) = unat (asize a)"

definition arep :: "'a audio \<Rightarrow> 'a list \<Rightarrow> bool" where
  "arep a xs \<longleftrightarrow> adata a = map Some xs \<and> length xs = unat (asize a)"

lemma arep_awf: "arep a xs \<Longrightarrow> awf a"
  by (simp add: arep_def awf_def)

lemma awf_create [simp]: "awf (svc_audio_data_create n)"
  by (simp add: awf_def svc_audio_data_create_def)

lemma asize_create [simp]: "asize (svc_audio_data_create n) = n"
  by (simp add: svc_audio_data_create_def)

lemma fill_loop:
  assumes f: "\<And>k d. k < length d \<Longrightarrow> k < n \<Longrightarrow> (\<forall>i<n. k \<le> i \<longrightarrow> d ! i = d0 ! i) \<Longrightarrow>
      f k (a\<lparr>adata := d\<rparr>) = Inr (a\<lparr>adata := d[k := Some (g k)]\<rparr>)"
    and len: "length d0 = n"
  shows "foldR f [0..<n] (a\<lparr>adata := d0\<rparr>) = Inr (a\<lparr>adata := map (Some \<circ> g) [0..<n]\<rparr>)"
proof -
  have "m \<le> n \<Longrightarrow> foldR f [0..<m] (a\<lparr>adata := d0\<rparr>) =
      Inr (a\<lparr>adata := map (Some \<circ> g) [0..<m] @ drop m d0\<rparr>)" for m
  proof (induction m)
    case (Suc m)
    let ?d = "map (Some \<circ> g) [0..<m] @ drop m d0"
    have "f m (a\<lparr>adata := ?d\<rparr>) = Inr (a\<lparr>adata := ?d[m := Some (g m)]\<rparr>)"
      by (rule f) (use Suc.prems len in \<open>auto simp: nth_append\<close>)
    moreover have "?d[m := Some (g m)] = map (Some \<circ> g) [0..<Suc m] @ drop (Suc m) d0"
      using Suc.prems len by (simp add: list_update_append Cons_nth_drop_Suc [symmetric])
    ultimately show ?case using Suc by (simp add: comp_def)
  qed simp
  from this [of n] show ?thesis by (simp add: len)
qed

lemma svc_clear_gives:
  fixes a :: "'a::zero audio"
  assumes "awf a"
  shows "svc_clear_audio_data a = Inr (a\<lparr>adata := map Some (replicate (unat (asize a)) 0)\<rparr>)"
proof -
  have "foldR (\<lambda>i. sample_set i 0) [0..<unat (asize a)] (a\<lparr>adata := adata a\<rparr>) =
      Inr (a\<lparr>adata := map (Some \<circ> (\<lambda>_. 0)) [0..<unat (asize a)]\<rparr>)"
    by (rule fill_loop) (use assms in \<open>auto simp: sample_set_def awf_def\<close>)
  then show ?thesis by (simp add: svc_clear_audio_data_def map_replicate_const comp_def)
qed

lemma svc_audio_data_copy_gives:
  assumes "awf dest" and "arep src xs"
  shows "svc_audio_data_copy dest src =
    Inr (if asize dest = asize src then (0, src) else (- 1, dest))"
  using assms by (auto simp: svc_audio_data_copy_def arep_def awf_def)

lemma mix_in_gives:
  assumes r: "arep r xs" and i: "arep inp ys" and sz: "asize inp = asize r"
  shows "mix_in inp r = Inr (r\<lparr>adata := map Some (map2 (+) xs ys)\<rparr>)"
proof -
  have len: "length xs = unat (asize r)" "length ys = unat (asize r)"
    using assms by (auto simp: arep_def)
  have "foldR (\<lambda>k r. bindR (sample_get r k) (\<lambda>x. bindR (sample_get inp k) (\<lambda>y. sample_set k (x + y) r)))
       [0..<unat (asize r)] (r\<lparr>adata := map Some xs\<rparr>) =
     Inr (r\<lparr>adata := map (Some \<circ> (\<lambda>k. xs ! k + ys ! k)) [0..<unat (asize r)]\<rparr>)"
    by (rule fill_loop) (use i len in \<open>auto simp: sample_get_def sample_set_def arep_def\<close>)
  moreover have "map (\<lambda>k. xs ! k + ys ! k) [0..<unat (asize r)] = map2 (+) xs ys"
    by (rule nth_equalityI) (auto simp: len)
  then have "map (Some \<circ> (\<lambda>k. xs ! k + ys ! k)) [0..<unat (asize r)] = map Some (map2 (+) xs ys)"
    by (metis map_map)
  moreover have "r\<lparr>adata := map Some xs\<rparr> = r" using r by (simp add: arep_def)
  ultimately show ?thesis by (simp add: mix_in_def)
qed

text \<open>
  Mixing adds the streams sample by sample, in order, up to the first stream of another
  size; it reports whether there was one, and keeps what was mixed so far.
\<close>

definition mix :: "'a::plus list list \<Rightarrow> 'a list \<Rightarrow> 'a list" where
  "mix xss xs = foldl (map2 (+)) xs xss"

lemma length_mix: "\<forall>ys\<in>set xss. length ys = length xs \<Longrightarrow> length (mix xss xs) = length xs"
  unfolding mix_def by (induction xss arbitrary: xs) auto

lemma nth_mix:
  "\<forall>ys\<in>set xss. length ys = length xs \<Longrightarrow> k < length xs \<Longrightarrow>
   mix xss xs ! k = foldl (+) (xs ! k) (map (\<lambda>ys. ys ! k) xss)"
  unfolding mix_def by (induction xss arbitrary: xs) auto

lemma mix_streams_gives:
  assumes "list_all2 arep inputs xss" and "arep r xs"
  shows "gives (mix_streams inputs r) (\<lambda>(code, r').
     asize r' = asize r \<and> code = (if \<forall>i\<in>set inputs. asize i = asize r then 0 else - 1) \<and>
     arep r' (mix (takeWhile (\<lambda>ys. length ys = unat (asize r)) xss) xs))"
  using assms
proof (induction inputs xss arbitrary: r xs rule: list_all2_induct)
  case Nil
  then show ?case by (simp add: mix_def)
next
  case (Cons i inputs ys xss)
  have len: "length ys = unat (asize i)" "length xs = unat (asize r)"
    using Cons by (auto simp: arep_def)
  show ?case
  proof (cases "asize i = asize r")
    case True
    define r' where "r' = r\<lparr>adata := map Some (map2 (+) xs ys)\<rparr>"
    have "arep r' (map2 (+) xs ys)" using len True by (simp add: arep_def r'_def)
    from Cons.IH [OF this] have "gives (mix_streams inputs r') (\<lambda>(code, r').
     asize r' = asize r \<and> code = (if \<forall>i\<in>set inputs. asize i = asize r then 0 else - 1) \<and>
     arep r' (mix (takeWhile (\<lambda>ys. length ys = unat (asize r)) xss) (map2 (+) xs ys)))"
      by (simp add: r'_def)
    moreover have "mix_in i r = Inr r'"
      using mix_in_gives [OF Cons.prems Cons.hyps(1) True] by (simp add: r'_def)
    ultimately show ?thesis using True len by (simp add: mix_def)
  next
    case False
    then have "unat (asize i) \<noteq> unat (asize r)" by (simp add: word_unat_eq_iff)
    with False Cons.prems len show ?thesis by (auto simp: mix_def)
  qed
qed

lemma svc_mix_gives:
  fixes r :: "'a::{zero, plus} audio"
  assumes "awf r" and "list_all2 arep inputs xss"
  shows "gives (svc_mix_audio_streams inputs r) (\<lambda>(code, r').
     asize r' = asize r \<and> code = (if \<forall>i\<in>set inputs. asize i = asize r then 0 else - 1) \<and>
     arep r' (mix (takeWhile (\<lambda>ys. length ys = unat (asize r)) xss) (replicate (unat (asize r)) 0)))"
proof -
  define r0 where "r0 = r\<lparr>adata := map Some (replicate (unat (asize r)) 0)\<rparr>"
  have "arep r0 (replicate (unat (asize r)) 0)" by (simp add: r0_def arep_def)
  from mix_streams_gives [OF assms(2) this] show ?thesis
    using svc_clear_gives [OF assms(1)]
    by (simp add: svc_mix_audio_streams_def r0_def)
qed

end
