(* ===== verification/PacketQueue.thy ===== *)
theory PacketQueue
  imports Audio
begin

text \<open>
  The bounded queue between the audio callback and the network thread
  (\<open>src/libsvc/packet_queue.c\<close>): a ring of preallocated audio buffers.  The first part
  models the two operations on the ring as they run under \<open>queue_mutex\<close> and shows which
  sequence the consumer reads; the second part is the step relation of one producer and one
  consumer with both mutexes, and its invariant.
\<close>

section \<open>The ring\<close>

record 'a pqueue =
  pq_head :: u32
  pq_tail :: u32
  pq_size :: u32
  pq_audio :: "'a audio list"

definition packet_queue_create :: "u32 \<Rightarrow> u32 \<Rightarrow> 'a pqueue" where
  "packet_queue_create queue_size audio_size =
     \<lparr>pq_head = 0, pq_tail = 0, pq_size = queue_size,
      pq_audio = map (\<lambda>_. svc_audio_data_create audio_size) [0..<unat queue_size]\<rparr>"

definition next_point_in_queue :: "u32 \<Rightarrow> u32 \<Rightarrow> u32" where
  "next_point_in_queue sz pos = (if pos = sz - 1 then 0 else pos + 1)"

definition packet_queue_is_empty :: "'a pqueue \<Rightarrow> bool" where
  "packet_queue_is_empty q \<longleftrightarrow> pq_tail q = pq_head q"

definition ring_get :: "'a pqueue \<Rightarrow> u32 \<Rightarrow> 'a audio res" where
  "ring_get q i =
     (if unat i < length (pq_audio q) then Inr (pq_audio q ! unat i) else Inl OutOfBounds)"

text \<open>The critical sections.  \<open>push\<close> returns the C result, 1 for a full queue.\<close>

definition queue_push :: "'a audio \<Rightarrow> 'a pqueue \<Rightarrow> (int \<times> 'a pqueue) res" where
  "queue_push a q =
     (let new_tail = next_point_in_queue (pq_size q) (pq_tail q) in
      if new_tail = pq_head q then Inr (1, q)
      else bindR (ring_get q new_tail) (\<lambda>d.
        bindR (svc_audio_data_copy d a) (\<lambda>(_, d).
          Inr (0, q\<lparr>pq_tail := new_tail, pq_audio := (pq_audio q)[unat new_tail := d]\<rparr>))))"

definition queue_pop :: "'a audio \<Rightarrow> 'a pqueue \<Rightarrow> ('a audio \<times> 'a pqueue) res" where
  "queue_pop out q =
     bindR (ring_get q (pq_head q)) (\<lambda>s.
     bindR (svc_audio_data_copy out s) (\<lambda>(_, out).
       Inr (out, q\<lparr>pq_head := next_point_in_queue (pq_size q) (pq_head q)\<rparr>)))"

section \<open>The sequence in the ring\<close>

text \<open>
  \<open>pushes\<close> fill the slots after the head: the slot of the head itself is not part of the
  content, it holds what was read last.  All buffers have the frame size \<open>n\<close>.
\<close>

definition qdist :: "'a pqueue \<Rightarrow> nat" where
  "qdist q = (unat (pq_tail q) + unat (pq_size q) - unat (pq_head q)) mod unat (pq_size q)"

definition qslot :: "'a pqueue \<Rightarrow> nat \<Rightarrow> 'a audio" where
  "qslot q i = pq_audio q ! ((unat (pq_head q) + i) mod unat (pq_size q))"

definition content :: "'a pqueue \<Rightarrow> 'a audio list" where
  "content q = map (\<lambda>i. qslot q (Suc i)) [0..<qdist q]"

definition queue_ok :: "u32 \<Rightarrow> 'a pqueue \<Rightarrow> bool" where
  "queue_ok n q \<longleftrightarrow>
     unat (pq_head q) < unat (pq_size q) \<and> unat (pq_tail q) < unat (pq_size q) \<and>
     length (pq_audio q) = unat (pq_size q) \<and>
     (\<forall>a\<in>set (pq_audio q). awf a \<and> asize a = n)"

lemma unat_next: "unat pos < unat sz \<Longrightarrow>
   unat (next_point_in_queue sz pos) = Suc (unat pos) mod unat sz"
  unfolding next_point_in_queue_def by (rule unat_ring_next)

lemma ring_add:
  "h < N \<Longrightarrow> k < N \<Longrightarrow> (h + k) mod N = (if h + k < N then h + k else h + k - N)"
  for h k N :: nat
  by (simp add: mod_if)

lemma ring_inj: "h < N \<Longrightarrow> i < N \<Longrightarrow> j < N \<Longrightarrow> (h + i) mod N = (h + j) mod N \<longleftrightarrow> i = j"
  for h i j N :: nat
  by (auto simp: ring_add split: if_splits)

lemma qdist_less: "queue_ok n q \<Longrightarrow> qdist q < unat (pq_size q)"
  by (auto simp: queue_ok_def qdist_def)

lemma qdist_unique:
  assumes "queue_ok n q" "unat (pq_tail q) = (unat (pq_head q) + k) mod unat (pq_size q)"
    "k < unat (pq_size q)"
  shows "qdist q = k"
  using assms by (auto simp: queue_ok_def qdist_def ring_add mod_if split: if_splits)

lemma tail_qdist:
  assumes "queue_ok n q"
  shows "unat (pq_tail q) = (unat (pq_head q) + qdist q) mod unat (pq_size q)"
  using assms by (auto simp: queue_ok_def qdist_def mod_if split: if_splits)

lemma empty_qdist: "queue_ok n q \<Longrightarrow> packet_queue_is_empty q \<longleftrightarrow> qdist q = 0"
  using tail_qdist [of n q] qdist_unique [of n q 0]
  by (auto simp: packet_queue_is_empty_def word_unat_eq_iff queue_ok_def)

lemma length_content [simp]: "length (content q) = qdist q"
  by (simp add: content_def)

lemma svc_audio_data_copy_awf:
  assumes "awf dest" "awf src" "asize dest = asize src"
  shows "svc_audio_data_copy dest src = Inr (0, src)"
  using assms by (simp add: svc_audio_data_copy_def awf_def)

text \<open>
  What a consumer will read, in order: the buffer at the head, then the content.
\<close>

definition items :: "'a pqueue \<Rightarrow> 'a audio list" where
  "items q = map (qslot q) [0..<Suc (qdist q)]"

lemma items_content: "items q = qslot q 0 # content q"
  by (simp add: items_def content_def upt_conv_Cons map_Suc_upt [symmetric] comp_def del: upt_Suc)

lemma queue_push_gives:
  assumes ok: "queue_ok n q" and a: "awf a" "asize a = n"
  shows "gives (queue_push a q) (\<lambda>(r, q'). queue_ok n q' \<and> pq_head q' = pq_head q \<and>
    pq_size q' = pq_size q \<and>
    (if Suc (qdist q) = unat (pq_size q) then r = 1 \<and> q' = q
     else r = 0 \<and> qdist q' = Suc (qdist q) \<and> items q' = items q @ [a]))"
proof -
  let ?N = "unat (pq_size q)"
  let ?h = "unat (pq_head q)"
  let ?t = "next_point_in_queue (pq_size q) (pq_tail q)"
  have h: "?h < ?N" "unat (pq_tail q) < ?N" "length (pq_audio q) = ?N"
    using ok by (simp_all add: queue_ok_def)
  have d: "qdist q < ?N" by (rule qdist_less [OF ok])
  have t: "unat ?t = (?h + Suc (qdist q)) mod ?N"
    using tail_qdist [OF ok] h by (simp add: unat_next mod_Suc_eq)
  have full: "?t = pq_head q \<longleftrightarrow> Suc (qdist q) = ?N"
    using h d by (auto simp: word_unat_eq_iff t mod_if)
  show ?thesis
  proof (cases "Suc (qdist q) = ?N")
    case True
    with full ok show ?thesis by (simp add: queue_push_def)
  next
    case False
    with d have d': "Suc (qdist q) < ?N" by simp
    have tl: "unat ?t < ?N" using d' unfolding t by (intro mod_less_divisor) simp
    define q' where "q' = q\<lparr>pq_tail := ?t, pq_audio := (pq_audio q)[unat ?t := a]\<rparr>"
    have nth: "pq_audio q ! unat ?t \<in> set (pq_audio q)" using tl h by simp
    then have "svc_audio_data_copy (pq_audio q ! unat ?t) a = Inr (0, a)"
      using ok a by (intro svc_audio_data_copy_awf) (auto simp: queue_ok_def)
    then have eq: "queue_push a q = Inr (0, q')"
      using full False tl h by (simp add: queue_push_def ring_get_def q'_def Let_def)
    have ok': "queue_ok n q'"
      using ok a tl by (auto simp: queue_ok_def q'_def dest!: set_update_subset_insert [THEN subsetD])
    have dist: "qdist q' = Suc (qdist q)"
      by (rule qdist_unique [OF ok']) (use t d' in \<open>simp_all add: q'_def\<close>)
    have slot: "qslot q' i = (if i = Suc (qdist q) then a else qslot q i)" if "i < ?N" for i
      using that h d' tl ring_inj [OF h(1) that d'] by (auto simp: qslot_def q'_def t nth_list_update)
    have "items q' = items q @ [a]"
      using d' by (simp add: items_def dist slot)
    with eq ok' dist False show ?thesis by (simp add: q'_def)
  qed
qed

lemma queue_pop_gives:
  assumes ok: "queue_ok n q" and out: "awf out" "asize out = n" and ne: "qdist q \<noteq> 0"
  shows "gives (queue_pop out q) (\<lambda>(a, q'). queue_ok n q' \<and> pq_size q' = pq_size q \<and>
    awf a \<and> asize a = n \<and> Suc (qdist q') = qdist q \<and> items q = a # items q')"
proof -
  let ?N = "unat (pq_size q)"
  let ?h = "unat (pq_head q)"
  have h: "?h < ?N" "length (pq_audio q) = ?N" using ok by (simp_all add: queue_ok_def)
  define q' where "q' = q\<lparr>pq_head := next_point_in_queue (pq_size q) (pq_head q)\<rparr>"
  have h': "unat (pq_head q') = Suc ?h mod ?N" using h by (simp add: q'_def unat_next)
  have nth: "pq_audio q ! ?h \<in> set (pq_audio q)" using h by simp
  then have wf: "awf (pq_audio q ! ?h)" "asize (pq_audio q ! ?h) = n"
    using ok by (auto simp: queue_ok_def)
  have eq: "queue_pop out q = Inr (pq_audio q ! ?h, q')"
    using h svc_audio_data_copy_awf [OF out(1) wf(1)] out wf(2)
    by (simp add: queue_pop_def ring_get_def q'_def)
  have "Suc ?h mod ?N < ?N" using h by (intro mod_less_divisor) auto
  then have ok': "queue_ok n q'"
    using ok h' by (simp add: queue_ok_def) (simp add: q'_def)
  obtain k where k: "qdist q = Suc k" using ne by (cases "qdist q") auto
  have dist: "qdist q' = k"
  proof (rule qdist_unique [OF ok'])
    show "unat (pq_tail q') = (unat (pq_head q') + k) mod unat (pq_size q')"
      using tail_qdist [OF ok] k by (simp add: h') (simp add: q'_def mod_simps)
    show "k < unat (pq_size q')" using qdist_less [OF ok] k by (simp add: q'_def)
  qed
  have slot: "qslot q' i = qslot q (Suc i)" for i
    unfolding qslot_def h' by (simp add: q'_def mod_simps)
  have "qslot q 0 = pq_audio q ! ?h" using h by (simp add: qslot_def)
  then have "items q = pq_audio q ! ?h # items q'"
    using items_content [of q] by (simp add: content_def items_def k dist slot del: upt_Suc)
  with eq ok' wf dist k show ?thesis by (simp add: q'_def)
qed

section \<open>First in, first out\<close>

text \<open>
  The contract of a bounded queue.  \<open>seq\<close> is the sequence the consumer has still to
  read; a refused \<open>push\<close> changes nothing.
\<close>

locale fifo =
  fixes inv :: "'q \<Rightarrow> bool" and ready :: "'q \<Rightarrow> bool" and seq :: "'q \<Rightarrow> 'a list"
    and good :: "'a \<Rightarrow> bool"
    and enq :: "'a \<Rightarrow> 'q \<Rightarrow> (int \<times> 'q) res" and deq :: "'q \<Rightarrow> ('a \<times> 'q) res"
  assumes enq_law: "inv q \<Longrightarrow> good a \<Longrightarrow>
      gives (enq a q) (\<lambda>(r, q'). inv q' \<and> seq q' = (if r = 0 then seq q @ [a] else seq q))"
    and deq_law: "inv q \<Longrightarrow> ready q \<Longrightarrow>
      gives (deq q) (\<lambda>(a, q'). inv q' \<and> seq q = a # seq q')"
begin

text \<open>
  A schedule of pushes (\<open>Some a\<close>) and pops (\<open>None\<close>); a pop that is not ready waits, and
  is skipped.  The results are the queue, the accepted values and the values read.
\<close>

fun run :: "'a option list \<Rightarrow> 'q \<Rightarrow> ('q \<times> 'a list \<times> 'a list) res" where
  "run [] q = Inr (q, [], [])"
| "run (Some a # ops) q = bindR (enq a q) (\<lambda>(r, q). bindR (run ops q) (\<lambda>(q, acc, outs).
     Inr (q, if r = 0 then a # acc else acc, outs)))"
| "run (None # ops) q =
     (if ready q then bindR (deq q) (\<lambda>(a, q). bindR (run ops q) (\<lambda>(q, acc, outs).
        Inr (q, acc, a # outs)))
      else run ops q)"

lemma run_fifo:
  assumes "inv q" and "\<forall>a. Some a \<in> set ops \<longrightarrow> good a"
  shows "gives (run ops q) (\<lambda>(q', acc, outs). inv q' \<and> seq q @ acc = outs @ seq q')"
  using assms
proof (induction ops arbitrary: q)
  case (Cons op ops)
  show ?case
  proof (cases op)
    case (Some a)
    from enq_law [OF Cons.prems(1), of a] Cons.prems(2) Some obtain r q1 where
      e: "enq a q = Inr (r, q1)" "inv q1" "seq q1 = (if r = 0 then seq q @ [a] else seq q)"
      by (auto simp: gives_def)
    from Cons.IH [OF e(2)] Cons.prems(2) obtain q' acc outs where
      "run ops q1 = Inr (q', acc, outs)" "inv q'" "seq q1 @ acc = outs @ seq q'"
      by (auto simp: gives_def)
    with e Some show ?thesis by (auto split: if_splits)
  next
    case None
    show ?thesis
    proof (cases "ready q")
      case True
      from deq_law [OF Cons.prems(1) this] obtain a q1 where
        e: "deq q = Inr (a, q1)" "inv q1" "seq q = a # seq q1" by (auto simp: gives_def)
      from Cons.IH [OF e(2)] Cons.prems(2) obtain q' acc outs where
        "run ops q1 = Inr (q', acc, outs)" "inv q'" "seq q1 @ acc = outs @ seq q'"
        by (auto simp: gives_def)
      with e None True show ?thesis by auto
    qed (use Cons None in auto)
  qed
qed simp

end

text \<open>The ring of the code, on buffers of the frame size \<open>n\<close>.\<close>

interpretation pq: fifo "queue_ok n :: 'a pqueue \<Rightarrow> bool" "\<lambda>q. \<not> packet_queue_is_empty q" items
  "\<lambda>a. awf a \<and> asize a = n" queue_push "queue_pop (svc_audio_data_create n)" for n
proof unfold_locales
  fix q :: "'a pqueue" and a :: "'a audio" assume "queue_ok n q" "awf a \<and> asize a = n"
  then show "gives (queue_push a q)
      (\<lambda>(r, q'). queue_ok n q' \<and> items q' = (if r = 0 then items q @ [a] else items q))"
    by (intro gives_mono [OF queue_push_gives [of n q a]]) (auto split: if_splits)
next
  fix q :: "'a pqueue" assume q: "queue_ok n q" "\<not> packet_queue_is_empty q"
  with queue_pop_gives [OF q(1) awf_create asize_create] show
    "gives (queue_pop (svc_audio_data_create n) q) (\<lambda>(a, q'). queue_ok n q' \<and> items q = a # items q')"
    by (auto simp: gives_def empty_qdist)
qed

lemma queue_create_ok:
  fixes n sz :: u32
  defines "q \<equiv> packet_queue_create sz n :: 'a pqueue"
  assumes "0 < unat sz"
  shows "queue_ok n q" "qdist q = 0" "items q = [svc_audio_data_create n]"
proof -
  note q_def [simp]
  let ?q = "packet_queue_create sz n :: 'a pqueue"
  have ok: "queue_ok n ?q" using assms by (auto simp: queue_ok_def packet_queue_create_def)
  then show "queue_ok n q" by simp
  have d: "qdist ?q = 0" by (simp add: qdist_def packet_queue_create_def)
  then show "qdist q = 0" by simp
  from d assms show "items q = [svc_audio_data_create n]"
    by (simp add: items_def qslot_def) (simp add: packet_queue_create_def)
qed

section \<open>The producer and the consumer\<close>

text \<open>
  One producer thread (the audio callback) and one consumer thread (the network thread), each
  at a point of its operation; both mutexes; the accepted and the delivered buffers.  Each
  constructor of the step relation is one statement of the code.
\<close>

datatype 'a ppoint =
    PIdle                     \<comment> \<open>before \<open>mutex_lock(&queue_mutex)\<close>\<close>
  | PTest "'a audio"          \<comment> \<open>before the test that unlocks \<open>queue_empty_mutex\<close>\<close>
  | PBody "'a audio"          \<comment> \<open>before the rest of the critical section\<close>
  | PUnlock                   \<comment> \<open>before \<open>mutex_unlock(&queue_mutex)\<close>\<close>

datatype cpoint =
    CIdle                     \<comment> \<open>before \<open>mutex_lock(&queue_empty_mutex)\<close>\<close>
  | CGate                     \<comment> \<open>before \<open>mutex_unlock(&queue_empty_mutex)\<close>\<close>
  | CLock                     \<comment> \<open>before \<open>mutex_lock(&queue_mutex)\<close>\<close>
  | CBody                     \<comment> \<open>before the copy and the advance of the head\<close>
  | CTest                     \<comment> \<open>before the test that locks \<open>queue_empty_mutex\<close>\<close>
  | CUnlock                   \<comment> \<open>before \<open>mutex_unlock(&queue_mutex)\<close>\<close>

record 'a pcstate =
  pc_queue :: "'a pqueue"
  pc_qlock :: bool
  pc_elock :: bool
  pc_prod :: "'a ppoint"
  pc_cons :: cpoint
  pc_sent :: "'a audio list"
  pc_recv :: "'a audio list"

inductive pcstep :: "u32 \<Rightarrow> 'a pcstate \<Rightarrow> 'a pcstate \<Rightarrow> bool" for n where
  push_lock: "pc_prod s = PIdle \<Longrightarrow> \<not> pc_qlock s \<Longrightarrow> awf a \<Longrightarrow> asize a = n \<Longrightarrow>
    pcstep n s (s\<lparr>pc_qlock := True, pc_prod := PTest a\<rparr>)"
| push_test: "pc_prod s = PTest a \<Longrightarrow>
    pcstep n s (s\<lparr>pc_elock := (if packet_queue_is_empty (pc_queue s) then False else pc_elock s),
      pc_prod := PBody a\<rparr>)"
| push_body: "pc_prod s = PBody a \<Longrightarrow> queue_push a (pc_queue s) = Inr (r, q) \<Longrightarrow>
    pcstep n s (s\<lparr>pc_queue := q, pc_prod := PUnlock,
      pc_sent := (if r = 0 then pc_sent s @ [a] else pc_sent s)\<rparr>)"
| push_unlock: "pc_prod s = PUnlock \<Longrightarrow>
    pcstep n s (s\<lparr>pc_qlock := False, pc_prod := PIdle\<rparr>)"
| pop_gate: "pc_cons s = CIdle \<Longrightarrow> \<not> pc_elock s \<Longrightarrow>
    pcstep n s (s\<lparr>pc_elock := True, pc_cons := CGate\<rparr>)"
| pop_pass: "pc_cons s = CGate \<Longrightarrow>
    pcstep n s (s\<lparr>pc_elock := False, pc_cons := CLock\<rparr>)"
| pop_lock: "pc_cons s = CLock \<Longrightarrow> \<not> pc_qlock s \<Longrightarrow>
    pcstep n s (s\<lparr>pc_qlock := True, pc_cons := CBody\<rparr>)"
| pop_body: "pc_cons s = CBody \<Longrightarrow>
    queue_pop (svc_audio_data_create n) (pc_queue s) = Inr (a, q) \<Longrightarrow>
    pcstep n s (s\<lparr>pc_queue := q, pc_cons := CTest, pc_recv := pc_recv s @ [a]\<rparr>)"
| pop_test_empty: "pc_cons s = CTest \<Longrightarrow> packet_queue_is_empty (pc_queue s) \<Longrightarrow> \<not> pc_elock s \<Longrightarrow>
    pcstep n s (s\<lparr>pc_elock := True, pc_cons := CUnlock\<rparr>)"
| pop_test: "pc_cons s = CTest \<Longrightarrow> \<not> packet_queue_is_empty (pc_queue s) \<Longrightarrow>
    pcstep n s (s\<lparr>pc_cons := CUnlock\<rparr>)"
| pop_unlock: "pc_cons s = CUnlock \<Longrightarrow>
    pcstep n s (s\<lparr>pc_qlock := False, pc_cons := CIdle\<rparr>)"

definition pcinit :: "u32 \<Rightarrow> u32 \<Rightarrow> 'a pcstate" where
  "pcinit sz n = \<lparr>pc_queue = packet_queue_create sz n, pc_qlock = False, pc_elock = True,
     pc_prod = PIdle, pc_cons = CIdle, pc_sent = [], pc_recv = []\<rparr>"

inductive pcreach :: "u32 \<Rightarrow> u32 \<Rightarrow> 'a pcstate \<Rightarrow> bool" for sz n where
  start: "pcreach sz n (pcinit sz n)"
| step: "pcreach sz n s \<Longrightarrow> pcstep n s s' \<Longrightarrow> pcreach sz n s'"

section \<open>The invariant\<close>

definition in_push :: "'a pcstate \<Rightarrow> bool" where
  "in_push s \<longleftrightarrow> pc_prod s \<noteq> PIdle"

definition in_pop :: "'a pcstate \<Rightarrow> bool" where
  "in_pop s \<longleftrightarrow> pc_cons s \<in> {CBody, CTest, CUnlock}"

text \<open>The producer has opened the gate of an empty queue and not filled it yet.\<close>

definition gate_open :: "'a pcstate \<Rightarrow> bool" where
  "gate_open s \<longleftrightarrow> (\<exists>a. pc_prod s = PBody a)"

abbreviation pcempty :: "'a pcstate \<Rightarrow> bool" where
  "pcempty s \<equiv> packet_queue_is_empty (pc_queue s)"

definition pcinv :: "u32 \<Rightarrow> u32 \<Rightarrow> 'a pcstate \<Rightarrow> bool" where
  "pcinv sz n s \<longleftrightarrow>
     queue_ok n (pc_queue s) \<and> pq_size (pc_queue s) = sz \<and>
     (pc_qlock s \<longleftrightarrow> in_push s \<or> in_pop s) \<and> \<not> (in_push s \<and> in_pop s) \<and>
     (\<forall>a. pc_prod s = PTest a \<or> pc_prod s = PBody a \<longrightarrow> awf a \<and> asize a = n) \<and>
     (case pc_cons s of
        CIdle \<Rightarrow> pc_elock s \<longleftrightarrow> pcempty s \<and> \<not> gate_open s
      | CGate \<Rightarrow> pc_elock s \<and> (\<not> pcempty s \<or> gate_open s)
      | CLock \<Rightarrow> \<not> pc_elock s \<and> (\<not> pcempty s \<or> gate_open s)
      | CBody \<Rightarrow> \<not> pc_elock s \<and> \<not> pcempty s
      | CTest \<Rightarrow> \<not> pc_elock s
      | CUnlock \<Rightarrow> pc_elock s \<longleftrightarrow> pcempty s) \<and>
     svc_audio_data_create n # pc_sent s = pc_recv s @ items (pc_queue s)"

lemma pcinv_init:
  assumes "1 < unat sz"
  shows "pcinv sz n (pcinit sz n :: 'a pcstate)"
proof -
  have "0 < unat sz" using assms by simp
  note q = queue_create_ok [OF this, of n, where 'a = 'a]
  have "packet_queue_is_empty (packet_queue_create sz n :: 'a pqueue)"
    by (simp add: packet_queue_is_empty_def packet_queue_create_def)
  with q show ?thesis
    by (simp add: pcinv_def pcinit_def in_push_def in_pop_def gate_open_def)
      (simp add: packet_queue_create_def)
qed

lemma pcinv_step:
  assumes inv: "pcinv sz n s" and step: "pcstep n s s'" and sz: "1 < unat sz"
  shows "pcinv sz n s'"
  using step
proof cases
  case (push_body a r q)
  have a: "awf a" "asize a = n" "queue_ok n (pc_queue s)" "pq_size (pc_queue s) = sz"
    using inv push_body by (auto simp: pcinv_def)
  from queue_push_gives [OF a(3,1,2)] push_body(3) have q: "queue_ok n q" "pq_size q = sz"
    "if Suc (qdist (pc_queue s)) = unat sz then r = 1 \<and> q = pc_queue s
     else r = 0 \<and> qdist q = Suc (qdist (pc_queue s)) \<and> items q = items (pc_queue s) @ [a]"
    by (simp_all add: a(4))
  have ne: "\<not> packet_queue_is_empty q"
    using q sz empty_qdist [OF q(1)] by (auto split: if_splits)
  have c: "pc_cons s \<notin> {CBody, CTest, CUnlock}"
    using inv push_body by (auto simp: pcinv_def in_push_def in_pop_def)
  have items: "svc_audio_data_create n # (if r = 0 then pc_sent s @ [a] else pc_sent s) =
      pc_recv s @ items q"
    using inv q(3) by (auto simp: pcinv_def split: if_splits)
  have go: "gate_open s" using push_body by (simp add: gate_open_def)
  show ?thesis using inv push_body(1,2) q(1,2) ne c items go
    by (cases "pc_cons s") (auto simp: pcinv_def in_push_def in_pop_def gate_open_def)
next
  case (pop_body a q)
  have ok: "queue_ok n (pc_queue s)" "\<not> pcempty s" using inv pop_body by (auto simp: pcinv_def)
  with queue_pop_gives [OF ok(1) awf_create asize_create] pop_body(3) have q: "queue_ok n q"
    "pq_size q = pq_size (pc_queue s)" "items (pc_queue s) = a # items q"
    by (simp_all add: empty_qdist)
  show ?thesis using inv pop_body(1,2) q
    by (auto simp: pcinv_def in_push_def in_pop_def gate_open_def)
qed (use inv in \<open>auto simp: pcinv_def in_push_def in_pop_def gate_open_def split: cpoint.splits if_splits\<close>)

lemma pcreach_inv: "pcreach sz n s \<Longrightarrow> 1 < unat sz \<Longrightarrow> pcinv sz n s"
  by (induction rule: pcreach.induct) (auto intro: pcinv_init pcinv_step)

text \<open>The consumer reads only from a queue that has something in it.\<close>

lemma pop_not_empty:
  "pcreach sz n s \<Longrightarrow> 1 < unat sz \<Longrightarrow> pc_cons s = CBody \<Longrightarrow> \<not> pcempty s"
  by (drule pcreach_inv) (auto simp: pcinv_def)

text \<open>
  It never waits for \<open>queue_empty_mutex\<close> while it holds \<open>queue_mutex\<close>, and some thread
  can always go on.
\<close>

lemma pop_test_free:
  "pcreach sz n s \<Longrightarrow> 1 < unat sz \<Longrightarrow> pc_cons s = CTest \<Longrightarrow> \<not> pc_elock s"
  by (drule pcreach_inv) (auto simp: pcinv_def)

lemma pc_progress:
  assumes "pcreach sz n s" "1 < unat sz"
  shows "\<exists>s'. pcstep n s s'"
proof -
  have inv: "pcinv sz n s" by (rule pcreach_inv [OF assms])
  show ?thesis
  proof (cases "pc_prod s")
    case PIdle
    show ?thesis
    proof (cases "pc_qlock s")
      case False
      with PIdle show ?thesis
        by (intro exI, rule push_lock [of s "svc_audio_data_create n"]) auto
    next
      case True
      then have "pc_cons s \<in> {CBody, CTest, CUnlock}"
        using inv PIdle by (auto simp: pcinv_def in_push_def in_pop_def)
      then consider "pc_cons s = CBody" | "pc_cons s = CTest" | "pc_cons s = CUnlock" by auto
      then show ?thesis
      proof cases
        case 1
        then have "queue_ok n (pc_queue s)" "\<not> pcempty s" using inv by (auto simp: pcinv_def)
        with queue_pop_gives [of n "pc_queue s" "svc_audio_data_create n"] obtain a q where
          "queue_pop (svc_audio_data_create n) (pc_queue s) = Inr (a, q)"
          by (auto simp: gives_def empty_qdist)
        with 1 show ?thesis by (blast intro: pop_body)
      next
        case 2
        then have "\<not> pc_elock s" using inv by (auto simp: pcinv_def)
        with 2 show ?thesis by (cases "pcempty s") (blast intro: pop_test_empty pop_test)+
      next
        case 3
        then show ?thesis by (blast intro: pop_unlock)
      qed
    qed
  next
    case (PTest a)
    then show ?thesis by (blast intro: push_test)
  next
    case (PBody a)
    with inv have a: "queue_ok n (pc_queue s)" "awf a" "asize a = n" by (auto simp: pcinv_def)
    from queue_push_gives [OF a] obtain r q where "queue_push a (pc_queue s) = Inr (r, q)"
      by (auto simp: gives_def)
    with PBody show ?thesis by (blast intro: push_body)
  next
    case PUnlock
    then show ?thesis by (blast intro: push_unlock)
  qed
qed

text \<open>
  What the consumer has received is what the producer sent, one buffer late: the first one
  is the unwritten buffer of slot 0, and the newest one stays in the queue.
\<close>

lemma received_late:
  assumes "pcreach sz n s" "1 < unat sz"
  shows "\<exists>rest. rest \<noteq> [] \<and> svc_audio_data_create n # pc_sent s = pc_recv s @ rest"
  using pcreach_inv [OF assms] by (intro exI [of _ "items (pc_queue s)"])
    (simp add: pcinv_def items_content)

end
