(* ===== verification/PacketCage.thy ===== *)
theory PacketCage
  imports Prelude "HOL-Library.Signed_Division"
begin

text \<open>
  The packet cage of \<open>src/libsvc/packet_cage.c\<close>: a jitter buffer that puts the audio
  packets of one peer back into the order of their 16-bit time stamps.  The packets are
  values of any type; the array of pointers is a list of options, \<open>None\<close> for
  \<open>NULL\<close>.  A function that frees packets returns them.  The operations run under
  \<open>cage_mutex\<close> from their first to their last statement, so each is one step.
\<close>

section \<open>Time stamps\<close>

definition MAX_TIME :: nat where "MAX_TIME = 65535"

definition time_inc :: "u32 \<Rightarrow> u32" where
  "time_inc t = (if t = of_nat MAX_TIME then 0 else t + 1)"

text \<open>The sum of an \<open>unsigned int\<close> and an \<open>int\<close> is unsigned.\<close>

definition time_inc_by :: "u32 \<Rightarrow> int \<Rightarrow> u32" where
  "time_inc_by t delta = (t + word_of_int delta) mod (of_nat MAX_TIME + 1)"

text \<open>
  The difference of the two times as an \<open>int\<close>, wrapped around where the subtraction
  overflows.
\<close>

definition time_delta :: "u32 \<Rightarrow> u32 \<Rightarrow> int" where
  "time_delta t1 t2 = sint (t1 - t2)"

definition is_newer :: "u32 \<Rightarrow> u32 \<Rightarrow> bool" where
  "is_newer t1 t2 \<longleftrightarrow>
     (let delta = time_delta t1 t2; m = int MAX_TIME + 1 in
      0 < delta \<and> delta < m sdiv 2 \<or> delta < 0 \<and> delta < (- m) sdiv 2)"

definition sub_time :: "u32 \<Rightarrow> u32 \<Rightarrow> int" where
  "sub_time t1 t2 =
     (let delta = time_delta t1 t2; m = int MAX_TIME + 1 in
      if is_newer t1 t2 then (delta + m) smod m else (- (- delta + m)) smod m)"

section \<open>The cage\<close>

record 'a cage =
  cg_head :: u32
  cg_size :: u32
  cg_head_time :: u32
  cg_tail_time :: u32
  cg_starvation :: bool
  cg_new :: bool
  cg_count :: int
  cg_queue :: "'a option list"

definition packet_cage_create :: "u32 \<Rightarrow> 'a cage" where
  "packet_cage_create n =
     \<lparr>cg_head = 0, cg_size = n, cg_head_time = 0, cg_tail_time = 0, cg_starvation = True,
      cg_new = True, cg_count = 0, cg_queue = replicate (unat n) None\<rparr>"

definition slot_get :: "'a cage \<Rightarrow> u32 \<Rightarrow> 'a option res" where
  "slot_get c i =
     (if unat i < length (cg_queue c) then Inr (cg_queue c ! unat i) else Inl OutOfBounds)"

definition slot_set :: "u32 \<Rightarrow> 'a option \<Rightarrow> 'a cage \<Rightarrow> 'a cage res" where
  "slot_set i p c =
     (if unat i < length (cg_queue c) then Inr (c\<lparr>cg_queue := (cg_queue c)[unat i := p]\<rparr>)
      else Inl OutOfBounds)"

text \<open>The packets handed to \<open>free\<close>.\<close>

definition packet_cage_destroy :: "'a cage \<Rightarrow> 'a list res" where
  "packet_cage_destroy c =
     foldR (\<lambda>i freed. bindR (slot_get c (of_nat i)) (\<lambda>p.
         Inr (case p of None \<Rightarrow> freed | Some x \<Rightarrow> freed @ [x])))
       [0..<unat (cg_size c)] []"

definition next_point_in_cage :: "u32 \<Rightarrow> u32 \<Rightarrow> u32" where
  "next_point_in_cage sz pos = (if pos = sz - 1 then 0 else pos + 1)"

definition delta_point_in_cage :: "u32 \<Rightarrow> u32 \<Rightarrow> int \<Rightarrow> u32 res" where
  "delta_point_in_cage sz pos delta =
     (if sz = 0 then Inl DivByZero
      else Inr (((pos + word_of_int delta) mod sz + sz) mod sz))"

definition packet_cage_is_empty :: "'a cage \<Rightarrow> bool" where
  "packet_cage_is_empty c \<longleftrightarrow> cg_count c = 0"

text \<open>The state after the head slot was emptied, as both \<open>pop\<close> and \<open>get_data\<close> leave it.\<close>

definition cage_advance :: "'a cage \<Rightarrow> 'a cage res" where
  "cage_advance c =
     bindR (slot_set (cg_head c) None c) (\<lambda>c.
       let c = c\<lparr>cg_head := next_point_in_cage (cg_size c) (cg_head c),
                 cg_head_time := time_inc (cg_head_time c)\<rparr>
       in Inr (if packet_cage_is_empty c then c\<lparr>cg_starvation := True, cg_new := True\<rparr> else c))"

definition packet_cage_pop :: "'a cage \<Rightarrow> ('a cage \<times> 'a list) res" where
  "packet_cage_pop c =
     bindR (slot_get c (cg_head c)) (\<lambda>p.
     bindR (cage_advance (if p \<noteq> None then c\<lparr>cg_count := cg_count c - 1\<rparr> else c)) (\<lambda>c.
       Inr (c, case p of None \<Rightarrow> [] | Some x \<Rightarrow> [x])))"

text \<open>The loop that drops the packets too old for the window of the new one.\<close>

partial_function (option) cage_make_room ::
  "u32 \<Rightarrow> 'a cage \<Rightarrow> 'a list \<Rightarrow> ('a cage \<times> 'a list) res option" where
  "cage_make_room t c freed =
     (if is_newer t (time_inc_by (cg_head_time c) (sint (cg_size c - 1)))
      then case packet_cage_pop c of
             Inl e \<Rightarrow> Some (Inl e)
           | Inr (c, f) \<Rightarrow> cage_make_room t (c\<lparr>cg_starvation := False\<rparr>) (freed @ f)
      else Some (Inr (c, freed)))"

definition packet_cage_put_data :: "'a cage \<Rightarrow> 'a \<Rightarrow> u32 \<Rightarrow> ('a cage \<times> 'a list) res" where
  "packet_cage_put_data c p t =
     (if cg_new c \<or> is_newer t (cg_head_time c) then
        let c = (if cg_new c then c\<lparr>cg_head_time := t, cg_tail_time := t, cg_new := False\<rparr> else c) in
        case cage_make_room t c [] of
          None \<Rightarrow> Inl Diverge
        | Some r \<Rightarrow> bindR r (\<lambda>(c, freed).
            bindR (delta_point_in_cage (cg_size c) (cg_head c) (sub_time t (cg_head_time c))) (\<lambda>pos.
            bindR (slot_set pos (Some p) c) (\<lambda>c.
              let c = c\<lparr>cg_count := cg_count c + 1\<rparr> in
              Inr (if is_newer t (cg_tail_time c) then c\<lparr>cg_tail_time := t\<rparr> else c, freed))))
      else Inr (c, []))"

definition packet_cage_get_data :: "'a cage \<Rightarrow> ('a cage \<times> 'a option) res" where
  "packet_cage_get_data c =
     (if \<not> cg_starvation c then
        bindR (slot_get c (cg_head c)) (\<lambda>p.
        bindR (cage_advance (if p \<noteq> None then c\<lparr>cg_count := cg_count c - 1\<rparr> else c)) (\<lambda>c.
          Inr (c, p)))
      else Inr (c, None))"

section \<open>The time stamps are 16-bit serial numbers\<close>

lemma len_num1_32: "LENGTH(32) - 1 = 31"
  by simp

text \<open>On time stamps below \<open>2 ^ 16\<close> the comparisons are those of the signed 16-bit
  difference.\<close>

definition serial_diff :: "u32 \<Rightarrow> u32 \<Rightarrow> int" where
  "serial_diff t1 t2 = (uint t1 - uint t2 + 32768) mod 65536 - 32768"

lemma time_bounds:
  "unat (t :: u32) \<le> MAX_TIME \<Longrightarrow> 0 \<le> uint t \<and> uint t < 65536"
  unfolding MAX_TIME_def using uint_nat [of t] by linarith

lemma time_diff_bounds:
  assumes "unat (t1 :: u32) \<le> MAX_TIME" "unat (t2 :: u32) \<le> MAX_TIME"
  shows "- 65536 < uint t1 - uint t2" "uint t1 - uint t2 < 65536"
  using time_bounds [OF assms(1)] time_bounds [OF assms(2)] by linarith+

lemma time_delta_small:
  assumes "unat t1 \<le> MAX_TIME" "unat t2 \<le> MAX_TIME"
  shows "time_delta t1 t2 = uint t1 - uint t2"
proof -
  have "signed_take_bit 31 (uint t1 - uint t2) = uint t1 - uint t2"
    using time_diff_bounds [OF assms] by (intro signed_take_bit_int_eq_self) auto
  moreover have "sint (t1 - t2) = sint (word_of_int (uint t1 - uint t2) :: u32)" by simp
  ultimately show ?thesis by (simp only: time_delta_def sint_sbintrunc' len_num1_32)
qed

text \<open>The three cases of the difference.\<close>

definition wrap16 :: "int \<Rightarrow> int" where
  "wrap16 d = (if 32768 \<le> d then d - 65536 else if d < - 32768 then d + 65536 else d)"

lemma mod_cases:
  fixes d :: int
  assumes "- 65536 < d" "d < 65536"
  shows "(d + 32768) mod 65536 - 32768 = wrap16 d"
proof -
  consider "32768 \<le> d" | "d < - 32768" | "- 32768 \<le> d" "d < 32768" by linarith
  then show ?thesis
  proof cases
    case 1
    have "(d + 32768) mod 65536 = (d + 32768 - 65536) mod 65536" by (rule minus_mod_self2 [symmetric])
    also have "\<dots> = d + 32768 - 65536" using 1 assms by (intro mod_pos_pos_trivial) auto
    finally show ?thesis using 1 by (simp add: wrap16_def)
  next
    case 2
    have "(d + 32768) mod 65536 = (d + 32768 + 65536) mod 65536" by (rule mod_add_self2 [symmetric])
    also have "\<dots> = d + 32768 + 65536" using 2 assms by (intro mod_pos_pos_trivial) auto
    finally show ?thesis using 2 by (simp add: wrap16_def)
  next
    case 3
    then have "(d + 32768) mod 65536 = d + 32768" by (intro mod_pos_pos_trivial) auto
    with 3 show ?thesis by (simp add: wrap16_def)
  qed
qed

lemma serial_diff_wrap:
  assumes "unat t1 \<le> MAX_TIME" "unat t2 \<le> MAX_TIME"
  shows "serial_diff t1 t2 = wrap16 (uint t1 - uint t2)"
  unfolding serial_diff_def
  by (rule mod_cases [OF time_diff_bounds [OF assms]])

lemma is_newer_serial:
  assumes "unat t1 \<le> MAX_TIME" "unat t2 \<le> MAX_TIME"
  shows "is_newer t1 t2 \<longleftrightarrow> 0 < serial_diff t1 t2"
proof -
  have "is_newer t1 t2 \<longleftrightarrow> (let d = uint t1 - uint t2 in 0 < d \<and> d < 32768 \<or> d < 0 \<and> d < - 32768)"
    by (simp add: is_newer_def time_delta_small [OF assms] MAX_TIME_def)
  then show ?thesis using time_diff_bounds [OF assms]
    by (auto simp: serial_diff_wrap [OF assms] wrap16_def Let_def)
qed

lemma smod_small: "\<bar>a\<bar> < b \<Longrightarrow> a smod b = (a::int)"
  by (simp add: smod_int_alt_def mod_pos_pos_trivial sgn_mult_abs)

lemma smod_shift: "0 \<le> a \<Longrightarrow> a < b \<Longrightarrow> (a + b) smod b = (a::int)"
  by (simp add: smod_mod_positive)

lemma sub_time_serial:
  assumes "unat t1 \<le> MAX_TIME" "unat t2 \<le> MAX_TIME"
  shows "sub_time t1 t2 = serial_diff t1 t2"
proof -
  define d where "d = uint t1 - uint t2"
  have b: "- 65536 < d" "d < 65536"
    using time_diff_bounds [OF assms] by (auto simp: d_def)
  have s: "sub_time t1 t2 = (if is_newer t1 t2 then (d + 65536) smod 65536
      else - ((65536 - d) smod 65536))"
    by (simp add: sub_time_def time_delta_small [OF assms] MAX_TIME_def d_def Let_def
        minus_smod_eq [symmetric] del: minus_smod_eq)
  have n: "is_newer t1 t2 \<longleftrightarrow> 0 < wrap16 d"
    by (simp add: is_newer_serial [OF assms] serial_diff_wrap [OF assms] d_def)
  consider "32768 \<le> d" | "d < - 32768" | "0 \<le> d" "d < 32768" | "- 32768 \<le> d" "d < 0"
    by linarith
  then have "sub_time t1 t2 = wrap16 d"
  proof cases
    case 1
    then have "(65536 - d) smod 65536 = 65536 - d" using b by (intro smod_small) auto
    with 1 b show ?thesis by (simp add: s n wrap16_def)
  next
    case 2
    then have "(d + 65536) smod 65536 = d + 65536" using b by (intro smod_small) auto
    with 2 b show ?thesis by (simp add: s n wrap16_def)
  next
    case 3
    then have "(d + 65536) smod 65536 = d" by (intro smod_shift) auto
    with 3 show ?thesis by (cases "d = 0") (auto simp: s n wrap16_def smod_int_alt_def)
  next
    case 4
    then have "(- d + 65536) smod 65536 = - d" by (intro smod_shift) auto
    with 4 show ?thesis by (simp add: s n wrap16_def)
  qed
  then show ?thesis by (simp add: serial_diff_wrap [OF assms] d_def)
qed

text \<open>The difference is determined by its residue and its range.\<close>

lemma serial_diff_dvd: "65536 dvd (uint t1 - uint t2 - serial_diff t1 t2)"
proof -
  have "uint t1 - uint t2 - serial_diff t1 t2 =
      (uint t1 - uint t2 + 32768) - (uint t1 - uint t2 + 32768) mod 65536"
    by (simp add: serial_diff_def)
  then show ?thesis by (metis dvd_minus_mod)
qed

lemma serial_diff_range: "- 32768 \<le> serial_diff t1 t2" "serial_diff t1 t2 < 32768"
  unfolding serial_diff_def
  using pos_mod_bound [of 65536 "uint t1 - uint t2 + 32768"]
    pos_mod_sign [of 65536 "uint t1 - uint t2 + 32768"] by auto

lemma serial_diff_eqI:
  assumes "65536 dvd (uint t1 - uint t2 - r)" and "- 32768 \<le> r" "r < 32768"
  shows "serial_diff t1 t2 = r"
proof -
  from assms(1) obtain k where "uint t1 - uint t2 - r = 65536 * k" by (rule dvdE)
  then have "uint t1 - uint t2 + 32768 = (r + 32768) + k * 65536" by simp
  then have "(uint t1 - uint t2 + 32768) mod 65536 = (r + 32768) mod 65536"
    by (simp only: mod_mult_self1)
  also have "\<dots> = r + 32768" using assms(2,3) by (intro mod_pos_pos_trivial) auto
  finally show ?thesis by (simp add: serial_diff_def)
qed

lemma serial_diff_self [simp]: "serial_diff t t = 0"
  by (rule serial_diff_eqI) auto

lemma unat_inc: "unat t < 2 ^ 32 - 1 \<Longrightarrow> unat (t + 1 :: u32) = Suc (unat t)"
  by (simp add: unat_plus_if')

lemma unat_time_inc:
  assumes "unat t \<le> MAX_TIME"
  shows "unat (time_inc t) = (if unat t = MAX_TIME then 0 else Suc (unat t))"
  using assms unat_inc [of t] by (auto simp: time_inc_def MAX_TIME_def word_unat_eq_iff)

lemma time_inc_le: "unat t \<le> MAX_TIME \<Longrightarrow> unat (time_inc t) \<le> MAX_TIME"
  by (simp add: unat_time_inc)

lemma uint_time_inc_dvd:
  assumes "unat t \<le> MAX_TIME"
  shows "65536 dvd (uint (time_inc t) - uint t - 1)"
proof (cases "unat t = MAX_TIME")
  case True
  then have "int (unat (time_inc t)) = 0" "int (unat t) = 65535"
    using unat_time_inc [OF assms] by (simp_all add: MAX_TIME_def)
  then show ?thesis unfolding uint_nat by simp
next
  case False
  then have "int (unat (time_inc t)) = int (unat t) + 1" using unat_time_inc [OF assms] by simp
  then show ?thesis unfolding uint_nat by simp
qed

lemma serial_diff_time_inc:
  assumes "unat t \<le> MAX_TIME" and "- 32768 < serial_diff s t"
  shows "serial_diff s (time_inc t) = serial_diff s t - 1"
proof (rule serial_diff_eqI)
  have "uint s - uint (time_inc t) - (serial_diff s t - 1) =
      (uint s - uint t - serial_diff s t) - (uint (time_inc t) - uint t - 1)" by simp
  then show "65536 dvd (uint s - uint (time_inc t) - (serial_diff s t - 1))"
    using uint_time_inc_dvd [OF assms(1)] serial_diff_dvd [of s t] by (metis dvd_diff)
qed (use assms(2) serial_diff_range [of s t] in auto)

lemma time_inc_by_window:
  fixes sz :: u32
  assumes "unat t \<le> MAX_TIME" and "0 < unat sz" "unat sz \<le> 32768"
  shows "unat (time_inc_by t (sint (sz - 1))) = (unat t + (unat sz - 1)) mod 65536"
proof -
  have "time_inc_by t (sint (sz - 1)) = (t + (sz - 1)) mod 65536"
    by (simp add: time_inc_by_def MAX_TIME_def)
  moreover have "unat (sz - 1) = unat sz - 1"
    using assms(2) by (intro unat_minus_one) auto
  then have "unat (t + (sz - 1)) = unat t + (unat sz - 1)"
    using assms by (simp add: unat_plus_if' MAX_TIME_def)
  ultimately show ?thesis by (simp add: unat_mod)
qed

lemma serial_diff_window:
  fixes sz :: u32
  assumes "unat t \<le> MAX_TIME" and "0 < unat sz" "unat sz \<le> 32768" and "0 \<le> serial_diff s t"
  shows "serial_diff s (time_inc_by t (sint (sz - 1))) = serial_diff s t - (int (unat sz) - 1)"
proof (rule serial_diff_eqI)
  let ?u = "time_inc_by t (sint (sz - 1))"
  have "uint ?u = (uint t + (int (unat sz) - 1)) mod 65536"
    unfolding uint_nat time_inc_by_window [OF assms(1-3)]
    using assms(2) by (simp only: zmod_int of_nat_add of_nat_diff of_nat_1 of_nat_numeral
        Suc_leI One_nat_def [symmetric] Suc_le_eq)
  then have "65536 dvd (uint t + (int (unat sz) - 1)) - uint ?u"
    by (metis dvd_minus_mod)
  moreover have "uint s - uint ?u - (serial_diff s t - (int (unat sz) - 1)) =
      (uint s - uint t - serial_diff s t) + (uint t + (int (unat sz) - 1) - uint ?u)" by simp
  ultimately show "65536 dvd (uint s - uint ?u - (serial_diff s t - (int (unat sz) - 1)))"
    using serial_diff_dvd [of s t] by (metis dvd_add)
next
  show "- 32768 \<le> serial_diff s t - (int (unat sz) - 1)" using assms by linarith
  show "serial_diff s t - (int (unat sz) - 1) < 32768"
    using assms serial_diff_range [of s t] by linarith
qed

lemma is_newer_window:
  fixes sz :: u32
  assumes "unat s \<le> MAX_TIME" "unat t \<le> MAX_TIME" "0 < unat sz" "unat sz \<le> 32768"
    and "0 \<le> serial_diff s t"
  shows "is_newer s (time_inc_by t (sint (sz - 1))) \<longleftrightarrow> int (unat sz) \<le> serial_diff s t"
proof -
  have "unat (time_inc_by t (sint (sz - 1))) \<le> MAX_TIME"
    unfolding time_inc_by_window [OF assms(2-4)] MAX_TIME_def by simp
  from is_newer_serial [OF assms(1) this] serial_diff_window [OF assms(2-5)] show ?thesis by auto
qed

section \<open>The cage is a window of the packet sequence\<close>

text \<open>
  \<open>win c\<close>: the slots from the head on; slot \<open>i\<close> of it is for the packet of time
  \<open>head_time + i\<close>.  \<open>packets w\<close> are the packets in a window, by time.
\<close>

definition win :: "'a cage \<Rightarrow> 'a option list" where
  "win c = rotate (unat (cg_head c)) (cg_queue c)"

definition packets :: "'a option list \<Rightarrow> 'a list" where
  "packets w = map the (filter (\<lambda>x. x \<noteq> None) w)"

definition cage_ok :: "'a cage \<Rightarrow> bool" where
  "cage_ok c \<longleftrightarrow>
     0 < unat (cg_size c) \<and> unat (cg_size c) \<le> 32768 \<and>
     length (cg_queue c) = unat (cg_size c) \<and> unat (cg_head c) < unat (cg_size c) \<and>
     unat (cg_head_time c) \<le> MAX_TIME \<and> unat (cg_tail_time c) \<le> MAX_TIME"

text \<open>The counter is right: it is the number of packets in the cage.\<close>

definition counted :: "'a cage \<Rightarrow> bool" where
  "counted c \<longleftrightarrow> cg_count c = int (length (packets (win c)))"

lemma packets_simps [simp]:
  "packets [] = []" "packets (None # w) = packets w" "packets (Some x # w) = x # packets w"
  "packets (v @ w) = packets v @ packets w" "packets (replicate n None) = []"
  by (simp_all add: packets_def)

lemma length_win [simp]: "cage_ok c \<Longrightarrow> length (win c) = unat (cg_size c)"
  by (simp add: win_def cage_ok_def)

lemma win_nth:
  "cage_ok c \<Longrightarrow> i < unat (cg_size c) \<Longrightarrow>
   win c ! i = cg_queue c ! ((unat (cg_head c) + i) mod unat (cg_size c))"
  by (simp add: win_def cage_ok_def nth_rotate)

lemma slot_get_head: "cage_ok c \<Longrightarrow> slot_get c (cg_head c) = Inr (win c ! 0)"
  using win_nth [of c 0] by (simp add: slot_get_def cage_ok_def)

lemma rotate_update:
  assumes "h < length q" "d < length q"
  shows "rotate h (q[(h + d) mod length q := x]) = (rotate h q)[d := x]"
proof (rule nth_equalityI)
  fix i assume "i < length (rotate h (q[(h + d) mod length q := x]))"
  then have i: "i < length q" by simp
  have "(h + k) mod length q = (if h + k < length q then h + k else h + k - length q)"
    if "k < length q" for k using that assms(1) by (simp add: mod_if)
  with i assms have "(h + d) mod length q = (h + i) mod length q \<longleftrightarrow> d = i" by auto
  moreover have "(h + k) mod length q < length q" for k using i by (intro mod_less_divisor) auto
  ultimately show "rotate h (q[(h + d) mod length q := x]) ! i = (rotate h q)[d := x] ! i"
    using i assms by (auto simp: nth_rotate nth_list_update)
qed simp

lemma win_set:
  assumes "cage_ok c" "d < unat (cg_size c)"
  shows "win (c\<lparr>cg_queue := (cg_queue c)[(unat (cg_head c) + d) mod unat (cg_size c) := x]\<rparr>) =
    (win c)[d := x]"
  using rotate_update [of "unat (cg_head c)" "cg_queue c" d x] assms
  by (simp add: win_def cage_ok_def)

lemma unat_next_point: "unat pos < unat sz \<Longrightarrow>
   unat (next_point_in_cage sz pos) = Suc (unat pos) mod unat sz"
  unfolding next_point_in_cage_def by (rule unat_ring_next)

lemma cage_advance_gives:
  assumes ok: "cage_ok c"
  shows "gives (cage_advance c) (\<lambda>c'. cage_ok c' \<and> win c' = tl (win c) @ [None] \<and>
     cg_head_time c' = time_inc (cg_head_time c) \<and> cg_tail_time c' = cg_tail_time c \<and>
     cg_size c' = cg_size c \<and> cg_count c' = cg_count c \<and>
     cg_starvation c' = (cg_starvation c \<or> cg_count c = 0) \<and>
     cg_new c' = (cg_new c \<or> cg_count c = 0))"
proof -
  let ?h = "unat (cg_head c)"
  let ?n = "unat (cg_size c)"
  let ?q = "(cg_queue c)[?h := None]"
  have h: "?h < ?n" "length (cg_queue c) = ?n" using ok by (simp_all add: cage_ok_def)
  have next_h: "unat (next_point_in_cage (cg_size c) (cg_head c)) = Suc ?h mod ?n"
    by (rule unat_next_point) (use h in simp)
  have "rotate (Suc ?h mod ?n) ?q = rotate1 (rotate ?h ?q)"
    using h rotate_conv_mod [of "Suc ?h" ?q] by simp
  also have "rotate ?h ?q = (win c)[0 := None]"
    using rotate_update [of ?h "cg_queue c" 0 None] h by (simp add: win_def)
  also have "rotate1 ((win c)[0 := None]) = tl (win c) @ [None]"
    using length_win [OF ok] h by (cases "win c") auto
  finally have w: "rotate (Suc ?h mod ?n) ?q = tl (win c) @ [None]" .
  define c1 where "c1 = c\<lparr>cg_queue := ?q, cg_head := next_point_in_cage (cg_size c) (cg_head c),
    cg_head_time := time_inc (cg_head_time c)\<rparr>"
  define c2 where "c2 = (if cg_count c = 0 then c1\<lparr>cg_starvation := True, cg_new := True\<rparr> else c1)"
  have "cage_advance c = Inr c2"
    using h by (simp add: cage_advance_def slot_set_def packet_cage_is_empty_def c2_def c1_def)
  moreover have "Suc ?h mod ?n < ?n" using h by (intro mod_less_divisor) auto
  moreover have "win c2 = tl (win c) @ [None]"
    by (simp add: win_def c2_def c1_def next_h) (simp add: w [unfolded win_def] win_def)
  ultimately show ?thesis
    using ok by (auto simp: cage_ok_def c2_def c1_def next_h time_inc_le)
qed

lemma win_count [simp]: "win (c\<lparr>cg_count := k\<rparr>) = win c"
  by (simp add: win_def)

lemma cage_ok_count [simp]: "cage_ok (c\<lparr>cg_count := k\<rparr>) = cage_ok c"
  by (simp add: cage_ok_def)

lemma win_ne: "cage_ok c \<Longrightarrow> win c \<noteq> []"
  by (metis cage_ok_def length_win length_greater_0_conv)

lemma packets_Cons: "packets (x # w) = (case x of None \<Rightarrow> packets w | Some p \<Rightarrow> p # packets w)"
  by (cases x) auto

text \<open>Taking the head slot, as \<open>pop\<close> and \<open>get_data\<close> do.\<close>

definition taken :: "'a cage \<Rightarrow> 'a cage \<Rightarrow> bool" where
  "taken c c' \<longleftrightarrow> cage_ok c' \<and> win c' = tl (win c) @ [None] \<and>
     cg_head_time c' = time_inc (cg_head_time c) \<and> cg_tail_time c' = cg_tail_time c \<and>
     cg_size c' = cg_size c \<and>
     cg_count c' = cg_count c - int (length (packets [win c ! 0])) \<and>
     cg_starvation c' = (cg_starvation c \<or> cg_count c' = 0) \<and>
     cg_new c' = (cg_new c \<or> cg_count c' = 0)"

lemma take_head_gives:
  assumes "cage_ok c"
  shows "gives (bindR (slot_get c (cg_head c)) (\<lambda>p.
        bindR (cage_advance (if p \<noteq> None then c\<lparr>cg_count := cg_count c - 1\<rparr> else c)) (\<lambda>c.
          Inr (c, f p)))) (\<lambda>(c', r). taken c c' \<and> r = f (win c ! 0))"
proof -
  define c0 where "c0 = c\<lparr>cg_count := cg_count c - int (length (packets [win c ! 0]))\<rparr>"
  have c0: "(if win c ! 0 \<noteq> None then c\<lparr>cg_count := cg_count c - 1\<rparr> else c) = c0"
    by (auto simp: c0_def)
  have "cage_ok c0" using assms by (simp add: c0_def)
  from cage_advance_gives [OF this] have "gives (cage_advance c0) (taken c)"
    by (rule gives_mono) (auto simp: taken_def c0_def)
  then show ?thesis using slot_get_head [OF assms] c0 by (auto simp: gives_def)
qed

lemma packet_cage_pop_gives:
  "cage_ok c \<Longrightarrow> gives (packet_cage_pop c) (\<lambda>(c', freed). taken c c' \<and> freed = packets [win c ! 0])"
  unfolding packet_cage_pop_def
  using take_head_gives [of c "\<lambda>p. case p of None \<Rightarrow> [] | Some x \<Rightarrow> [x]"]
  by (cases "win c ! 0") simp_all

lemma packet_cage_get_gives:
  "cage_ok c \<Longrightarrow> \<not> cg_starvation c \<Longrightarrow>
   gives (packet_cage_get_data c) (\<lambda>(c', p). taken c c' \<and> p = win c ! 0)"
  unfolding packet_cage_get_data_def using take_head_gives [of c "\<lambda>p. p"] by simp

lemma packets_take_head: "w \<noteq> [] \<Longrightarrow> packets w = packets [w ! 0] @ packets (tl w)"
  by (cases w) (auto simp: packets_Cons split: option.splits)

lemma taken_counted: "cage_ok c \<Longrightarrow> taken c c' \<Longrightarrow> counted c \<Longrightarrow> counted c'"
  using packets_take_head [OF win_ne, of c] by (simp add: taken_def counted_def)

section \<open>Making room\<close>

text \<open>The window after \<open>k\<close> slots were dropped from its front.\<close>

definition slide :: "nat \<Rightarrow> 'a option list \<Rightarrow> 'a option list" where
  "slide k w = drop k w @ replicate (min k (length w)) None"

lemma slide_0 [simp]: "slide 0 w = w"
  by (simp add: slide_def)

lemma length_slide [simp]: "length (slide k w) = length w"
  by (simp add: slide_def)

lemma slide_Suc: "w \<noteq> [] \<Longrightarrow> slide k (tl w @ [None]) = slide (Suc k) w"
proof -
  assume "w \<noteq> []"
  then obtain x v where w: "w = x # v" by (cases w) auto
  have "drop k (v @ [None]) @ replicate (min k (Suc (length v))) None =
      drop k v @ replicate (min (Suc k) (Suc (length v))) None"
  proof (cases "k \<le> length v")
    case True
    then have "drop k (v @ [None]) = drop k v @ [None]" by simp
    moreover have "min k (Suc (length v)) = k" "min (Suc k) (Suc (length v)) = Suc k"
      using True by auto
    ultimately show ?thesis by simp
  qed auto
  then show ?thesis by (simp add: w slide_def)
qed

lemma slide_nth: "d < length w \<Longrightarrow> slide k w ! d = (if k + d < length w then w ! (k + d) else None)"
  unfolding slide_def nth_append by (auto intro!: nth_replicate)

lemma packets_slide: "packets w = packets (take k w) @ packets (slide k w)"
  unfolding slide_def by (metis append_Nil2 append_assoc append_take_drop_id packets_simps(4,5))

lemma cage_ok_starvation [simp]:
  "cage_ok (c\<lparr>cg_starvation := b\<rparr>) = cage_ok c" "win (c\<lparr>cg_starvation := b\<rparr>) = win c"
  by (simp_all add: cage_ok_def win_def)

text \<open>
  The loop drops the slots that are too far behind the new packet, \<open>k\<close> of them, and
  then ends.
\<close>

definition roomy :: "u32 \<Rightarrow> nat \<Rightarrow> 'a cage \<Rightarrow> 'a cage \<Rightarrow> bool" where
  "roomy t k c c' \<longleftrightarrow> cage_ok c' \<and> win c' = slide k (win c) \<and>
     cg_size c' = cg_size c \<and> cg_tail_time c' = cg_tail_time c \<and>
     serial_diff t (cg_head_time c') = serial_diff t (cg_head_time c) - int k \<and>
     cg_count c' = cg_count c - int (length (packets (take k (win c)))) \<and>
     (k = 0 \<longrightarrow> c' = c) \<and> (0 < k \<longrightarrow> \<not> cg_starvation c')"

lemma cage_make_room_gives:
  assumes t: "unat t \<le> MAX_TIME"
  shows "cage_ok c \<Longrightarrow> 0 \<le> serial_diff t (cg_head_time c) \<Longrightarrow>
    k = nat (serial_diff t (cg_head_time c) - (int (unat (cg_size c)) - 1)) \<Longrightarrow>
    \<exists>c'. cage_make_room t c freed = Some (Inr (c', freed @ packets (take k (win c)))) \<and>
      roomy t k c c'"
proof (induction k arbitrary: c freed)
  case (0 c freed)
  have "\<not> is_newer t (time_inc_by (cg_head_time c) (sint (cg_size c - 1)))"
    using 0 is_newer_window [OF t, of "cg_head_time c" "cg_size c"] by (auto simp: cage_ok_def)
  with 0 show ?case by (subst cage_make_room.simps) (simp add: roomy_def)
next
  case (Suc k c freed)
  let ?d = "serial_diff t (cg_head_time c)"
  have sz: "int (unat (cg_size c)) \<le> ?d" using Suc.prems(3) by linarith
  then have new: "is_newer t (time_inc_by (cg_head_time c) (sint (cg_size c - 1)))"
    using Suc.prems is_newer_window [OF t, of "cg_head_time c" "cg_size c"] by (auto simp: cage_ok_def)
  obtain c1 where c1: "packet_cage_pop c = Inr (c1, packets [win c ! 0])" "taken c c1"
    using packet_cage_pop_gives [OF Suc.prems(1)] by (auto simp: gives_def)
  define c2 where "c2 = c1\<lparr>cg_starvation := False\<rparr>"
  have c2: "cage_ok c2" "win c2 = tl (win c) @ [None]" "cg_size c2 = cg_size c"
    "cg_tail_time c2 = cg_tail_time c" "cg_head_time c2 = time_inc (cg_head_time c)"
    "cg_count c2 = cg_count c - int (length (packets [win c ! 0]))" "\<not> cg_starvation c2"
    using c1(2) by (auto simp: c2_def taken_def)
  have d2: "serial_diff t (cg_head_time c2) = ?d - 1"
    unfolding c2(5) by (rule serial_diff_time_inc) (use Suc.prems in \<open>auto simp: cage_ok_def\<close>)
  have ne: "win c \<noteq> []" by (rule win_ne [OF Suc.prems(1)])
  have "0 < unat (cg_size c)" using Suc.prems(1) unfolding cage_ok_def by blast
  then have "0 \<le> serial_diff t (cg_head_time c2)" using d2 sz by linarith
  moreover have "k = nat (serial_diff t (cg_head_time c2) - (int (unat (cg_size c2)) - 1))"
    unfolding c2(3) d2 using Suc.prems(3) by linarith
  ultimately obtain c' where c': "cage_make_room t c2 (freed @ packets [win c ! 0]) =
      Some (Inr (c', (freed @ packets [win c ! 0]) @ packets (take k (win c2))))" "roomy t k c2 c'"
    using Suc.IH [OF c2(1)] by blast
  have "packets (take j [None]) = ([] :: 'a list)" for j by (cases j) auto
  then have take2: "packets (take k (win c2)) = packets (take k (tl (win c)))" by (simp add: c2(2))
  have all: "packets [win c ! 0] @ packets (take k (win c2)) = packets (take (Suc k) (win c))"
    unfolding take2 using ne by (cases "win c") (auto simp: packets_Cons split: option.splits)
  have "cage_make_room t c freed = Some (Inr (c', freed @ packets (take (Suc k) (win c))))"
    using new c1(1) c'(1) all by (subst cage_make_room.simps) (simp add: c2_def [symmetric])
  moreover have "roomy t (Suc k) c c'"
    using c'(2) c2 d2 slide_Suc [OF ne, of k] arg_cong [OF all, of length]
    by (cases k) (auto simp: roomy_def)
  ultimately show ?case by blast
qed

section \<open>Putting a packet\<close>

text \<open>
  Where a packet of time \<open>t\<close> goes: its distance from the head of the window, the
  number of slots to drop, and the slot it is put into.
\<close>

definition put_dist :: "'a cage \<Rightarrow> u32 \<Rightarrow> nat" where
  "put_dist c t = (if cg_new c then 0 else nat (serial_diff t (cg_head_time c)))"

definition put_drop :: "'a cage \<Rightarrow> u32 \<Rightarrow> nat" where
  "put_drop c t = put_dist c t - (unat (cg_size c) - 1)"

definition put_slot :: "'a cage \<Rightarrow> u32 \<Rightarrow> nat" where
  "put_slot c t = min (put_dist c t) (unat (cg_size c) - 1)"

definition accepts :: "'a cage \<Rightarrow> u32 \<Rightarrow> bool" where
  "accepts c t \<longleftrightarrow> cg_new c \<or> 0 < serial_diff t (cg_head_time c)"

definition put_result :: "'a \<Rightarrow> u32 \<Rightarrow> 'a cage \<Rightarrow> 'a cage \<Rightarrow> bool" where
  "put_result p t c c' \<longleftrightarrow> cage_ok c' \<and>
     win c' = (slide (put_drop c t) (win c))[put_slot c t := Some p] \<and>
     cg_size c' = cg_size c \<and>
     cg_count c' = cg_count c - int (length (packets (take (put_drop c t) (win c)))) + 1 \<and>
     serial_diff t (cg_head_time c') = int (put_slot c t) \<and>
     (cg_starvation c' \<longrightarrow> cg_starvation c) \<and>
     (put_drop c t = 0 \<longrightarrow> \<not> cg_new c' \<and> cg_starvation c' = cg_starvation c)"

lemma delta_point:
  assumes "unat h < unat sz" "unat sz \<le> 32768" "d < unat sz"
  shows "delta_point_in_cage sz h (int d) = Inr (of_nat ((unat h + d) mod unat sz))"
proof -
  have d: "unat (of_nat d :: u32) = d" using assms by (simp add: unat_of_nat)
  have "unat (h + of_nat d) = unat h + d" using assms d by (simp add: unat_plus_if')
  then have 1: "unat ((h + of_nat d) mod sz) = (unat h + d) mod unat sz" by (simp add: unat_mod)
  have lt: "(unat h + d) mod unat sz < unat sz" using assms by (intro mod_less_divisor) simp
  have "(unat h + d) mod unat sz + unat sz < 4294967296" using lt assms by linarith
  then have "unat ((h + of_nat d) mod sz + sz) = (unat h + d) mod unat sz + unat sz"
    using 1 by (simp add: unat_plus_if')
  then have "unat (((h + of_nat d) mod sz + sz) mod sz) = (unat h + d) mod unat sz"
    using lt by (simp add: unat_mod)
  moreover have small: "(unat h + d) mod unat sz < 4294967296" using lt assms by linarith
  have "unat (of_nat ((unat h + d) mod unat sz) :: u32) = (unat h + d) mod unat sz"
    using mod_less [OF small] by (simp only: unat_of_nat) simp
  moreover note this
  moreover have "sz \<noteq> 0" using assms by auto
  ultimately show ?thesis by (simp add: delta_point_in_cage_def word_unat_eq_iff)
qed

lemma packet_cage_put_gives:
  assumes ok: "cage_ok c" and t: "unat t \<le> MAX_TIME" and acc: "accepts c t"
  shows "gives (packet_cage_put_data c p t) (\<lambda>(c', freed).
    put_result p t c c' \<and> freed = packets (take (put_drop c t) (win c)))"
proof -
  define c0 where "c0 = (if cg_new c
    then c\<lparr>cg_head_time := t, cg_tail_time := t, cg_new := False\<rparr> else c)"
  have c0: "cage_ok c0" "win c0 = win c" "cg_size c0 = cg_size c" "cg_count c0 = cg_count c"
    "cg_starvation c0 = cg_starvation c" "\<not> cg_new c0"
    using ok t by (auto simp: c0_def cage_ok_def win_def)
  have d: "serial_diff t (cg_head_time c0) = int (put_dist c t)"
    using acc by (auto simp: c0_def put_dist_def accepts_def)
  have sz: "0 < unat (cg_size c)" "unat (cg_size c) \<le> 32768" using ok unfolding cage_ok_def by blast+
  have k: "put_drop c t = nat (serial_diff t (cg_head_time c0) - (int (unat (cg_size c0)) - 1))"
    using sz unfolding d c0(3) put_drop_def by linarith
  obtain c1 where c1: "cage_make_room t c0 [] = Some (Inr (c1, packets (take (put_drop c t) (win c))))"
    "roomy t (put_drop c t) c0 c1"
    using cage_make_room_gives [OF t c0(1) _ k, of "[]"] d c0(2) by auto
  have ok1: "cage_ok c1" and w1: "win c1 = slide (put_drop c t) (win c)"
    and sz1: "cg_size c1 = cg_size c"
    using c1(2) c0 by (auto simp: roomy_def)
  have d1: "serial_diff t (cg_head_time c1) = int (put_slot c t)"
    using c1(2) d by (auto simp: roomy_def put_drop_def put_slot_def)
  have slot: "put_slot c t < unat (cg_size c)" using sz by (simp add: put_slot_def)
  let ?pos = "(unat (cg_head c1) + put_slot c t) mod unat (cg_size c1)"
  have sub: "sub_time t (cg_head_time c1) = int (put_slot c t)"
    using ok1 d1 by (subst sub_time_serial [OF t]) (auto simp: cage_ok_def)
  have pos: "delta_point_in_cage (cg_size c1) (cg_head c1) (int (put_slot c t)) = Inr (of_nat ?pos)"
    by (rule delta_point) (use ok1 slot sz sz1 in \<open>auto simp: cage_ok_def\<close>)
  have lt: "?pos < unat (cg_size c)" unfolding sz1 using sz by (intro mod_less_divisor) simp
  then have upos: "unat (of_nat ?pos :: u32) = ?pos" using sz by (simp add: unat_of_nat)
  define c2 where "c2 = c1\<lparr>cg_queue := (cg_queue c1)[?pos := Some p], cg_count := cg_count c1 + 1\<rparr>"
  define c3 where "c3 = (if is_newer t (cg_tail_time c2) then c2\<lparr>cg_tail_time := t\<rparr> else c2)"
  have set: "slot_set (of_nat ?pos) (Some p) c1 = Inr (c1\<lparr>cg_queue := (cg_queue c1)[?pos := Some p]\<rparr>)"
    using ok1 lt sz1 upos by (simp add: slot_set_def cage_ok_def)
  have "is_newer t (cg_head_time c) \<longleftrightarrow> 0 < serial_diff t (cg_head_time c)"
    using ok t by (intro is_newer_serial) (auto simp: cage_ok_def)
  then have guard: "cg_new c \<or> is_newer t (cg_head_time c)" using acc by (auto simp: accepts_def)
  have "packet_cage_put_data c p t = Inr (c3, packets (take (put_drop c t) (win c)))"
    using guard c1(1) sub pos set
    by (simp add: packet_cage_put_data_def c0_def [symmetric] c2_def c3_def Let_def)
  moreover have "win c2 = (win c1)[put_slot c t := Some p]"
    using win_set [OF ok1, of "put_slot c t" "Some p"] slot sz1 by (simp add: c2_def win_def)
  moreover have "win c3 = win c2" by (simp add: c3_def win_def)
  moreover have "cage_ok c3" using ok1 t by (auto simp: cage_ok_def c3_def c2_def)
  ultimately show ?thesis
    using c1(2) c0 w1 d1 sz1 by (auto simp: put_result_def roomy_def c3_def c2_def)
qed

lemma packet_cage_put_old:
  assumes "cage_ok c" "unat t \<le> MAX_TIME" "\<not> accepts c t"
  shows "packet_cage_put_data c p t = Inr (c, [])"
proof -
  have "is_newer t (cg_head_time c) \<longleftrightarrow> 0 < serial_diff t (cg_head_time c)"
    using assms by (intro is_newer_serial) (auto simp: cage_ok_def)
  with assms(3) show ?thesis by (simp add: packet_cage_put_data_def accepts_def)
qed

text \<open>The counter stays right when the slot was free, and only then.\<close>

lemma packets_update_None:
  "d < length w \<Longrightarrow> w ! d = None \<Longrightarrow> length (packets (w[d := Some p])) = Suc (length (packets w))"
  by (induction w arbitrary: d) (auto simp: packets_Cons nth_Cons split: nat.splits option.splits)

lemma packets_update_Some:
  "d < length w \<Longrightarrow> w ! d = Some q \<Longrightarrow> length (packets (w[d := Some p])) = length (packets w)"
  by (induction w arbitrary: d) (auto simp: packets_Cons nth_Cons split: nat.splits option.splits)

lemma put_counted:
  assumes "cage_ok c" "counted c" "put_result p t c c'"
  shows "counted c' \<longleftrightarrow> slide (put_drop c t) (win c) ! put_slot c t = None"
proof -
  let ?w = "slide (put_drop c t) (win c)"
  have slot: "put_slot c t < length ?w" using assms(1) by (auto simp: put_slot_def cage_ok_def)
  have "int (length (packets (win c))) =
      int (length (packets (take (put_drop c t) (win c)))) + int (length (packets ?w))"
    by (subst packets_slide [of _ "put_drop c t"]) simp
  then have "cg_count c' = int (length (packets ?w)) + 1"
    using assms(2,3) by (simp add: counted_def put_result_def)
  then show ?thesis
    using assms(3) packets_update_None [OF slot, of p] packets_update_Some [OF slot, of _ p]
    by (cases "?w ! put_slot c t") (auto simp: counted_def put_result_def)
qed

section \<open>Delivery\<close>

fun gets :: "nat \<Rightarrow> 'a cage \<Rightarrow> ('a cage \<times> 'a option list) res" where
  "gets 0 c = Inr (c, [])"
| "gets (Suc n) c =
     bindR (packet_cage_get_data c) (\<lambda>(c, p). bindR (gets n c) (\<lambda>(c, ps). Inr (c, p # ps)))"

text \<open>
  Once the cage plays, the next calls of \<open>get_data\<close> return its window in order, at least
  up to any packet in it: the cage cannot starve before that packet is out.
\<close>

lemma gets_window:
  assumes "cage_ok c" "counted c" "\<not> cg_starvation c" "n < unat (cg_size c)" "win c ! n \<noteq> None"
  shows "gives (gets (Suc n) c) (\<lambda>(c', ps). ps = take (Suc n) (win c))"
  using assms
proof (induction n arbitrary: c)
  case 0
  obtain c' where "packet_cage_get_data c = Inr (c', win c ! 0)"
    using packet_cage_get_gives [OF 0(1,3)] by (auto simp: gives_def)
  then show ?case using win_ne [OF 0(1)] by (cases "win c") auto
next
  case (Suc n)
  obtain c' where c': "packet_cage_get_data c = Inr (c', win c ! 0)" "taken c c'"
    using packet_cage_get_gives [OF Suc.prems(1,3)] by (auto simp: gives_def)
  have len: "length (win c) = unat (cg_size c)" using Suc.prems(1) by simp
  obtain x w where w: "win c = x # w" using win_ne [OF Suc.prems(1)] by (cases "win c") auto
  have ok: "cage_ok c'" "counted c'" "n < unat (cg_size c')"
    using c'(2) Suc.prems taken_counted by (auto simp: taken_def)
  have nth: "win c' ! n = win c ! Suc n"
    using c'(2) Suc.prems(4) len w by (auto simp: taken_def nth_append)
  then obtain p where p: "win c' ! n = Some p" using Suc.prems(5) by auto
  have "win c' ! n \<in> set (win c')" using ok by (intro nth_mem) simp
  with p have "packets (win c') \<noteq> []" by (auto simp: packets_def filter_empty_conv)
  then have "cg_count c' \<noteq> 0" using ok(2) by (simp add: counted_def)
  then have "\<not> cg_starvation c'" using c'(2) Suc.prems(3) by (simp add: taken_def)
  from Suc.IH [OF ok(1,2) this ok(3)] p obtain c'' where
    "gets (Suc n) c' = Inr (c'', take (Suc n) (win c'))" by (auto simp: gives_def)
  moreover have "take (Suc n) (win c') = take (Suc n) w"
    using c'(2) Suc.prems(4) len w by (simp add: taken_def)
  ultimately show ?case using c'(1) w by simp
qed

text \<open>
  With a packet counted twice the cage never starves again by being read: it goes on
  advancing its time without having anything to play.
\<close>

definition overcounted :: "'a cage \<Rightarrow> bool" where
  "overcounted c \<longleftrightarrow> int (length (packets (win c))) < cg_count c"

lemma taken_overcounted: "cage_ok c \<Longrightarrow> taken c c' \<Longrightarrow> overcounted c \<Longrightarrow> overcounted c'"
  using packets_take_head [OF win_ne, of c] by (simp add: taken_def overcounted_def)

lemma gets_overcounted:
  "cage_ok c \<Longrightarrow> overcounted c \<Longrightarrow> \<not> cg_starvation c \<Longrightarrow>
   gives (gets n c) (\<lambda>(c', ps). \<not> cg_starvation c' \<and> overcounted c' \<and> cage_ok c' \<and>
     cg_new c' = cg_new c \<and> win c' = slide n (win c))"
proof (induction n arbitrary: c)
  case (Suc n)
  obtain c' where c': "packet_cage_get_data c = Inr (c', win c ! 0)" "taken c c'"
    using packet_cage_get_gives [OF Suc.prems(1,3)] by (auto simp: gives_def)
  have ok: "cage_ok c'" "overcounted c'"
    using c'(2) Suc.prems taken_overcounted by (auto simp: taken_def)
  then have "cg_count c' \<noteq> 0" by (auto simp: overcounted_def)
  then have "\<not> cg_starvation c'" "cg_new c' = cg_new c" "win c' = tl (win c) @ [None]"
    using c'(2) Suc.prems(3) by (auto simp: taken_def)
  with Suc.IH [OF ok] c'(1) show ?case
    by (auto simp: gives_def slide_Suc [OF win_ne [OF Suc.prems(1)]])
qed simp

text \<open>The new cage is well-formed.\<close>

lemma cage_create_ok:
  assumes "0 < unat n" "unat n \<le> 32768"
  shows "cage_ok (packet_cage_create n)" "counted (packet_cage_create n)"
    "win (packet_cage_create n) = replicate (unat n) None"
  using assms
  by (auto simp: packet_cage_create_def cage_ok_def counted_def win_def)

lemma packet_cage_destroy_gives:
  "cage_ok c \<Longrightarrow> packet_cage_destroy c = Inr (packets (cg_queue c))"
proof -
  assume ok: "cage_ok c"
  then have len: "length (cg_queue c) = unat (cg_size c)" "unat (cg_size c) \<le> 32768"
    by (auto simp: cage_ok_def)
  have "m \<le> unat (cg_size c) \<Longrightarrow>
      foldR (\<lambda>i freed. bindR (slot_get c (of_nat i)) (\<lambda>p.
        Inr (case p of None \<Rightarrow> freed | Some x \<Rightarrow> freed @ [x]))) [0..<m] [] =
      Inr (packets (take m (cg_queue c)))" for m
  proof (induction m)
    case (Suc m)
    then have "unat (of_nat m :: u32) = m" using len by (simp add: unat_of_nat)
    then have "slot_get c (of_nat m) = Inr (cg_queue c ! m)"
      using Suc.prems len by (simp add: slot_get_def)
    with Suc len show ?case
      by (cases "cg_queue c ! m") (simp_all add: take_Suc_conv_app_nth)
  qed simp
  from this [of "unat (cg_size c)"] len show ?thesis by (simp add: packet_cage_destroy_def)
qed

end
