(* ===== verification/LibSvc.thy ===== *)
theory LibSvc
  imports LinkedList PacketQueue PacketCage
begin

text \<open>
  The voice library: the incoming side (\<open>src/libsvc/libsvc_incoming.c\<close>: the list of
  peers, the cage of each, the mixing of what they say) and the outgoing side
  (\<open>src/libsvc/libsvc.c\<close>: the packets made of the microphone's audio and their time
  stamps).  The CELT codec is a parameter: \<open>dec\<close> maps a decoder, the compressed bytes and
  the contents of the buffer to the new decoder and the new contents, \<open>enc\<close> an encoder and
  the samples to the new encoder and the bytes.
\<close>

section \<open>The incoming side\<close>

text \<open>
  The cage and the decoder of a peer are \<open>None\<close> after \<open>svc_peer_leave\<close> has destroyed
  them; the peer itself is never freed.
\<close>

record ('a, 'd) svc_peer =
  sp_decoder :: "'d option"
  sp_cage :: "'a audio cage option"

record ('a, 'd) svc_in = "('a, 'd) svc_peer store" +
  si_list :: "nat option"
  si_count :: u32
  si_silent :: "'a audio"
  si_frame :: u32

definition MAX_PEERS :: nat where "MAX_PEERS = 1000"

definition owned :: "'b option \<Rightarrow> 'b res" where
  "owned p = (case p of None \<Rightarrow> Inl Dangling | Some x \<Rightarrow> Inr x)"

definition svc_incoming_init :: "u32 \<Rightarrow> ('a::zero, 'd) svc_in res" where
  "svc_incoming_init frame_size =
     bindR (svc_clear_audio_data (svc_audio_data_create frame_size)) (\<lambda>silent.
       Inr \<lparr>lcells = Map.empty, lbrk = 0, si_list = None, si_count = 0, si_silent = silent,
            si_frame = frame_size\<rparr>)"

definition svc_peer_join :: "'d \<Rightarrow> ('a, 'd) svc_in \<Rightarrow> (('a, 'd) svc_in \<times> nat) res" where
  "svc_peer_join decoder st =
     (case new_cell \<lparr>sp_decoder = Some decoder, sp_cage = Some (packet_cage_create 5)\<rparr> st of
        (st, new_peer) \<Rightarrow>
          bindR (set_next (Some new_peer) (si_list st) st) (\<lambda>st.
          bindR (set_prev (Some new_peer) None st) (\<lambda>st.
          let st = st\<lparr>si_count := si_count st + 1\<rparr> in
          if si_list st = None then Inr (st\<lparr>si_list := Some new_peer\<rparr>, new_peer)
          else bindR (set_prev (si_list st) (Some new_peer) st) (\<lambda>st.
            Inr (st\<lparr>si_list := Some new_peer\<rparr>, new_peer)))))"

text \<open>The result has the packets that \<open>packet_cage_destroy\<close> handed to \<open>free\<close>.\<close>

definition svc_peer_leave :: "nat \<Rightarrow> ('a, 'd) svc_in \<Rightarrow> (('a, 'd) svc_in \<times> 'a audio list) res" where
  "svc_peer_leave peer st =
     (let st = st\<lparr>si_count := si_count st - 1\<rparr> in
      bindR (cell st peer) (\<lambda>p.
      let st = (if si_list st = Some peer then st\<lparr>si_list := nnext p\<rparr> else st) in
      bindR (if nprev p \<noteq> None then set_next (nprev p) (nnext p) st else Inr st) (\<lambda>st.
      bindR (if nnext p \<noteq> None then set_prev (nnext p) (nprev p) st else Inr st) (\<lambda>st.
      bindR (owned (sp_decoder (nval p))) (\<lambda>_.
      bindR (owned (sp_cage (nval p))) (\<lambda>cage.
      bindR (packet_cage_destroy cage) (\<lambda>freed.
      bindR (set_val peer \<lparr>sp_decoder = None, sp_cage = None\<rparr> st) (\<lambda>st. Inr (st, freed)))))))))"

text \<open>
  The loop over the peers fills \<open>mixer_buffer\<close>, an array of \<open>MAX_PEERS\<close> pointers; the
  accumulator is the part of it filled so far.
\<close>

fun collect_audio :: "nat \<Rightarrow> nat option \<Rightarrow> ('a, 'd) svc_in \<Rightarrow> 'a audio list \<Rightarrow>
    (('a, 'd) svc_in \<times> 'a audio list) res" where
  "collect_audio k None st buf = Inr (st, buf)"
| "collect_audio 0 (Some a) st buf = Inl Diverge"
| "collect_audio (Suc k) (Some a) st buf =
     bindR (cell st a) (\<lambda>n.
     bindR (owned (sp_cage (nval n))) (\<lambda>cage.
     bindR (packet_cage_get_data cage) (\<lambda>(cage, audio).
     bindR (set_val a ((nval n)\<lparr>sp_cage := Some cage\<rparr>) st) (\<lambda>st.
       if length buf < MAX_PEERS
       then collect_audio k (nnext n) st
              (buf @ [case audio of None \<Rightarrow> si_silent st | Some x \<Rightarrow> x])
       else Inl OutOfBounds))))"

definition svc_request_incoming_audio ::
  "('a::{zero, plus}, 'd) svc_in \<Rightarrow> 'a audio \<Rightarrow> (('a, 'd) svc_in \<times> 'a audio) res" where
  "svc_request_incoming_audio st output =
     bindR (collect_audio (lbrk st) (si_list st) st []) (\<lambda>(st, buf).
     bindR (svc_mix_audio_streams buf output) (\<lambda>(_, output). Inr (st, output)))"

record svc_network_packet =
  np_data :: string
  np_time :: u32

definition svc_packet_recieve ::
  "('d \<Rightarrow> string \<Rightarrow> 'a option list \<Rightarrow> 'd \<times> 'a option list) \<Rightarrow> svc_network_packet \<Rightarrow> nat \<Rightarrow>
   ('a, 'd) svc_in \<Rightarrow> ('a, 'd) svc_in res" where
  "svc_packet_recieve dec packet peer st =
     (let audio = svc_audio_data_create (si_frame st) in
      bindR (cell st peer) (\<lambda>n.
      bindR (owned (sp_decoder (nval n))) (\<lambda>d.
      bindR (owned (sp_cage (nval n))) (\<lambda>cage.
      case dec d (np_data packet) (adata audio) of (d, pcm) \<Rightarrow>
        bindR (packet_cage_put_data cage (audio\<lparr>adata := pcm\<rparr>) (np_time packet)) (\<lambda>(cage, _).
          set_val peer \<lparr>sp_decoder = Some d, sp_cage = Some cage\<rparr> st)))))"

fun leave_all :: "nat \<Rightarrow> ('a, 'd) svc_in \<Rightarrow> ('a, 'd) svc_in res" where
  "leave_all k st =
     (case si_list st of None \<Rightarrow> Inr st
      | Some p \<Rightarrow> (case k of 0 \<Rightarrow> Inl Diverge
         | Suc k \<Rightarrow> bindR (svc_peer_leave p st) (\<lambda>(st, _). leave_all k st)))"

declare leave_all.simps [simp del]

definition svc_incoming_close :: "('a, 'd) svc_in \<Rightarrow> ('a, 'd) svc_in res" where
  "svc_incoming_close st = leave_all (lbrk st) st"

section \<open>The outgoing side\<close>

record ('a, 'e) svc_out =
  so_time :: u32
  so_queue :: "'a pqueue"
  so_encoder :: 'e
  so_frame :: u32
  so_bytes :: nat

text \<open>
  \<open>svc_init\<close>: 1024 samples in a frame, 256 bytes in a packet, 100 buffers in the queue.
\<close>

definition svc_init :: "'e \<Rightarrow> ('a::zero, 'e) svc_out \<times> ('a, 'd) svc_in res" where
  "svc_init encoder =
     (\<lparr>so_time = 0, so_queue = packet_queue_create 100 1024, so_encoder = encoder,
       so_frame = 1024, so_bytes = 256\<rparr>, svc_incoming_init 1024)"

definition create_network_packet_from_audio ::
  "('e \<Rightarrow> 'a option list \<Rightarrow> nat \<Rightarrow> 'e \<times> string) \<Rightarrow> 'a audio \<Rightarrow> ('a, 'e) svc_out \<Rightarrow>
   ('a, 'e) svc_out \<times> svc_network_packet" where
  "create_network_packet_from_audio enc audio st =
     (case enc (so_encoder st) (adata audio) (so_bytes st) of (e, bytes) \<Rightarrow>
        let t = time_inc (so_time st) in
        (st\<lparr>so_encoder := e, so_time := t\<rparr>, \<lparr>np_data = bytes, np_time = t\<rparr>))"

text \<open>One turn of the sending thread, once \<open>packet_queue_pop_data\<close> can read.\<close>

definition send_turn ::
  "('e \<Rightarrow> 'a option list \<Rightarrow> nat \<Rightarrow> 'e \<times> string) \<Rightarrow> ('a, 'e) svc_out \<Rightarrow>
   (('a, 'e) svc_out \<times> svc_network_packet) res" where
  "send_turn enc st =
     bindR (queue_pop (svc_audio_data_create (so_frame st)) (so_queue st)) (\<lambda>(audio, q).
       Inr (create_network_packet_from_audio enc audio (st\<lparr>so_queue := q\<rparr>)))"

text \<open>The callback of the sound card: one frame in, one frame out.\<close>

definition audio_api_callback ::
  "'a::{zero, plus} audio \<Rightarrow> 'a audio \<Rightarrow> ('a, 'e) svc_out \<Rightarrow> ('a, 'd) svc_in \<Rightarrow>
   (('a, 'e) svc_out \<times> ('a, 'd) svc_in \<times> 'a audio) res" where
  "audio_api_callback input output so si =
     bindR (queue_push input (so_queue so)) (\<lambda>(_, q).
     bindR (svc_request_incoming_audio si output) (\<lambda>(si, output).
       Inr (so\<lparr>so_queue := q\<rparr>, si, output)))"

section \<open>The peers\<close>

text \<open>A peer that is listened to: its cage is well-formed, counts its packets, and they
  are whole frames.\<close>

definition frame_ok :: "u32 \<Rightarrow> 'a audio \<Rightarrow> bool" where
  "frame_ok n a \<longleftrightarrow> asize a = n \<and> (\<exists>xs. arep a xs)"

definition peer_ok :: "u32 \<Rightarrow> ('a, 'd) svc_peer \<Rightarrow> bool" where
  "peer_ok n p \<longleftrightarrow> sp_decoder p \<noteq> None \<and>
     (\<exists>c. sp_cage p = Some c \<and> cage_ok c \<and> (\<forall>a\<in>set (packets (win c)). frame_ok n a))"

definition sinv :: "('a::zero, 'd) svc_in \<Rightarrow> nat list \<Rightarrow> bool" where
  "sinv st as \<longleftrightarrow>
     distinct as \<and> seg (lcells st) None as None \<and> si_list st = first_ptr as None \<and>
     si_count st = of_nat (length as) \<and> (\<forall>a. lcells st a \<noteq> None \<longrightarrow> a < lbrk st) \<and>
     (\<forall>p\<in>set (vals st as). peer_ok (si_frame st) p) \<and>
     arep (si_silent st) (replicate (unat (si_frame st)) 0) \<and> asize (si_silent st) = si_frame st"

lemma svc_incoming_init_gives:
  "gives (svc_incoming_init n :: ('a::zero, 'd) svc_in res) (\<lambda>st. sinv st [] \<and> si_frame st = n)"
proof -
  have "svc_clear_audio_data (svc_audio_data_create n :: 'a audio) = Inr ((svc_audio_data_create n)
      \<lparr>adata := map Some (replicate (unat n) 0)\<rparr>)"
    by (subst svc_clear_gives) simp_all
  then show ?thesis by (simp add: svc_incoming_init_def sinv_def vals_def arep_def)
qed

lemma fresh_peer_ok: "peer_ok n \<lparr>sp_decoder = Some d, sp_cage = Some (packet_cage_create 5)\<rparr>"
  by (auto simp: peer_ok_def cage_create_ok)

lemma svc_peer_join_gives:
  assumes inv: "sinv st as"
  shows "gives (svc_peer_join d st) (\<lambda>(st', a). sinv st' (a # as) \<and> a = lbrk st \<and>
    vals st' (a # as) = \<lparr>sp_decoder = Some d, sp_cage = Some (packet_cage_create 5)\<rparr> # vals st as \<and>
    si_frame st' = si_frame st)"
proof -
  let ?a = "lbrk st"
  let ?p = "\<lparr>sp_decoder = Some d, sp_cage = Some (packet_cage_create 5)\<rparr>"
  have lt: "lcells st x \<noteq> None \<Longrightarrow> x < lbrk st" for x using inv by (simp add: sinv_def)
  have a: "?a \<notin> set as" using inv by (auto simp: sinv_def dest!: seg_dom)
  show ?thesis
  proof (cases as)
    case Nil
    with inv show ?thesis
      by (auto simp: svc_peer_join_def new_cell_def set_next_def set_prev_def Let_def sinv_def vals_def
          fresh_peer_ok less_Suc_eq)
  next
    case (Cons b bs)
    from inv Cons obtain m where m: "lcells st b = Some m" by (auto simp: sinv_def)
    have b: "b \<noteq> ?a" "b \<notin> set bs" "?a \<notin> set bs" using inv Cons a by (auto simp: sinv_def)
    define c where "c = (lcells st)(?a \<mapsto> \<lparr>nprev = None, nnext = Some b, nval = ?p\<rparr>,
      b \<mapsto> m\<lparr>nprev := Some ?a\<rparr>)"
    define st' where "st' = st\<lparr>lcells := c, lbrk := Suc ?a, si_count := si_count st + 1, si_list := Some ?a\<rparr>"
    have "svc_peer_join d st = Inr (st', ?a)"
      using inv Cons m b
      by (simp add: svc_peer_join_def new_cell_def set_next_def set_prev_def Let_def sinv_def st'_def c_def)
    moreover have "seg c None (?a # as) None"
      using inv Cons m b by (auto simp: sinv_def c_def)
    moreover have v: "vals st' (?a # as) = ?p # vals st as"
      using Cons m b by (auto simp: vals_def st'_def c_def)
    moreover have "\<forall>p\<in>set (vals st' (?a # as)). peer_ok (si_frame st) p"
      unfolding v using inv by (simp add: sinv_def fresh_peer_ok)
    ultimately show ?thesis
      using inv a m lt Cons by (auto simp: sinv_def st'_def c_def less_Suc_eq)
  qed
qed

text \<open>The two pointer updates that unlink a node, whatever list it is on.\<close>

definition same_vals :: "('a, 'z) store_scheme \<Rightarrow> (nat \<rightharpoonup> 'a lnode) \<Rightarrow> bool" where
  "same_vals st c \<longleftrightarrow> (\<forall>x. map_option nval (c x) = map_option nval (lcells st x))"

lemma same_vals_vals:
  "same_vals st c \<Longrightarrow> set as \<subseteq> dom c \<Longrightarrow> vals (st\<lparr>lcells := c\<rparr>) as = vals st as"
  by (auto simp: vals_def same_vals_def dom_def subset_iff) (metis option.map_sel option.sel
      option.map_disc_iff option.simps(3))

lemma unlink_next:
  fixes st :: "('a, 'z) store_scheme"
  assumes sg: "seg (lcells st) None (xs @ a # ys) None" and dist: "distinct (xs @ a # ys)"
    and n: "lcells st a = Some n"
  shows "gives (if nprev n \<noteq> None then set_next (nprev n) (nnext n) st else Inr st)
    (\<lambda>st'. \<exists>c. st' = st\<lparr>lcells := c\<rparr> \<and> seg c None xs (nnext n) \<and> seg c (Some a) ys None \<and>
       c a = Some n \<and> dom c = dom (lcells st) \<and> same_vals st c)"
proof (cases xs rule: rev_cases)
  case Nil
  with sg n show ?thesis
    by (auto simp: same_vals_def intro!: exI [of _ "lcells st"])
next
  case (snoc ws w)
  with sg obtain k where k: "lcells st w = Some k" by auto
  have ne: "w \<noteq> a" "w \<notin> set ws" "w \<notin> set ys" using dist snoc by auto
  show ?thesis
    using sg n k ne snoc dist
    by (auto simp: set_next_def same_vals_def intro!: exI [of _ "(lcells st)(w \<mapsto> k\<lparr>nnext := nnext n\<rparr>)"]
        split: if_splits)
qed

lemma unlink_prev:
  fixes st :: "('a, 'z) store_scheme"
  assumes sg: "seg (lcells st) None xs (first_ptr ys None)" "seg (lcells st) (Some a) ys None"
    and dist: "distinct (xs @ a # ys)"
    and n: "lcells st a = Some n" "nprev n = last_ptr None xs" "nnext n = first_ptr ys None"
  shows "gives (if nnext n \<noteq> None then set_prev (nnext n) (nprev n) st else Inr st)
    (\<lambda>st'. \<exists>c. st' = st\<lparr>lcells := c\<rparr> \<and> seg c None (xs @ ys) None \<and>
       c a = Some n \<and> dom c = dom (lcells st) \<and> same_vals st c)"
proof (cases ys)
  case Nil
  with sg n show ?thesis
    by (auto simp: same_vals_def intro!: exI [of _ "lcells st"])
next
  case (Cons b bs)
  with sg obtain m where m: "lcells st b = Some m" by auto
  have ne: "b \<noteq> a" "b \<notin> set xs" "b \<notin> set bs" using dist Cons by auto
  show ?thesis
    using sg n m ne Cons dist
    by (auto simp: set_prev_def same_vals_def
        intro!: exI [of _ "(lcells st)(b \<mapsto> m\<lparr>nprev := nprev n\<rparr>)"]
        split: if_splits)
qed

lemma same_valsD: "same_vals st c \<Longrightarrow> dom c = dom (lcells st)"
  by (auto simp: same_vals_def dom_def) (metis option.map_disc_iff not_Some_eq)+

lemma same_vals_trans:
  "same_vals st c \<Longrightarrow> same_vals (st\<lparr>lcells := c\<rparr>) c' \<Longrightarrow> same_vals st c'"
  by (simp add: same_vals_def)

lemma svc_peer_leave_gives:
  assumes inv: "sinv st (xs @ a # ys)"
  shows "gives (svc_peer_leave a st) (\<lambda>(st', freed). sinv st' (xs @ ys) \<and>
    vals st' (xs @ ys) = vals st xs @ vals st ys \<and> si_frame st' = si_frame st)"
proof -
  from inv have sg: "seg (lcells st) None (xs @ a # ys) None" and dist: "distinct (xs @ a # ys)"
    and lt: "\<And>x. lcells st x \<noteq> None \<Longrightarrow> x < lbrk st" by (auto simp: sinv_def)
  from sg obtain n where n: "lcells st a = Some n" "nprev n = last_ptr None xs"
    "nnext n = first_ptr ys None" by auto
  have "peer_ok (si_frame st) (nval n)" using inv n by (auto simp: sinv_def vals_def)
  then obtain d cg where own: "sp_decoder (nval n) = Some d" "sp_cage (nval n) = Some cg" "cage_ok cg"
    by (auto simp: peer_ok_def)
  define st0 where "st0 = st\<lparr>si_count := si_count st - 1\<rparr>"
  define st1 where "st1 = (if si_list st0 = Some a then st0\<lparr>si_list := nnext n\<rparr> else st0)"
  have eq1: "lcells st1 = lcells st" "lbrk st1 = lbrk st" "si_frame st1 = si_frame st"
    "si_silent st1 = si_silent st" "si_count st1 = si_count st - 1"
    by (simp_all add: st1_def st0_def)
  have list1: "si_list st1 = first_ptr (xs @ ys) None"
    using inv dist n by (cases xs) (auto simp: st1_def st0_def sinv_def)
  have "gives (if nprev n \<noteq> None then set_next (nprev n) (nnext n) st1 else Inr st1)
    (\<lambda>st'. \<exists>c. st' = st1\<lparr>lcells := c\<rparr> \<and> seg c None xs (nnext n) \<and> seg c (Some a) ys None \<and>
       c a = Some n \<and> dom c = dom (lcells st1) \<and> same_vals st1 c)"
    by (rule unlink_next) (use sg dist n eq1 in auto)
  then obtain c where c: "(if nprev n \<noteq> None then set_next (nprev n) (nnext n) st1 else Inr st1) =
      Inr (st1\<lparr>lcells := c\<rparr>)" "seg c None xs (nnext n)" "seg c (Some a) ys None" "c a = Some n"
    "same_vals st1 c" by (auto simp: gives_def)
  have "gives (if nnext n \<noteq> None then set_prev (nnext n) (nprev n) (st1\<lparr>lcells := c\<rparr>)
      else Inr (st1\<lparr>lcells := c\<rparr>))
    (\<lambda>st'. \<exists>c'. st' = st1\<lparr>lcells := c\<rparr>\<lparr>lcells := c'\<rparr> \<and> seg c' None (xs @ ys) None \<and>
       c' a = Some n \<and> dom c' = dom (lcells (st1\<lparr>lcells := c\<rparr>)) \<and> same_vals (st1\<lparr>lcells := c\<rparr>) c')"
    by (rule unlink_prev) (use c n dist in auto)
  then obtain c' where c': "(if nnext n \<noteq> None then set_prev (nnext n) (nprev n) (st1\<lparr>lcells := c\<rparr>)
      else Inr (st1\<lparr>lcells := c\<rparr>)) = Inr (st1\<lparr>lcells := c'\<rparr>)"
    "seg c' None (xs @ ys) None" "c' a = Some n" "same_vals (st1\<lparr>lcells := c\<rparr>) c'"
    by (auto simp: gives_def)
  define e where "e = (\<lparr>sp_decoder = None, sp_cage = None\<rparr> :: ('a, 'b) svc_peer)"
  define st2 where "st2 = st1\<lparr>lcells := c'(a \<mapsto> n\<lparr>nval := e\<rparr>)\<rparr>"
  have cell0: "cell st0 a = Inr n" using n(1) by (simp add: cell_def st0_def)
  have setv: "set_val a \<lparr>sp_decoder = None, sp_cage = None\<rparr> (st1\<lparr>lcells := c'\<rparr>) = Inr st2"
    using c'(3) by (simp add: set_val_def cell_def st2_def e_def)
  have run: "svc_peer_leave a st = Inr (st2, packets (cg_queue cg))"
    by (simp only: svc_peer_leave_def Let_def st0_def [symmetric] cell0 bindR_simps
        st1_def [symmetric] c(1) c'(1) own(1,2) owned_def option.case
        packet_cage_destroy_gives [OF own(3)] setv)
  have sv: "same_vals st c'" using same_vals_trans [OF c(5) c'(4)] eq1(1) by (simp add: same_vals_def)
  have a: "a \<notin> set (xs @ ys)" using dist by auto
  have "set (xs @ ys) \<subseteq> dom c'" using c'(2) by (auto dest: seg_dom)
  then have "vals (st\<lparr>lcells := c'\<rparr>) (xs @ ys) = vals st (xs @ ys)" by (rule same_vals_vals [OF sv])
  moreover have "vals st2 (xs @ ys) = vals (st\<lparr>lcells := c'\<rparr>) (xs @ ys)"
    using a by (auto simp: vals_def st2_def)
  ultimately have v: "vals st2 (xs @ ys) = vals st xs @ vals st ys" by (simp add: vals_def)
  have "seg (lcells st2) None (xs @ ys) None" using c'(2) a by (simp add: st2_def)
  moreover have "lcells st2 x \<noteq> None \<Longrightarrow> x < lbrk st2" for x
    using lt same_valsD [OF sv] n(1) by (auto simp: st2_def eq1 dom_def split: if_splits)
  moreover have "\<forall>p\<in>set (vals st xs @ vals st ys). peer_ok (si_frame st) p"
    using inv by (auto simp: sinv_def vals_def)
  ultimately have "sinv st2 (xs @ ys)"
    using inv dist list1 eq1 v by (auto simp: sinv_def st2_def)
  with run v eq1 show ?thesis by (simp add: st2_def)
qed

text \<open>
  What is heard of a peer in the next frame: the packet at the head of its cage when the
  cage plays and has it, silence otherwise.
\<close>

definition samples :: "'a audio \<Rightarrow> 'a list" where
  "samples a = map the (adata a)"

definition heard :: "u32 \<Rightarrow> ('a::zero, 'd) svc_peer \<Rightarrow> 'a list" where
  "heard n p = (case sp_cage p of None \<Rightarrow> replicate (unat n) 0
     | Some c \<Rightarrow> if cg_starvation c then replicate (unat n) 0
         else (case win c ! 0 of None \<Rightarrow> replicate (unat n) 0 | Some a \<Rightarrow> samples a))"

text \<open>The cage after it was read once.\<close>

lemma packets_tl: "set (packets (tl w @ [None])) \<subseteq> set (packets w)"
  by (cases w) (auto simp: packets_Cons split: option.splits)

lemma get_peer:
  assumes "peer_ok n p" and c: "sp_cage p = Some c"
    and silent: "arep silent (replicate (unat n) 0)" "asize silent = n"
  shows "gives (packet_cage_get_data c) (\<lambda>(c', a). peer_ok n (p\<lparr>sp_cage := Some c'\<rparr>) \<and>
    arep (case a of None \<Rightarrow> silent | Some x \<Rightarrow> x) (heard n p) \<and>
    asize (case a of None \<Rightarrow> silent | Some x \<Rightarrow> x) = n)"
proof -
  have ok: "cage_ok c" "\<forall>a\<in>set (packets (win c)). frame_ok n a" "sp_decoder p \<noteq> None"
    using assms by (auto simp: peer_ok_def)
  show ?thesis
  proof (cases "cg_starvation c")
    case True
    with assms show ?thesis by (simp add: packet_cage_get_data_def heard_def peer_ok_def)
  next
    case False
    obtain c' where c': "packet_cage_get_data c = Inr (c', win c ! 0)" "taken c c'"
      using packet_cage_get_gives [OF ok(1) False] by (auto simp: gives_def)
    have "peer_ok n (p\<lparr>sp_cage := Some c'\<rparr>)"
      using c'(2) ok packets_tl [of "win c"] by (auto simp: peer_ok_def taken_def)
    moreover have "frame_ok n x" if "win c ! 0 = Some x" for x
      using ok(2) that win_ne [OF ok(1)] by (cases "win c") auto
    ultimately show ?thesis using c'(1) c silent False
      by (cases "win c ! 0") (auto simp: heard_def frame_ok_def samples_def arep_def comp_def)
  qed
qed

lemma set_val_seg:
  assumes "lcells st a = Some n"
  shows "set_val a v st = Inr (st\<lparr>lcells := (lcells st)(a \<mapsto> n\<lparr>nval := v\<rparr>)\<rparr>)"
  using assms by (simp add: set_val_def)

text \<open>One pass over the list: \<open>done\<close> are the peers already visited.\<close>

lemma collect_gives:
  "sinv st (xs @ ys) \<Longrightarrow> length ys \<le> k \<Longrightarrow> length buf + length ys \<le> MAX_PEERS \<Longrightarrow>
   gives (collect_audio k (first_ptr ys None) st buf) (\<lambda>(st', buf'). sinv st' (xs @ ys) \<and>
     si_frame st' = si_frame st \<and>
     (\<exists>as. buf' = buf @ as \<and> list_all2 arep as (map (heard (si_frame st)) (vals st ys)) \<and>
        (\<forall>a\<in>set as. asize a = si_frame st)))"
proof (induction ys arbitrary: xs st k buf)
  case Nil
  then show ?case by (simp add: vals_def)
next
  case (Cons a ys)
  then obtain k' where k': "k = Suc k'" by (cases k) auto
  let ?n = "si_frame st"
  from Cons.prems(1) have sg: "seg (lcells st) None (xs @ a # ys) None"
    and dist: "distinct (xs @ a # ys)" by (simp_all add: sinv_def)
  from sg obtain n where n: "lcells st a = Some n" "nnext n = first_ptr ys None" by auto
  have po: "peer_ok ?n (nval n)" using Cons.prems(1) n by (auto simp: sinv_def vals_def)
  then obtain c where c: "sp_cage (nval n) = Some c" by (auto simp: peer_ok_def)
  have silent: "arep (si_silent st) (replicate (unat ?n) 0)" "asize (si_silent st) = ?n"
    using Cons.prems(1) by (simp_all add: sinv_def)
  from get_peer [OF po c silent] obtain c' p where g: "packet_cage_get_data c = Inr (c', p)"
    "peer_ok ?n ((nval n)\<lparr>sp_cage := Some c'\<rparr>)"
    "arep (case p of None \<Rightarrow> si_silent st | Some x \<Rightarrow> x) (heard ?n (nval n))"
    "asize (case p of None \<Rightarrow> si_silent st | Some x \<Rightarrow> x) = ?n"
    by (auto simp: gives_def)
  define st1 where "st1 = st\<lparr>lcells := (lcells st)(a \<mapsto> n\<lparr>nval := (nval n)\<lparr>sp_cage := Some c'\<rparr>\<rparr>)\<rparr>"
  have silent1: "si_silent st1 = si_silent st" by (simp add: st1_def)
  have same: "vals st1 zs = vals st zs" if "a \<notin> set zs" for zs
    using that by (auto simp: vals_def st1_def)
  have "seg (lcells st1) None (xs @ a # ys) None"
    unfolding st1_def using sg seg_set_val [of "lcells st" a n] n(1) by (simp del: seg_append seg_Cons)
  moreover have "\<forall>p\<in>set (vals st1 (xs @ a # ys)). peer_ok ?n p"
    using Cons.prems(1) g(2) dist by (auto simp: sinv_def vals_def st1_def)
  ultimately have "sinv st1 ((xs @ [a]) @ ys)"
    using Cons.prems(1) n(1) by (auto simp: sinv_def st1_def)
  from Cons.IH [OF this, of k' "buf @ [case p of None \<Rightarrow> si_silent st | Some x \<Rightarrow> x]"]
  obtain st' as where IH: "collect_audio k' (first_ptr ys None) st1
      (buf @ [case p of None \<Rightarrow> si_silent st | Some x \<Rightarrow> x]) =
      Inr (st', (buf @ [case p of None \<Rightarrow> si_silent st | Some x \<Rightarrow> x]) @ as)"
    "sinv st' (xs @ a # ys)" "si_frame st' = ?n"
    "list_all2 arep as (map (heard ?n) (vals st ys))" "\<forall>a\<in>set as. asize a = ?n"
    using Cons.prems(2,3) k' same [of ys] dist by (auto simp: gives_def st1_def)
  have "collect_audio k (first_ptr (a # ys) None) st buf =
      Inr (st', buf @ (case p of None \<Rightarrow> si_silent st | Some x \<Rightarrow> x) # as)"
    using n c g(1) Cons.prems(3) IH(1) k'
    by (cases p) (simp_all add: owned_def set_val_seg [OF n(1)] st1_def [symmetric] silent1)
  with IH(2-) g(3,4) n(1) show ?case by (auto simp: gives_def vals_def)
qed

lemma sinv_length: "sinv st as \<Longrightarrow> length as \<le> lbrk st"
proof -
  assume s: "sinv st as"
  then have "set as \<subseteq> {..<lbrk st}" by (auto simp: sinv_def dest: seg_dom)
  then have "card (set as) \<le> lbrk st" using card_mono [of "{..<lbrk st}"] by fastforce
  with s show ?thesis by (simp add: sinv_def distinct_card)
qed

lemma list_all2_arep_length:
  "list_all2 arep bs xss \<Longrightarrow> \<forall>a\<in>set bs. asize a = n \<Longrightarrow> ys \<in> set xss \<Longrightarrow> length ys = unat n"
  by (induction rule: list_all2_induct) (auto simp: arep_def)

text \<open>The number of samples of a frame stays.\<close>

lemma set_val_frame: "set_val p x st = Inr st' \<Longrightarrow> si_frame st' = si_frame st"
  by (auto simp: set_val_def bindR_eq_Inr)

lemma collect_frame: "collect_audio k p st buf = Inr (st', buf') \<Longrightarrow> si_frame st' = si_frame st"
  by (induction k p st buf rule: collect_audio.induct)
    (auto simp: bindR_eq_Inr dest!: set_val_frame split: if_splits)

lemma request_frame: "svc_request_incoming_audio st out = Inr (st', out') \<Longrightarrow> si_frame st' = si_frame st"
  by (auto simp: svc_request_incoming_audio_def bindR_eq_Inr dest!: collect_frame)

lemma svc_request_gives:
  fixes st :: "('a::{zero, plus}, 'd) svc_in"
  assumes inv: "sinv st as" and few: "length as \<le> MAX_PEERS"
    and out: "awf output" "asize output = si_frame st"
  shows "gives (svc_request_incoming_audio st output) (\<lambda>(st', output'). sinv st' as \<and>
    asize output' = si_frame st \<and> arep output' (mix (map (heard (si_frame st)) (vals st as))
      (replicate (unat (si_frame st)) 0)))"
proof -
  have "gives (collect_audio (lbrk st) (first_ptr as None) st [])
    (\<lambda>(st', buf'). sinv st' ([] @ as) \<and> si_frame st' = si_frame st \<and>
     (\<exists>bs. buf' = [] @ bs \<and> list_all2 arep bs (map (heard (si_frame st)) (vals st as)) \<and>
        (\<forall>a\<in>set bs. asize a = si_frame st)))"
    by (rule collect_gives) (use inv few sinv_length [OF inv] in auto)
  then obtain st' bs where b: "collect_audio (lbrk st) (si_list st) st [] = Inr (st', bs)"
    "sinv st' as" "list_all2 arep bs (map (heard (si_frame st)) (vals st as))"
    "\<forall>a\<in>set bs. asize a = si_frame st"
    using inv by (auto simp: gives_def sinv_def)
  have "\<forall>ys\<in>set (map (heard (si_frame st)) (vals st as)). length ys = unat (si_frame st)"
    using list_all2_arep_length [OF b(3,4)] by blast
  then have tw: "takeWhile (\<lambda>ys. length ys = unat (asize output)) (map (heard (si_frame st)) (vals st as)) =
      map (heard (si_frame st)) (vals st as)"
    using out(2) by (simp add: takeWhile_eq_all_conv)
  from svc_mix_gives [OF out(1) b(3), unfolded tw] b(1,2) out(2) show ?thesis
    by (auto simp: svc_request_incoming_audio_def gives_def)
qed

text \<open>
  The contract of the decoder: it writes every sample of the frame.
\<close>

definition decoder_writes :: "('d \<Rightarrow> string \<Rightarrow> 'a option list \<Rightarrow> 'd \<times> 'a option list) \<Rightarrow> bool" where
  "decoder_writes dec \<longleftrightarrow> (\<forall>d bytes pcm. length (snd (dec d bytes pcm)) = length pcm \<and>
     None \<notin> set (snd (dec d bytes pcm)))"

lemma decoder_frame:
  fixes pcm :: "'a option list"
  assumes "decoder_writes dec" "dec d bytes (adata (svc_audio_data_create n)) = (d', pcm)"
  shows "frame_ok n ((svc_audio_data_create n)\<lparr>adata := pcm\<rparr>)"
proof -
  have "length (snd (dec d bytes (adata (svc_audio_data_create n)))) =
      length (adata (svc_audio_data_create n :: 'a audio))"
    "None \<notin> set (snd (dec d bytes (adata (svc_audio_data_create n))))"
    using assms(1) unfolding decoder_writes_def by blast+
  then have "length pcm = unat n" "None \<notin> set pcm"
    using assms(2) by (simp_all add: svc_audio_data_create_def)
  moreover from this(2) have "map Some (map the pcm) = pcm" by (induction pcm) auto
  ultimately show ?thesis
    by (auto simp: frame_ok_def arep_def svc_audio_data_create_def intro!: exI [of _ "map the pcm"])
qed

lemma put_packets:
  "put_result p t c c' \<Longrightarrow> set (packets (win c')) \<subseteq> insert p (set (packets (win c)))"
proof -
  have u: "set (packets (w[i := Some p])) \<subseteq> insert p (set (packets w))" for w i
    by (induction w arbitrary: i) (auto simp: packets_Cons split: nat.splits option.splits)
  assume "put_result p t c c'"
  then have "set (packets (win c')) \<subseteq> insert p (set (packets (slide (put_drop c t) (win c))))"
    using u by (simp add: put_result_def)
  also have "\<dots> \<subseteq> insert p (set (packets (win c)))"
    using packets_slide [of "win c" "put_drop c t"] by auto
  finally show ?thesis .
qed

lemma svc_packet_recieve_gives:
  assumes inv: "sinv st (xs @ a # ys)" and dec: "decoder_writes dec"
    and t: "unat (np_time packet) \<le> MAX_TIME"
  shows "gives (svc_packet_recieve dec packet a st) (\<lambda>st'. sinv st' (xs @ a # ys) \<and>
    si_frame st' = si_frame st)"
proof -
  let ?n = "si_frame st"
  from inv have sg: "seg (lcells st) None (xs @ a # ys) None"
    and dist: "distinct (xs @ a # ys)" by (simp_all add: sinv_def)
  from sg obtain n where n: "lcells st a = Some n" by auto
  have "peer_ok ?n (nval n)" using inv n by (auto simp: sinv_def vals_def)
  then obtain d c where p: "sp_decoder (nval n) = Some d" "sp_cage (nval n) = Some c" "cage_ok c"
    "\<forall>x\<in>set (packets (win c)). frame_ok ?n x"
    by (auto simp: peer_ok_def)
  obtain d' pcm where dc: "dec d (np_data packet) (adata (svc_audio_data_create ?n)) = (d', pcm)"
    by fastforce
  let ?x = "(svc_audio_data_create ?n)\<lparr>adata := pcm\<rparr>"
  have x: "frame_ok ?n ?x" by (rule decoder_frame [OF dec dc])
  obtain c' freed where put: "packet_cage_put_data c ?x (np_time packet) = Inr (c', freed)"
    "cage_ok c'" "\<forall>y\<in>set (packets (win c')). frame_ok ?n y"
  proof (cases "accepts c (np_time packet)")
    case True
    from packet_cage_put_gives [OF p(3) t True, of ?x] obtain c' where
      "packet_cage_put_data c ?x (np_time packet) =
        Inr (c', packets (take (put_drop c (np_time packet)) (win c)))"
      "put_result ?x (np_time packet) c c'" by (auto simp: gives_def)
    with put_packets [OF this(2)] p(4) x that show ?thesis by (fastforce simp: put_result_def)
  next
    case False
    from packet_cage_put_old [OF p(3) t False] p(3,4) that show ?thesis by blast
  qed
  define e where "e = \<lparr>sp_decoder = Some d', sp_cage = Some c'\<rparr>"
  define st' where "st' = st\<lparr>lcells := (lcells st)(a \<mapsto> n\<lparr>nval := e\<rparr>)\<rparr>"
  have "svc_packet_recieve dec packet a st = Inr st'"
    using n p(1,2) dc put(1)
    by (simp add: svc_packet_recieve_def owned_def set_val_seg [OF n] st'_def e_def)
  moreover have "seg (lcells st') None (xs @ a # ys) None"
    unfolding st'_def using sg seg_set_val [of "lcells st" a n] n by (simp del: seg_append seg_Cons)
  moreover have "\<forall>p\<in>set (vals st' (xs @ a # ys)). peer_ok ?n p"
    using inv put(2,3) dist by (auto simp: sinv_def vals_def st'_def e_def peer_ok_def)
  ultimately show ?thesis using inv n by (auto simp: sinv_def st'_def)
qed

text \<open>More than \<open>MAX_PEERS\<close> peers overrun the mixer's buffer.\<close>

lemma collect_overrun:
  "sinv st (xs @ ys) \<Longrightarrow> length ys \<le> k \<Longrightarrow> length buf \<le> MAX_PEERS \<Longrightarrow>
   MAX_PEERS < length buf + length ys \<Longrightarrow>
   collect_audio k (first_ptr ys None) st buf = Inl OutOfBounds"
proof (induction ys arbitrary: xs st k buf)
  case (Cons a ys)
  then obtain k' where k': "k = Suc k'" by (cases k) auto
  let ?n = "si_frame st"
  from Cons.prems(1) have sg: "seg (lcells st) None (xs @ a # ys) None"
    and dist: "distinct (xs @ a # ys)" by (simp_all add: sinv_def)
  from sg obtain n where n: "lcells st a = Some n" "nnext n = first_ptr ys None" by auto
  have po: "peer_ok ?n (nval n)" using Cons.prems(1) n by (auto simp: sinv_def vals_def)
  then obtain c where c: "sp_cage (nval n) = Some c" by (auto simp: peer_ok_def)
  have silent: "arep (si_silent st) (replicate (unat ?n) 0)" "asize (si_silent st) = ?n"
    using Cons.prems(1) by (simp_all add: sinv_def)
  from get_peer [OF po c silent] obtain c' p where g: "packet_cage_get_data c = Inr (c', p)"
    "peer_ok ?n ((nval n)\<lparr>sp_cage := Some c'\<rparr>)"
    by (auto simp: gives_def)
  define st1 where "st1 = st\<lparr>lcells := (lcells st)(a \<mapsto> n\<lparr>nval := (nval n)\<lparr>sp_cage := Some c'\<rparr>\<rparr>)\<rparr>"
  have "seg (lcells st1) None (xs @ a # ys) None"
    unfolding st1_def using sg seg_set_val [of "lcells st" a n] n(1) by (simp del: seg_append seg_Cons)
  moreover have "\<forall>p\<in>set (vals st1 (xs @ a # ys)). peer_ok ?n p"
    using Cons.prems(1) g(2) dist by (auto simp: sinv_def vals_def st1_def)
  ultimately have inv1: "sinv st1 ((xs @ [a]) @ ys)"
    using Cons.prems(1) n(1) by (auto simp: sinv_def st1_def)
  have IH: "length buf < MAX_PEERS \<Longrightarrow>
      collect_audio k' (first_ptr ys None) st1 (buf @ [x]) = Inl OutOfBounds" for x
    by (rule Cons.IH [OF inv1]) (use Cons.prems(2-) k' in auto)
  show ?case using n c g(1) IH k'
    by (simp add: owned_def set_val_seg [OF n(1)] st1_def [symmetric])
qed simp

lemma svc_request_overrun:
  assumes "sinv st as" and "MAX_PEERS < length as"
  shows "svc_request_incoming_audio st output = Inl OutOfBounds"
proof -
  have "collect_audio (lbrk st) (first_ptr as None) st [] = Inl OutOfBounds"
    by (rule collect_overrun [of _ "[]"]) (use assms sinv_length [OF assms(1)] in auto)
  moreover have "si_list st = first_ptr as None" using assms(1) by (simp add: sinv_def)
  ultimately show ?thesis by (simp add: svc_request_incoming_audio_def)
qed

text \<open>Closing leaves every peer.\<close>

lemma leave_all_gives:
  "sinv st as \<Longrightarrow> length as \<le> k \<Longrightarrow> gives (leave_all k st) (\<lambda>st'. sinv st' [])"
proof (induction as arbitrary: st k)
  case Nil
  then show ?case by (simp add: leave_all.simps [of k st] sinv_def)
next
  case (Cons a as)
  then obtain k' where k': "k = Suc k'" by (cases k) auto
  from svc_peer_leave_gives [of st "[]" a as] Cons.prems(1) obtain st1 freed where
    l: "svc_peer_leave a st = Inr (st1, freed)" "sinv st1 as" by (auto simp: gives_def)
  have "gives (leave_all k' st1) (\<lambda>st'. sinv st' [])"
    by (rule Cons.IH [OF l(2)]) (use Cons.prems(2) k' in simp)
  moreover have "si_list st = Some a" using Cons.prems(1) by (simp add: sinv_def)
  ultimately show ?case using l(1) k' by (simp add: leave_all.simps [of "Suc k'" st])
qed

lemma svc_incoming_close_gives: "sinv st as \<Longrightarrow> gives (svc_incoming_close st) (\<lambda>st'. sinv st' [])"
  unfolding svc_incoming_close_def by (rule leave_all_gives) (auto dest: sinv_length)

section \<open>The time stamps of the outgoing packets\<close>

fun send_turns :: "('e \<Rightarrow> 'a option list \<Rightarrow> nat \<Rightarrow> 'e \<times> string) \<Rightarrow> 'a audio list \<Rightarrow>
   ('a, 'e) svc_out \<Rightarrow> ('a, 'e) svc_out \<times> svc_network_packet list" where
  "send_turns enc [] st = (st, [])"
| "send_turns enc (a # as) st =
     (case create_network_packet_from_audio enc a st of (st, p) \<Rightarrow>
        case send_turns enc as st of (st, ps) \<Rightarrow> (st, p # ps))"

lemma unat_time_inc_mod: "unat t \<le> MAX_TIME \<Longrightarrow> unat (time_inc t) = Suc (unat t) mod 65536"
  by (auto simp: unat_time_inc MAX_TIME_def)

lemma Suc_mod_add: "Suc (a mod m + x) mod m = Suc (a + x) mod m" for a m x :: nat
  by (metis add_Suc_right mod_add_left_eq)

lemma send_turns_times:
  "unat (so_time st) \<le> MAX_TIME \<Longrightarrow>
   map (\<lambda>p. unat (np_time p)) (snd (send_turns enc as st)) =
     map (\<lambda>i. (unat (so_time st) + Suc i) mod 65536) [0..<length as]"
proof (induction as arbitrary: st)
  case (Cons a as)
  obtain st1 p where c: "create_network_packet_from_audio enc a st = (st1, p)" by fastforce
  then have t: "so_time st1 = time_inc (so_time st)" "np_time p = time_inc (so_time st)"
    by (auto simp: create_network_packet_from_audio_def Let_def split: prod.splits)
  have "unat (so_time st1) \<le> MAX_TIME" using Cons.prems t by (simp add: time_inc_le)
  from Cons.IH [OF this] have "map (\<lambda>p. unat (np_time p)) (snd (send_turns enc as st1)) =
      map (\<lambda>i. (unat (so_time st) + Suc (Suc i)) mod 65536) [0..<length as]"
    using Cons.prems by (simp add: t unat_time_inc_mod Suc_mod_add)
  moreover have "[0..<length (a # as)] = 0 # map Suc [0..<length as]"
    by (simp add: map_Suc_upt upt_conv_Cons del: upt_Suc)
  ultimately show ?case using c t Cons.prems
    by (auto simp: unat_time_inc_mod comp_def split: prod.splits simp del: upt_Suc)
qed simp

end
