(* ===== verification/VoiceProps.thy ===== *)
theory VoiceProps
  imports LibSvc
begin

text \<open>
  The properties of the voice library (\<open>src/libsvc\<close>): time stamps, the cage of packets of a
  peer, the queue between the sound card and the network, the mixing of the peers.
\<close>

section \<open>The cage\<close>

text \<open>On 16-bit time stamps \<open>is_newer\<close> and \<open>sub_time\<close> are the comparison and the
  difference of serial numbers: the signed distance modulo 65536.\<close>

theorem time_is_serial:
  "unat t1 \<le> MAX_TIME \<Longrightarrow> unat t2 \<le> MAX_TIME \<Longrightarrow>
   is_newer t1 t2 = (0 < serial_diff t1 t2) \<and> sub_time t1 t2 = serial_diff t1 t2"
  by (simp add: is_newer_serial sub_time_serial)

theorem time_is_serial_witness:
  "is_newer 2 65534 = (0 < serial_diff 2 65534) \<and> sub_time 2 65534 = serial_diff 2 65534"
  by (rule time_is_serial) (simp_all add: MAX_TIME_def)

text \<open>C27: a packet strictly newer than the head of the cage, or any packet for a new cage, is put
  at its distance from the head, or, when it is too far, at the last place after the cage has slid
  forward; the packets that slid out are freed, and the loop that drops them ends.\<close>

theorem cage_put:
  "cage_ok c \<Longrightarrow> unat t \<le> MAX_TIME \<Longrightarrow> accepts c t \<Longrightarrow>
   gives (packet_cage_put_data c p t) (\<lambda>(c', freed). cage_ok c' \<and>
     win c' = (slide (put_drop c t) (win c))[put_slot c t := Some p] \<and>
     freed = packets (take (put_drop c t) (win c)))"
  by (rule gives_mono [OF packet_cage_put_gives]) (auto simp: put_result_def)

lemma create5_ok: "cage_ok (packet_cage_create 5)"
  by (rule cage_create_ok) simp_all

theorem cage_put_witness:
  "gives (packet_cage_put_data (packet_cage_create 5) ''p'' 7) (\<lambda>(c', freed). cage_ok c' \<and>
     win c' = (slide (put_drop (packet_cage_create 5 :: string cage) 7) (win (packet_cage_create 5)))
       [put_slot (packet_cage_create 5 :: string cage) 7 := Some ''p''] \<and>
     freed = packets (take (put_drop (packet_cage_create 5 :: string cage) 7) (win (packet_cage_create 5))))"
  by (rule cage_put [OF create5_ok]) (simp_all add: MAX_TIME_def accepts_def packet_cage_create_def)

text \<open>A packet that is not newer than the head of a cage in use, the one the head waits for
  included, changes nothing, and is not freed either.\<close>

definition running :: "string cage" where
  "running = \<lparr>cg_head = 3, cg_size = 5, cg_head_time = 10, cg_tail_time = 12, cg_starvation = False,
     cg_new = False, cg_count = 2, cg_queue = [Some ''c'', None, None, Some ''a'', None]\<rparr>"

lemma running_ok: "cage_ok running"
  by (simp add: cage_ok_def running_def MAX_TIME_def)

lemma win_running: "win running = [Some ''a'', None, Some ''c'', None, None]"
  by (simp add: win_def running_def rotate_drop_take)

theorem cage_put_late:
  "cage_ok c \<Longrightarrow> unat t \<le> MAX_TIME \<Longrightarrow> \<not> accepts c t \<Longrightarrow> packet_cage_put_data c p t = Inr (c, [])"
  by (rule packet_cage_put_old)

theorem cage_put_late_witness: "packet_cage_put_data running ''x'' 9 = Inr (running, [])"
  by (rule cage_put_late [OF running_ok]) (simp_all add: MAX_TIME_def accepts_def running_def serial_diff_def)



text \<open>Putting a packet keeps the counter right exactly when its place was free: a second
  packet with the same time stamp is counted twice.\<close>

theorem duplicate_counted:
  "cage_ok c \<Longrightarrow> counted c \<Longrightarrow> unat t \<le> MAX_TIME \<Longrightarrow> accepts c t \<Longrightarrow>
   gives (packet_cage_put_data c p t) (\<lambda>(c', freed).
     counted c' = (slide (put_drop c t) (win c) ! put_slot c t = None))"
  by (rule gives_mono [OF packet_cage_put_gives]) (auto simp: put_counted)

theorem duplicate_counted_witness:
  "gives (packet_cage_put_data running ''x'' 12) (\<lambda>(c', freed).
     counted c' = (slide (put_drop running 12) (win running) ! put_slot running 12 = None))"
  by (rule duplicate_counted [OF running_ok])
    (simp_all add: counted_def win_running packets_def MAX_TIME_def, simp_all add: running_def accepts_def
      serial_diff_def)

text \<open>Once the counter is above the number of packets in the cage, it stays so: however
  often the cage is read, it never becomes starved, and never starts anew.\<close>

theorem overcounted_never_starves:
  "cage_ok c \<Longrightarrow> overcounted c \<Longrightarrow> \<not> cg_starvation c \<Longrightarrow>
   gives (gets n c) (\<lambda>(c', ps). \<not> cg_starvation c' \<and> cg_new c' = cg_new c \<and> overcounted c')"
  by (rule gives_mono [OF gets_overcounted]) auto

theorem overcounted_never_starves_witness:
  "gives (gets 100 (running\<lparr>cg_count := 3\<rparr>)) (\<lambda>(c', ps). \<not> cg_starvation c' \<and>
     cg_new c' = cg_new (running\<lparr>cg_count := 3\<rparr>) \<and> overcounted c')"
proof (rule overcounted_never_starves)
  have "win (running\<lparr>cg_count := 3\<rparr>) = win running" by (simp add: win_def)
  then show "overcounted (running\<lparr>cg_count := 3\<rparr>)" by (simp add: overcounted_def win_running packets_def)
qed (simp_all add: cage_ok_def running_def MAX_TIME_def)

section \<open>The queue\<close>

text \<open>Whatever the order of pushes and pops, what is read is what was pushed and accepted,
  first in first out, after what the queue held at the start.\<close>

theorem queue_fifo:
  "queue_ok n q \<Longrightarrow> \<forall>a. Some a \<in> set ops \<longrightarrow> awf a \<and> asize a = n \<Longrightarrow>
   gives (pq.run n ops q) (\<lambda>(q', accepted, read). queue_ok n q' \<and> items q @ accepted = read @ items q')"
  by (rule pq.run_fifo)

theorem queue_fifo_witness:
  "gives (pq.run 4 [Some (svc_audio_data_create 4), None] (packet_queue_create 3 4 :: nat pqueue))
     (\<lambda>(q', accepted, read). queue_ok 4 q' \<and>
        items (packet_queue_create 3 4) @ accepted = read @ items q')"
  by (rule queue_fifo) (auto intro: queue_create_ok)

text \<open>C25: in every state the two threads can reach, the consumer takes a buffer only from a
  queue that has one, never waits for the queue to fill while it holds the lock, and the
  buffers it has read, followed by those in the queue, are the unwritten buffer of the start
  followed by those the producer was told were accepted: the output is one buffer late.\<close>

theorem threads_invariant:
  "pcreach sz n s \<Longrightarrow> 1 < unat sz \<Longrightarrow>
   (pc_cons s = CBody \<longrightarrow> \<not> packet_queue_is_empty (pc_queue s)) \<and>
   (pc_cons s = CTest \<longrightarrow> \<not> pc_elock s) \<and>
   svc_audio_data_create n # pc_sent s = pc_recv s @ items (pc_queue s)"
  using pop_not_empty [of sz n s] pop_test_free [of sz n s] pcreach_inv [of sz n s]
  by (auto simp: pcinv_def)

theorem threads_invariant_witness:
  "svc_audio_data_create 4 # pc_sent (pcinit 3 4 :: nat pcstate) =
     pc_recv (pcinit 3 4 :: nat pcstate) @ items (pc_queue (pcinit 3 4 :: nat pcstate))"
proof -
  have "pcreach 3 4 (pcinit 3 4 :: nat pcstate)" by (rule pcreach.start)
  from threads_invariant [OF this] show ?thesis by simp
qed



section \<open>Mixing and the peers\<close>

lemma replicate_two: "replicate 2 x = [x, x]"
  by (simp add: numeral_2_eq_2)

text \<open>C29: the output is the sum, sample by sample, of what every peer is heard with: silence for
  a peer whose cage is starved or misses the packet, the packet at its head otherwise.  The
  list of peers stays well-formed.\<close>

theorem request_audio:
  fixes st :: "('a::{zero, plus}, 'd) svc_in"
  shows "sinv st as \<Longrightarrow> length as \<le> MAX_PEERS \<Longrightarrow> awf output \<Longrightarrow> asize output = si_frame st \<Longrightarrow>
   gives (svc_request_incoming_audio st output) (\<lambda>(st', output'). sinv st' as \<and>
     arep output' (mix (map (heard (si_frame st)) (vals st as)) (replicate (unat (si_frame st)) 0)))"
  by (rule gives_mono [OF svc_request_gives]) auto

definition no_peers :: "(int, unit) svc_in" where
  "no_peers = \<lparr>lcells = Map.empty, lbrk = 0, si_list = None, si_count = 0,
     si_silent = \<lparr>asize = 2, adata = [Some 0, Some 0]\<rparr>, si_frame = 2\<rparr>"

lemma no_peers_sinv: "sinv no_peers []"
  by (simp add: sinv_def no_peers_def arep_def vals_def replicate_two)

theorem request_audio_witness:
  "gives (svc_request_incoming_audio no_peers \<lparr>asize = 2, adata = [None, None]\<rparr>)
     (\<lambda>(st', output'). sinv st' [] \<and> arep output'
       (mix (map (heard (si_frame no_peers)) (vals no_peers [])) (replicate (unat (si_frame no_peers)) 0)))"
  by (rule request_audio [OF no_peers_sinv]) (simp_all add: awf_def no_peers_def)

lemma many_peers: "\<exists>st as. sinv (st :: (int, unit) svc_in) as \<and> length as = n"
proof (induction n)
  case 0
  then show ?case using no_peers_sinv by auto
next
  case (Suc n)
  then obtain st as where s: "sinv (st :: (int, unit) svc_in) as" "length as = n" by auto
  from svc_peer_join_gives [OF s(1), of "()"] obtain st' :: "(int, unit) svc_in" where "sinv st' (lbrk st # as)"
    by (auto simp: gives_def)
  with s(2) show ?case by (auto intro!: exI [of _ "lbrk st # as"])
qed

text \<open>With more than 1000 peers the request writes past the end of \<open>mixer_buffer\<close>.\<close>

theorem request_overrun:
  "sinv st as \<Longrightarrow> MAX_PEERS < length as \<Longrightarrow> svc_request_incoming_audio st output = Inl OutOfBounds"
  by (rule svc_request_overrun)

theorem request_overrun_witness:
  "\<exists>st as. sinv (st :: (int, unit) svc_in) as \<and> MAX_PEERS < length as \<and>
     svc_request_incoming_audio st (svc_audio_data_create 2) = Inl OutOfBounds"
proof -
  obtain st as where s: "sinv (st :: (int, unit) svc_in) as" "length as = Suc MAX_PEERS"
    using many_peers by blast
  then have "MAX_PEERS < length as" by simp
  with s request_overrun [OF s(1) this] show ?thesis by blast
qed

text \<open>C35: a peer that joins is put at the front of the list, one that leaves is taken out of it
  wherever it is, and all other peers stay as they are.\<close>

theorem join_leave:
  "sinv st (xs @ a # ys) \<Longrightarrow>
   gives (bindR (svc_peer_leave a st) (\<lambda>(st, freed). svc_peer_join d st)) (\<lambda>(st', b).
     sinv st' (b # xs @ ys) \<and>
     vals st' (b # xs @ ys) = \<lparr>sp_decoder = Some d, sp_cage = Some (packet_cage_create 5)\<rparr> #
       vals st xs @ vals st ys)"
proof -
  assume "sinv st (xs @ a # ys)"
  from svc_peer_leave_gives [OF this] show ?thesis
  proof (rule gives_bind)
    fix r assume "case r of (st', freed) \<Rightarrow> sinv st' (xs @ ys) \<and>
      vals st' (xs @ ys) = vals st xs @ vals st ys \<and> si_frame st' = si_frame st"
    then obtain st' freed where r: "r = (st', freed)" "sinv st' (xs @ ys)"
      "vals st' (xs @ ys) = vals st xs @ vals st ys" by (cases r) auto
    from gives_mono [OF svc_peer_join_gives [OF r(2), of d]] show "gives (case r of (st, freed) \<Rightarrow>
        svc_peer_join d st) (\<lambda>(st', b). sinv st' (b # xs @ ys) \<and>
        vals st' (b # xs @ ys) = \<lparr>sp_decoder = Some d, sp_cage = Some (packet_cage_create 5)\<rparr> #
          vals st xs @ vals st ys)"
      by (auto simp: r(1,3))
  qed
qed

definition one_peer :: "(int, unit) svc_in" where
  "one_peer = no_peers\<lparr>lcells := [0 \<mapsto> \<lparr>nprev = None, nnext = None,
     nval = \<lparr>sp_decoder = Some (), sp_cage = Some (packet_cage_create 5)\<rparr>\<rparr>], lbrk := 1,
     si_list := Some 0, si_count := 1\<rparr>"

lemma one_peer_sinv: "sinv one_peer ([] @ 0 # [])"
  using no_peers_sinv
  by (auto simp: sinv_def one_peer_def vals_def fresh_peer_ok)

theorem join_leave_witness:
  "gives (bindR (svc_peer_leave 0 one_peer) (\<lambda>(st, freed). svc_peer_join () st)) (\<lambda>(st', b).
     sinv st' (b # [] @ []) \<and>
     vals st' (b # [] @ []) = \<lparr>sp_decoder = Some (), sp_cage = Some (packet_cage_create 5)\<rparr> #
       vals one_peer [] @ vals one_peer [])"
  by (rule join_leave [OF one_peer_sinv])

text \<open>\<open>svc_incoming_close\<close> ends, with every peer taken off the list.\<close>

theorem close_ends: "sinv st as \<Longrightarrow> gives (svc_incoming_close st) (\<lambda>st'. sinv st' [])"
  by (rule svc_incoming_close_gives)

theorem close_ends_witness: "gives (svc_incoming_close one_peer) (\<lambda>st'. sinv st' [])"
  by (rule close_ends [OF one_peer_sinv])

text \<open>The packets that go out are numbered one after the other modulo 65536, so that the
  receiver's comparison of consecutive packets is right.\<close>

theorem time_stamps:
  "unat (so_time st) \<le> MAX_TIME \<Longrightarrow>
   map (\<lambda>p. unat (np_time p)) (snd (send_turns enc as st)) =
     map (\<lambda>i. (unat (so_time st) + Suc i) mod 65536) [0..<length as]"
  by (rule send_turns_times)

theorem time_stamps_witness:
  "map (\<lambda>p. unat (np_time p)) (snd (send_turns (\<lambda>e s n. (e, ''x''))
     [svc_audio_data_create 2, svc_audio_data_create 2] \<lparr>so_time = 65535, so_queue = packet_queue_create 3 2,
       so_encoder = (), so_frame = 2, so_bytes = 1\<rparr>)) = [0, 1]"
  by (subst time_stamps) (simp_all add: MAX_TIME_def)

end
