(* ===== verification/Decimal.thy ===== *)
theory Decimal
  imports Prelude
begin

text \<open>
  The decimal numbers of the text protocol: \<open>sprintf\<close>'s \<open>%i\<close> on the sending side and
  \<open>atoi\<close> on the receiving side.
\<close>

definition digit :: "nat \<Rightarrow> char" where
  "digit n = char_of (48 + n)"

fun dec_nat :: "nat \<Rightarrow> string" where
  "dec_nat n = (if n < 10 then [digit n] else dec_nat (n div 10) @ [digit (n mod 10)])"

declare dec_nat.simps [simp del]

definition dec_int :: "int \<Rightarrow> string" where
  "dec_int i = (if i < 0 then CHR ''-'' # dec_nat (nat (- i)) else dec_nat (nat i))"

text \<open>\<open>%i\<close> reads its (unsigned) argument as an \<open>int\<close>.\<close>

definition fmt_i :: "u32 \<Rightarrow> string" where
  "fmt_i n = dec_int (sint n)"

definition is_digit :: "char \<Rightarrow> bool" where
  "is_digit c \<longleftrightarrow> (48 :: nat) \<le> of_char c \<and> (of_char c :: nat) \<le> 57"

definition is_space :: "char \<Rightarrow> bool" where
  "is_space c \<longleftrightarrow> c = CHR 0x20 \<or> (9 :: nat) \<le> of_char c \<and> (of_char c :: nat) \<le> 13"

definition digits_val :: "string \<Rightarrow> int" where
  "digits_val ds = foldl (\<lambda>a c. 10 * a + (of_char c - 48)) 0 ds"

text \<open>
  \<open>atoi\<close>: white space, an optional sign, digits up to the first other character.  A value
  that is not an \<open>int\<close> has no defined result; here it is the value itself.
\<close>

definition atoi :: "string \<Rightarrow> int" where
  "atoi s =
     (case dropWhile is_space s of
        [] \<Rightarrow> 0
      | c # cs \<Rightarrow>
          if c = CHR ''-'' then - digits_val (takeWhile is_digit cs)
          else if c = CHR ''+'' then digits_val (takeWhile is_digit cs)
          else digits_val (takeWhile is_digit (c # cs)))"

lemma of_char_digit: "n < 10 \<Longrightarrow> of_char (digit n) = (48 + n :: nat)"
  by (simp add: digit_def)

lemma of_char_digit_int: "n < 10 \<Longrightarrow> of_char (digit n) = (48 + int n)"
  by (metis of_char_digit of_nat_add of_nat_numeral of_nat_of_char)

lemma is_digit_digit [simp]: "n < 10 \<Longrightarrow> is_digit (digit n)"
  by (simp add: is_digit_def of_char_digit)

lemma dec_nat_digits: "c \<in> set (dec_nat n) \<Longrightarrow> is_digit c"
proof (induction n rule: dec_nat.induct)
  case (1 n)
  then show ?case by (auto simp: dec_nat.simps [of n] split: if_splits)
qed

lemma dec_nat_ne [simp]: "dec_nat n \<noteq> []"
  by (simp add: dec_nat.simps [of n])

lemma digits_val_snoc [simp]: "digits_val (ds @ [c]) = 10 * digits_val ds + (of_char c - 48)"
  by (simp add: digits_val_def)

lemma digits_val_dec: "digits_val (dec_nat n) = int n"
proof (induction n rule: dec_nat.induct)
  case (1 n)
  show ?case
  proof (cases "n < 10")
    case True
    then show ?thesis by (simp add: dec_nat.simps [of n] digits_val_def of_char_digit_int)
  next
    case False
    then show ?thesis using 1
      by (simp add: dec_nat.simps [of n] of_char_digit_int) presburger
  qed
qed

lemma digit_not_space: "is_digit c \<Longrightarrow> \<not> is_space c"
  by (auto simp: is_digit_def is_space_def)

lemma digit_not_sign: "is_digit c \<Longrightarrow> c \<noteq> CHR ''-'' \<and> c \<noteq> CHR ''+''"
  by (auto simp: is_digit_def)

lemma dec_nat_Cons: "\<exists>c cs. dec_nat n = c # cs \<and> is_digit c"
  using dec_nat_digits [of _ n] by (cases "dec_nat n") auto

lemma take_dec_nat [simp]: "takeWhile is_digit (dec_nat n) = dec_nat n"
  using dec_nat_digits by (metis takeWhile_eq_all_conv)

text \<open>Reading back what was printed.\<close>

lemma atoi_dec_nat: "atoi (dec_nat n) = int n"
proof -
  obtain c cs where c: "dec_nat n = c # cs" "is_digit c" using dec_nat_Cons by blast
  then have tw: "takeWhile is_digit cs = cs"
    using dec_nat_digits [of _ n] by (auto simp: takeWhile_eq_all_conv)
  show ?thesis using c digits_val_dec [of n] digit_not_space [OF c(2)] digit_not_sign [OF c(2)]
    by (simp add: atoi_def tw)
qed

lemma atoi_dec_int: "atoi (dec_int i) = i"
proof (cases "i < 0")
  case True
  have "\<not> is_space CHR ''-''" by (simp add: is_space_def)
  with True show ?thesis by (simp add: dec_int_def atoi_def digits_val_dec)
qed (simp add: dec_int_def atoi_dec_nat)

lemma atoi_fmt_i: "word_of_int (atoi (fmt_i n)) = n"
  by (simp add: fmt_i_def atoi_dec_int)

lemma fmt_i_small: "unat n < 2 ^ 31 \<Longrightarrow> fmt_i n = dec_nat (unat n)"
proof -
  assume "unat n < 2 ^ 31"
  then have "unat n < 2147483648" by simp
  then have n: "uint n < 2147483648" using uint_nat [of n] by linarith
  have lo: "- (2 ^ 31) \<le> uint n" by (rule order_trans [of _ 0]) simp_all
  have hi: "uint n < 2 ^ 31" using n by simp
  have "sint n = signed_take_bit 31 (uint n)" by (simp add: sint_uint)
  also have "\<dots> = uint n" by (rule signed_take_bit_int_eq_self [OF lo hi])
  finally show ?thesis by (simp add: fmt_i_def dec_int_def)
qed

lemma dec_int_chars: "c \<in> set (dec_int i) \<Longrightarrow> is_digit c \<or> c = CHR ''-''"
  by (auto simp: dec_int_def dest: dec_nat_digits split: if_splits)

text \<open>A number has at most eleven characters.\<close>

lemma dec_nat_length: "n < 10 ^ k \<Longrightarrow> 0 < k \<Longrightarrow> length (dec_nat n) \<le> k"
proof (induction k arbitrary: n)
  case (Suc k)
  show ?case
  proof (cases "n < 10")
    case True
    then show ?thesis by (simp add: dec_nat.simps [of n])
  next
    case False
    then have "0 < k" using Suc.prems(1) by (cases k) auto
    moreover have "n div 10 < 10 ^ k" using Suc.prems(1) by (simp add: less_mult_imp_div_less)
    ultimately show ?thesis using Suc.IH False by (simp add: dec_nat.simps [of n])
  qed
qed simp

lemma fmt_i_length: "length (fmt_i n) \<le> 11"
proof -
  have "\<bar>sint n\<bar> \<le> 2 ^ 31"
    using sint_range_size [of n] by (auto simp: word_size)
  then have "nat \<bar>sint n\<bar> < 10 ^ 10" by auto
  then have "length (dec_nat (nat \<bar>sint n\<bar>)) \<le> 10" by (rule dec_nat_length) simp
  then show ?thesis by (auto simp: fmt_i_def dec_int_def)
qed

end
