(* ===== verification/SoundCard.thy ===== *)
theory SoundCard
  imports LibSvc Decimal
begin

text \<open>
  The sound card's side of the voice library: the threads and callbacks of
  \<open>src/libsvc/audio_api_oss.c\<close>, \<open>audio_api_alsa.c\<close>, \<open>audio_api_jack.c\<close> and
  \<open>audio_api_portaudio.c\<close>.  A device is what its calls return, turn by turn; how it
  is opened is in theory \<open>SoundDevice\<close>.  What the library does with a frame, \<open>audio_api_callback\<close>, is a parameter of
  each turn.
\<close>

section \<open>OSS\<close>

text \<open>
  Samples of 16 bits in the order of bytes of the machine.  The arithmetic of \<open>float\<close> is a
  parameter, as in theory \<open>Audio\<close>: \<open>of_i16\<close> is the division by \<open>32678.0f\<close> and \<open>to_i16\<close> the product
  with it, which has no meaning when the result does not fit into 16 bits.
\<close>

type_synonym i16 = "16 word"

definition i16_bytes :: "i16 \<Rightarrow> string" where
  "i16_bytes w = [char_of (unat w mod 256), char_of (unat w div 256)]"

definition oss_get :: "block \<Rightarrow> nat \<Rightarrow> i16 res" where
  "oss_get buf i =
     bindR (peek buf (2 * i)) (\<lambda>a. bindR (peek buf (2 * i + 1)) (\<lambda>b.
       Inr (of_nat (of_char a + 256 * of_char b))))"

definition oss_put :: "nat \<Rightarrow> i16 \<Rightarrow> block \<Rightarrow> block res" where
  "oss_put i w buf =
     bindR (poke buf (2 * i) (i16_bytes w ! 0)) (\<lambda>buf. poke buf (2 * i + 1) (i16_bytes w ! 1))"

text \<open>
  The loop around \<open>read\<close>, with what its calls return: the bytes, or \<open>None\<close> for -1, which
  is added to the position all the same.  A loop whose calls do not end it goes on for ever.
\<close>

fun oss_read :: "string option list \<Rightarrow> u64 \<Rightarrow> u64 \<Rightarrow> block \<Rightarrow> block res" where
  "oss_read [] i s buf = (if i < s then Inl Diverge else Inr buf)"
| "oss_read (r # rs) i s buf =
     (if i < s then
        (case r of
           None \<Rightarrow> oss_read rs (i - 1) s buf
         | Some bytes \<Rightarrow>
             bindR (memcpy buf (unat i) (map Some bytes) 0 (length bytes)) (\<lambda>buf.
               oss_read rs (i + of_nat (length bytes)) s buf))
      else Inr buf)"

text \<open>The loop around \<open>write\<close>: how many bytes each call takes; the bytes the device has got.\<close>

fun oss_write :: "int list \<Rightarrow> u64 \<Rightarrow> u64 \<Rightarrow> block \<Rightarrow> string \<Rightarrow> string res" where
  "oss_write [] i s buf dev = (if i < s then Inl Diverge else Inr dev)"
| "oss_write (r # rs) i s buf dev =
     (if i < s then
        (if r < 0 then oss_write rs (i - 1) s buf dev
         else bindR (peeks buf (unat i) (nat r)) (\<lambda>x. oss_write rs (i + of_nat (nat r)) s buf (dev @ x)))
      else Inr dev)"

record 'a oss =
  os_fs :: u32
  os_buf :: block
  os_input :: "'a audio"
  os_output :: "'a audio"

text \<open>The size of the buffer is computed in 32 bits.\<close>

definition oss_size :: "u32 \<Rightarrow> u64" where
  "oss_size fs = ucast (fs * 2)"

definition oss_start :: "u32 \<Rightarrow> 'a oss" where
  "oss_start frame_size =
     \<lparr>os_fs = frame_size, os_buf = malloc (unat (oss_size frame_size)),
      os_input = svc_audio_data_create frame_size, os_output = svc_audio_data_create frame_size\<rparr>"

definition oss_decode :: "(i16 \<Rightarrow> 'a) \<Rightarrow> u32 \<Rightarrow> block \<Rightarrow> 'a audio \<Rightarrow> 'a audio res" where
  "oss_decode of_i16 fs buf =
     foldR (\<lambda>i a. bindR (oss_get buf i) (\<lambda>w. sample_set i (of_i16 w) a)) [0..<unat fs]"

definition oss_encode :: "('a \<Rightarrow> i16 option) \<Rightarrow> u32 \<Rightarrow> 'a audio \<Rightarrow> block \<Rightarrow> block res" where
  "oss_encode to_i16 fs out =
     foldR (\<lambda>i b. bindR (sample_get out i) (\<lambda>x.
       case to_i16 x of None \<Rightarrow> Inl BadConv | Some w \<Rightarrow> oss_put i w b)) [0..<unat fs]"

text \<open>One turn of the loop of \<open>reader\<close>: the bytes the device gets.\<close>

definition oss_turn ::
  "(i16 \<Rightarrow> 'a) \<Rightarrow> ('a \<Rightarrow> i16 option) \<Rightarrow> ('a audio \<Rightarrow> 'a audio \<Rightarrow> 'c \<Rightarrow> ('c \<times> 'a audio) res) \<Rightarrow>
   string option list \<Rightarrow> int list \<Rightarrow> 'a oss \<Rightarrow> 'c \<Rightarrow> (string \<times> 'a oss \<times> 'c) res" where
  "oss_turn of_i16 to_i16 callback reads writes st c =
     (let s = oss_size (os_fs st) in
      bindR (oss_read reads 0 s (os_buf st)) (\<lambda>buf.
      bindR (oss_decode of_i16 (os_fs st) buf (os_input st)) (\<lambda>input.
      bindR (callback input (os_output st) c) (\<lambda>(c, out).
      bindR (oss_encode to_i16 (os_fs st) out buf) (\<lambda>buf.
      bindR (oss_write writes 0 s buf []) (\<lambda>dev.
        Inr (dev, st\<lparr>os_buf := buf, os_input := input, os_output := out\<rparr>, c)))))))"

section \<open>ALSA\<close>

text \<open>
  The loop around \<open>snd_pcm_readi\<close> tries again after an error (\<open>None\<close>).  A call may read fewer
  samples than it was asked for; nothing looks at how many.
\<close>

fun alsa_read :: "'a list option list \<Rightarrow> 'a audio \<Rightarrow> 'a audio res" where
  "alsa_read [] a = Inl Diverge"
| "alsa_read (None # rs) a = alsa_read rs a"
| "alsa_read (Some xs # rs) a =
     (if length xs \<le> length (adata a) then Inr (a\<lparr>adata := map Some xs @ drop (length xs) (adata a)\<rparr>)
      else Inl OutOfBounds)"

fun alsa_write :: "nat option list \<Rightarrow> 'a audio \<Rightarrow> 'a list res" where
  "alsa_write [] a = Inl Diverge"
| "alsa_write (None # rs) a = alsa_write rs a"
| "alsa_write (Some k # rs) a =
     (if length (adata a) < k then Inl OutOfBounds
      else if None \<in> set (take k (adata a)) then Inl Uninit
      else Inr (map the (take k (adata a))))"

text \<open>One turn of the loop of \<open>reader\<close>: the samples the device gets.\<close>

definition alsa_turn ::
  "('a audio \<Rightarrow> 'a audio \<Rightarrow> 'c \<Rightarrow> ('c \<times> 'a audio) res) \<Rightarrow> 'a list option list \<Rightarrow> nat option list \<Rightarrow>
   'a audio \<Rightarrow> 'a audio \<Rightarrow> 'c \<Rightarrow> ('a list \<times> 'a audio \<times> 'a audio \<times> 'c) res" where
  "alsa_turn callback reads writes input output c =
     bindR (alsa_read reads input) (\<lambda>input.
     bindR (callback input output c) (\<lambda>(c, out).
     bindR (alsa_write writes out) (\<lambda>dev. Inr (dev, input, out, c))))"

section \<open>JACK and PortAudio\<close>

text \<open>
  Both lend the library their own buffers, of as many samples as they choose; the library
  takes them for buffers of \<open>frame_size\<close> samples.
\<close>

definition jack_process ::
  "('a audio \<Rightarrow> 'a audio \<Rightarrow> 'c \<Rightarrow> ('c \<times> 'a audio) res) \<Rightarrow> u32 \<Rightarrow> 'a option list \<Rightarrow> 'a option list \<Rightarrow>
   'c \<Rightarrow> ('c \<times> 'a audio) res" where
  "jack_process callback frame_size inbuf outbuf =
     callback \<lparr>asize = frame_size, adata = inbuf\<rparr> \<lparr>asize = frame_size, adata = outbuf\<rparr>"

definition pa_callback ::
  "('a audio \<Rightarrow> 'a audio \<Rightarrow> 'c \<Rightarrow> ('c \<times> 'a audio) res) \<Rightarrow> u32 \<Rightarrow> 'a option list \<Rightarrow> 'a option list \<Rightarrow>
   'c \<Rightarrow> ('c \<times> 'a audio) res" where
  "pa_callback callback frame_size inputBuffer outputBuffer =
     callback \<lparr>asize = frame_size, adata = inputBuffer\<rparr> \<lparr>asize = frame_size, adata = outputBuffer\<rparr>"

definition strcnt :: "string \<Rightarrow> char \<Rightarrow> nat" where
  "strcnt s c = length (filter (\<lambda>x. x = c) s)"

text \<open>\<open>strtok\<close> with a space: the next word, and what is left after it.\<close>

definition strtok :: "string \<Rightarrow> string option \<times> string" where
  "strtok s =
     (let s = dropWhile (\<lambda>c. c = CHR '' '') s in
      if s = [] then (None, [])
      else (Some (takeWhile (\<lambda>c. c \<noteq> CHR '' '') s), drop 1 (dropWhile (\<lambda>c. c \<noteq> CHR '' '') s)))"

definition array_set :: "nat \<Rightarrow> 'b \<Rightarrow> 'b option list \<Rightarrow> 'b option list res" where
  "array_set i x xs = (if i < length xs then Inr (xs[i := Some x]) else Inl OutOfBounds)"

definition token_step :: "nat \<Rightarrow> string option option list \<times> string \<Rightarrow> (string option option list \<times> string) res" where
  "token_step i st = (case strtok (snd st) of (t, rest) \<Rightarrow>
     bindR (array_set i t (fst st)) (\<lambda>tokens. Inr (tokens, rest)))"

text \<open>
  The words of an environment variable.  The array has one place for each space and two more;
  the loop fills them all and leaves \<open>i\<close> at their number.
\<close>

definition getenv_array :: "string option \<Rightarrow> string option option list option res" where
  "getenv_array raw =
     (case raw of None \<Rightarrow> Inr None
      | Some v \<Rightarrow>
          let sz = strcnt v (CHR '' '') + 2 in
          bindR (foldR token_step [0..<sz] (replicate sz None, v)) (\<lambda>(tokens, _).
          bindR (array_set (sz + 1) None tokens) (\<lambda>tokens. Inr (Some tokens))))"

text \<open>The name of the client is printed into an array of ten bytes.\<close>

definition jack_client_name :: "int \<Rightarrow> string res" where
  "jack_client_name pid =
     (let s = ''SVC-'' @ dec_int pid in if length s < 10 then Inr s else Inl OutOfBounds)"

end
