(* ===== verification/SoundProps.thy ===== *)
theory SoundProps
  imports SoundCard VoiceProps
begin

text \<open>
  The properties of the sound card's side (\<open>src/libsvc/audio_api_*.c\<close>): a turn of the OSS
  thread plays the voices, ALSA's short reads, and the buffers of JACK.
\<close>

section \<open>Samples and bytes\<close>

lemma length_bytes [simp]: "length (concat (map i16_bytes ws)) = 2 * length ws"
  by (induction ws) (simp_all add: i16_bytes_def)

lemma i16_join: "of_nat (of_char (char_of (unat w mod 256) :: char) + 256 * of_char (char_of (unat w div 256) :: char)) = (w :: i16)"
proof -
  have "unat w div 256 < 256" using unsigned_less [of w, where 'a = nat] by simp
  then show ?thesis by simp
qed

lemma get_bytes: "i < length ws \<Longrightarrow> oss_get (map Some (concat (map i16_bytes ws))) i = Inr (ws ! i)"
proof (induction ws arbitrary: i)
  case (Cons w ws)
  show ?case
  proof (cases i)
    case 0
    then show ?thesis using i16_join [of w] by (simp add: oss_get_def peek_def i16_bytes_def)
  next
    case (Suc j)
    have "oss_get (map Some (concat (map i16_bytes (w # ws)))) (Suc j) =
        oss_get (map Some (concat (map i16_bytes ws))) j"
      by (simp add: oss_get_def peek_def i16_bytes_def)
    with Suc Cons show ?thesis by simp
  qed
qed simp

lemma decode_gives:
  assumes "awf input" "asize input = fs" "length ws = unat fs"
  shows "oss_decode unpack fs (map Some (concat (map i16_bytes ws))) input =
    Inr (input\<lparr>adata := map Some (map unpack ws)\<rparr>)"
proof -
  have "foldR (\<lambda>i a. bindR (oss_get (map Some (concat (map i16_bytes ws))) i) (\<lambda>w. sample_set i (unpack w) a))
      [0..<unat fs] (input\<lparr>adata := adata input\<rparr>) =
      Inr (input\<lparr>adata := map (Some \<circ> (\<lambda>i. unpack (ws ! i))) [0..<unat fs]\<rparr>)"
    by (rule fill_loop) (use assms in \<open>auto simp: get_bytes sample_set_def awf_def\<close>)
  moreover have "map (Some \<circ> (\<lambda>i. unpack (ws ! i))) [0..<unat fs] = map Some (map unpack ws)"
    using assms(3) by (intro nth_equalityI) simp_all
  ultimately show ?thesis by (simp add: oss_decode_def)
qed

lemma put_bytes:
  assumes "length (concat bs) = 2 * i" "2 * i + 2 \<le> length b + 2 * i"
  shows "oss_put i w (map Some (concat bs) @ b) = Inr (map Some (concat (bs @ [i16_bytes w])) @ drop 2 b)"
proof -
  obtain x y zs where "b = x # y # zs" using assms(2) by (cases b; cases "tl b") auto
  then show ?thesis using assms(1)
    by (simp add: oss_put_def poke_def i16_bytes_def list_update_append nth_append)
qed

lemma encode_gives:
  assumes out: "arep out ys" "asize out = fs" and b: "length b = 2 * unat fs"
    and fit: "\<forall>y\<in>set ys. pack y \<noteq> None"
  shows "oss_encode pack fs out b = Inr (map Some (concat (map (\<lambda>y. i16_bytes (the (pack y))) ys)))"
proof -
  let ?e = "\<lambda>y. i16_bytes (the (pack y))"
  have len: "length ys = unat fs" using out by (simp add: arep_def)
  have "m \<le> unat fs \<Longrightarrow> foldR (\<lambda>i b. bindR (sample_get out i) (\<lambda>x.
      case pack x of None \<Rightarrow> Inl BadConv | Some w \<Rightarrow> oss_put i w b)) [0..<m] b =
      Inr (map Some (concat (map ?e (take m ys))) @ drop (2 * m) b)" for m
  proof (induction m)
    case (Suc m)
    then have m: "m < length ys" using len by simp
    then have "sample_get out m = Inr (ys ! m)" using out(1) by (simp add: sample_get_def arep_def)
    moreover obtain w where w: "pack (ys ! m) = Some w" using fit m nth_mem by blast
    moreover have "length (concat (map ?e (take m ys))) = 2 * m"
      using m length_bytes [of "map (\<lambda>y. the (pack y)) (take m ys)"] by (simp add: comp_def)
    from put_bytes [OF this, of "drop (2 * m) b" w]
    have "oss_put m w (map Some (concat (map ?e (take m ys))) @ drop (2 * m) b) =
        Inr (map Some (concat (map ?e (take m ys) @ [i16_bytes w])) @ drop 2 (drop (2 * m) b))"
      using b m len by simp
    moreover have "map ?e (take (Suc m) ys) = map ?e (take m ys) @ [i16_bytes w]"
      using m w by (simp add: take_Suc_conv_app_nth)
    ultimately show ?case using Suc m by simp
  qed simp
  from this [of "unat fs"] show ?thesis using len b by (simp add: oss_encode_def)
qed

section \<open>The loops around the calls of OSS\<close>

lemma read_fills:
  "length xs = unat i \<Longrightarrow> length xs + length (concat bs) = unat s \<Longrightarrow> length xs + length b = unat s \<Longrightarrow>
   oss_read (map Some bs) i s (map Some xs @ b) = Inr (map Some (xs @ concat bs))"
proof (induction bs arbitrary: xs i b)
  case (Cons y ys)
  show ?case
  proof (cases "i < s")
    case True
    have "unat s < 2 ^ 64" using unsigned_less [of s, where 'a = nat] by simp
    then have n: "length (xs @ y) = unat (i + of_nat (length y))"
      using Cons.prems(1,2) by (simp add: unat_word_ariths unat_of_nat)
    have "oss_read (map Some ys) (i + of_nat (length y)) s (map Some (xs @ y) @ drop (length y) b) =
        Inr (map Some ((xs @ y) @ concat ys))"
      by (rule Cons.IH [OF n]) (use Cons.prems in simp_all)
    then show ?thesis using True Cons.prems by (simp add: memcpy_def)
  next
    case False
    then have "length (y @ concat ys) = 0" "length b = 0"
      using Cons.prems unfolding word_less_nat_alt concat.simps length_append by linarith+
    then show ?thesis using False by simp
  qed
qed (simp add: word_less_nat_alt)

lemma write_takes:
  "length xs = unat s \<Longrightarrow> \<forall>k\<in>set ks. 0 \<le> k \<Longrightarrow> unat i + (\<Sum>k\<leftarrow>ks. nat k) = unat s \<Longrightarrow>
   oss_write ks i s (map Some xs) dev = Inr (dev @ drop (unat i) xs)"
proof (induction ks arbitrary: i dev)
  case (Cons k ks)
  show ?case
  proof (cases "i < s")
    case True
    have "unat s < 2 ^ 64" using unsigned_less [of s, where 'a = nat] by simp
    then have n: "unat (i + of_nat (nat k)) = unat i + nat k"
      using Cons.prems(3) by (simp add: unat_word_ariths unat_of_nat)
    have "peeks (map Some xs) (unat i) (nat k) = Inr (take (nat k) (drop (unat i) xs))"
      using Cons.prems(1,3) by (auto simp: peeks_def take_map drop_map comp_def)
    moreover have "oss_write ks (i + of_nat (nat k)) s (map Some xs) (dev @ take (nat k) (drop (unat i) xs)) =
        Inr ((dev @ take (nat k) (drop (unat i) xs)) @ drop (unat i + nat k) xs)"
      using Cons.IH [of "i + of_nat (nat k)"] Cons.prems n by simp
    moreover have "take (nat k) (drop (unat i) xs) @ drop (unat i + nat k) xs = drop (unat i) xs"
      by (metis append_take_drop_id drop_drop add.commute)
    ultimately show ?thesis using True Cons.prems(2) by simp
  next
    case False
    then show ?thesis using Cons.prems by (simp add: word_less_nat_alt)
  qed
qed (simp add: word_less_nat_alt)

text \<open>A first call that fails ends the loop with nothing read.\<close>

lemma read_error: "0 < s \<Longrightarrow> oss_read (None # rs) 0 s buf = Inr buf"
  by (cases rs) (simp_all add: not_less)

section \<open>A turn\<close>

text \<open>What the library does with a frame.\<close>

definition voice_callback ::
  "'a::{zero, plus} audio \<Rightarrow> 'a audio \<Rightarrow> ('a, 'e) svc_out \<times> ('a, 'd) svc_in \<Rightarrow>
   ((('a, 'e) svc_out \<times> ('a, 'd) svc_in) \<times> 'a audio) res" where
  "voice_callback input outp c =
     bindR (audio_api_callback input outp (fst c) (snd c)) (\<lambda>(so, si, out). Inr ((so, si), out))"

definition oss_ready :: "u32 \<Rightarrow> 'a oss \<Rightarrow> bool" where
  "oss_ready n st \<longleftrightarrow> os_fs st = n \<and> unat n < 2 ^ 31 \<and> length (os_buf st) = 2 * unat n \<and>
     awf (os_input st) \<and> asize (os_input st) = n \<and> awf (os_output st) \<and> asize (os_output st) = n"

lemma oss_size_nat: "unat n < 2 ^ 31 \<Longrightarrow> unat (oss_size n) = 2 * unat n"
  by (simp add: oss_size_def unat_word_ariths unsigned_ucast_eq take_bit_nat_eq_self)

lemma oss_start_ready: "unat n < 2 ^ 31 \<Longrightarrow> oss_ready n (oss_start n)"
  by (simp add: oss_ready_def oss_start_def oss_size_nat malloc_def)

lemma callback_gives:
  assumes q: "queue_ok n (so_queue so)" and si: "sinv si as" "length as \<le> MAX_PEERS" "si_frame si = n"
    and inp: "awf input" "asize input = n" and out: "awf outp" "asize outp = n"
  shows "gives (voice_callback input outp (so, si)) (\<lambda>((so', si'), out').
    queue_ok n (so_queue so') \<and> sinv si' as \<and>
    arep out' (mix (map (heard n) (vals si as)) (replicate (unat n) 0)) \<and> asize out' = n \<and>
    (if Suc (qdist (so_queue so)) = unat (pq_size (so_queue so)) then so_queue so' = so_queue so
     else items (so_queue so') = items (so_queue so) @ [input]))"
proof -
  obtain r q' where q': "queue_push input (so_queue so) = Inr (r, q')" "queue_ok n q'"
    "if Suc (qdist (so_queue so)) = unat (pq_size (so_queue so)) then q' = so_queue so
     else items q' = items (so_queue so) @ [input]"
    using queue_push_gives [OF q inp] by (auto simp: gives_def)
  obtain si' out' where o: "svc_request_incoming_audio si outp = Inr (si', out')" "sinv si' as"
    "asize out' = n" "arep out' (mix (map (heard n) (vals si as)) (replicate (unat n) 0))"
    using svc_request_gives [OF si(1,2), of outp] out si(3) by (auto simp: gives_def)
  have "voice_callback input outp (so, si) = Inr ((so\<lparr>so_queue := q'\<rparr>, si'), out')"
    using q'(1) o(1) by (simp add: voice_callback_def audio_api_callback_def)
  then show ?thesis using q'(2,3) o(2-4) by simp
qed

lemma oss_turn_gives:
  assumes st: "oss_ready n st" and q: "queue_ok n (so_queue so)"
    and si: "sinv si as" "length as \<le> MAX_PEERS" "si_frame si = n"
    and reads: "concat bs = concat (map i16_bytes ws)" "length ws = unat n"
    and writes: "\<forall>k\<in>set ks. 0 \<le> k" "(\<Sum>k\<leftarrow>ks. nat k) = 2 * unat n"
    and fit: "\<forall>y\<in>set (mix (map (heard n) (vals si as)) (replicate (unat n) 0)). pack y \<noteq> None"
  shows "gives (oss_turn unpack pack voice_callback (map Some bs) ks st (so, si)) (\<lambda>(dev, st', (so', si')).
    dev = concat (map (\<lambda>y. i16_bytes (the (pack y))) (mix (map (heard n) (vals si as)) (replicate (unat n) 0))) \<and>
    oss_ready n st' \<and> queue_ok n (so_queue so') \<and> sinv si' as \<and>
    (if Suc (qdist (so_queue so)) = unat (pq_size (so_queue so)) then so_queue so' = so_queue so
     else items (so_queue so') = items (so_queue so) @ [\<lparr>asize = n, adata = map Some (map unpack ws)\<rparr>]))"
proof -
  let ?ys = "mix (map (heard n) (vals si as)) (replicate (unat n) 0)"
  let ?in = "(os_input st)\<lparr>adata := map Some (map unpack ws)\<rparr>"
  from st have s: "os_fs st = n" "unat (oss_size n) = 2 * unat n" "length (os_buf st) = 2 * unat n"
    "awf (os_input st)" "asize (os_input st) = n" "awf (os_output st)" "asize (os_output st) = n" "unat n < 2 ^ 31"
    by (simp_all add: oss_ready_def oss_size_nat)
  have r: "oss_read (map Some bs) 0 (oss_size n) (os_buf st) = Inr (map Some (concat (map i16_bytes ws)))"
    using read_fills [of "[]" 0 bs "oss_size n" "os_buf st"] s(2,3) reads by simp
  have d: "oss_decode unpack n (map Some (concat (map i16_bytes ws))) (os_input st) = Inr ?in"
    by (rule decode_gives) (use s(4,5) reads(2) in simp_all)
  have i: "awf ?in" "asize ?in = n" "?in = \<lparr>asize = n, adata = map Some (map unpack ws)\<rparr>"
    using s(5) reads(2) by (simp_all add: awf_def)
  from callback_gives [OF q si i(1,2) s(6,7)] obtain so' si' out where
    c: "voice_callback ?in (os_output st) (so, si) = Inr ((so', si'), out)" "queue_ok n (so_queue so')" "sinv si' as"
      "arep out ?ys" "asize out = n"
      "if Suc (qdist (so_queue so)) = unat (pq_size (so_queue so)) then so_queue so' = so_queue so
       else items (so_queue so') = items (so_queue so) @ [?in]"
    by (auto simp: gives_def)
  let ?bytes = "concat (map (\<lambda>y. i16_bytes (the (pack y))) ?ys)"
  have e: "oss_encode pack n out (map Some (concat (map i16_bytes ws))) = Inr (map Some ?bytes)"
    by (rule encode_gives) (use c(4,5) fit reads(2) in simp_all)
  have l: "length ?bytes = unat (oss_size n)"
    using length_bytes [of "map (\<lambda>y. the (pack y)) ?ys"] c(4,5) s(2) by (simp add: arep_def comp_def)
  have w: "oss_write ks 0 (oss_size n) (map Some ?bytes) [] = Inr ?bytes"
    using write_takes [OF l writes(1), of 0] writes(2) s(2) by simp
  have "oss_turn unpack pack voice_callback (map Some bs) ks st (so, si) =
      Inr (?bytes, st\<lparr>os_buf := map Some ?bytes, os_input := ?in, os_output := out\<rparr>, (so', si'))"
    by (simp only: oss_turn_def Let_def s(1) r d c(1) e w bindR_simps prod.case)
  moreover have "oss_ready n (st\<lparr>os_buf := map Some ?bytes, os_input := ?in, os_output := out\<rparr>)"
    using s i(1,2) c(4,5) l arep_awf by (simp add: oss_ready_def)
  ultimately show ?thesis using c(2,3,6) i(3) by simp
qed

text \<open>C30: when the calls of OSS succeed, in however many pieces, a turn of its thread hands the frame
  it read to the queue and writes the sum of what every peer is heard with, as samples of 16 bits.
  It needs that the sums fit: nothing limits them.\<close>

theorem oss_plays_voices:
  assumes "oss_ready n st" and "queue_ok n (so_queue so)"
    and "sinv si as" "length as \<le> MAX_PEERS" "si_frame si = n"
    and "concat bs = concat (map i16_bytes ws)" "length ws = unat n"
    and "\<forall>k\<in>set ks. 0 \<le> k" "(\<Sum>k\<leftarrow>ks. nat k) = 2 * unat n"
    and "\<forall>y\<in>set (mix (map (heard n) (vals si as)) (replicate (unat n) 0)). pack y \<noteq> None"
  shows "gives (oss_turn unpack pack voice_callback (map Some bs) ks st (so, si)) (\<lambda>(dev, st', (so', si')).
    dev = concat (map (\<lambda>y. i16_bytes (the (pack y))) (mix (map (heard n) (vals si as)) (replicate (unat n) 0))) \<and>
    oss_ready n st' \<and> queue_ok n (so_queue so') \<and> sinv si' as \<and>
    (if Suc (qdist (so_queue so)) = unat (pq_size (so_queue so)) then so_queue so' = so_queue so
     else items (so_queue so') = items (so_queue so) @ [\<lparr>asize = n, adata = map Some (map unpack ws)\<rparr>]))"
  by (rule oss_turn_gives [OF assms])

definition out_two :: "(int, unit) svc_out" where
  "out_two = \<lparr>so_time = 0, so_queue = packet_queue_create 4 2, so_encoder = (), so_frame = 2, so_bytes = 8\<rparr>"

definition to16 :: "int \<Rightarrow> i16 option" where
  "to16 y = (if - 32768 \<le> y \<and> y < 32768 then Some (word_of_int y) else None)"

theorem oss_plays_voices_witness:
  "gives (oss_turn sint to16 voice_callback (map Some [i16_bytes 25185, [], i16_bytes 25699]) [1, 3] (oss_start 2) (out_two, no_peers))
    (\<lambda>(dev, st', (so', si')).
    dev = concat (map (\<lambda>y. i16_bytes (the (to16 y))) (mix (map (heard 2) (vals no_peers [])) (replicate (unat (2 :: u32)) 0))) \<and>
    oss_ready 2 st' \<and> queue_ok 2 (so_queue so') \<and> sinv si' [] \<and>
    (if Suc (qdist (so_queue out_two)) = unat (pq_size (so_queue out_two)) then so_queue so' = so_queue out_two
     else items (so_queue so') = items (so_queue out_two) @ [\<lparr>asize = 2, adata = map Some (map sint [25185 :: i16, 25699])\<rparr>]))"
proof (rule oss_plays_voices [where pack = to16])
  show "oss_ready 2 (oss_start 2)" by (rule oss_start_ready) simp
  show "queue_ok 2 (so_queue out_two)" by (simp add: out_two_def queue_create_ok)
  show "sinv no_peers []" by (rule no_peers_sinv)
qed (simp_all add: no_peers_def vals_def to16_def mix_def)

text \<open>An error of the very first \<open>read\<close>: the thread converts memory that nothing has written.\<close>

lemma oss_first_error:
  assumes n: "0 < unat n" "unat n < 2 ^ 31"
  shows "oss_turn unpack pack callback (None # reads) ks (oss_start n) c = Inl Uninit"
proof -
  have s: "unat (oss_size n) = 2 * unat n" by (rule oss_size_nat [OF n(2)])
  then have "0 < oss_size n" using n(1) by (simp add: word_less_nat_alt)
  moreover have "oss_get (malloc (2 * unat n)) 0 = Inl Uninit"
    using n(1) by (simp add: oss_get_def peek_def malloc_def)
  then have "oss_decode unpack n (malloc (2 * unat n)) a = Inl Uninit" for a
    using n(1) by (simp add: oss_decode_def upt_conv_Cons)
  ultimately show ?thesis using s
    by (simp add: oss_turn_def oss_start_def read_error Let_def del: oss_read.simps)
qed

section \<open>ALSA\<close>

lemma alsa_read_again: "alsa_read (replicate j None @ rs) a = alsa_read rs a"
  by (induction j) simp_all

lemma alsa_write_again: "alsa_write (replicate j None @ rs) a = alsa_write rs a"
  by (induction j) simp_all

text \<open>After a short read the rest of the frame is what the frame before it had there.\<close>

lemma alsa_turn_gives:
  assumes q: "queue_ok n (so_queue so)" and si: "sinv si as" "length as \<le> MAX_PEERS" "si_frame si = n"
    and inp: "awf inp" "asize inp = n" and out: "awf outp" "asize outp = n"
    and xs: "length xs \<le> unat n" and m: "m \<le> unat n"
  shows "gives (alsa_turn voice_callback (replicate j None @ Some xs # rs) (replicate k None @ Some m # ws)
      inp outp (so, si)) (\<lambda>(dev, inp', outp', (so', si')).
    dev = take m (mix (map (heard n) (vals si as)) (replicate (unat n) 0)) \<and>
    adata inp' = map Some xs @ drop (length xs) (adata inp) \<and> sinv si' as \<and>
    (if Suc (qdist (so_queue so)) = unat (pq_size (so_queue so)) then so_queue so' = so_queue so
     else items (so_queue so') = items (so_queue so) @ [inp']))"
proof -
  let ?ys = "mix (map (heard n) (vals si as)) (replicate (unat n) 0)"
  let ?in = "inp\<lparr>adata := map Some xs @ drop (length xs) (adata inp)\<rparr>"
  have r: "alsa_read (replicate j None @ Some xs # rs) inp = Inr ?in"
    using xs inp by (simp add: alsa_read_again awf_def)
  have i: "awf ?in" "asize ?in = n" using xs inp by (simp_all add: awf_def)
  from callback_gives [OF q si i out] obtain so' si' out' where
    c: "voice_callback ?in outp (so, si) = Inr ((so', si'), out')" "sinv si' as" "arep out' ?ys" "asize out' = n"
      "if Suc (qdist (so_queue so)) = unat (pq_size (so_queue so)) then so_queue so' = so_queue so
       else items (so_queue so') = items (so_queue so) @ [?in]"
    by (auto simp: gives_def)
  have "alsa_write (replicate k None @ Some m # ws) out' = Inr (take m ?ys)"
    using c(3,4) m by (auto simp: alsa_write_again arep_def take_map comp_def)
  then show ?thesis using r c(1,2,5) by (simp add: alsa_turn_def)
qed

section \<open>JACK\<close>

lemma token_loop:
  "m \<le> length xs \<Longrightarrow> gives (foldR token_step [0..<m] (xs, v)) (\<lambda>(xs', v'). length xs' = length xs)"
proof (induction m)
  case (Suc m)
  then obtain xs' v' where l: "foldR token_step [0..<m] (xs, v) = Inr (xs', v')" "length xs' = length xs"
    by (auto simp: gives_def)
  have "token_step m (xs', v') = Inr (xs'[m := Some (fst (strtok v'))], snd (strtok v'))"
    using l(2) Suc.prems by (simp add: token_step_def array_set_def split: prod.split)
  then show ?case using l by simp
qed simp

text \<open>Whatever \<open>SVC_JACK_INPUT\<close> or \<open>SVC_JACK_OUTPUT\<close> holds, the end of the list of its words is
  written two places past the end of the array.\<close>

lemma jack_env_overflows: "getenv_array (Some v) = Inl OutOfBounds"
proof -
  let ?n = "strcnt v (CHR '' '') + 2"
  obtain xs v' where "foldR token_step [0..<?n] (replicate ?n None, v) = Inr (xs, v')" "length xs = ?n"
    using token_loop [of ?n "replicate ?n None" v] by (auto simp: gives_def simp del: upt_Suc)
  then show ?thesis by (simp add: getenv_array_def array_set_def Let_def del: upt_Suc foldR_append)
qed

lemma clear_short:
  fixes a :: "'a::zero audio"
  assumes "length (adata a) < unat (asize a)"
  shows "svc_clear_audio_data a = Inl OutOfBounds"
proof -
  let ?k = "length (adata a)"
  have "m \<le> ?k \<Longrightarrow> \<exists>b. foldR (\<lambda>i. sample_set i (0 :: 'a)) [0..<m] a = Inr b \<and> length (adata b) = ?k" for m
    by (induction m) (auto simp: sample_set_def)
  from this [of ?k] obtain b where b: "foldR (\<lambda>i. sample_set i 0) [0..<?k] a = Inr b" "length (adata b) = ?k" by auto
  have "[0..<unat (asize a)] = [0..<?k] @ ?k # [Suc ?k..<unat (asize a)]"
    using assms upt_add_eq_append [of 0 ?k "unat (asize a) - ?k"] by (simp add: upt_conv_Cons)
  then show ?thesis using b by (simp add: svc_clear_audio_data_def sample_set_def)
qed

text \<open>With a JACK period of as many samples as a frame of the library the voices are played; with
  a shorter one the library writes past the end of JACK's buffer.\<close>

theorem jack_period:
  assumes q: "queue_ok n (so_queue so)" and si: "sinv si as" "length as \<le> MAX_PEERS" "si_frame si = n"
    and bufs: "length inbuf = nframes" "length outbuf = nframes" "nframes \<le> unat n"
  shows "if nframes = unat n
    then gives (jack_process voice_callback n inbuf outbuf (so, si)) (\<lambda>((so', si'), out').
      adata out' = map Some (mix (map (heard n) (vals si as)) (replicate (unat n) 0)))
    else \<exists>f. jack_process voice_callback n inbuf outbuf (so, si) = Inl f"
proof (cases "nframes = unat n")
  case True
  then have "gives (jack_process voice_callback n inbuf outbuf (so, si)) (\<lambda>((so', si'), out').
      adata out' = map Some (mix (map (heard n) (vals si as)) (replicate (unat n) 0)))"
    unfolding jack_process_def
    by (intro gives_mono [OF callback_gives [OF q si]]) (use bufs in \<open>auto simp: awf_def arep_def\<close>)
  with True show ?thesis by simp
next
  case False
  then have "svc_clear_audio_data \<lparr>asize = n, adata = outbuf\<rparr> = Inl OutOfBounds"
    using bufs by (intro clear_short) simp
  then have "\<exists>f. svc_request_incoming_audio si \<lparr>asize = n, adata = outbuf\<rparr> = Inl f"
    by (cases "collect_audio (lbrk si) (si_list si) si []")
      (auto simp: svc_request_incoming_audio_def svc_mix_audio_streams_def)
  then have "\<exists>f. jack_process voice_callback n inbuf outbuf (so, si) = Inl f"
    by (cases "queue_push \<lparr>asize = n, adata = inbuf\<rparr> (so_queue so)")
      (auto simp: jack_process_def voice_callback_def audio_api_callback_def)
  with False show ?thesis by simp
qed

theorem jack_period_witness:
  "\<exists>f. jack_process voice_callback 2 [Some 5] [None] (out_two, no_peers) = Inl f"
  using jack_period [of 2 out_two no_peers "[]" "[Some 5]" 1 "[None]"] no_peers_sinv
  by (simp add: out_two_def queue_create_ok no_peers_def)

text \<open>The name of the client has room for five digits.\<close>

lemma dec_nat_length_ge: "10 ^ k \<le> n \<Longrightarrow> k < length (dec_nat n)"
proof (induction k arbitrary: n)
  case (Suc k)
  then have "10 ^ k \<le> n div 10" "\<not> n < 10" by (simp_all add: less_eq_div_iff_mult_less_eq)
       (metis le_trans one_le_numeral one_le_power mult.right_neutral mult_le_mono2 not_less)
  with Suc.IH [of "n div 10"] show ?case by (simp add: dec_nat.simps [of n])
qed simp

lemma jack_name:
  assumes "0 \<le> pid"
  shows "jack_client_name pid = (if pid < 100000 then Inr (''SVC-'' @ dec_int pid) else Inl OutOfBounds)"
proof (cases "pid < 100000")
  case True
  then have "length (dec_nat (nat pid)) \<le> 5" by (intro dec_nat_length) simp_all
  then show ?thesis using assms True by (simp add: jack_client_name_def dec_int_def)
next
  case False
  then have "5 < length (dec_nat (nat pid))" by (intro dec_nat_length_ge) simp
  then show ?thesis using assms False by (simp add: jack_client_name_def dec_int_def)
qed

end
