(* ===== verification/Wire.thy ===== *)
theory Wire
  imports Prelude
begin

text \<open>
  Numbers in network byte order in the header of an audio packet: the sender, the length of
  what follows the header's first eight bytes, the time stamp (\<open>ENET_HOST_TO_NET_32\<close> and its
  relatives, applied to the bytes of a packet).
\<close>

definition be32 :: "string \<Rightarrow> nat \<Rightarrow> u32" where
  "be32 data i = foldl (\<lambda>a c. a * 256 + of_nat (of_char c)) 0 (take 4 (drop i data))"

definition be16 :: "string \<Rightarrow> nat \<Rightarrow> 16 word" where
  "be16 data i = foldl (\<lambda>a c. a * 256 + of_nat (of_char c)) 0 (take 2 (drop i data))"

definition read32 :: "string \<Rightarrow> nat \<Rightarrow> u32 res" where
  "read32 data i = (if i + 4 \<le> length data then Inr (be32 data i) else Inl OutOfBounds)"

definition read16 :: "string \<Rightarrow> nat \<Rightarrow> 16 word res" where
  "read16 data i = (if i + 2 \<le> length data then Inr (be16 data i) else Inl OutOfBounds)"

definition put32 :: "u32 \<Rightarrow> string" where
  "put32 n = map (\<lambda>k. char_of (unat n div 256 ^ k)) [3, 2, 1, 0]"

definition put16 :: "16 word \<Rightarrow> string" where
  "put16 n = map (\<lambda>k. char_of (unat n div 256 ^ k)) [1, 0]"

section \<open>Reading back what was written\<close>

lemma bytes_of_nat:
  assumes "n < (2 :: nat) ^ 32"
  shows "((n div 16777216 mod 256 * 256 + n div 65536 mod 256) * 256 + n div 256 mod 256) * 256
    + n mod 256 = n"
proof -
  define a where "a = n div 256"
  define b where "b = a div 256"
  define c where "c = b div 256"
  have "n div 65536 = b" "n div 16777216 = c"
    by (simp_all add: a_def b_def c_def div_mult2_eq [symmetric])
  moreover have "c mod 256 = c" using assms by (simp add: a_def b_def c_def)
  moreover have "n = 256 * a + n mod 256" "a = 256 * b + a mod 256" "b = 256 * c + b mod 256"
    by (simp_all add: a_def b_def c_def)
  ultimately show ?thesis unfolding a_def [symmetric] by (simp add: algebra_simps)
qed

lemma length_put [simp]: "length (put32 n) = 4" "length (put16 m) = 2"
  by (simp_all add: put32_def put16_def)

lemma unat_lt: "unat (n :: u32) < 2 ^ 32"
  by (rule order_less_le_trans [OF unsigned_less]) simp

lemma be32_put32: "length xs = i \<Longrightarrow> be32 (xs @ put32 n @ rest) i = n"
proof -
  have "foldl (\<lambda>a c. a * 256 + of_nat (of_char c)) 0 (put32 n) =
      (of_nat (((unat n div 16777216 mod 256 * 256 + unat n div 65536 mod 256) * 256 +
        unat n div 256 mod 256) * 256 + unat n mod 256) :: u32)"
    by (simp only: of_nat_add of_nat_mult) (simp add: put32_def)
  then have "foldl (\<lambda>a c. a * 256 + of_nat (of_char c)) 0 (put32 n) = n"
    by (simp only: bytes_of_nat [OF unat_lt] of_nat_unat ucast_id)
  moreover assume "length xs = i"
  ultimately show "be32 (xs @ put32 n @ rest) i = n"
    by (simp add: be32_def)
qed

lemma be16_put16: "length xs = i \<Longrightarrow> be16 (xs @ put16 n @ rest) i = n"
proof -
  have "unat n < 65536" by (rule order_less_le_trans [OF unsigned_less]) simp
  then have "unat n div 256 mod 256 * 256 + unat n mod 256 = unat n" by simp
  moreover have "foldl (\<lambda>a c. a * 256 + of_nat (of_char c)) 0 (put16 n) =
      (of_nat (unat n div 256 mod 256 * 256 + unat n mod 256) :: 16 word)"
    by (simp only: of_nat_add of_nat_mult) (simp add: put16_def)
  moreover assume "length xs = i"
  ultimately show "be16 (xs @ put16 n @ rest) i = n" by (simp add: be16_def)
qed

end
