(* ===== verification/Server.thy ===== *)
theory Server
  imports DataDict Lexer Decimal Wire
begin

text \<open>
  The voice chat server (\<open>src/network/svcenet/server/main.c\<close>): the table of peers, the
  commands it offers to the logic script, the handlers of the network events, and the
  packets it writes.  The Jim interpreter is a parameter: evaluating a script maps the
  server's state to a new one and a result.  ENet is the log of what was sent to whom.
\<close>

section \<open>State\<close>

datatype 'p action =
    Send 'p nat string       \<comment> \<open>\<open>enet_peer_send(peer, channel, packet)\<close>\<close>
  | Disconnect 'p            \<comment> \<open>\<open>enet_peer_disconnect\<close>\<close>

text \<open>A dictionary pointer that is \<open>NULL\<close>, indeterminate or dangling is \<open>None\<close>.\<close>

record 'p peer =
  pr_empty :: bool
  pr_id :: u32
  pr_peer :: "'p option"
  pr_pub :: "ddict option"
  pr_priv :: "ddict option"

text \<open>\<open>sv_peers\<close> is the block that \<open>peers\<close> points to, \<open>sv_size\<close> is \<open>peers_size\<close>.\<close>

record 'p server =
  sv_peers :: "'p peer list"
  sv_count :: int
  sv_size :: nat
  sv_data :: ddict
  sv_audio :: "string option"
  sv_log :: "'p action list"

definition server_init :: "'p server" where
  "server_init = \<lparr>sv_peers = [], sv_count = 0, sv_size = 0, sv_data = dd_new,
     sv_audio = None, sv_log = []\<rparr>"

definition get_slot :: "nat \<Rightarrow> 'p server \<Rightarrow> 'p peer res" where
  "get_slot i s = (if i < length (sv_peers s) then Inr (sv_peers s ! i) else Inl OutOfBounds)"

definition put_slot :: "nat \<Rightarrow> 'p peer \<Rightarrow> 'p server \<Rightarrow> 'p server res" where
  "put_slot i p s =
     (if i < length (sv_peers s) then Inr (s\<lparr>sv_peers := (sv_peers s)[i := p]\<rparr>)
      else Inl OutOfBounds)"

definition dict_of :: "ddict option \<Rightarrow> ddict res" where
  "dict_of d = (case d of None \<Rightarrow> Inl Dangling | Some d \<Rightarrow> Inr d)"

definition send :: "'p option \<Rightarrow> nat \<Rightarrow> string \<Rightarrow> 'p server \<Rightarrow> 'p server res" where
  "send p ch msg s =
     (case p of None \<Rightarrow> Inl NullDeref | Some p \<Rightarrow> Inr (s\<lparr>sv_log := sv_log s @ [Send p ch msg]\<rparr>))"

text \<open>\<open>enet_packet_create(buff->data, buff->len, ...)\<close>: the bytes of the packet.\<close>

definition packet_bytes :: "dstring \<Rightarrow> string res" where
  "packet_bytes b = peeks (ddata b) 0 (unat (dlen b))"

section \<open>The table of peers\<close>

definition fresh_slot :: "nat \<Rightarrow> 'p peer" where
  "fresh_slot i = \<lparr>pr_empty = True, pr_id = of_nat i, pr_peer = None, pr_pub = None, pr_priv = None\<rparr>"

fun find_empty :: "nat list \<Rightarrow> 'p server \<Rightarrow> nat option res" where
  "find_empty [] s = Inr None"
| "find_empty (i # is) s =
     bindR (get_slot i s) (\<lambda>p. if pr_empty p then Inr (Some i) else find_empty is s)"

text \<open>
  The second branch enlarges a copy of the table and does not assign it to \<open>peers\<close>.
\<close>

definition get_new_peer :: "'p server \<Rightarrow> ('p server \<times> nat) res" where
  "get_new_peer s =
     bindR (if sv_size s = 0 then
              Inr (s\<lparr>sv_size := 10, sv_peers := map fresh_slot [0..<10], sv_count := 0\<rparr>, 0)
            else if sv_count s = int (sv_size s) then
              Inr (s\<lparr>sv_size := sv_size s + 10\<rparr>, nat (sv_count s))
            else bindR (find_empty [0..<sv_size s] s) (\<lambda>r. case r of
              None \<Rightarrow> Inl Uninit | Some i \<Rightarrow> Inr (s, i))) (\<lambda>(s, i).
     bindR (get_slot i s) (\<lambda>p.
     bindR (put_slot i (p\<lparr>pr_empty := False, pr_peer := None, pr_priv := Some dd_new,
              pr_pub := Some dd_new\<rparr>) s) (\<lambda>s.
       Inr (s\<lparr>sv_count := sv_count s + 1\<rparr>, i))))"

definition free_peer :: "nat \<Rightarrow> 'p server \<Rightarrow> 'p server res" where
  "free_peer i s =
     bindR (get_slot i s) (\<lambda>p.
     bindR (dict_of (pr_priv p)) (\<lambda>d. bindR (dd_free d) (\<lambda>_.
     bindR (dict_of (pr_pub p)) (\<lambda>d. bindR (dd_free d) (\<lambda>_.
     put_slot i (p\<lparr>pr_priv := None, pr_pub := None, pr_empty := True\<rparr>)
       (s\<lparr>sv_count := sv_count s - 1\<rparr>))))))"

definition free_peers :: "'p server \<Rightarrow> 'p server res" where
  "free_peers s =
     foldR (\<lambda>i s. bindR (get_slot i s) (\<lambda>p.
       if pr_empty p then Inr s
       else case pr_peer p of None \<Rightarrow> Inl NullDeref
         | Some e \<Rightarrow>
             bindR (dict_of (pr_priv p)) (\<lambda>d. bindR (dd_free d) (\<lambda>_.
             bindR (dict_of (pr_pub p)) (\<lambda>d. bindR (dd_free d) (\<lambda>_.
             put_slot i (p\<lparr>pr_priv := None, pr_pub := None\<rparr>)
               (s\<lparr>sv_log := sv_log s @ [Disconnect e]\<rparr>)))))))
     (if sv_peers s = [] then [] else [0..<sv_size s]) s"

section \<open>The commands of the logic script\<close>

text \<open>
  \<open>Jim_GetLong\<close> is the parameter \<open>getlong\<close>; a command returns \<open>JIM_OK\<close> or \<open>JIM_ERR\<close> and
  its result string.  The arguments include the command's name, as \<open>argv\<close> does.
\<close>

datatype jim = JIM_OK string | JIM_ERR string

definition live :: "int \<Rightarrow> 'p server \<Rightarrow> 'p peer option res" where
  "live n s =
     (if 0 \<le> n \<and> n < int (sv_size s)
      then bindR (get_slot (nat n) s) (\<lambda>p. Inr (if pr_empty p then None else Some p))
      else Inr None)"

definition cmd_peers_list :: "string list \<Rightarrow> 'p server \<Rightarrow> nat list res" where
  "cmd_peers_list argv s =
     foldR (\<lambda>i ids. bindR (get_slot i s) (\<lambda>p. Inr (if pr_empty p then ids else ids @ [i])))
       [0..<sv_size s] []"

definition parse_scope :: "string \<Rightarrow> bool option" where
  "parse_scope t = (if cstr t = ''priv'' then Some True else if cstr t = ''pub'' then Some False else None)"

definition cmd_peerset :: "(string \<Rightarrow> int option) \<Rightarrow> string list \<Rightarrow> 'p server \<Rightarrow> ('p server \<times> jim) res" where
  "cmd_peerset getlong argv s =
     (if length argv \<noteq> 5 then Inr (s, JIM_ERR ''peerset requires 4 arguments'')
      else case parse_scope (argv ! 1) of
        None \<Rightarrow> Inr (s, JIM_ERR (''peerset argument 1 should be 'pub' or 'priv'' @ [CHR 0x27]))
      | Some priv \<Rightarrow> (case getlong (argv ! 2) of
          None \<Rightarrow> Inr (s, JIM_ERR ''peerset argument 2 should be an integer peer ID'')
        | Some n \<Rightarrow> bindR (live n s) (\<lambda>r. case r of
            None \<Rightarrow> Inr (s, JIM_ERR ''peerset argument 2: peer doesn't exist '')
          | Some p \<Rightarrow>
              if priv then
                bindR (dict_of (pr_priv p)) (\<lambda>d. bindR (dd_set d (argv ! 3) (argv ! 4)) (\<lambda>d.
                bindR (put_slot (nat n) (p\<lparr>pr_priv := Some d\<rparr>) s) (\<lambda>s. Inr (s, JIM_OK []))))
              else
                bindR (dict_of (pr_pub p)) (\<lambda>d. bindR (dd_set d (argv ! 3) (argv ! 4)) (\<lambda>d.
                bindR (put_slot (nat n) (p\<lparr>pr_pub := Some d\<rparr>) s) (\<lambda>s. Inr (s, JIM_OK [])))))))"

definition result_string :: "block \<times> u32 \<Rightarrow> string res" where
  "result_string v = (case v of (b, n) \<Rightarrow> peeks b 0 (unat n))"

definition cmd_peerget :: "(string \<Rightarrow> int option) \<Rightarrow> string list \<Rightarrow> 'p server \<Rightarrow> jim res" where
  "cmd_peerget getlong argv s =
     (if length argv \<noteq> 4 then Inr (JIM_ERR ''peerget requires 3 arguments'')
      else case parse_scope (argv ! 1) of
        None \<Rightarrow> Inr (JIM_ERR (''peerget argument 1 should be 'pub' or 'priv'' @ [CHR 0x27]))
      | Some priv \<Rightarrow> (case getlong (argv ! 2) of
          None \<Rightarrow> Inr (JIM_ERR ''peerget argument 2 should be an integer peer ID'')
        | Some n \<Rightarrow> bindR (live n s) (\<lambda>r. case r of
            None \<Rightarrow> Inr (JIM_ERR ''peerget argument 2: peer doesn't exist '')
          | Some p \<Rightarrow>
              bindR (dict_of (if priv then pr_priv p else pr_pub p)) (\<lambda>d.
              bindR (dd_get d (argv ! 3)) (\<lambda>v. bindR (result_string v) (\<lambda>x. Inr (JIM_OK x)))))))"

definition cmd_serverset :: "string list \<Rightarrow> 'p server \<Rightarrow> ('p server \<times> jim) res" where
  "cmd_serverset argv s =
     (if length argv \<noteq> 3 then Inr (s, JIM_ERR ''serverset requires 2 arguments'')
      else bindR (dd_set (sv_data s) (argv ! 1) (argv ! 2)) (\<lambda>d. Inr (s\<lparr>sv_data := d\<rparr>, JIM_OK [])))"

definition cmd_serverget :: "string list \<Rightarrow> 'p server \<Rightarrow> jim res" where
  "cmd_serverget argv s =
     (if length argv \<noteq> 2 then Inr (JIM_ERR ''serverget requires 1 arguments'')
      else bindR (dd_get (sv_data s) (argv ! 1)) (\<lambda>v. bindR (result_string v) (\<lambda>x. Inr (JIM_OK x))))"

definition cmd_sendaudio :: "(string \<Rightarrow> int option) \<Rightarrow> string list \<Rightarrow> 'p server \<Rightarrow> ('p server \<times> jim) res" where
  "cmd_sendaudio getlong argv s =
     (if length argv \<noteq> 2 then Inr (s, JIM_ERR ''sendaudio requires exactly 1 argument'')
      else case getlong (argv ! 1) of
        None \<Rightarrow> Inr (s, JIM_ERR ''sendaudio argument 1 should be an integer peer ID'')
      | Some n \<Rightarrow> bindR (live n s) (\<lambda>r. case r of
          None \<Rightarrow> Inr (s, JIM_ERR ''sendaudio argument 2: peer doesn't exist'')
        | Some p \<Rightarrow> (case sv_audio s of
            None \<Rightarrow> Inr (s, JIM_ERR ''sendaudio: no audio packet available'')
          | Some data \<Rightarrow> bindR (send (pr_peer p) 1 data s) (\<lambda>s. Inr (s, JIM_OK [])))))"

definition cmd_sendmsg :: "(string \<Rightarrow> int option) \<Rightarrow> string list \<Rightarrow> 'p server \<Rightarrow> ('p server \<times> jim) res" where
  "cmd_sendmsg getlong argv s =
     (if length argv \<noteq> 3 then Inr (s, JIM_ERR ''sendmsg requires 2 argument'')
      else case getlong (argv ! 1) of
        None \<Rightarrow> Inr (s, JIM_ERR ''sendmsg argument 1 should be an integer peer ID'')
      | Some n \<Rightarrow> bindR (live n s) (\<lambda>r. case r of
          None \<Rightarrow> Inr (s, JIM_ERR ''sendmsg argument 1: peer doesn't exist'')
        | Some p \<Rightarrow> bindR (send (pr_peer p) 0 (argv ! 2) s) (\<lambda>s. Inr (s, JIM_OK []))))"

section \<open>Writing packets\<close>

abbreviation (input) nl :: string where "nl \<equiv> [CHR 0x0A]"
abbreviation (input) qq :: string where "qq \<equiv> [CHR 0x22]"

text \<open>\<open>dcatcs(packet_buff, ...)\<close>, several times in a row.\<close>

definition cat_strings :: "string list \<Rightarrow> dstring \<Rightarrow> dstring res" where
  "cat_strings strs b = foldR (\<lambda>str b. dcatcs b str) strs b"

text \<open>The escaped text of a key or of a value, appended.\<close>

definition cat_escaped :: "dstring \<Rightarrow> dstring \<Rightarrow> dstring res" where
  "cat_escaped str b = bindR (dstrlex_escape str) (\<lambda>escape_buff. dcat b escape_buff)"

text \<open>One node of a dictionary: the command, the key and the value in quotes.\<close>

definition cat_entry :: "string list \<Rightarrow> ddnode \<Rightarrow> dstring \<Rightarrow> dstring res" where
  "cat_entry pre e b =
     bindR (cat_strings pre b) (\<lambda>b.
     bindR (cat_escaped (dd_key e) b) (\<lambda>b.
     bindR (cat_strings [qq @ '' '' @ qq] b) (\<lambda>b.
     bindR (cat_escaped (dd_value e) b) (\<lambda>b.
     cat_strings [qq @ nl] b))))"

definition sset_pre :: "string list" where
  "sset_pre = [''SSET '' @ qq]"

definition pset_pre :: "nat \<Rightarrow> string list" where
  "pset_pre i = [''PSET '', fmt_i (of_nat i), '' '' @ qq]"

text \<open>All the nodes of a dictionary.\<close>

definition cat_dict :: "string list \<Rightarrow> ddict \<Rightarrow> dstring \<Rightarrow> dstring res" where
  "cat_dict pre dd b = fold_from (\<lambda>b e more. cat_entry pre e b) dd (lbrk dd) b (dd_front dd)"

text \<open>A peer, announced with its public data.\<close>

definition cat_peer :: "'p server \<Rightarrow> nat \<Rightarrow> dstring \<Rightarrow> dstring res" where
  "cat_peer s i b =
     bindR (get_slot i s) (\<lambda>p.
       if pr_empty p then Inr b
       else bindR (cat_strings [''PADD '', fmt_i (of_nat i), nl] b) (\<lambda>b.
         bindR (dict_of (pr_pub p)) (\<lambda>dd. cat_dict (pset_pre i) dd b)))"

text \<open>The same packet to every peer in the table but one.\<close>

definition broadcast :: "nat option \<Rightarrow> string \<Rightarrow> 'p server \<Rightarrow> 'p server res" where
  "broadcast but msg s =
     foldR (\<lambda>i s. bindR (get_slot i s) (\<lambda>p.
       if pr_empty p \<or> but = Some i then Inr s else send (pr_peer p) 0 msg s))
     [0..<sv_size s] s"

section \<open>The handlers\<close>

definition reject_peer :: "nat \<Rightarrow> 'p \<Rightarrow> 'p server \<Rightarrow> 'p server res" where
  "reject_peer i e s = free_peer i (s\<lparr>sv_log := sv_log s @ [Disconnect e]\<rparr>)"

definition greet_peer :: "nat \<Rightarrow> 'p server \<Rightarrow> 'p server res" where
  "greet_peer i s =
     bindR (cat_strings [''YARE '', fmt_i (of_nat i) @ nl] dnew) (\<lambda>b.
     bindR (cat_dict sset_pre (sv_data s) b) (\<lambda>b.
     bindR (foldR (cat_peer s) [0..<sv_size s] b) (\<lambda>b.
     bindR (packet_bytes b) (\<lambda>msg.
     bindR (get_slot i s) (\<lambda>p.
     bindR (send (pr_peer p) 0 msg s) (\<lambda>s.
     bindR (dcpycs b ''PADD '') (\<lambda>b.
     bindR (cat_strings [fmt_i (of_nat i), nl] b) (\<lambda>b.
     bindR (packet_bytes b) (\<lambda>msg.
     broadcast (Some i) msg s)))))))))"

text \<open>
  \<open>jim\<close> evaluates a script: the new state, and \<open>None\<close> for \<open>JIM_ERR\<close> or the result as
  \<open>Jim_GetLong\<close> reads it.
\<close>

definition handle_peer_connect ::
  "(string \<Rightarrow> 'p server \<Rightarrow> 'p server \<times> int option option) \<Rightarrow> 'p \<Rightarrow> 'p server \<Rightarrow>
   ('p server \<times> nat) res" where
  "handle_peer_connect jim e s =
     bindR (get_new_peer s) (\<lambda>(s, i).
     bindR (get_slot i s) (\<lambda>p.
     bindR (put_slot i (p\<lparr>pr_peer := Some e\<rparr>) s) (\<lambda>s.
     case jim (''on_peer_connect '' @ fmt_i (of_nat i)) s of
       (s, Some (Some v)) \<Rightarrow>
         bindR (if v = 0 then reject_peer i e s else greet_peer i s) (\<lambda>s. Inr (s, i))
     | (s, _) \<Rightarrow> bindR (reject_peer i e s) (\<lambda>s. Inr (s, i)))))"

text \<open>\<open>slot\<close> is the table entry that \<open>event->peer->data\<close> points into.\<close>

definition handle_peer_disconnect ::
  "(string \<Rightarrow> 'p server \<Rightarrow> 'p server \<times> int option option) \<Rightarrow> 'p \<Rightarrow> nat \<Rightarrow> 'p server \<Rightarrow>
   'p server res" where
  "handle_peer_disconnect jim e slot s =
     bindR (get_slot slot s) (\<lambda>p.
     let peer_id = pr_id p;
         s = fst (jim (''on_peer_disconnect '' @ fmt_i peer_id) s);
         s = s\<lparr>sv_log := sv_log s @ [Disconnect e]\<rparr> in
     bindR (broadcast (Some (unat peer_id)) (''PDEL '' @ fmt_i peer_id) s) (\<lambda>s.
     free_peer (unat peer_id) s))"

text \<open>\<open>None\<close> is the return value 1; otherwise the packet becomes the current audio packet.\<close>

definition decode_audio_packet :: "u32 \<Rightarrow> string \<Rightarrow> string option" where
  "decode_audio_packet peer_id data =
     (if length data \<le> 8 then None
      else if be32 data 0 \<noteq> peer_id then None
      else if unat (be32 data 4) \<noteq> length data - 8 then None
      else Some data)"

definition handle_packet_input_audio ::
  "(string \<Rightarrow> 'p server \<Rightarrow> 'p server \<times> int option option) \<Rightarrow> nat \<Rightarrow> string \<Rightarrow> 'p server \<Rightarrow>
   'p server res" where
  "handle_packet_input_audio jim slot data s =
     bindR (get_slot slot s) (\<lambda>p.
     case decode_audio_packet (pr_id p) data of
       None \<Rightarrow> Inr s
     | Some audio \<Rightarrow>
         let s = fst (jim (''on_audio_packet '' @ fmt_i (pr_id p)) (s\<lparr>sv_audio := Some audio\<rparr>))
         in Inr (s\<lparr>sv_audio := None\<rparr>))"

text \<open>\<open>jimv\<close> evaluates the procedure \<open>on_command\<close> on the words of a command.\<close>

definition handle_packet_input_command ::
  "(string list \<Rightarrow> 'p server \<Rightarrow> 'p server \<times> int option option) \<Rightarrow> nat \<Rightarrow> string \<Rightarrow> 'p server \<Rightarrow>
   'p server res" where
  "handle_packet_input_command jimv slot data s =
     bindR (get_slot slot s) (\<lambda>_.
     bindR (dfrommem (map Some data) 0 (of_nat (length data))) (\<lambda>src.
     bindR (dstrlex_parse src) (\<lambda>(code, dargs).
     case dargs of
       None \<Rightarrow> Inl NullDeref
     | Some l \<Rightarrow>
         bindR (fold_from (\<lambda>args str more. bindR (packet_bytes str) (\<lambda>x. Inr (args @ [x])))
             l (lbrk l) [] (lfront l)) (\<lambda>args.
         bindR (dlist_free l) (\<lambda>_. Inr (fst (jimv args s)))))))"

section \<open>Sending what changed\<close>

text \<open>The nodes whose flag is set are written, and their flag is cleared.\<close>

fun flush_from :: "nat \<Rightarrow> nat option \<Rightarrow> string list \<Rightarrow> ddict \<Rightarrow> dstring \<Rightarrow> (ddict \<times> dstring) res" where
  "flush_from k None pre dd b = Inr (dd, b)"
| "flush_from 0 (Some a) pre dd b = Inl Diverge"
| "flush_from (Suc k) (Some a) pre dd b =
     bindR (cell dd a) (\<lambda>n.
       if dd_dirty (nval n) then
         bindR (set_val a ((nval n)\<lparr>dd_dirty := False\<rparr>) dd) (\<lambda>dd.
         bindR (cat_entry pre (nval n) b) (\<lambda>b. flush_from k (nnext n) pre dd b))
       else flush_from k (nnext n) pre dd b)"

definition flush_dict :: "string list \<Rightarrow> ddict \<Rightarrow> dstring \<Rightarrow> (ddict \<times> dstring) res" where
  "flush_dict pre dd b = flush_from (lbrk dd) (dd_front dd) pre dd b"

definition flush_peer :: "nat \<Rightarrow> 'p server \<times> dstring \<Rightarrow> ('p server \<times> dstring) res" where
  "flush_peer i sb =
     (case sb of (s, b) \<Rightarrow>
        bindR (get_slot i s) (\<lambda>p.
          if pr_empty p then Inr (s, b)
          else bindR (dict_of (pr_pub p)) (\<lambda>dd.
            bindR (flush_dict (pset_pre i) dd b) (\<lambda>(dd, b).
            bindR (put_slot i (p\<lparr>pr_pub := Some dd\<rparr>) s) (\<lambda>s. Inr (s, b))))))"

definition send_modified_data :: "'p server \<Rightarrow> 'p server res" where
  "send_modified_data s =
     bindR (flush_dict sset_pre (sv_data s) dnew) (\<lambda>(dd, b).
     bindR (foldR flush_peer [0..<sv_size s] (s\<lparr>sv_data := dd\<rparr>, b)) (\<lambda>(s, b).
     bindR (packet_bytes b) (\<lambda>msg. broadcast None msg s)))"

text \<open>The main loop's reaction to one event of ENet, and its turn of the logic.\<close>

datatype 'p event =
    Connect 'p
  | Disconnected 'p nat
  | Receive nat nat string   \<comment> \<open>slot, channel, data\<close>

definition handle_event ::
  "(string \<Rightarrow> 'p server \<Rightarrow> 'p server \<times> int option option) \<Rightarrow>
   (string list \<Rightarrow> 'p server \<Rightarrow> 'p server \<times> int option option) \<Rightarrow>
   'p event \<Rightarrow> 'p server \<Rightarrow> 'p server res" where
  "handle_event jim jimv ev s =
     (case ev of
        Connect e \<Rightarrow> bindR (handle_peer_connect jim e s) (\<lambda>(s, i). Inr s)
      | Disconnected e i \<Rightarrow> handle_peer_disconnect jim e i s
      | Receive i ch data \<Rightarrow>
          if ch = 0 then handle_packet_input_command jimv i data s
          else if ch = 1 then handle_packet_input_audio jim i data s
          else Inr s)"

definition logic_turn ::
  "(string \<Rightarrow> 'p server \<Rightarrow> 'p server \<times> int option option) \<Rightarrow> u64 \<Rightarrow> 'p server \<Rightarrow> 'p server res" where
  "logic_turn jim delta s = send_modified_data (fst (jim (''on_logic '' @ dec_nat (unat delta)) s))"

end
