(* ===== verification/ServerText.thy ===== *)
theory ServerText
  imports Server
begin

text \<open>
  The text the server writes: the lines of a dictionary's entries, the lines of the entries
  that changed since the last packet, and the flags after they were written.
\<close>

section \<open>The text of a packet\<close>

type_synonym kvs = "(string \<times> bool \<times> string) list"

definition entry_text :: "string list \<Rightarrow> string \<times> bool \<times> string \<Rightarrow> string" where
  "entry_text pre kv = concat pre @ escape (fst kv) @ qq @ '' '' @ qq @ escape (snd (snd kv)) @ qq @ nl"

definition dict_text :: "string list \<Rightarrow> kvs \<Rightarrow> string" where
  "dict_text pre kvs = concat (map (entry_text pre) kvs)"

text \<open>The escaped key and value fit the block the escaping starts with.\<close>

definition ent_ok :: "string \<times> bool \<times> string \<Rightarrow> bool" where
  "ent_ok kv \<longleftrightarrow> length (escape (fst kv)) < 32 \<and> length (escape (snd (snd kv))) < 32"

definition pre_ok :: "string list \<Rightarrow> bool" where
  "pre_ok pre \<longleftrightarrow> (\<forall>str\<in>set pre. nul \<notin> set str)"

lemma fmt_i_no_nul [simp]: "nul \<notin> set (fmt_i n)"
  using dec_int_chars [of nul] by (auto simp: fmt_i_def is_digit_def)

lemma pre_ok_simps [simp]: "pre_ok sset_pre" "pre_ok (pset_pre i)"
  by (auto simp: pre_ok_def sset_pre_def pset_pre_def)

lemma cat_strings_Cons:
  "cat_strings (str # strs) b = bindR (dcatcs b str) (cat_strings strs)"
  by (cases "dcatcs b str") (simp_all add: cat_strings_def)

lemma cat_strings_gives:
  "drep b xs \<Longrightarrow> pre_ok strs \<Longrightarrow> length xs + length (concat strs) + 1 < dmax \<Longrightarrow>
   gives (cat_strings strs b) (\<lambda>b. drep b (xs @ concat strs))"
proof (induction strs arbitrary: b xs)
  case Nil
  then show ?case by (simp add: cat_strings_def)
next
  case (Cons str strs)
  have "cstr str = str" using Cons.prems(2) by (simp add: pre_ok_def)
  then have "gives (dcatcs b str) (\<lambda>b. drep b (xs @ str))"
    using gives_mono [OF dcatcs_gives [OF Cons.prems(1), of str]] Cons.prems(3)
    by (auto simp: dholds_def)
  then have "gives (bindR (dcatcs b str) (cat_strings strs)) (\<lambda>b. drep b (xs @ concat (str # strs)))"
  proof (rule gives_bind)
    fix b' assume "drep b' (xs @ str)"
    from Cons.IH [OF this] Cons.prems(2,3)
    show "gives (cat_strings strs b') (\<lambda>b. drep b (xs @ concat (str # strs)))"
      by (simp add: pre_ok_def)
  qed
  then show ?case by (simp add: cat_strings_Cons)
qed

lemma cat_escaped_gives:
  assumes "drep b xs" "drep str ys" "length (escape ys) < 32" "length xs + length (escape ys) + 1 < dmax"
  shows "gives (cat_escaped str b) (\<lambda>b. drep b (xs @ escape ys))"
  unfolding cat_escaped_def
proof (rule gives_bind [OF dstrlex_escape_gives [OF assms(2,3)]])
  fix e assume "drep e (escape ys) \<and> (ys \<noteq> [] \<longrightarrow> dterm e)"
  then show "gives (dcat b e) (\<lambda>b. drep b (xs @ escape ys))"
    using assms(1,4) by (intro gives_mono [OF dcat_gives]) auto
qed

lemma cat_entry_gives:
  assumes b: "drep b xs" and e: "ddentry e kv" and ok: "ent_ok kv" and pre: "pre_ok pre"
    and len: "length xs + length (entry_text pre kv) + 1 < dmax"
  shows "gives (cat_entry pre e b) (\<lambda>b. drep b (xs @ entry_text pre kv))"
proof -
  have k: "drep (dd_key e) (fst kv)" and v: "drep (dd_value e) (snd (snd kv))"
    using e by (simp_all add: ddentry_def)
  have l: "length xs + (length (concat pre) + (length (escape (fst kv)) +
      (3 + (length (escape (snd (snd kv))) + 2)))) + 1 < dmax"
    using len by (simp add: entry_text_def)
  obtain b1 where b1: "cat_strings pre b = Inr b1" "drep b1 (xs @ concat pre)"
    by (rule givesE [OF cat_strings_gives [OF b pre]]) (use l in auto)
  obtain b2 where b2: "cat_escaped (dd_key e) b1 = Inr b2"
    "drep b2 ((xs @ concat pre) @ escape (fst kv))"
    by (rule givesE [OF cat_escaped_gives [OF b1(2) k]]) (use l ok in \<open>auto simp: ent_ok_def\<close>)
  obtain b3 where b3: "cat_strings [qq @ '' '' @ qq] b2 = Inr b3"
    "drep b3 (((xs @ concat pre) @ escape (fst kv)) @ concat [qq @ '' '' @ qq])"
    by (rule givesE [OF cat_strings_gives [OF b2(2), of "[qq @ '' '' @ qq]"]]) (use l in \<open>auto simp: pre_ok_def\<close>)
  obtain b4 where b4: "cat_escaped (dd_value e) b3 = Inr b4"
    "drep b4 ((((xs @ concat pre) @ escape (fst kv)) @ concat [qq @ '' '' @ qq]) @ escape (snd (snd kv)))"
    by (rule givesE [OF cat_escaped_gives [OF b3(2) v]]) (use l ok in \<open>auto simp: ent_ok_def\<close>)
  have "gives (cat_strings [qq @ nl] b4) (\<lambda>b. drep b (xs @ entry_text pre kv))"
    by (rule gives_mono [OF cat_strings_gives [OF b4(2), of "[qq @ nl]"]])
      (use l in \<open>auto simp: pre_ok_def entry_text_def\<close>)
  then show ?thesis by (simp add: cat_entry_def b1(1) b2(1) b3(1) [simplified] b4(1))
qed

lemma dict_text_simps [simp]:
  "dict_text pre [] = []" "dict_text pre (kv # kvs) = entry_text pre kv @ dict_text pre kvs"
  by (simp_all add: dict_text_def)

lemma cat_entries_gives:
  assumes pre: "pre_ok pre"
  shows "list_all2 ddentry es kvs \<Longrightarrow> drep b xs \<Longrightarrow> \<forall>kv\<in>set kvs. ent_ok kv \<Longrightarrow>
    length xs + length (dict_text pre kvs) + 1 < dmax \<Longrightarrow>
    gives (fold_seq (\<lambda>b e more. cat_entry pre e b) b es) (\<lambda>b. drep b (xs @ dict_text pre kvs))"
proof (induction es kvs arbitrary: b xs rule: list_all2_induct)
  case Nil
  then show ?case by simp
next
  case (Cons e es kv kvs)
  have "gives (cat_entry pre e b) (\<lambda>b. drep b (xs @ entry_text pre kv))"
    by (rule cat_entry_gives [OF Cons.prems(1) Cons.hyps(1) _ pre]) (use Cons.prems in auto)
  then show ?case
  proof (simp, rule gives_bind)
    fix b' assume "drep b' (xs @ entry_text pre kv)"
    from Cons.IH [OF this] Cons.prems(2,3)
    show "gives (fold_seq (\<lambda>b e more. cat_entry pre e b) b' es)
        (\<lambda>b. drep b (xs @ entry_text pre kv @ dict_text pre kvs))" by simp
  qed
qed

lemma cat_dict_gives:
  assumes "ddrep d kvs" "drep b xs" "\<forall>kv\<in>set kvs. ent_ok kv" "pre_ok pre"
    "length xs + length (dict_text pre kvs) + 1 < dmax"
  shows "gives (cat_dict pre d b) (\<lambda>b. drep b (xs @ dict_text pre kvs))"
proof -
  from assms(1) obtain as where as: "dinv d as" "list_all2 ddentry (vals d as) kvs"
    by (auto simp: ddrep_def)
  have "cat_dict pre d b = fold_seq (\<lambda>b e more. cat_entry pre e b) b (vals d as)"
    using as(1) fold_from_seg [of d None as "lbrk d", OF _ dinv_length [OF as(1)]]
    by (simp add: cat_dict_def dinv_def)
  with cat_entries_gives [OF assms(4) as(2) assms(2,3,5)] show ?thesis by simp
qed

text \<open>Clearing the flags: the changed entries are written.\<close>

definition clear :: "kvs \<Rightarrow> kvs" where
  "clear kvs = map (\<lambda>(k, d, v). (k, False, v)) kvs"

definition changed :: "kvs \<Rightarrow> kvs" where
  "changed kvs = filter (\<lambda>kv. fst (snd kv)) kvs"

lemma clear_Cons: "clear (kv # kvs) = (fst kv, False, snd (snd kv)) # clear kvs"
  by (cases kv) (simp add: clear_def)

lemma flush_from_gives:
  assumes pre: "pre_ok pre"
  shows "dinv d (xs @ ys) \<Longrightarrow> list_all2 ddentry (vals d ys) kvs \<Longrightarrow> length ys \<le> k \<Longrightarrow> drep b t \<Longrightarrow>
    \<forall>kv\<in>set kvs. ent_ok kv \<Longrightarrow> length t + length (dict_text pre (changed kvs)) + 1 < dmax \<Longrightarrow>
    gives (flush_from k (first_ptr ys None) pre d b) (\<lambda>(d', b'). dinv d' (xs @ ys) \<and>
      vals d' xs = vals d xs \<and> list_all2 ddentry (vals d' ys) (clear kvs) \<and>
      drep b' (t @ dict_text pre (changed kvs)))"
proof (induction ys arbitrary: xs d k b t kvs)
  case Nil
  then show ?case by (simp add: vals_def clear_def changed_def)
next
  case (Cons a ys)
  then obtain k' where k': "k = Suc k'" by (cases k) auto
  from Cons.prems(2) obtain kv kvs' where kvs: "kvs = kv # kvs'" by (cases kvs) (auto simp: vals_def)
  have sg: "seg (lcells d) None (xs @ a # ys) None" and dist: "distinct (xs @ a # ys)"
    using Cons.prems(1) by (auto simp: dinv_def)
  from sg obtain n where n: "lcells d a = Some n" "nnext n = first_ptr ys None" by auto
  have e: "ddentry (nval n) kv" and es: "list_all2 ddentry (vals d ys) kvs'"
    using Cons.prems(2) n kvs by (simp_all add: vals_def)
  show ?case
  proof (cases "fst (snd kv)")
    case True
    then have dirty: "dd_dirty (nval n)" using e by (simp add: ddentry_def)
    define d1 where "d1 = d\<lparr>lcells := (lcells d)(a \<mapsto> n\<lparr>nval := (nval n)\<lparr>dd_dirty := False\<rparr>\<rparr>)\<rparr>"
    have set: "set_val a ((nval n)\<lparr>dd_dirty := False\<rparr>) d = Inr d1"
      using n by (simp add: set_val_def d1_def)
    from dd_set_val_gives [OF Cons.prems(1) n(1), of "(nval n)\<lparr>dd_dirty := False\<rparr>"] set
    have d1: "dinv d1 ((xs @ [a]) @ ys)"
      "vals d1 (xs @ a # ys) = vals d xs @ (nval n)\<lparr>dd_dirty := False\<rparr> # vals d ys" by simp_all
    then have v1: "vals d1 xs = vals d xs" "vals d1 ys = vals d ys"
      "vals d1 [a] = [(nval n)\<lparr>dd_dirty := False\<rparr>]"
      by (simp_all add: vals_def)
    obtain b1 where b1: "cat_entry pre (nval n) b = Inr b1" "drep b1 (t @ entry_text pre kv)"
      by (rule givesE [OF cat_entry_gives [OF Cons.prems(4) e _ pre]])
        (use Cons.prems(5,6) kvs True in \<open>auto simp: changed_def\<close>)
    from Cons.IH [OF d1(1), of kvs' k' b1 "t @ entry_text pre kv"] obtain d' b' where
      IH: "flush_from k' (first_ptr ys None) pre d1 b1 = Inr (d', b')" "dinv d' (xs @ a # ys)"
      "vals d' (xs @ [a]) = vals d1 (xs @ [a])" "list_all2 ddentry (vals d' ys) (clear kvs')"
      "drep b' (t @ entry_text pre kv @ dict_text pre (changed kvs'))"
      using Cons.prems(3,5,6) k' kvs es v1(2) b1(2) True by (auto simp: gives_def changed_def)
    have "vals d' xs = vals d xs" "vals d' (a # ys) = (nval n)\<lparr>dd_dirty := False\<rparr> # vals d' ys"
      using IH(3) v1 by (simp_all add: vals_def)
    moreover have "ddentry ((nval n)\<lparr>dd_dirty := False\<rparr>) (fst kv, False, snd (snd kv))"
      using e by (simp add: ddentry_def)
    ultimately show ?thesis using IH n dirty set b1(1) True
      by (simp add: k' kvs gives_def clear_Cons changed_def)
  next
    case False
    then have dirty: "\<not> dd_dirty (nval n)" using e by (simp add: ddentry_def)
    from Cons.IH [of d "xs @ [a]" kvs' k' b t] obtain d' b' where
      IH: "flush_from k' (first_ptr ys None) pre d b = Inr (d', b')" "dinv d' (xs @ a # ys)"
      "vals d' (xs @ [a]) = vals d (xs @ [a])" "list_all2 ddentry (vals d' ys) (clear kvs')"
      "drep b' (t @ dict_text pre (changed kvs'))"
      using Cons.prems k' kvs es False by (auto simp: gives_def changed_def)
    have "vals d' xs = vals d xs" "vals d' (a # ys) = nval n # vals d' ys"
      using IH(3) n by (simp_all add: vals_def)
    moreover have "ddentry (nval n) (fst kv, False, snd (snd kv))"
      using e False by (simp add: ddentry_def)
    ultimately show ?thesis using IH n dirty False
      by (simp add: k' kvs gives_def clear_Cons changed_def)
  qed
qed

lemma fst_clear: "map fst (clear kvs) = map fst kvs"
  by (induction kvs) (auto simp: clear_def)

lemma flush_dict_gives:
  assumes "ddrep d kvs" "drep b t" "\<forall>kv\<in>set kvs. ent_ok kv" "pre_ok pre"
    "length t + length (dict_text pre (changed kvs)) + 1 < dmax"
  shows "gives (flush_dict pre d b) (\<lambda>(d', b'). ddrep d' (clear kvs) \<and>
    drep b' (t @ dict_text pre (changed kvs)))"
proof -
  from assms(1) obtain as where as: "dinv d as" "list_all2 ddentry (vals d as) kvs"
    "distinct (map fst kvs)" by (auto simp: ddrep_def)
  have "dd_front d = first_ptr as None" using as(1) by (simp add: dinv_def)
  with flush_from_gives [OF assms(4), of d "[]" as kvs "lbrk d" b t] as dinv_length [OF as(1)] assms
  show ?thesis by (auto simp: flush_dict_def ddrep_def gives_def fst_clear)
qed

end
