(* ===== verification/ServerSpec.thy ===== *)
theory ServerSpec
  imports ServerText
begin

text \<open>
  What the server does, against an abstract state: its dictionaries as association lists and
  its table as a list of optional peers, each with its public and its private data.
\<close>

section \<open>The abstract state\<close>

type_synonym 'p apeer = "'p \<times> kvs \<times> kvs"

definition peer_rep :: "nat \<Rightarrow> 'p peer \<Rightarrow> 'p apeer option \<Rightarrow> bool" where
  "peer_rep i p a \<longleftrightarrow> pr_id p = of_nat i \<and> pr_empty p = (a = None) \<and>
     (case a of
        None \<Rightarrow> pr_pub p = None \<and> pr_priv p = None
      | Some (e, pub, priv) \<Rightarrow> pr_peer p = Some e \<and>
          (\<exists>d. pr_pub p = Some d \<and> ddrep d pub) \<and> (\<exists>d. pr_priv p = Some d \<and> ddrep d priv))"

definition peers_of :: "'p apeer option list \<Rightarrow> nat" where
  "peers_of ps = length (filter (\<lambda>a. a \<noteq> None) ps)"

definition srep :: "'p server \<Rightarrow> kvs \<Rightarrow> 'p apeer option list \<Rightarrow> bool" where
  "srep s sd ps \<longleftrightarrow> ddrep (sv_data s) sd \<and> sv_size s = length ps \<and>
     length (sv_peers s) = length ps \<and> (length ps = 0 \<or> length ps = 10) \<and>
     sv_count s = int (peers_of ps) \<and> (\<forall>i<length ps. peer_rep i (sv_peers s ! i) (ps ! i))"

lemma srep_init: "srep server_init [] []"
  by (simp add: srep_def server_init_def peers_of_def)

lemma srep_log [simp]: "srep (s\<lparr>sv_log := l\<rparr>) sd ps = srep s sd ps"
  by (simp add: srep_def)

lemma srep_audio [simp]: "srep (s\<lparr>sv_audio := l\<rparr>) sd ps = srep s sd ps"
  by (simp add: srep_def)

lemma srep_size: "srep s sd ps \<Longrightarrow> sv_size s = length ps"
  by (simp add: srep_def)

lemma peers_of_update:
  "i < length ps \<Longrightarrow>
   int (peers_of (ps[i := a])) = int (peers_of ps) + of_bool (a \<noteq> None) - of_bool (ps ! i \<noteq> None)"
proof (induction ps arbitrary: i)
  case (Cons p ps)
  then show ?case by (cases i) (auto simp: peers_of_def)
qed simp

lemma srep_update:
  assumes "srep s sd ps" "i < length ps" "peer_rep i p a"
    and "sv_data s' = sv_data s" "sv_size s' = sv_size s" "sv_peers s' = (sv_peers s)[i := p]"
    and "sv_count s' = sv_count s + of_bool (a \<noteq> None) - of_bool (ps ! i \<noteq> None)"
  shows "srep s' sd (ps[i := a])"
  using assms by (auto simp: srep_def peers_of_update nth_list_update)

lemma get_slot_srep:
  "srep s sd ps \<Longrightarrow> i < length ps \<Longrightarrow>
   gives (get_slot i s) (\<lambda>p. p = sv_peers s ! i \<and> peer_rep i p (ps ! i))"
  by (simp add: get_slot_def srep_def)

lemma get_slot_full:
  assumes "srep s sd ps" "i < length ps"
  obtains p where "get_slot i s = Inr p" "peer_rep i p (ps ! i)" "i < length (sv_peers s)"
  using assms by (auto simp: get_slot_def srep_def)

lemma peer_rep_Some:
  assumes "peer_rep i p (Some (e, pub, priv))"
  obtains d d' where "pr_empty p = False" "pr_id p = of_nat i" "pr_peer p = Some e"
    "pr_pub p = Some d" "ddrep d pub" "pr_priv p = Some d'" "ddrep d' priv"
  using assms by (auto simp: peer_rep_def)

lemma peer_rep_empty: "peer_rep i p a \<Longrightarrow> pr_empty p = (a = None)"
  by (simp add: peer_rep_def)

section \<open>Broadcasting\<close>

definition bcast :: "nat option \<Rightarrow> string \<Rightarrow> 'p apeer option list \<Rightarrow> nat \<Rightarrow> 'p action list" where
  "bcast but msg ps n =
     concat (map (\<lambda>i. case ps ! i of None \<Rightarrow> []
       | Some (e, _) \<Rightarrow> if but = Some i then [] else [Send e 0 msg]) [0..<n])"

lemma broadcast_upto:
  assumes s: "srep s sd ps"
  shows "n \<le> length ps \<Longrightarrow>
    foldR (\<lambda>i s. bindR (get_slot i s) (\<lambda>p.
       if pr_empty p \<or> but = Some i then Inr s else send (pr_peer p) 0 msg s)) [0..<n] s =
    Inr (s\<lparr>sv_log := sv_log s @ bcast but msg ps n\<rparr>)"
proof (induction n)
  case 0
  then show ?case by (simp add: bcast_def)
next
  case (Suc n)
  let ?s = "s\<lparr>sv_log := sv_log s @ bcast but msg ps n\<rparr>"
  have "srep ?s sd ps" using s by simp
  then obtain p where p: "get_slot n ?s = Inr p" "peer_rep n p (ps ! n)"
    using Suc.prems by (elim get_slot_full [of _ _ _ n]) auto
  then show ?case using Suc
    by (cases "ps ! n") (auto simp: bcast_def peer_rep_def send_def)
qed

lemma broadcast_gives:
  assumes "srep s sd ps"
  shows "broadcast but msg s = Inr (s\<lparr>sv_log := sv_log s @ bcast but msg ps (length ps)\<rparr>)"
  using broadcast_upto [OF assms, of "length ps" but msg] srep_size [OF assms]
  by (simp add: broadcast_def)

section \<open>The packets\<close>

definition peer_line :: "string \<Rightarrow> nat \<Rightarrow> string" where
  "peer_line cmd i = cmd @ fmt_i (of_nat i) @ nl"

definition peer_text :: "'p apeer option list \<Rightarrow> nat \<Rightarrow> string" where
  "peer_text ps i = (case ps ! i of None \<Rightarrow> []
     | Some (e, pub, priv) \<Rightarrow> peer_line ''PADD '' i @ dict_text (pset_pre i) pub)"

text \<open>What a new peer is sent: its number, the server's data, all the peers with theirs.\<close>

definition greeting :: "nat \<Rightarrow> kvs \<Rightarrow> 'p apeer option list \<Rightarrow> string" where
  "greeting i sd ps = peer_line ''YARE '' i @ dict_text sset_pre sd @
     concat (map (peer_text ps) [0..<length ps])"

definition ents_ok :: "kvs \<Rightarrow> 'p apeer option list \<Rightarrow> bool" where
  "ents_ok sd ps \<longleftrightarrow> (\<forall>kv\<in>set sd. ent_ok kv) \<and>
     (\<forall>e pub priv. Some (e, pub, priv) \<in> set ps \<longrightarrow> (\<forall>kv\<in>set pub. ent_ok kv))"

lemma ents_okD:
  "ents_ok sd ps \<Longrightarrow> i < length ps \<Longrightarrow> ps ! i = Some (e, pub, priv) \<Longrightarrow> \<forall>kv\<in>set pub. ent_ok kv"
  unfolding ents_ok_def by (metis nth_mem)

lemma packet_bytes_drep: "drep b xs \<Longrightarrow> packet_bytes b = Inr xs"
  by (simp add: packet_bytes_def drep_len)

lemma cat_peer_gives:
  assumes s: "srep s sd ps" and i: "i < length ps" and ok: "ents_ok sd ps"
    and b: "drep b xs" and len: "length xs + length (peer_text ps i) + 1 < dmax"
  shows "gives (cat_peer s i b) (\<lambda>b. drep b (xs @ peer_text ps i))"
proof -
  obtain p where p: "get_slot i s = Inr p" "peer_rep i p (ps ! i)"
    using s i by (elim get_slot_full)
  show ?thesis
  proof (cases "ps ! i")
    case None
    with p b show ?thesis by (simp add: cat_peer_def peer_rep_def peer_text_def)
  next
    case (Some a)
    then obtain e pub priv where a: "ps ! i = Some (e, pub, priv)" by (cases a) auto
    from p(2) a obtain d where d: "pr_empty p = False" "pr_pub p = Some d" "ddrep d pub"
      by (auto elim: peer_rep_Some)
    have l: "length xs + (length (peer_line ''PADD '' i) + length (dict_text (pset_pre i) pub)) + 1 < dmax"
      using len a by (simp add: peer_text_def)
    obtain b1 where b1: "cat_strings [''PADD '', fmt_i (of_nat i), nl] b = Inr b1"
      "drep b1 (xs @ concat [''PADD '', fmt_i (of_nat i), nl])"
      by (rule givesE [OF cat_strings_gives [OF b, of "[''PADD '', fmt_i (of_nat i), nl]"]])
        (use l in \<open>auto simp: peer_line_def pre_ok_def\<close>)
    have "gives (cat_dict (pset_pre i) d b1) (\<lambda>b. drep b (xs @ peer_text ps i))"
      by (rule gives_mono [OF cat_dict_gives [OF d(3) b1(2) ents_okD [OF ok i a], of "pset_pre i"]])
        (use l a in \<open>auto simp: peer_line_def peer_text_def\<close>)
    then show ?thesis by (simp add: cat_peer_def p d b1(1) [simplified] dict_of_def)
  qed
qed

lemma cat_peers_upto:
  assumes s: "srep s sd ps" and ok: "ents_ok sd ps" and b: "drep b xs"
  shows "n \<le> length ps \<Longrightarrow> length xs + length (concat (map (peer_text ps) [0..<n])) + 1 < dmax \<Longrightarrow>
    gives (foldR (cat_peer s) [0..<n] b) (\<lambda>b. drep b (xs @ concat (map (peer_text ps) [0..<n])))"
proof (induction n)
  case (Suc n)
  from Suc obtain b1 where b1: "foldR (cat_peer s) [0..<n] b = Inr b1"
    "drep b1 (xs @ concat (map (peer_text ps) [0..<n]))" by (auto simp: gives_def)
  have "gives (cat_peer s n b1) (\<lambda>b. drep b ((xs @ concat (map (peer_text ps) [0..<n])) @ peer_text ps n))"
    by (rule cat_peer_gives [OF s _ ok b1(2)]) (use Suc.prems in auto)
  then show ?case using b1(1) by simp
qed (use b in simp)

lemma greeting_gives:
  assumes s: "srep s sd ps" and ok: "ents_ok sd ps" and i: "i < length ps"
    and len: "length (greeting i sd ps) + 1 < dmax"
  shows "gives (bindR (cat_strings [''YARE '', fmt_i (of_nat i) @ nl] dnew) (\<lambda>b.
     bindR (cat_dict sset_pre (sv_data s) b) (foldR (cat_peer s) [0..<sv_size s])))
     (\<lambda>b. drep b (greeting i sd ps))"
proof -
  have sd: "ddrep (sv_data s) sd" "\<forall>kv\<in>set sd. ent_ok kv" using s ok by (simp_all add: srep_def ents_ok_def)
  have l: "length (peer_line ''YARE '' i) + (length (dict_text sset_pre sd) +
      length (concat (map (peer_text ps) [0..<length ps]))) + 1 < dmax"
    using len by (simp add: greeting_def)
  obtain b1 where b1: "cat_strings [''YARE '', fmt_i (of_nat i) @ nl] dnew = Inr b1"
    "drep b1 ([] @ concat [''YARE '', fmt_i (of_nat i) @ nl])"
    by (rule givesE [OF cat_strings_gives [OF dnew_drep, of "[''YARE '', fmt_i (of_nat i) @ nl]"]])
      (use l in \<open>auto simp: peer_line_def pre_ok_def\<close>)
  obtain b2 where b2: "cat_dict sset_pre (sv_data s) b1 = Inr b2"
    "drep b2 (([] @ concat [''YARE '', fmt_i (of_nat i) @ nl]) @ dict_text sset_pre sd)"
    by (rule givesE [OF cat_dict_gives [OF sd(1) b1(2) sd(2), of sset_pre]])
      (use l in \<open>auto simp: peer_line_def\<close>)
  have "gives (foldR (cat_peer s) [0..<sv_size s] b2) (\<lambda>b. drep b (greeting i sd ps))"
    using l by (auto simp: srep_size [OF s] greeting_def peer_line_def
        intro!: gives_mono [OF cat_peers_upto [OF s ok b2(2), of "length ps"]])
  with b1(1) b2(1) show ?thesis by simp
qed

definition greet_log :: "nat \<Rightarrow> 'p \<Rightarrow> kvs \<Rightarrow> 'p apeer option list \<Rightarrow> 'p action list" where
  "greet_log i e sd ps =
     Send e 0 (greeting i sd ps) # bcast (Some i) (peer_line ''PADD '' i) ps (length ps)"

lemma greet_peer_gives:
  assumes s: "srep s sd ps" and ok: "ents_ok sd ps" and i: "i < length ps"
    and p: "ps ! i = Some (e, pub, priv)" and len: "length (greeting i sd ps) + 1 < dmax"
  shows "greet_peer i s = Inr (s\<lparr>sv_log := sv_log s @ greet_log i e sd ps\<rparr>)"
proof -
  from greeting_gives [OF s ok i len] obtain b where
    b: "bindR (cat_strings [''YARE '', fmt_i (of_nat i) @ nl] dnew) (\<lambda>b.
     bindR (cat_dict sset_pre (sv_data s) b) (foldR (cat_peer s) [0..<sv_size s])) = Inr b"
    "drep b (greeting i sd ps)" by (rule givesE)
  obtain q where q: "get_slot i s = Inr q" "peer_rep i q (ps ! i)" using s i by (elim get_slot_full)
  then have e: "pr_peer q = Some e" using p by (simp add: peer_rep_def)
  obtain b1 where b1: "dcpycs b ''PADD '' = Inr b1" "drep b1 ''PADD ''"
    by (rule givesE [OF dcpycs_gives [of b "''PADD ''"]])
      (use b(2) in \<open>simp_all add: drep_def dholds_def\<close>)
  have "length (fmt_i (of_nat i)) \<le> 11" by (rule fmt_i_length)
  then obtain b2 where b2: "cat_strings [fmt_i (of_nat i), nl] b1 = Inr b2"
    "drep b2 (''PADD '' @ concat [fmt_i (of_nat i), nl])"
    by (atomize_elim, intro gives_def [THEN iffD1] cat_strings_gives [OF b1(2)])
      (auto simp: pre_ok_def)
  let ?l = "sv_log s @ [Send e 0 (greeting i sd ps)]"
  have "srep (s\<lparr>sv_log := ?l\<rparr>) sd ps" using s by simp
  from broadcast_gives [OF this, of "Some i" "peer_line ''PADD '' i"] b(1) q(1) e
    packet_bytes_drep [OF b(2)] packet_bytes_drep [OF b2(2)] b1(1) b2(1)
  show ?thesis
    by (auto simp: greet_peer_def send_def greet_log_def peer_line_def res_iff bindR_assoc)
qed

section \<open>The table\<close>

definition table :: "'p apeer option list \<Rightarrow> 'p apeer option list" where
  "table ps = (if ps = [] then replicate 10 None else ps)"

definition free_at :: "'p apeer option list \<Rightarrow> nat \<Rightarrow> bool" where
  "free_at ps i \<longleftrightarrow> i < length (table ps) \<and> table ps ! i = None \<and> (\<forall>j<i. table ps ! j \<noteq> None)"

lemma peers_of_le: "peers_of ps \<le> length ps"
  by (simp add: peers_of_def)

lemma peers_of_full: "peers_of ps = length ps \<longleftrightarrow> None \<notin> set ps"
  unfolding peers_of_def
  by (metis (mono_tags, lifting) filter_True filter_id_conv length_filter_less less_irrefl)

lemma find_empty_srep:
  assumes s: "srep s sd ps"
  shows "n + k \<le> length ps \<Longrightarrow>
    find_empty [n..<n + k] s = Inr (find (\<lambda>i. ps ! i = None) [n..<n + k])"
proof (induction k arbitrary: n)
  case (Suc k)
  obtain p where p: "get_slot n s = Inr p" "peer_rep n p (ps ! n)"
    using s Suc.prems by (elim get_slot_full [of _ _ _ n]) auto
  have up: "[n..<n + Suc k] = n # [Suc n..<Suc n + k]" by (simp add: upt_conv_Cons)
  show ?case using p Suc.IH [of "Suc n"] Suc.prems
    by (simp only: up find_empty.simps find.simps) (simp add: peer_rep_def)
qed simp

lemma find_free:
  assumes "ps \<noteq> []" "find (\<lambda>i. ps ! i = None) [0..<length ps] = r"
  shows "(r = None \<longleftrightarrow> None \<notin> set ps) \<and> (\<forall>i. r = Some i \<longrightarrow> free_at ps i)"
  using assms by (auto simp: find_None_iff find_Some_iff in_set_conv_nth free_at_def table_def
      dest: sym)

lemma free_at_ex: "ps = [] \<or> None \<in> set ps \<Longrightarrow> \<exists>i. free_at ps i"
proof (cases "ps = []")
  case True
  then show ?thesis by (auto simp: free_at_def table_def intro!: exI [of _ 0])
next
  case False
  moreover assume "ps = [] \<or> None \<in> set ps"
  ultimately show ?thesis using find_free [of ps] by (metis option.exhaust)
qed

lemma free_at_unique: "free_at ps i \<Longrightarrow> free_at ps j \<Longrightarrow> i = j"
  unfolding free_at_def by (metis linorder_neqE_nat)

definition choose_slot :: "'p server \<Rightarrow> ('p server \<times> nat) res" where
  "choose_slot s =
     (if sv_size s = 0 then
        Inr (s\<lparr>sv_size := 10, sv_peers := map fresh_slot [0..<10], sv_count := 0\<rparr>, 0)
      else if sv_count s = int (sv_size s) then
        Inr (s\<lparr>sv_size := sv_size s + 10\<rparr>, nat (sv_count s))
      else bindR (find_empty [0..<sv_size s] s) (\<lambda>r. case r of
        None \<Rightarrow> Inl Uninit | Some i \<Rightarrow> Inr (s, i)))"

lemma fresh_slot_rep: "peer_rep j (fresh_slot j) None"
  by (simp add: peer_rep_def fresh_slot_def)

lemma choose_slot_gives:
  assumes s: "srep s sd ps" and free: "free_at ps i"
  shows "gives (choose_slot s) (\<lambda>(s', j). j = i \<and> srep s' sd (table ps) \<and> sv_log s' = sv_log s)"
proof (cases "ps = []")
  case True
  then have i: "i = 0" by (rule_tac free_at_unique [OF free]) (simp add: free_at_def table_def)
  have "srep (s\<lparr>sv_size := 10, sv_peers := map fresh_slot [0..<10], sv_count := 0\<rparr>) sd
      (replicate 10 None)"
    using s by (simp add: srep_def peers_of_def fresh_slot_rep)
  then show ?thesis using srep_size [OF s] True i by (simp add: choose_slot_def table_def)
next
  case False
  then have "None \<in> set ps" using free by (auto simp: free_at_def table_def in_set_conv_nth)
  then have "peers_of ps \<noteq> length ps" using peers_of_full [of ps] by simp
  moreover from find_free [OF False refl] \<open>None \<in> set ps\<close> obtain j where
    j: "find (\<lambda>i. ps ! i = None) [0..<length ps] = Some j" "free_at ps j" by auto
  moreover have "find_empty [0..<length ps] s = Inr (Some i)"
    using find_empty_srep [OF s, of 0 "length ps"] j free_at_unique [OF free j(2)] by simp
  moreover have "sv_size s = length ps" "sv_count s = int (peers_of ps)"
    using s by (simp_all add: srep_def)
  ultimately show ?thesis using s False by (simp add: choose_slot_def table_def)
qed

lemma claim_slot_gives:
  assumes s: "srep s sd ps" and i: "i < length ps" "ps ! i = None"
  shows "gives (bindR (get_slot i s) (\<lambda>p.
     bindR (put_slot i (p\<lparr>pr_empty := False, pr_peer := None, pr_priv := Some dd_new,
       pr_pub := Some dd_new\<rparr>) s) (\<lambda>s.
     bindR (get_slot i (s\<lparr>sv_count := sv_count s + 1\<rparr>)) (\<lambda>p.
       put_slot i (p\<lparr>pr_peer := Some e\<rparr>) (s\<lparr>sv_count := sv_count s + 1\<rparr>)))))
     (\<lambda>s'. srep s' sd (ps[i := Some (e, [], [])]) \<and> sv_log s' = sv_log s)"
proof -
  obtain p where p: "get_slot i s = Inr p" "peer_rep i p (ps ! i)" "i < length (sv_peers s)"
    using s i by (elim get_slot_full)
  show ?thesis using p
    by (simp add: put_slot_def get_slot_def)
      (rule srep_update [OF s i(1), of "p\<lparr>pr_empty := False, pr_priv := Some dd_new,
          pr_pub := Some dd_new, pr_peer := Some e\<rparr>"],
       auto simp: peer_rep_def i(2))
qed

lemma get_new_peer_choose: "get_new_peer s = bindR (choose_slot s) (\<lambda>(s, i).
     bindR (get_slot i s) (\<lambda>p.
     bindR (put_slot i (p\<lparr>pr_empty := False, pr_peer := None, pr_priv := Some dd_new,
              pr_pub := Some dd_new\<rparr>) s) (\<lambda>s.
       Inr (s\<lparr>sv_count := sv_count s + 1\<rparr>, i))))"
  by (simp add: get_new_peer_def choose_slot_def)

lemma get_new_peer_full:
  assumes "srep s sd ps" "ps \<noteq> []" "None \<notin> set ps"
  shows "get_new_peer s = Inl OutOfBounds"
  using assms peers_of_full [of ps]
  by (simp add: get_new_peer_def srep_def get_slot_def)

lemma dd_freed: "ddrep d kvs \<Longrightarrow> gives (dd_free d) (\<lambda>_. True)"
  by (auto simp: ddrep_def dd_free_def intro: gives_mono [OF dd_free_gives] dinv_length)

text \<open>A peer is taken out of the table.\<close>

lemma free_peer_gives:
  assumes s: "srep s sd ps" and i: "i < length ps" and a: "ps ! i \<noteq> None"
  shows "gives (free_peer i s) (\<lambda>s'. srep s' sd (ps[i := None]) \<and> sv_log s' = sv_log s)"
proof -
  obtain p where p: "get_slot i s = Inr p" "peer_rep i p (ps ! i)" "i < length (sv_peers s)"
    using s i by (elim get_slot_full)
  from a p(2) obtain e pub priv d d' where d: "pr_pub p = Some d" "ddrep d pub" "pr_priv p = Some d'"
    "ddrep d' priv" "pr_id p = of_nat i" by (auto simp: peer_rep_def)
  from dd_freed [OF d(2)] dd_freed [OF d(4)] obtain x y where "dd_free d = Inr x" "dd_free d' = Inr y"
    by (auto simp: gives_def)
  with p d show ?thesis
    by (simp add: free_peer_def dict_of_def put_slot_def)
      (rule srep_update [OF s i], auto simp: peer_rep_def a)
qed

lemma free_peer_twice:
  assumes s: "srep s sd ps" and i: "i < length ps" and a: "ps ! i = None"
  shows "free_peer i s = Inl Dangling"
  using s i by (elim get_slot_full [of _ _ _ i]) (auto simp: free_peer_def peer_rep_def a dict_of_def)

section \<open>The logic script\<close>

text \<open>What a script leaves: the data, the table, what it sent, and its result.\<close>

type_synonym 'p effect = "kvs \<times> 'p apeer option list \<times> 'p action list \<times> int option option"

definition endpoints :: "'p apeer option list \<Rightarrow> 'p option list" where
  "endpoints ps = map (map_option fst) ps"

text \<open>
  What is relied on of the interpreter: a script acts on the abstract state by one of the
  effects that \<open>R\<close> allows, and neither adds nor removes peers.
\<close>

definition script_ok ::
  "('t \<Rightarrow> 'p server \<Rightarrow> 'p server \<times> int option option) \<Rightarrow>
   ('t \<Rightarrow> kvs \<Rightarrow> 'p apeer option list \<Rightarrow> 'p effect \<Rightarrow> bool) \<Rightarrow> bool" where
  "script_ok jim R \<longleftrightarrow> (\<forall>t s sd ps. srep s sd ps \<longrightarrow>
     (\<exists>s' sd' ps' acts r. jim t s = (s', r) \<and> R t sd ps (sd', ps', acts, r) \<and>
        srep s' sd' ps' \<and> sv_log s' = sv_log s @ acts \<and> endpoints ps' = endpoints ps))"

lemma script_okE:
  assumes "script_ok jim R" "srep s sd ps"
  obtains s' sd' ps' acts r where "jim t s = (s', r)" "R t sd ps (sd', ps', acts, r)"
    "srep s' sd' ps'" "sv_log s' = sv_log s @ acts" "endpoints ps' = endpoints ps"
  using assms unfolding script_ok_def by blast

lemma endpoints_nth:
  assumes "endpoints ps' = endpoints ps"
  shows "length ps' = length ps" and "i < length ps \<Longrightarrow> map_option fst (ps' ! i) = map_option fst (ps ! i)"
proof -
  show l: "length ps' = length ps" using arg_cong [OF assms, of length] by (simp add: endpoints_def)
  assume "i < length ps"
  then show "map_option fst (ps' ! i) = map_option fst (ps ! i)"
    using arg_cong [OF assms, of "\<lambda>xs. xs ! i"] l by (simp add: endpoints_def)
qed

lemma endpoints_Some:
  assumes "endpoints ps' = endpoints ps" "i < length ps" "ps ! i = Some (e, pub, priv)"
  obtains pub' priv' where "i < length ps'" "ps' ! i = Some (e, pub', priv')"
  using endpoints_nth(1) [OF assms(1)] endpoints_nth(2) [OF assms(1,2)] assms(2,3) that
  by (cases "ps' ! i") auto

section \<open>Connecting and disconnecting\<close>

definition joined :: "'p \<Rightarrow> nat \<Rightarrow> 'p apeer option list \<Rightarrow> 'p apeer option list" where
  "joined e i ps = (table ps)[i := Some (e, [], [])]"

text \<open>The part of the handler that runs before the script.\<close>

lemma new_peer_gives:
  assumes s: "srep s sd ps" and free: "free_at ps i"
  obtains s1 p s2 where "get_new_peer s = Inr (s1, i)" "get_slot i s1 = Inr p"
    "put_slot i (p\<lparr>pr_peer := Some e\<rparr>) s1 = Inr s2" "srep s2 sd (joined e i ps)"
    "sv_log s2 = sv_log s"
proof -
  from choose_slot_gives [OF s free] obtain s0 where
    s0: "choose_slot s = Inr (s0, i)" "srep s0 sd (table ps)" "sv_log s0 = sv_log s"
    by (auto simp: gives_def)
  have i: "i < length (table ps)" "table ps ! i = None" using free by (auto simp: free_at_def)
  from claim_slot_gives [OF s0(2) i, of e] s0 show thesis
    by (auto simp: gives_def res_iff joined_def get_new_peer_choose intro!: that)
qed

lemma joined_nth:
  assumes "free_at ps i"
  shows "i < length (joined e i ps)" and "joined e i ps ! i = Some (e, [], [])"
  using assms by (auto simp: free_at_def joined_def)

lemma reject_gives:
  assumes s: "srep s sd ps" and i: "i < length ps" and p: "ps ! i \<noteq> None"
  shows "gives (reject_peer i e s) (\<lambda>s'. srep s' sd (ps[i := None]) \<and>
    sv_log s' = sv_log s @ [Disconnect e])"
  using free_peer_gives [of "s\<lparr>sv_log := sv_log s @ [Disconnect e]\<rparr>" sd ps i] assms
  by (simp add: reject_peer_def)

text \<open>The script accepts a peer by a result other than 0; an error is a rejection.\<close>

definition accepted :: "int option option \<Rightarrow> bool" where
  "accepted r \<longleftrightarrow> (case r of Some (Some v) \<Rightarrow> v \<noteq> 0 | _ \<Rightarrow> False)"

lemma connect_gives:
  assumes jim: "script_ok jim R" and s: "srep s sd ps" and free: "free_at ps i"
    and fits: "\<And>sd' ps' acts r. R (''on_peer_connect '' @ fmt_i (of_nat i)) sd (joined e i ps)
      (sd', ps', acts, r) \<Longrightarrow> accepted r \<Longrightarrow> ents_ok sd' ps' \<and> length (greeting i sd' ps') + 1 < dmax"
  shows "gives (handle_peer_connect jim e s) (\<lambda>(s', j). j = i \<and> (\<exists>sd' ps' acts r.
    R (''on_peer_connect '' @ fmt_i (of_nat i)) sd (joined e i ps) (sd', ps', acts, r) \<and>
    endpoints ps' = endpoints (joined e i ps) \<and>
    (if accepted r then srep s' sd' ps' \<and> sv_log s' = sv_log s @ acts @ greet_log i e sd' ps'
     else srep s' sd' (ps'[i := None]) \<and> sv_log s' = sv_log s @ acts @ [Disconnect e])))"
proof -
  from new_peer_gives [OF s free, of e] obtain s1 p s2 where
    n: "get_new_peer s = Inr (s1, i)" "get_slot i s1 = Inr p"
    "put_slot i (p\<lparr>pr_peer := Some e\<rparr>) s1 = Inr s2" "srep s2 sd (joined e i ps)"
    "sv_log s2 = sv_log s" .
  obtain s3 sd' ps' acts r where
    s3: "jim (''on_peer_connect '' @ fmt_i (of_nat i)) s2 = (s3, r)"
    "R (''on_peer_connect '' @ fmt_i (of_nat i)) sd (joined e i ps) (sd', ps', acts, r)"
    "srep s3 sd' ps'" "sv_log s3 = sv_log s2 @ acts" "endpoints ps' = endpoints (joined e i ps)"
    by (rule script_okE [OF jim, OF n(4)])
  obtain pub priv where p: "i < length ps'" "ps' ! i = Some (e, pub, priv)"
    using endpoints_Some [OF s3(5) joined_nth [OF free]] .
  show ?thesis
  proof (cases "accepted r")
    case True
    with fits [OF s3(2)] have "ents_ok sd' ps'" "length (greeting i sd' ps') + 1 < dmax" by simp_all
    then have "greet_peer i s3 = Inr (s3\<lparr>sv_log := sv_log s3 @ greet_log i e sd' ps'\<rparr>)"
      by (intro greet_peer_gives [OF s3(3) _ p])
    moreover obtain v where "r = Some (Some v)" "v \<noteq> 0"
      using True by (auto simp: accepted_def split: option.splits)
    ultimately have "handle_peer_connect jim e s =
        Inr (s3\<lparr>sv_log := sv_log s3 @ greet_log i e sd' ps'\<rparr>, i)"
      using s3(1) by (simp add: handle_peer_connect_def n)
    then show ?thesis using s3 n(5) True by auto
  next
    case False
    have "gives (reject_peer i e s3) (\<lambda>s'. srep s' sd' (ps'[i := None]) \<and>
        sv_log s' = sv_log s3 @ [Disconnect e])"
      by (rule reject_gives [OF s3(3) p(1)]) (use p(2) in simp)
    then obtain s4 where s4: "reject_peer i e s3 = Inr s4" "srep s4 sd' (ps'[i := None])"
      "sv_log s4 = sv_log s3 @ [Disconnect e]" by (rule givesE) simp
    then have "handle_peer_connect jim e s = Inr (s4, i)"
      using False s3(1) by (auto simp: handle_peer_connect_def n accepted_def split: option.splits)
    then show ?thesis using s4 s3 n(5) False by auto
  qed
qed

definition pdel :: "nat \<Rightarrow> string" where
  "pdel i = ''PDEL '' @ fmt_i (of_nat i)"

lemma srep_small: "srep s sd ps \<Longrightarrow> i < length ps \<Longrightarrow> i < 10"
  by (auto simp: srep_def)

lemma unat_id_small: "i < 10 \<Longrightarrow> unat (of_nat i :: u32) = i"
  by (simp add: unat_of_nat take_bit_nat_eq_self)

lemma disconnect_before:
  assumes jim: "script_ok jim R" and s: "srep s sd ps" and i: "i < length ps"
  obtains s2 sd' ps' acts r where "handle_peer_disconnect jim e i s = free_peer i s2" "srep s2 sd' ps'"
    "R (''on_peer_disconnect '' @ fmt_i (of_nat i)) sd ps (sd', ps', acts, r)"
    "sv_log s2 = sv_log s @ acts @ [Disconnect e] @ bcast (Some i) (pdel i) ps' (length ps')"
    "endpoints ps' = endpoints ps"
proof -
  obtain p where p: "get_slot i s = Inr p" "peer_rep i p (ps ! i)" using s i by (elim get_slot_full)
  then have id: "pr_id p = of_nat i" by (simp add: peer_rep_def)
  obtain s1 sd' ps' acts r where s1: "jim (''on_peer_disconnect '' @ fmt_i (of_nat i)) s = (s1, r)"
    "R (''on_peer_disconnect '' @ fmt_i (of_nat i)) sd ps (sd', ps', acts, r)" "srep s1 sd' ps'"
    "sv_log s1 = sv_log s @ acts" "endpoints ps' = endpoints ps"
    by (rule script_okE [OF jim, OF s])
  have "srep (s1\<lparr>sv_log := sv_log s1 @ [Disconnect e]\<rparr>) sd' ps'" using s1(3) by simp
  note b = broadcast_gives [OF this, of "Some i" "pdel i"]
  show thesis
  proof (rule that [of _ sd' ps' acts r])
    show "handle_peer_disconnect jim e i s = free_peer i
        (s1\<lparr>sv_log := sv_log s @ acts @ [Disconnect e] @ bcast (Some i) (pdel i) ps' (length ps')\<rparr>)"
      using b by (simp add: handle_peer_disconnect_def p(1) id s1(1) [simplified] s1(4) Let_def pdel_def
          unat_id_small [OF srep_small [OF s i]])
  qed (use s1 in simp_all)
qed

lemma disconnect_gives:
  assumes jim: "script_ok jim R" and s: "srep s sd ps" and i: "i < length ps" "ps ! i \<noteq> None"
  shows "gives (handle_peer_disconnect jim e i s) (\<lambda>s'. \<exists>sd' ps' acts r.
    R (''on_peer_disconnect '' @ fmt_i (of_nat i)) sd ps (sd', ps', acts, r) \<and>
    endpoints ps' = endpoints ps \<and> srep s' sd' (ps'[i := None]) \<and>
    sv_log s' = sv_log s @ acts @ [Disconnect e] @ bcast (Some i) (pdel i) ps' (length ps'))"
proof -
  obtain s2 sd' ps' acts r where s2: "handle_peer_disconnect jim e i s = free_peer i s2" "srep s2 sd' ps'"
    "R (''on_peer_disconnect '' @ fmt_i (of_nat i)) sd ps (sd', ps', acts, r)"
    "sv_log s2 = sv_log s @ acts @ [Disconnect e] @ bcast (Some i) (pdel i) ps' (length ps')"
    "endpoints ps' = endpoints ps"
    by (rule disconnect_before [OF jim, OF s, OF i(1)])
  have "i < length ps'" "ps' ! i \<noteq> None"
    using i endpoints_nth(1) [OF s2(5)] endpoints_nth(2) [OF s2(5) i(1)] by auto
  from free_peer_gives [OF s2(2) this] show ?thesis
    unfolding s2(1) by (rule gives_mono)
      (intro exI [of _ sd'] exI [of _ ps'] exI [of _ acts] exI [of _ r], use s2 in auto)
qed

text \<open>A peer that was rejected is in no slot any more; its disconnection frees it again.\<close>

lemma disconnect_rejected:
  assumes jim: "script_ok jim R" and s: "srep s sd ps" and i: "i < length ps" "ps ! i = None"
  shows "handle_peer_disconnect jim e i s = Inl Dangling"
proof -
  obtain s2 sd' ps' where s2: "handle_peer_disconnect jim e i s = free_peer i s2" "srep s2 sd' ps'"
    "endpoints ps' = endpoints ps"
    by (rule disconnect_before [OF jim, OF s, OF i(1), of e]) blast
  have "i < length ps'" "ps' ! i = None"
    using i endpoints_nth(1) [OF s2(3)] endpoints_nth(2) [OF s2(3) i(1)] by auto
  then show ?thesis using s2 free_peer_twice [of s2 sd' ps' i] by simp
qed

section \<open>Sending what changed\<close>

definition clean :: "'p apeer option \<Rightarrow> 'p apeer option" where
  "clean a = map_option (\<lambda>(e, pub, priv). (e, clear pub, priv)) a"

definition delta_peer :: "'p apeer option list \<Rightarrow> nat \<Rightarrow> string" where
  "delta_peer ps i = (case ps ! i of None \<Rightarrow> []
     | Some (e, pub, priv) \<Rightarrow> dict_text (pset_pre i) (changed pub))"

definition delta :: "kvs \<Rightarrow> 'p apeer option list \<Rightarrow> string" where
  "delta sd ps = dict_text sset_pre (changed sd) @ concat (map (delta_peer ps) [0..<length ps])"

lemma flush_peer_gives:
  assumes s: "srep s sd ps" and i: "i < length ps" and ok: "\<forall>e pub priv. ps ! i = Some (e, pub, priv) \<longrightarrow> (\<forall>kv\<in>set pub. ent_ok kv)"
    and b: "drep b t" and len: "length t + length (delta_peer ps i) + 1 < dmax"
  shows "gives (flush_peer i (s, b)) (\<lambda>(s', b'). srep s' sd (ps[i := clean (ps ! i)]) \<and>
    sv_log s' = sv_log s \<and> drep b' (t @ delta_peer ps i))"
proof -
  obtain p where p: "get_slot i s = Inr p" "peer_rep i p (ps ! i)" "i < length (sv_peers s)"
    using s i by (elim get_slot_full)
  show ?thesis
  proof (cases "ps ! i")
    case None
    then have "ps[i := None] = ps" by (metis list_update_id)
    with None p b s show ?thesis by (simp add: flush_peer_def peer_rep_def delta_peer_def clean_def)
  next
    case (Some a)
    then obtain e pub priv where a: "ps ! i = Some (e, pub, priv)" by (cases a) auto
    from p(2) a obtain d d' where d: "pr_empty p = False" "pr_id p = of_nat i" "pr_peer p = Some e"
      "pr_pub p = Some d" "ddrep d pub" "pr_priv p = Some d'" "ddrep d' priv"
      by (auto elim: peer_rep_Some)
    have "gives (flush_dict (pset_pre i) d b) (\<lambda>(d', b'). ddrep d' (clear pub) \<and>
        drep b' (t @ dict_text (pset_pre i) (changed pub)))"
      by (rule flush_dict_gives [OF d(5) b]) (use ok a len in \<open>auto simp: delta_peer_def\<close>)
    then obtain d1 b1 where d1: "flush_dict (pset_pre i) d b = Inr (d1, b1)" "ddrep d1 (clear pub)"
      "drep b1 (t @ delta_peer ps i)" using a by (auto simp: gives_def delta_peer_def)
    have "srep (s\<lparr>sv_peers := (sv_peers s)[i := p\<lparr>pr_pub := Some d1\<rparr>]\<rparr>) sd (ps[i := clean (ps ! i)])"
      by (rule srep_update [OF s i, of "p\<lparr>pr_pub := Some d1\<rparr>"])
        (use d d1 a in \<open>auto simp: peer_rep_def clean_def\<close>)
    then show ?thesis using p d d1 by (simp add: flush_peer_def dict_of_def put_slot_def)
  qed
qed

lemma flush_peers_upto:
  assumes s: "srep s sd ps" and b: "drep b t"
    and ok: "\<forall>e pub priv. Some (e, pub, priv) \<in> set ps \<longrightarrow> (\<forall>kv\<in>set pub. ent_ok kv)"
  shows "n \<le> length ps \<Longrightarrow> length t + length (concat (map (delta_peer ps) [0..<n])) + 1 < dmax \<Longrightarrow>
    gives (foldR flush_peer [0..<n] (s, b)) (\<lambda>(s', b').
      srep s' sd (map clean (take n ps) @ drop n ps) \<and> sv_log s' = sv_log s \<and>
      drep b' (t @ concat (map (delta_peer ps) [0..<n])))"
proof (induction n)
  case 0
  then show ?case using s b by simp
next
  case (Suc n)
  let ?ps = "map clean (take n ps) @ drop n ps"
  from Suc obtain s1 b1 where s1: "foldR flush_peer [0..<n] (s, b) = Inr (s1, b1)" "srep s1 sd ?ps"
    "sv_log s1 = sv_log s" "drep b1 (t @ concat (map (delta_peer ps) [0..<n]))"
    by (auto simp: gives_def)
  have n: "n < length ps" and nth: "?ps ! n = ps ! n" using Suc.prems by (simp_all add: nth_append)
  have upd: "?ps[n := clean (ps ! n)] = map clean (take (Suc n) ps) @ drop (Suc n) ps"
    using n by (simp add: list_update_append take_Suc_conv_app_nth Cons_nth_drop_Suc [symmetric])
  have dp: "delta_peer ?ps n = delta_peer ps n" by (simp add: delta_peer_def nth)
  have "gives (flush_peer n (s1, b1)) (\<lambda>(s', b'). srep s' sd (?ps[n := clean (?ps ! n)]) \<and>
      sv_log s' = sv_log s1 \<and> drep b' ((t @ concat (map (delta_peer ps) [0..<n])) @ delta_peer ?ps n))"
    by (rule flush_peer_gives [OF s1(2) _ _ s1(4)])
      (use n ok Suc.prems in \<open>auto simp: nth dp\<close>, metis n nth_mem)
  then show ?case using s1 by (simp add: nth dp upd)
qed

lemma send_modified_data_gives:
  assumes s: "srep s sd ps" and ok: "ents_ok sd ps" and len: "length (delta sd ps) + 1 < dmax"
  shows "gives (send_modified_data s) (\<lambda>s'. srep s' (clear sd) (map clean ps) \<and>
    sv_log s' = sv_log s @ bcast None (delta sd ps) ps (length ps))"
proof -
  have sd: "ddrep (sv_data s) sd" "\<forall>kv\<in>set sd. ent_ok kv" using s ok by (simp_all add: srep_def ents_ok_def)
  from flush_dict_gives [OF sd(1) dnew_drep sd(2), of sset_pre] len obtain d b where
    d: "flush_dict sset_pre (sv_data s) dnew = Inr (d, b)" "ddrep d (clear sd)"
    "drep b (dict_text sset_pre (changed sd))" by (auto simp: gives_def delta_def)
  have s1: "srep (s\<lparr>sv_data := d\<rparr>) (clear sd) ps" using s d(2) by (simp add: srep_def)
  from flush_peers_upto [OF s1 d(3), of "length ps"] ok len obtain s2 b2 where
    s2: "foldR flush_peer [0..<sv_size s] (s\<lparr>sv_data := d\<rparr>, b) = Inr (s2, b2)"
    "srep s2 (clear sd) (map clean ps)" "sv_log s2 = sv_log s" "drep b2 (delta sd ps)"
    by (auto simp: gives_def ents_ok_def delta_def srep_size [OF s])
  have "bcast None (delta sd ps) (map clean ps) (length ps) = bcast None (delta sd ps) ps (length ps)"
    unfolding bcast_def by (intro arg_cong [where f = concat] map_cong refl)
      (auto simp: clean_def split: option.splits)
  then show ?thesis using d(1) s2 packet_bytes_drep [OF s2(4)] broadcast_gives [OF s2(2)]
    by (simp add: send_modified_data_def)
qed

end
