(* ===== verification/ServerScript.thy ===== *)
theory ServerScript
  imports ServerSpec
begin

text \<open>
  The commands the logic script runs against the abstract state, and the packets that arrive:
  a command packet is split into its words, an audio packet is accepted when its header fits.
\<close>

section \<open>Setting and reading data\<close>

definition live_at :: "'p apeer option list \<Rightarrow> int \<Rightarrow> 'p apeer option" where
  "live_at ps n = (if 0 \<le> n \<and> n < int (length ps) then ps ! nat n else None)"

lemma live_gives:
  assumes "srep s sd ps"
  shows "gives (live n s) (\<lambda>r. case live_at ps n of None \<Rightarrow> r = None
    | Some a \<Rightarrow> nat n < length ps \<and> ps ! nat n = Some a \<and> r = Some (sv_peers s ! nat n) \<and>
        nat n < length (sv_peers s) \<and> peer_rep (nat n) (sv_peers s ! nat n) (Some a))"
proof (cases "0 \<le> n \<and> n < int (length ps)")
  case True
  then have i: "nat n < length ps" by (simp add: nat_less_iff)
  obtain p where p: "get_slot (nat n) s = Inr p" "peer_rep (nat n) p (ps ! nat n)"
    "nat n < length (sv_peers s)" using assms i by (elim get_slot_full)
  then have "p = sv_peers s ! nat n" by (simp add: get_slot_def)
  with True i p show ?thesis
    by (cases "ps ! nat n") (simp_all add: live_def live_at_def srep_size [OF assms] peer_rep_empty)
qed (auto simp: live_def live_at_def srep_size [OF assms])

definition scoped :: "bool \<Rightarrow> 'p apeer \<Rightarrow> kvs" where
  "scoped priv a = (if priv then snd (snd a) else fst (snd a))"

definition set_scoped :: "bool \<Rightarrow> kvs \<Rightarrow> 'p apeer \<Rightarrow> 'p apeer" where
  "set_scoped priv kvs a =
     (if priv then (fst a, fst (snd a), kvs) else (fst a, kvs, snd (snd a)))"

definition put_kv :: "string \<Rightarrow> string \<Rightarrow> kvs \<Rightarrow> kvs" where
  "put_kv k v kvs = AList.update (cstr k) (True, cstr v) kvs"

definition kv_small :: "string \<Rightarrow> string \<Rightarrow> bool" where
  "kv_small k v \<longleftrightarrow> length k < dmax \<and> length v + 1 < dmax"

lemma cmd_serverset_gives:
  assumes s: "srep s sd ps" and small: "kv_small k v"
  shows "gives (cmd_serverset [c, k, v] s) (\<lambda>(s', r). r = JIM_OK [] \<and>
    srep s' (put_kv k v sd) ps \<and> sv_log s' = sv_log s)"
proof -
  have "gives (dd_set (sv_data s) k v) (\<lambda>d'. ddrep d' (put_kv k v sd))"
    unfolding put_kv_def by (rule dd_set_gives) (use s small in \<open>auto simp: srep_def kv_small_def\<close>)
  then show ?thesis using s by (auto simp: cmd_serverset_def gives_def srep_def)
qed

lemma put_scoped:
  assumes s: "srep s sd ps" and i: "i < length ps" "ps ! i = Some a"
    and p: "peer_rep i p (Some a)" and d: "ddrep d kvs"
  shows "gives (put_slot i (if priv then p\<lparr>pr_priv := Some d\<rparr> else p\<lparr>pr_pub := Some d\<rparr>) s)
    (\<lambda>s'. srep s' sd (ps[i := Some (set_scoped priv kvs a)]) \<and> sv_log s' = sv_log s)"
proof -
  obtain e pub pri where a: "a = (e, pub, pri)" by (cases a)
  let ?q = "if priv then p\<lparr>pr_priv := Some d\<rparr> else p\<lparr>pr_pub := Some d\<rparr>"
  have q: "peer_rep i ?q (Some (set_scoped priv kvs a))"
    using p d a by (auto simp: peer_rep_def set_scoped_def)
  have "srep (s\<lparr>sv_peers := (sv_peers s)[i := ?q]\<rparr>) sd (ps[i := Some (set_scoped priv kvs a)])"
    by (rule srep_update [OF s i(1) q]) (simp_all add: i(2))
  moreover have "i < length (sv_peers s)" using s i by (simp add: srep_def)
  ultimately show ?thesis by (simp add: put_slot_def)
qed

lemma cmd_peerset_gives:
  assumes s: "srep s sd ps" and scope: "parse_scope sc = Some priv"
    and n: "getlong t = Some n" "live_at ps n = Some a" and small: "kv_small k v"
  shows "gives (cmd_peerset getlong [c, sc, t, k, v] s) (\<lambda>(s', r). r = JIM_OK [] \<and>
    srep s' sd (ps[nat n := Some (set_scoped priv (put_kv k v (scoped priv a)) a)]) \<and>
    sv_log s' = sv_log s)"
proof -
  let ?p = "sv_peers s ! nat n"
  from live_gives [OF s, of n] n(2) have
    l: "live n s = Inr (Some ?p)" "nat n < length ps" "ps ! nat n = Some a"
      "peer_rep (nat n) ?p (Some a)"
    by (auto simp: gives_def)
  obtain e pub pri where a: "a = (e, pub, pri)" by (cases a)
  from l(4) a obtain d d' where d: "pr_pub ?p = Some d" "ddrep d pub" "pr_priv ?p = Some d'"
    "ddrep d' pri" by (auto elim: peer_rep_Some)
  let ?d = "if priv then d' else d"
  have "gives (dd_set ?d k v) (\<lambda>d'. ddrep d' (put_kv k v (scoped priv a)))"
    unfolding put_kv_def by (rule dd_set_gives) (use d small a in \<open>auto simp: kv_small_def scoped_def\<close>)
  then obtain d1 where d1: "dd_set ?d k v = Inr d1" "ddrep d1 (put_kv k v (scoped priv a))"
    by (rule givesE)
  from put_scoped [OF s l(2,3,4) d1(2), of priv] d1(1) d show ?thesis
    by (cases priv) (auto simp: cmd_peerset_def scope n(1) l(1) dict_of_def gives_def)
qed

definition read_kv :: "string \<Rightarrow> kvs \<Rightarrow> string" where
  "read_kv k kvs = (case map_of kvs (cstr k) of None \<Rightarrow> [] | Some v \<Rightarrow> snd v)"

lemma read_put: "read_kv k (put_kv k' v kvs) = (if cstr k = cstr k' then cstr v else read_kv k kvs)"
  by (simp add: read_kv_def put_kv_def update_conv')

lemma cmd_peerget_gives:
  assumes s: "srep s sd ps" and scope: "parse_scope sc = Some priv"
    and n: "getlong t = Some n" "live_at ps n = Some a" and small: "length k < dmax"
  shows "cmd_peerget getlong [c, sc, t, k] s = Inr (JIM_OK (read_kv k (scoped priv a)))"
proof -
  let ?p = "sv_peers s ! nat n"
  from live_gives [OF s, of n] n(2) have
    l: "live n s = Inr (Some ?p)" "peer_rep (nat n) ?p (Some a)" by (auto simp: gives_def)
  obtain e pub pri where a: "a = (e, pub, pri)" by (cases a)
  from l(2) a obtain d d' where d: "pr_pub ?p = Some d" "ddrep d pub" "pr_priv ?p = Some d'"
    "ddrep d' pri" by (auto elim: peer_rep_Some)
  have "gives (dd_get (if priv then d' else d) k)
      (\<lambda>(b, n). peeks b 0 (unat n) = Inr (read_kv k (scoped priv a)))"
    unfolding read_kv_def by (rule dd_get_gives) (use d a small in \<open>auto simp: scoped_def\<close>)
  with d show ?thesis
    by (cases priv) (auto simp: cmd_peerget_def scope n(1) l(1) dict_of_def gives_def result_string_def)
qed

lemma cmd_serverget_gives:
  assumes s: "srep s sd ps" and small: "length k < dmax"
  shows "cmd_serverget [c, k] s = Inr (JIM_OK (read_kv k sd))"
proof -
  have "gives (dd_get (sv_data s) k) (\<lambda>(b, n). peeks b 0 (unat n) = Inr (read_kv k sd))"
    unfolding read_kv_def by (rule dd_get_gives) (use s small in \<open>auto simp: srep_def\<close>)
  then show ?thesis by (auto simp: cmd_serverget_def gives_def result_string_def)
qed

lemma cmd_peers_list_gives:
  assumes s: "srep s sd ps"
  shows "cmd_peers_list argv s = Inr (filter (\<lambda>i. ps ! i \<noteq> None) [0..<length ps])"
proof -
  have "n \<le> length ps \<Longrightarrow> foldR (\<lambda>i ids. bindR (get_slot i s) (\<lambda>p.
      Inr (if pr_empty p then ids else ids @ [i]))) [0..<n] [] =
      Inr (filter (\<lambda>i. ps ! i \<noteq> None) [0..<n])" for n
  proof (induction n)
    case (Suc n)
    obtain p where "get_slot n s = Inr p" "peer_rep n p (ps ! n)"
      using s Suc.prems by (elim get_slot_full [of _ _ _ n]) auto
    then show ?case using Suc by (simp add: peer_rep_empty)
  qed simp
  from this [of "length ps"] show ?thesis by (simp add: cmd_peers_list_def srep_size [OF s])
qed

section \<open>Sending\<close>

lemma live_sends:
  assumes s: "srep s sd ps" and n: "live_at ps n = Some (e, x)"
  obtains p where "live n s = Inr (Some p)" "pr_peer p = Some e" "nat n < length ps" "ps ! nat n = Some (e, x)"
  using live_gives [OF s, of n] n by (auto simp: gives_def peer_rep_def split: prod.splits)

lemma live_none: "srep s sd ps \<Longrightarrow> live_at ps n = None \<Longrightarrow> live n s = Inr None"
  using live_gives [of s sd ps n] by (auto simp: gives_def)

lemma cmd_sendmsg_gives:
  assumes s: "srep s sd ps" and n: "getlong t = Some n" "live_at ps n = Some (e, x)"
  shows "cmd_sendmsg getlong [c, t, msg] s = Inr (s\<lparr>sv_log := sv_log s @ [Send e 0 msg]\<rparr>, JIM_OK [])"
proof -
  obtain p where "live n s = Inr (Some p)" "pr_peer p = Some e" by (rule live_sends [OF s n(2)])
  then show ?thesis using n(1) by (simp add: cmd_sendmsg_def send_def)
qed

lemma cmd_sendaudio_gives:
  assumes s: "srep s sd ps" and n: "getlong t = Some n" "live_at ps n = Some (e, x)"
  shows "cmd_sendaudio getlong [c, t] s = Inr (case sv_audio s of
    None \<Rightarrow> (s, JIM_ERR ''sendaudio: no audio packet available'')
  | Some data \<Rightarrow> (s\<lparr>sv_log := sv_log s @ [Send e 1 data]\<rparr>, JIM_OK []))"
proof -
  obtain p where "live n s = Inr (Some p)" "pr_peer p = Some e" by (rule live_sends [OF s n(2)])
  then show ?thesis using n(1) by (simp add: cmd_sendaudio_def send_def split: option.split)
qed

section \<open>A script as a sequence of commands\<close>

text \<open>The data a script sets must fit the packets; \<open>ok\<close> tells which texts it may send.\<close>

definition kv_fits :: "string \<Rightarrow> string \<Rightarrow> bool" where
  "kv_fits k v \<longleftrightarrow> kv_small k v \<and> ent_ok (cstr k, True, cstr v)"

inductive commands ::
  "(string \<Rightarrow> int option) \<Rightarrow> (string \<Rightarrow> bool) \<Rightarrow> 'p server \<Rightarrow> 'p server \<Rightarrow> bool"
  for getlong ok s where
  none: "commands getlong ok s s"
| serverset: "commands getlong ok s s1 \<Longrightarrow> cmd_serverset argv s1 = Inr (s2, r) \<Longrightarrow>
    length argv = 3 \<longrightarrow> kv_fits (argv ! 1) (argv ! 2) \<Longrightarrow> commands getlong ok s s2"
| peerset: "commands getlong ok s s1 \<Longrightarrow> cmd_peerset getlong argv s1 = Inr (s2, r) \<Longrightarrow>
    length argv = 5 \<longrightarrow> kv_fits (argv ! 3) (argv ! 4) \<Longrightarrow> commands getlong ok s s2"
| sendaudio: "commands getlong ok s s1 \<Longrightarrow> cmd_sendaudio getlong argv s1 = Inr (s2, r) \<Longrightarrow>
    commands getlong ok s s2"
| sendmsg: "commands getlong ok s s1 \<Longrightarrow> cmd_sendmsg getlong argv s1 = Inr (s2, r) \<Longrightarrow>
    length argv = 3 \<longrightarrow> ok (argv ! 2) \<Longrightarrow> commands getlong ok s s2"

inductive acts_on :: "(string \<Rightarrow> bool) \<Rightarrow> kvs \<Rightarrow> 'p apeer option list \<Rightarrow> kvs \<Rightarrow>
  'p apeer option list \<Rightarrow> 'p action list \<Rightarrow> bool" for ok sd ps where
  a_none: "acts_on ok sd ps sd ps []"
| a_server: "acts_on ok sd ps sd' ps' acts \<Longrightarrow> kv_fits k v \<Longrightarrow>
    acts_on ok sd ps (put_kv k v sd') ps' acts"
| a_peer: "acts_on ok sd ps sd' ps' acts \<Longrightarrow> i < length ps' \<Longrightarrow> ps' ! i = Some a \<Longrightarrow> kv_fits k v \<Longrightarrow>
    acts_on ok sd ps sd' (ps'[i := Some (set_scoped priv (put_kv k v (scoped priv a)) a)]) acts"
| a_audio: "acts_on ok sd ps sd' ps' acts \<Longrightarrow> i < length ps' \<Longrightarrow> ps' ! i = Some (e, x) \<Longrightarrow>
    acts_on ok sd ps sd' ps' (acts @ [Send e 1 data])"
| a_msg: "acts_on ok sd ps sd' ps' acts \<Longrightarrow> i < length ps' \<Longrightarrow> ps' ! i = Some (e, x) \<Longrightarrow> ok msg \<Longrightarrow>
    acts_on ok sd ps sd' ps' (acts @ [Send e 0 msg])"

lemma length_3: "length xs = 3 \<longleftrightarrow> (\<exists>a b c. xs = [a, b, c])"
  by (auto simp: numeral_3_eq_3 length_Suc_conv)

lemma length_5: "length xs = 5 \<longleftrightarrow> (\<exists>a b c d e. xs = [a, b, c, d, e])"
  by (auto simp: eval_nat_numeral length_Suc_conv)

lemma length_2: "length xs = 2 \<longleftrightarrow> (\<exists>a b. xs = [a, b])"
  by (auto simp: numeral_2_eq_2 length_Suc_conv)

definition effect_of :: "(string \<Rightarrow> bool) \<Rightarrow> kvs \<Rightarrow> 'p apeer option list \<Rightarrow> 'p action list \<Rightarrow>
  'p server \<Rightarrow> bool" where
  "effect_of ok sd ps l s' \<longleftrightarrow> (\<exists>sd' ps' acts. acts_on ok sd ps sd' ps' acts \<and> srep s' sd' ps' \<and>
     sv_log s' = l @ acts)"

lemma serverset_effect:
  assumes "cmd_serverset argv s = Inr (s2, r)" "length argv = 3 \<longrightarrow> kv_fits (argv ! 1) (argv ! 2)"
    and a: "acts_on ok sd ps sd' ps' acts" "srep s sd' ps'" "sv_log s = l @ acts"
  shows "effect_of ok sd ps l s2"
proof (cases "length argv = 3")
  case True
  then obtain c k v where argv: "argv = [c, k, v]" by (auto simp: length_3)
  with assms(2) have "kv_fits k v" "kv_small k v" by (simp_all add: kv_fits_def)
  from cmd_serverset_gives [OF a(2) this(2), of c] assms(1) a_server [OF a(1) this(1)] a(3) argv
  show ?thesis by (auto simp: effect_of_def)
next
  case False
  then have "s2 = s" using assms(1) by (simp add: cmd_serverset_def)
  then show ?thesis using a by (auto simp: effect_of_def)
qed

lemma peerset_effect:
  assumes "cmd_peerset getlong argv s = Inr (s2, r)" "length argv = 5 \<longrightarrow> kv_fits (argv ! 3) (argv ! 4)"
    and a: "acts_on ok sd ps sd' ps' acts" "srep s sd' ps'" "sv_log s = l @ acts"
  shows "effect_of ok sd ps l s2"
proof (cases "\<exists>c sc t k v priv n x. argv = [c, sc, t, k, v] \<and> parse_scope sc = Some priv \<and>
    getlong t = Some n \<and> live_at ps' n = Some x")
  case True
  then obtain c sc t k v priv n x where p: "argv = [c, sc, t, k, v]" "parse_scope sc = Some priv"
    "getlong t = Some n" "live_at ps' n = Some x" by blast
  with assms(2) have kv: "kv_fits k v" "kv_small k v" by (simp_all add: kv_fits_def)
  have n: "nat n < length ps'" "ps' ! nat n = Some x"
    using p(4) by (auto simp: live_at_def split: if_splits)
  from cmd_peerset_gives [OF a(2), where getlong = getlong and t = t, OF p(2) p(3) p(4) kv(2), of c]
    assms(1) p(1) have "srep s2 sd' (ps'[nat n := Some (set_scoped priv (put_kv k v (scoped priv x)) x)])"
    "sv_log s2 = sv_log s" by auto
  with a_peer [OF a(1) n kv(1), of priv] a(3) show ?thesis by (auto simp: effect_of_def)
next
  case False
  have "s2 = s"
  proof (cases "length argv = 5")
    case True
    then obtain c sc t k v where argv: "argv = [c, sc, t, k, v]" by (auto simp: length_5)
    then consider "parse_scope sc = None" | "getlong t = None"
      | n where "getlong t = Some n" "live_at ps' n = None" using False by fast
    then show ?thesis using assms(1) live_none [OF a(2)] unfolding argv cmd_peerset_def
      by cases (auto split: option.splits)
  qed (use assms(1) in \<open>simp add: cmd_peerset_def\<close>)
  then show ?thesis using a by (auto simp: effect_of_def)
qed

text \<open>A message or an audio packet goes to a peer of the table, or nowhere.\<close>

lemma sent_effect:
  assumes a: "acts_on ok sd ps sd' ps' acts" "srep s sd' ps'" "sv_log s = l @ acts"
    and i: "i < length ps'" "ps' ! i = Some (e, x)" and ch: "ch = 1 \<or> ch = 0 \<and> ok data"
  shows "effect_of ok sd ps l (s\<lparr>sv_log := sv_log s @ [Send e ch data]\<rparr>)"
  using ch a_audio [OF a(1) i, of data] a_msg [OF a(1) i, of data] a(2,3)
  by (auto simp: effect_of_def)

lemma no_effect:
  "acts_on ok sd ps sd' ps' acts \<Longrightarrow> srep s sd' ps' \<Longrightarrow> sv_log s = l @ acts \<Longrightarrow> effect_of ok sd ps l s"
  by (auto simp: effect_of_def)

lemma live_at_cases:
  assumes "srep s sd ps"
  obtains "live n s = Inr None" | p e x where "live n s = Inr (Some p)" "pr_peer p = Some e"
    "nat n < length ps" "ps ! nat n = Some (e, x)"
proof (cases "live_at ps n")
  case None
  with live_none [OF assms] that(1) show ?thesis by blast
next
  case (Some a)
  then obtain e x where "live_at ps n = Some (e, x)" by (cases a) auto
  from live_sends [OF assms this] that(2) show ?thesis by metis
qed

lemma sendaudio_effect:
  assumes c: "cmd_sendaudio getlong argv s = Inr (s2, r)"
    and a: "acts_on ok sd ps sd' ps' acts" "srep s sd' ps'" "sv_log s = l @ acts"
  shows "effect_of ok sd ps l s2"
proof (cases "s2 = s")
  case False
  then have "length argv = 2" using c by (auto simp: cmd_sendaudio_def split: if_splits)
  with c False obtain n where n: "getlong (argv ! 1) = Some n"
    by (cases "getlong (argv ! 1)") (auto simp: cmd_sendaudio_def)
  from live_at_cases [OF a(2), of n] show ?thesis
  proof cases
    case (2 p e x)
    with c False n \<open>length argv = 2\<close> obtain data where
      "s2 = s\<lparr>sv_log := sv_log s @ [Send e 1 data]\<rparr>"
      by (auto simp: cmd_sendaudio_def send_def split: option.splits)
    then show ?thesis using sent_effect [OF a 2(3,4), of 1] by simp
  qed (use c False n \<open>length argv = 2\<close> in \<open>simp add: cmd_sendaudio_def\<close>)
qed (use no_effect [OF a] in simp)

lemma sendmsg_effect:
  assumes c: "cmd_sendmsg getlong argv s = Inr (s2, r)" "length argv = 3 \<longrightarrow> ok (argv ! 2)"
    and a: "acts_on ok sd ps sd' ps' acts" "srep s sd' ps'" "sv_log s = l @ acts"
  shows "effect_of ok sd ps l s2"
proof (cases "s2 = s")
  case False
  then have l: "length argv = 3" using c(1) by (auto simp: cmd_sendmsg_def split: if_splits)
  with c(1) False obtain n where n: "getlong (argv ! 1) = Some n"
    by (cases "getlong (argv ! 1)") (auto simp: cmd_sendmsg_def)
  from live_at_cases [OF a(2), of n] show ?thesis
  proof cases
    case (2 p e x)
    with c(1) n l have "s2 = s\<lparr>sv_log := sv_log s @ [Send e 0 (argv ! 2)]\<rparr>"
      by (auto simp: cmd_sendmsg_def send_def)
    then show ?thesis using sent_effect [OF a 2(3,4), of 0] c(2) l by simp
  qed (use c(1) False n l in \<open>simp add: cmd_sendmsg_def\<close>)
qed (use no_effect [OF a] in simp)

lemma commands_effect:
  assumes "commands getlong ok s s'" "srep s sd ps"
  shows "effect_of ok sd ps (sv_log s) s'"
  using assms(1)
proof induction
  case none
  then show ?case using assms(2) a_none [of ok sd ps] by (fastforce simp: effect_of_def)
next
  case (serverset s1 argv s2 r)
  then show ?case by (auto simp: effect_of_def [of _ _ _ _ s1] intro: serverset_effect)
next
  case (peerset s1 argv s2 r)
  then show ?case by (auto simp: effect_of_def [of _ _ _ _ s1] intro: peerset_effect)
next
  case (sendaudio s1 argv s2 r)
  then show ?case by (auto simp: effect_of_def [of _ _ _ _ s1] intro: sendaudio_effect)
next
  case (sendmsg s1 argv s2 r)
  then show ?case by (auto simp: effect_of_def [of _ _ _ _ s1] intro: sendmsg_effect)
qed

lemma acts_on_endpoints: "acts_on ok sd ps sd' ps' acts \<Longrightarrow> endpoints ps' = endpoints ps"
proof (induction rule: acts_on.induct)
  case (a_peer sd' ps' acts i a k v priv)
  have "fst (set_scoped priv (put_kv k v (scoped priv a)) a) = fst a" by (simp add: set_scoped_def)
  moreover have "(endpoints ps')[i := Some (fst a)] = endpoints ps'"
    using a_peer.hyps(2,3) list_update_id [of "endpoints ps'" i] by (simp add: endpoints_def)
  ultimately show ?case using a_peer.IH by (simp add: endpoints_def map_update)
qed simp_all

text \<open>The interpreter runs commands, and only commands.\<close>

definition by_commands ::
  "(string \<Rightarrow> int option) \<Rightarrow> (string \<Rightarrow> bool) \<Rightarrow> ('t \<Rightarrow> 'p server \<Rightarrow> 'p server \<times> int option option) \<Rightarrow> bool" where
  "by_commands getlong ok jim \<longleftrightarrow> (\<forall>t s. commands getlong ok s (fst (jim t s)))"

lemma by_commands_ok:
  fixes jim :: "'t \<Rightarrow> 'b server \<Rightarrow> 'b server \<times> int option option"
  assumes "by_commands getlong ok jim"
  shows "script_ok jim (\<lambda>t sd ps (sd', ps', acts, r). acts_on ok sd ps sd' ps' acts)"
  unfolding script_ok_def
proof (intro allI impI)
  fix t and s :: "'b server" and sd and ps :: "'b apeer option list"
  assume "srep s sd ps"
  moreover have "commands getlong ok s (fst (jim t s))" using assms by (simp add: by_commands_def)
  ultimately have "effect_of ok sd ps (sv_log s) (fst (jim t s))" by (rule commands_effect [rotated])
  then show "\<exists>s' sd' ps' acts r. jim t s = (s', r) \<and> (case (sd', ps', acts, r) of
      (sd', ps', acts, r) \<Rightarrow> acts_on ok sd ps sd' ps' acts) \<and> srep s' sd' ps' \<and>
      sv_log s' = sv_log s @ acts \<and> endpoints ps' = endpoints ps"
    using acts_on_endpoints by (cases "jim t s") (fastforce simp: effect_of_def)
qed

section \<open>Packets that arrive\<close>

lemma args_fold:
  "list_all2 (drept t) strs xs \<Longrightarrow>
   fold_seq (\<lambda>args str more. bindR (packet_bytes str) (\<lambda>x. Inr (args @ [x]))) args strs =
   Inr (args @ xs)"
proof (induction strs xs arbitrary: args rule: list_all2_induct)
  case (Cons str strs x xs)
  then have "packet_bytes str = Inr x" by (simp add: packet_bytes_drep drept_def)
  with Cons.IH show ?case by simp
qed simp

lemma args_loop:
  assumes l: "dlrep t l xs"
  shows "fold_from (\<lambda>args str more. bindR (packet_bytes str) (\<lambda>x. Inr (args @ [x])))
    l (lbrk l) [] (lfront l) = Inr xs"
proof -
  from l obtain ss where ss: "lrep l ss" "list_all2 (drept t) ss xs" by (auto simp: dlrep_def)
  show ?thesis unfolding fold_from_lrep [OF ss(1)] using args_fold [OF ss(2)] by simp
qed

lemma input_command_lexed:
  assumes slot: "slot < length (sv_peers s)" and fits: "lex_fits data" "length data < dmax"
  shows "handle_packet_input_command jimv slot data s =
    (case snd (lex data) of None \<Rightarrow> Inl NullDeref | Some ws \<Rightarrow> Inr (fst (jimv ws s)))"
proof -
  have "gives (dfrommem (map Some data) 0 (of_nat (length data)))
      (\<lambda>str. dholds data str \<and> dcap str = (length data div 64 + 1) * 64)"
    by (rule dfrommem_gives) (use fits(2) in \<open>auto simp: unat_of_nat take_bit_nat_eq_self\<close>)
  then obtain src where src: "dfrommem (map Some data) 0 (of_nat (length data)) = Inr src"
    "drep src data" by (rule givesE) (auto simp: dholds_def)
  from dstrlex_parse_gives [OF src(2) fits(1)] obtain code r where
    r: "dstrlex_parse src = Inr (code, r)" "lex_result (lex data) (code, r)"
    by (auto simp: gives_def)
  show ?thesis
  proof (cases "snd (lex data)")
    case None
    then show ?thesis using r src slot
      by (simp add: handle_packet_input_command_def get_slot_def lex_result_def)
  next
    case (Some ws)
    with r(2) obtain l where l: "r = Some l" "dlrep (first_ok ws) l ws"
      by (auto simp: lex_result_def)
    from dlist_free_gives [OF l(2)] obtain l' where "dlist_free l = Inr l'" by (rule givesE)
    then show ?thesis using r src slot Some l args_loop [OF l(2)]
      by (simp add: handle_packet_input_command_def get_slot_def)
  qed
qed

end
