(* ===== verification/Client.thy ===== *)
theory Client
  imports Dsdict Lexer LibSvc Decimal Wire
begin

text \<open>
  The voice chat client (\<open>src/network/svcenet/client/main.c\<close>): its connection, the table
  of the peers it was told of, the commands of the server and of the user, and the audio it
  sends and receives.  What it prints on the standard output is kept, as lines; what it
  prints on the standard error is not.
\<close>

section \<open>State\<close>

text \<open>A pointer to one of ENet's objects.\<close>

datatype hptr = HNull | HLive | HFreed

datatype cstate = DISCONNECTED | CONNECTING | CONNECTED

text \<open>A pointer to a dictionary that cannot be followed is the fault of following it.\<close>

record cpeer =
  cp_connected :: bool
  cp_id :: u32
  cp_data :: "dsdict res"
  cp_peer :: "nat option"

text \<open>\<open>cl_sent\<close> is what was given to \<open>enet_peer_send\<close>: the channel and the bytes.\<close>

record ('a, 'd) client =
  cl_state :: cstate
  cl_host :: hptr
  cl_client :: hptr
  cl_name :: dstring
  cl_addr :: dstring
  cl_port :: u32
  cl_info :: "dsdict res"
  cl_my_id :: u32
  cl_peers :: "cpeer list"
  cl_size :: u32
  cl_muted :: int
  cl_deafen :: int
  cl_svc :: "('a, 'd) svc_in"
  cl_out :: "string list"
  cl_sent :: "(nat \<times> string) list"

definition no_id :: u32 where "no_id = - 1"

definition init_client_state :: "('a, 'd) svc_in \<Rightarrow> ('a, 'd) client" where
  "init_client_state svc =
     \<lparr>cl_state = DISCONNECTED, cl_host = HNull, cl_client = HNull, cl_name = dnew, cl_addr = dnew,
      cl_port = 0, cl_info = Inl NullDeref, cl_my_id = no_id, cl_peers = [], cl_size = 0,
      cl_muted = 0, cl_deafen = 0, cl_svc = svc, cl_out = [], cl_sent = []\<rparr>"

text \<open>A \<open>char*\<close> into a block, read up to the terminating zero.\<close>

fun read_cs :: "block \<Rightarrow> string res" where
  "read_cs [] = Inl OutOfBounds"
| "read_cs (None # b) = Inl Uninit"
| "read_cs (Some c # b) = (if c = nul then Inr [] else bindR (read_cs b) (\<lambda>s. Inr (c # s)))"

text \<open>\<open>argv[i]\<close>, followed.\<close>

definition arg :: "dvec \<Rightarrow> nat \<Rightarrow> dstring res" where
  "arg argv i =
     (if i < length argv then
        (case argv ! i of None \<Rightarrow> Inl Uninit | Some None \<Rightarrow> Inl NullDeref | Some (Some s) \<Rightarrow> Inr s)
      else Inl OutOfBounds)"

definition print_line :: "string \<Rightarrow> ('a, 'd) client \<Rightarrow> ('a, 'd) client" where
  "print_line t cl = cl\<lparr>cl_out := cl_out cl @ [t]\<rparr>"

text \<open>\<open>fprintf(stdout, "%s\n", cmd->data)\<close>\<close>

definition echo_cmd :: "dstring \<Rightarrow> ('a, 'd) client \<Rightarrow> ('a, 'd) client res" where
  "echo_cmd cmd cl = bindR (read_cs (ddata cmd)) (\<lambda>t. Inr (print_line t cl))"

definition get_cpeer :: "nat \<Rightarrow> ('a, 'd) client \<Rightarrow> cpeer res" where
  "get_cpeer i cl = (if i < length (cl_peers cl) then Inr (cl_peers cl ! i) else Inl OutOfBounds)"

definition put_cpeer :: "nat \<Rightarrow> cpeer \<Rightarrow> ('a, 'd) client \<Rightarrow> ('a, 'd) client res" where
  "put_cpeer i p cl =
     (if i < length (cl_peers cl) then Inr (cl\<lparr>cl_peers := (cl_peers cl)[i := p]\<rparr>)
      else Inl OutOfBounds)"

section \<open>The commands of the server\<close>

definition decode_peer_id :: "dstring \<Rightarrow> u32 res" where
  "decode_peer_id s = bindR (read_cs (ddata s)) (\<lambda>t. Inr (word_of_int (atoi t)))"

definition scmd_sset :: "dstring \<Rightarrow> u32 \<Rightarrow> dvec \<Rightarrow> ('a, 'd) client \<Rightarrow> ('a, 'd) client res" where
  "scmd_sset cmd argc argv cl =
     (if argc \<noteq> 3 then Inr cl
      else
        bindR (arg argv 1) (\<lambda>k. bindR (read_cs (ddata k)) (\<lambda>key. bindR (arg argv 2) (\<lambda>v.
        bindR (cl_info cl) (\<lambda>d. bindR (dsdict_set d key v) (\<lambda>d.
        echo_cmd cmd (cl\<lparr>cl_info := Inr d\<rparr>)))))))"

definition scmd_yare :: "dstring \<Rightarrow> u32 \<Rightarrow> dvec \<Rightarrow> ('a, 'd) client \<Rightarrow> ('a, 'd) client res" where
  "scmd_yare cmd argc argv cl =
     (if argc \<noteq> 2 then Inr cl
      else bindR (arg argv 1) (\<lambda>s. bindR (decode_peer_id s) (\<lambda>i.
        echo_cmd cmd (cl\<lparr>cl_my_id := i\<rparr>))))"

definition fresh_cpeer :: "nat \<Rightarrow> cpeer" where
  "fresh_cpeer i =
     \<lparr>cp_connected = False, cp_id = of_nat i, cp_data = Inl NullDeref, cp_peer = None\<rparr>"

text \<open>
  The table grows to hold \<open>peer_id\<close>.  \<open>peer_id + 1\<close> wraps to 0 for the peer -1; copying a
  table into the empty block of this case runs over its end.
\<close>

definition enlarge_peers :: "u32 \<Rightarrow> ('a, 'd) client \<Rightarrow> ('a, 'd) client res" where
  "enlarge_peers peer_id cl =
     (let n = peer_id + 1 in
      if cl_size cl = 0 then
        Inr (cl\<lparr>cl_size := n, cl_peers := map fresh_cpeer [0..<unat n]\<rparr>)
      else if cl_size cl \<le> peer_id then
        (if unat n < unat (cl_size cl) then Inl OutOfBounds
         else Inr (cl\<lparr>cl_size := n, cl_peers := take (unat (cl_size cl)) (cl_peers cl) @
                map fresh_cpeer [unat (cl_size cl)..<unat n]\<rparr>))
      else Inr cl)"

text \<open>\<open>d0\<close> is the decoder that \<open>svc_decoder_create\<close> returns.\<close>

definition scmd_padd :: "'d \<Rightarrow> dstring \<Rightarrow> u32 \<Rightarrow> dvec \<Rightarrow> ('a, 'd) client \<Rightarrow> ('a, 'd) client res" where
  "scmd_padd d0 cmd argc argv cl =
     (if argc \<noteq> 2 then bindR (read_cs (ddata cmd)) (\<lambda>_. Inr cl)
      else
        bindR (arg argv 1) (\<lambda>s. bindR (decode_peer_id s) (\<lambda>peer_id.
        bindR (enlarge_peers peer_id cl) (\<lambda>cl.
        bindR (get_cpeer (unat peer_id) cl) (\<lambda>p.
        let p = p\<lparr>cp_connected := True, cp_data := Inr dsdict_new\<rparr> in
        bindR (if peer_id = cl_my_id cl then put_cpeer (unat peer_id) (p\<lparr>cp_peer := None\<rparr>) cl
               else bindR (svc_peer_join d0 (cl_svc cl)) (\<lambda>(svc, a).
                 put_cpeer (unat peer_id) (p\<lparr>cp_peer := Some a\<rparr>) (cl\<lparr>cl_svc := svc\<rparr>))) (\<lambda>cl.
        echo_cmd cmd cl))))))"

text \<open>\<open>dsdict_free\<close> leaves the pointer dangling.\<close>

definition scmd_pdel :: "dstring \<Rightarrow> u32 \<Rightarrow> dvec \<Rightarrow> ('a, 'd) client \<Rightarrow> ('a, 'd) client res" where
  "scmd_pdel cmd argc argv cl =
     (if argc \<noteq> 2 then Inr cl
      else
        bindR (arg argv 1) (\<lambda>s. bindR (decode_peer_id s) (\<lambda>peer_id.
        if cl_size cl \<le> peer_id then Inr cl
        else
          bindR (get_cpeer (unat peer_id) cl) (\<lambda>p.
          bindR (case cp_peer p of None \<Rightarrow> Inr (cl_svc cl)
                 | Some a \<Rightarrow> bindR (svc_peer_leave a (cl_svc cl)) (\<lambda>(svc, _). Inr svc)) (\<lambda>svc.
          bindR (cp_data p) (\<lambda>d. bindR (dsdict_free d) (\<lambda>_.
          bindR (put_cpeer (unat peer_id) (p\<lparr>cp_connected := False, cp_data := Inl Dangling\<rparr>)
              (cl\<lparr>cl_svc := svc\<rparr>)) (\<lambda>cl.
          echo_cmd cmd cl)))))))) "

definition scmd_pset :: "dstring \<Rightarrow> u32 \<Rightarrow> dvec \<Rightarrow> ('a, 'd) client \<Rightarrow> ('a, 'd) client res" where
  "scmd_pset cmd argc argv cl =
     (if argc \<noteq> 4 then Inr cl
      else
        bindR (arg argv 1) (\<lambda>s. bindR (decode_peer_id s) (\<lambda>peer_id.
        if cl_size cl \<le> peer_id then Inr cl
        else
          bindR (get_cpeer (unat peer_id) cl) (\<lambda>p.
          bindR (arg argv 2) (\<lambda>k. bindR (read_cs (ddata k)) (\<lambda>key. bindR (arg argv 3) (\<lambda>v.
          bindR (cp_data p) (\<lambda>d. bindR (dsdict_set d key v) (\<lambda>d.
          bindR (put_cpeer (unat peer_id) (p\<lparr>cp_data := Inr d\<rparr>) cl) (\<lambda>cl.
          echo_cmd cmd cl)))))))))) "

definition scmd_mesg :: "dstring \<Rightarrow> u32 \<Rightarrow> dvec \<Rightarrow> ('a, 'd) client \<Rightarrow> ('a, 'd) client res" where
  "scmd_mesg cmd argc argv cl = (if argc \<noteq> 2 then Inr cl else echo_cmd cmd cl)"

text \<open>\<open>dcmpcs(argv[0], ...)\<close>, one after the other, up to the first that fits.\<close>

fun select_cmd :: "dstring \<Rightarrow> string list \<Rightarrow> string option res" where
  "select_cmd a [] = Inr None"
| "select_cmd a (c # cs) =
     bindR (dcmpcs a c) (\<lambda>r. if r = 0 then Inr (Some c) else select_cmd a cs)"

definition handle_server_decoded_msg ::
  "'d \<Rightarrow> dstring \<Rightarrow> ('a, 'd) client \<Rightarrow> ('a, 'd) client res" where
  "handle_server_decoded_msg d0 string cl =
     bindR (dstrlex_parse string) (\<lambda>(code, words).
     case words of
       None \<Rightarrow> Inr cl
     | Some l \<Rightarrow>
         let argc = ucast (lsize l) in
         bindR (dlist_tovector l) (\<lambda>argv. bindR (dlist_free l) (\<lambda>_.
         bindR (arg argv 0) (\<lambda>a.
         bindR (select_cmd a [''SSET'', ''YARE'', ''PADD'', ''PDEL'', ''PSET'', ''MESG'']) (\<lambda>c.
           if c = Some ''SSET'' then scmd_sset string argc argv cl
           else if c = Some ''YARE'' then scmd_yare string argc argv cl
           else if c = Some ''PADD'' then scmd_padd d0 string argc argv cl
           else if c = Some ''PDEL'' then scmd_pdel string argc argv cl
           else if c = Some ''PSET'' then scmd_pset string argc argv cl
           else if c = Some ''MESG'' then scmd_mesg string argc argv cl
           else bindR (read_cs (ddata a)) (\<lambda>_. Inr cl))))))"

text \<open>\<open>None\<close> is -1.\<close>

definition mempos :: "string \<Rightarrow> char \<Rightarrow> nat \<Rightarrow> nat option" where
  "mempos data ch start = find (\<lambda>i. data ! i = ch) [start..<length data]"

lemma mempos_Some: "mempos data ch start = Some i \<Longrightarrow> start \<le> i \<and> i < length data"
  by (auto simp: mempos_def find_Some_iff)

text \<open>The loop of \<open>handle_server_msg\<close>: the lines of the packet, each closed by a newline.\<close>

function msg_from :: "'d \<Rightarrow> string \<Rightarrow> nat \<Rightarrow> ('a, 'd) client \<Rightarrow> ('a, 'd) client res" where
  "msg_from d0 data prev cl =
     (case mempos data (CHR 0x0A) prev of
        None \<Rightarrow> Inr cl
      | Some pos \<Rightarrow>
          bindR (if prev < pos then
                   bindR (dfrommem (map Some data) prev (of_nat (pos - prev))) (\<lambda>packet_str.
                     handle_server_decoded_msg d0 packet_str cl)
                 else Inr cl) (\<lambda>cl. msg_from d0 data (Suc pos) cl))"
  by pat_completeness auto

termination
  by (relation "measure (\<lambda>(d0, data, prev, cl). length data - prev)") (auto dest!: mempos_Some)

declare msg_from.simps [simp del]

definition handle_server_msg :: "'d \<Rightarrow> string \<Rightarrow> ('a, 'd) client \<Rightarrow> ('a, 'd) client res" where
  "handle_server_msg d0 data cl = msg_from d0 data 0 cl"

section \<open>Audio\<close>

definition handle_server_audio ::
  "('d \<Rightarrow> string \<Rightarrow> 'a option list \<Rightarrow> 'd \<times> 'a option list) \<Rightarrow> string \<Rightarrow> ('a, 'd) client \<Rightarrow>
   ('a, 'd) client res" where
  "handle_server_audio dec data cl =
     (if cl_deafen cl \<noteq> 0 then Inr cl
      else
        bindR (read32 data 0) (\<lambda>src. bindR (read32 data 4) (\<lambda>len.
        if cl_size cl \<le> src then Inr cl
        else bindR (read16 data 8) (\<lambda>time.
          if length data < 10 + unat (len - 2) then Inl OutOfBounds
          else bindR (get_cpeer (unat src) cl) (\<lambda>p. case cp_peer p of
            None \<Rightarrow> Inl NullDeref
          | Some a \<Rightarrow>
              bindR (svc_packet_recieve dec \<lparr>np_data = take (unat (len - 2)) (drop 10 data),
                  np_time = ucast time\<rparr> a (cl_svc cl)) (\<lambda>svc. Inr (cl\<lparr>cl_svc := svc\<rparr>)))))))"

definition enet_send :: "nat \<Rightarrow> string \<Rightarrow> ('a, 'd) client \<Rightarrow> ('a, 'd) client res" where
  "enet_send ch data cl =
     (case cl_client cl of HNull \<Rightarrow> Inl NullDeref | HFreed \<Rightarrow> Inl Dangling
      | HLive \<Rightarrow> Inr (cl\<lparr>cl_sent := cl_sent cl @ [(ch, data)]\<rparr>))"

definition send_callback :: "svc_network_packet \<Rightarrow> ('a, 'd) client \<Rightarrow> ('a, 'd) client res" where
  "send_callback packet cl =
     (if cl_my_id cl = no_id \<or> cl_muted cl \<noteq> 0 then Inr cl
      else enet_send 1 (put32 (cl_my_id cl) @ put32 (of_nat (length (np_data packet)) + 2) @
             put16 (ucast (np_time packet)) @ np_data packet) cl)"

section \<open>The commands of the user\<close>

definition msg_server :: "('a, 'd) client \<Rightarrow> ('a, 'd) client res" where
  "msg_server cl =
     bindR (read_cs (ddata (cl_name cl))) (\<lambda>name. bindR (read_cs (ddata (cl_addr cl))) (\<lambda>addr.
       Inr (print_line ('':SERVER '' @ [CHR 0x22] @ name @ [CHR 0x22] @ '' '' @ [CHR 0x22] @ addr @
         [CHR 0x22] @ '' '' @ fmt_i (cl_port cl)) cl)))"

definition msg_state :: "('a, 'd) client \<Rightarrow> ('a, 'd) client res" where
  "msg_state cl =
     (case cl_state cl of
        CONNECTED \<Rightarrow> bindR (msg_server cl) (\<lambda>cl. Inr (print_line '':STATE connected'' cl))
      | CONNECTING \<Rightarrow> bindR (msg_server cl) (\<lambda>cl. Inr (print_line '':STATE connecting'' cl))
      | DISCONNECTED \<Rightarrow> Inr (print_line '':STATE disconnected'' cl))"

definition free_info :: "('a, 'd) client \<Rightarrow> ('a, 'd) client res" where
  "free_info cl =
     (case cl_info cl of
        Inl f \<Rightarrow> if f = NullDeref then Inr cl else Inl f
      | Inr d \<Rightarrow> bindR (dsdict_free d) (\<lambda>_. Inr (cl\<lparr>cl_info := Inl NullDeref\<rparr>)))"

text \<open>One turn of the loop of \<open>free_server_info\<close>.\<close>

definition free_cpeer :: "('a, 'd) client \<Rightarrow> nat \<Rightarrow> ('a, 'd) svc_in \<Rightarrow> ('a, 'd) svc_in res" where
  "free_cpeer cl i svc =
     bindR (get_cpeer i cl) (\<lambda>p.
       if cp_connected p then
         bindR (cp_data p) (\<lambda>d. bindR (dsdict_free d) (\<lambda>_.
         case cp_peer p of None \<Rightarrow> Inr svc
         | Some a \<Rightarrow> bindR (svc_peer_leave a svc) (\<lambda>(svc, _). Inr svc)))
       else Inr svc)"

definition free_server_info :: "('a, 'd) client \<Rightarrow> ('a, 'd) client res" where
  "free_server_info cl =
     bindR (free_info cl) (\<lambda>cl.
     bindR (foldR (free_cpeer cl) (if cl_peers cl = [] then [] else [0..<unat (cl_size cl)]) (cl_svc cl)) (\<lambda>svc.
     Inr (cl\<lparr>cl_my_id := no_id, cl_svc := svc, cl_peers := [],
       cl_size := if cl_peers cl = [] then cl_size cl else 0\<rparr>)))"

text \<open>
  What the network makes of an attempt to connect: \<open>enet_address_set_host\<close> with
  \<open>enet_address_get_host_ip\<close>, \<open>enet_host_create\<close>, \<open>enet_host_connect\<close>.
\<close>

datatype attempt = Unresolved | NoHost string | NoPeer string | Started string

definition cmd_connect ::
  "(string \<Rightarrow> 16 word \<Rightarrow> attempt) \<Rightarrow> u32 \<Rightarrow> dvec \<Rightarrow> ('a, 'd) client \<Rightarrow> ('a, 'd) client res" where
  "cmd_connect net argc argv cl =
     (if cl_state cl \<noteq> DISCONNECTED then Inr cl
      else if argc \<noteq> 3 then Inr cl
      else
        bindR (arg argv 2) (\<lambda>a2. bindR (read_cs (ddata a2)) (\<lambda>ptext.
        bindR (arg argv 1) (\<lambda>a1. bindR (read_cs (ddata a1)) (\<lambda>host.
        let port = word_of_int (atoi ptext);
            found = (\<lambda>ip. bindR (dcpy (cl_name cl) a1) (\<lambda>name. bindR (dcpycs (cl_addr cl) ip) (\<lambda>addr.
              Inr (cl\<lparr>cl_name := name, cl_addr := addr, cl_port := ucast port\<rparr>)))) in
        (case net host port of
           Unresolved \<Rightarrow> Inr cl
         | NoHost ip \<Rightarrow> bindR (found ip) (\<lambda>cl. Inr (cl\<lparr>cl_host := HNull\<rparr>))
         | NoPeer ip \<Rightarrow> bindR (found ip) (\<lambda>cl. Inr (cl\<lparr>cl_host := HFreed, cl_client := HNull\<rparr>))
         | Started ip \<Rightarrow> bindR (found ip) (\<lambda>cl.
             msg_state (cl\<lparr>cl_host := HLive, cl_client := HLive, cl_state := CONNECTING\<rparr>))))))))"

definition use :: "hptr \<Rightarrow> unit res" where
  "use h = (case h of HNull \<Rightarrow> Inl NullDeref | HFreed \<Rightarrow> Inl Dangling | HLive \<Rightarrow> Inr ())"

text \<open>\<open>enet_peer_disconnect\<close>, \<open>enet_host_destroy\<close> and the end of the connection.\<close>

definition drop_connection :: "('a, 'd) client \<Rightarrow> ('a, 'd) client res" where
  "drop_connection cl =
     bindR (use (cl_client cl)) (\<lambda>_. bindR (use (cl_host cl)) (\<lambda>_.
       msg_state (cl\<lparr>cl_client := HNull, cl_host := HNull, cl_state := DISCONNECTED\<rparr>)))"

definition cmd_disconnect :: "('a, 'd) client \<Rightarrow> ('a, 'd) client res" where
  "cmd_disconnect cl =
     (case cl_state cl of
        CONNECTED \<Rightarrow> bindR (free_server_info cl) drop_connection
      | CONNECTING \<Rightarrow> drop_connection cl
      | DISCONNECTED \<Rightarrow> Inr cl)"

definition flag_of :: "dvec \<Rightarrow> int res" where
  "flag_of argv = bindR (arg argv 1) (\<lambda>a. bindR (read_cs (ddata a)) (\<lambda>t.
     Inr (if atoi t \<noteq> 0 then 1 else 0)))"

definition cmd_mute :: "u32 \<Rightarrow> dvec \<Rightarrow> ('a, 'd) client \<Rightarrow> ('a, 'd) client res" where
  "cmd_mute argc argv cl =
     (if argc \<noteq> 2 then Inr cl
      else bindR (flag_of argv) (\<lambda>f.
        Inr (print_line ('':MUTED '' @ dec_int f) (cl\<lparr>cl_muted := f\<rparr>))))"

definition cmd_deafen :: "u32 \<Rightarrow> dvec \<Rightarrow> ('a, 'd) client \<Rightarrow> ('a, 'd) client res" where
  "cmd_deafen argc argv cl =
     (if argc \<noteq> 2 then Inr cl
      else bindR (flag_of argv) (\<lambda>f.
        Inr (print_line ('':DEAFEN '' @ dec_int f) (cl\<lparr>cl_deafen := f\<rparr>))))"

text \<open>The result is 1 when the main loop is to end.\<close>

definition handle_input_command ::
  "(string \<Rightarrow> 16 word \<Rightarrow> attempt) \<Rightarrow> dstring \<Rightarrow> ('a, 'd) client \<Rightarrow> (('a, 'd) client \<times> int) res" where
  "handle_input_command net string cl =
     (if dlen string = 0 then Inr (cl, 0)
      else bindR (peek (ddata string) 0) (\<lambda>c.
        if c = CHR ''/'' then
          bindR (dstrlex_parse string) (\<lambda>(code, words).
          case words of
            None \<Rightarrow> bindR (read_cs (ddata string)) (\<lambda>_. Inr (cl, 0))
          | Some l \<Rightarrow>
              let argc = ucast (lsize l) in
              bindR (dlist_tovector l) (\<lambda>argv. bindR (dlist_free l) (\<lambda>_.
              bindR (arg argv 0) (\<lambda>a.
              bindR (select_cmd a [''/connect'', ''/disconnect'', ''/quit'', ''/mute'', ''/deafen'']) (\<lambda>k.
                if k = Some ''/connect'' then bindR (cmd_connect net argc argv cl) (\<lambda>cl. Inr (cl, 0))
                else if k = Some ''/disconnect'' then bindR (cmd_disconnect cl) (\<lambda>cl. Inr (cl, 0))
                else if k = Some ''/quit'' then Inr (cl, 1)
                else if k = Some ''/mute'' then bindR (cmd_mute argc argv cl) (\<lambda>cl. Inr (cl, 0))
                else if k = Some ''/deafen'' then bindR (cmd_deafen argc argv cl) (\<lambda>cl. Inr (cl, 0))
                else bindR (read_cs (ddata a)) (\<lambda>_. Inr (cl, 0)))))))
        else if cl_state cl = CONNECTED then
          bindR (peeks (ddata string) 0 (unat (dlen string))) (\<lambda>msg.
          bindR (enet_send 0 msg cl) (\<lambda>cl. Inr (cl, 0)))
        else Inr (cl, 0)))"

section \<open>The events of the main loop\<close>

datatype event = EvConnect | EvDisconnect | EvReceive nat string

definition handle_connected ::
  "'d \<Rightarrow> ('d \<Rightarrow> string \<Rightarrow> 'a option list \<Rightarrow> 'd \<times> 'a option list) \<Rightarrow> event \<Rightarrow> ('a, 'd) client \<Rightarrow>
   ('a, 'd) client res" where
  "handle_connected d0 dec ev cl =
     (case ev of
        EvDisconnect \<Rightarrow> bindR (free_server_info (cl\<lparr>cl_state := DISCONNECTED\<rparr>)) msg_state
      | EvReceive ch data \<Rightarrow>
          if ch = 0 then handle_server_msg d0 data cl
          else if ch = 1 then handle_server_audio dec data cl
          else Inr cl
      | EvConnect \<Rightarrow> Inr cl)"

definition handle_connecting :: "event \<Rightarrow> ('a, 'd) client \<Rightarrow> ('a, 'd) client res" where
  "handle_connecting ev cl =
     (if ev = EvConnect then msg_state (cl\<lparr>cl_state := CONNECTED, cl_info := Inr dsdict_new\<rparr>)
      else drop_connection cl)"

text \<open>\<open>quit_client_state\<close>: ENet's objects are destroyed unless their pointers are \<open>NULL\<close>.\<close>

definition quit_client_state :: "('a, 'd) client \<Rightarrow> ('a, 'd) client res" where
  "quit_client_state cl =
     bindR (if cl_client cl = HNull then Inr () else use (cl_client cl)) (\<lambda>_.
     bindR (if cl_host cl = HNull then Inr () else use (cl_host cl)) (\<lambda>_.
       free_server_info cl))"

end
