(* ===== verification/ClientSpec.thy ===== *)
theory ClientSpec
  imports Client
begin

text \<open>
  The client against an abstract state: its number, the server's data and, for every peer
  it was told of, the peer's data and whether the peer has a voice.
\<close>

section \<open>Reading arguments\<close>

lemma read_cs_map: "nul \<notin> set xs \<Longrightarrow> read_cs (map Some xs @ Some nul # b) = Inr xs"
  by (induction xs) auto

lemma read_cs_holds:
  assumes "dholds xs s"
  shows "read_cs (ddata s) = Inr (cstr xs)"
proof -
  have d: "length (ddata s) = dcap s" "unat (dlen s) = length xs" "length xs < dcap s"
    "take (length xs) (ddata s) = map Some xs" "ddata s ! length xs = Some nul"
    using assms by (auto simp: dholds_def drep_def dterm_def)
  then have "ddata s = map Some xs @ Some nul # drop (Suc (length xs)) (ddata s)"
    by (metis id_take_nth_drop)
  moreover have "read_cs (map Some xs @ Some nul # b) = Inr (cstr xs)" for b
    by (induction xs) (auto simp: cstr_def)
  ultimately show ?thesis by metis
qed

lemma arg_gives:
  assumes v: "vrep True v ws" and i: "i < length ws"
  obtains s where "arg v i = Inr s" "dholds (ws ! i) s" "drept True s (ws ! i)"
proof -
  from v obtain ss where ss: "v = map (Some \<circ> Some) ss @ [Some None]" "list_all2 (drept True) ss ws"
    by (auto simp: vrep_def)
  then have "i < length ss" "drept True (ss ! i) (ws ! i)"
    using i by (auto simp: list_all2_conv_all_nth)
  with ss(1) that show thesis
    by (auto simp: arg_def nth_append drept_def dholds_def)
qed

definition number :: "string \<Rightarrow> u32" where
  "number t = word_of_int (atoi (cstr t))"

lemma peer_id_gives:
  assumes "vrep True v ws" "i < length ws"
  obtains s where "arg v i = Inr s" "decode_peer_id s = Inr (number (ws ! i))"
  using assms by (elim arg_gives) (auto simp: decode_peer_id_def read_cs_holds number_def)

text \<open>The words of a line are no longer than the line.\<close>

lemma lstep_bounds:
  "length (concat (words_of (lstep a c))) + length (word_of (lstep a c)) \<le>
     Suc (length (concat (words_of a)) + length (word_of a))"
  "length (words_of (lstep a c)) \<le> Suc (length (words_of a))"
  by (induction a c rule: lstep.induct) auto

lemma lsteps_bounds:
  "length (concat (words_of (foldl lstep a xs))) + length (word_of (foldl lstep a xs)) \<le>
     length xs + length (concat (words_of a)) + length (word_of a) \<and>
   length (words_of (foldl lstep a xs)) \<le> length xs + length (words_of a)"
proof (induction xs arbitrary: a)
  case (Cons c xs)
  from Cons.IH [of "lstep a c"] lstep_bounds [where a = a and c = c] show ?case by simp
qed simp

lemma lex_bounds:
  assumes "snd (lex xs) = Some ws"
  shows "w \<in> set ws \<Longrightarrow> length w \<le> length xs" and "length ws \<le> Suc (length xs)"
proof -
  let ?a = "foldl lstep (False, False, [], []) xs"
  obtain e q w' ws' where a: "?a = (e, q, w', ws')" by (cases ?a)
  from lsteps_bounds [of "(False, False, [], [])" xs] a
  have b: "length (concat ws') + length w' \<le> length xs" "length ws' \<le> length xs" by auto
  have ws: "ws = (if w' = [] then ws' else ws' @ [w'])"
    using assms a by (auto simp: lex_def lfinish_def split: if_splits)
  show "w \<in> set ws \<Longrightarrow> length w \<le> length xs"
  proof -
    assume "w \<in> set ws"
    then consider "w = w'" | "w \<in> set ws'" using ws by (auto split: if_splits)
    then show ?thesis
    proof cases
      case 2
      then have "length w \<le> length (concat ws')" by (simp add: length_concat member_le_sum_list)
      then show ?thesis using b by simp
    qed (use b in simp)
  qed
  show "length ws \<le> Suc (length xs)" using ws b by simp
qed

section \<open>Choosing the command\<close>

lemma select_cmd_drep:
  "drep a w \<Longrightarrow> \<forall>c\<in>set cs. length c < dmax \<and> cstr c = c \<Longrightarrow>
   select_cmd a cs = Inr (if w \<in> set cs then Some w else None)"
  by (induction cs) auto

definition run_words :: "'d \<Rightarrow> dstring \<Rightarrow> string \<Rightarrow> u32 \<Rightarrow> dvec \<Rightarrow> ('a, 'd) client \<Rightarrow> ('a, 'd) client res" where
  "run_words d0 string w argc argv cl =
     (if w = ''SSET'' then scmd_sset string argc argv cl
      else if w = ''YARE'' then scmd_yare string argc argv cl
      else if w = ''PADD'' then scmd_padd d0 string argc argv cl
      else if w = ''PDEL'' then scmd_pdel string argc argv cl
      else if w = ''PSET'' then scmd_pset string argc argv cl
      else if w = ''MESG'' then scmd_mesg string argc argv cl
      else Inr cl)"

text \<open>The words of a line, as the vector of arguments that a handler is given.\<close>

lemma lexed_argv:
  assumes s: "drep string line" and small: "length line + 1 < dmax" "lex_fits line"
    and ws: "snd (lex line) = Some ws" "ws \<noteq> []" "hd ws \<noteq> []"
  obtains code l l' argv a where "dstrlex_parse string = Inr (code, Some l)"
    "(ucast (lsize l) :: u32) = of_nat (length ws)" "dlist_tovector l = Inr argv" "vrep True argv ws"
    "dlist_free l = Inr l'" "arg argv 0 = Inr a" "dholds (hd ws) a"
    "\<forall>w\<in>set ws. length w + 1 < dmax" "length ws < 2 ^ 32"
proof -
  from dstrlex_parse_gives [OF s small(2)] obtain code r where
    r: "dstrlex_parse string = Inr (code, r)" "lex_result (lex line) (code, r)"
    by (auto simp: gives_def)
  with ws obtain l where l: "r = Some l" "dlrep True l ws"
    by (cases ws) (auto simp: lex_result_def first_ok_def)
  have len: "\<forall>w\<in>set ws. length w + 1 < dmax"
    using lex_bounds(1) [OF ws(1)] small(1) by (auto dest!: bspec) fastforce
  have n: "length ws < 2 ^ 32" using lex_bounds(2) [OF ws(1)] small(1) by simp
  have "gives (dlist_tovector l) (\<lambda>v. vrep True v ws)"
    by (rule dlist_tovector_gives [OF l(2)]) (use len n in auto)
  then obtain argv where v: "dlist_tovector l = Inr argv" "vrep True argv ws" by (rule givesE)
  obtain l' where f: "dlist_free l = Inr l'" by (rule givesE [OF dlist_free_gives [OF l(2)]])
  obtain a where a: "arg argv 0 = Inr a" "dholds (hd ws) a"
    using arg_gives [OF v(2), of 0] ws(2) by (auto simp: hd_conv_nth)
  have "(ucast (lsize l) :: u32) = of_nat (length ws)"
    using dlrep_size [OF l(2)] n by (simp add: unsigned_of_nat take_bit_nat_eq_self)
  from that [OF _ this v f a len n] r(1) l(1) show thesis by simp
qed

lemma decoded_words:
  assumes s: "drep string line" and small: "length line + 1 < dmax" "lex_fits line"
    and ws: "snd (lex line) = Some ws" "ws \<noteq> []" "hd ws \<noteq> []"
  obtains argv where "vrep True argv ws"
    "handle_server_decoded_msg d0 string cl = run_words d0 string (hd ws) (of_nat (length ws)) argv cl"
proof -
  obtain code l l' argv a where
    r: "dstrlex_parse string = Inr (code, Some l)" "(ucast (lsize l) :: u32) = of_nat (length ws)"
    "dlist_tovector l = Inr argv" "vrep True argv ws" "dlist_free l = Inr l'" "arg argv 0 = Inr a" "dholds (hd ws) a"
    by (rule lexed_argv [OF s small ws])
  have "select_cmd a [''SSET'', ''YARE'', ''PADD'', ''PDEL'', ''PSET'', ''MESG''] =
      Inr (if hd ws \<in> {''SSET'', ''YARE'', ''PADD'', ''PDEL'', ''PSET'', ''MESG''} then Some (hd ws) else None)"
    using select_cmd_drep [of a "hd ws" "[''SSET'', ''YARE'', ''PADD'', ''PDEL'', ''PSET'', ''MESG'']"]
      r(7) by (simp add: dholds_def cstr_def del: select_cmd.simps)
  then have "handle_server_decoded_msg d0 string cl =
      run_words d0 string (hd ws) (of_nat (length ws)) argv cl"
    using r read_cs_holds [OF r(7)]
    by (simp add: handle_server_decoded_msg_def run_words_def Let_def del: select_cmd.simps)
  with r(4) that show thesis by blast
qed

section \<open>The abstract state\<close>

type_synonym acp = "((string \<times> string) list \<times> bool) option"

record acl =
  ac_id :: u32
  ac_info :: "(string \<times> string) list"
  ac_peers :: "acp list"

definition cp_rep :: "nat \<Rightarrow> cpeer \<Rightarrow> acp \<Rightarrow> bool" where
  "cp_rep i p a \<longleftrightarrow> cp_id p = of_nat i \<and> cp_connected p = (a \<noteq> None) \<and>
     (case a of None \<Rightarrow> (\<exists>f. cp_data p = Inl f)
      | Some (kvs, voice) \<Rightarrow> (\<exists>d. cp_data p = Inr d \<and> dsrep True d kvs) \<and> (cp_peer p \<noteq> None) = voice)"

text \<open>The voices of the peers: different ones, all on the list of the voice library.\<close>

definition voices :: "cpeer list \<Rightarrow> nat list" where
  "voices ps = concat (map (\<lambda>p. if cp_connected p then (case cp_peer p of None \<Rightarrow> [] | Some a \<Rightarrow> [a])
     else []) ps)"

definition crep :: "('a::zero, 'd) client \<Rightarrow> acl \<Rightarrow> bool" where
  "crep cl a \<longleftrightarrow> cl_my_id cl = ac_id a \<and>
     (\<exists>d. cl_info cl = Inr d \<and> dsrep True d (ac_info a)) \<and>
     unat (cl_size cl) = length (ac_peers a) \<and> list_all2 (\<lambda>(i, p) x. cp_rep i p x)
       (enumerate 0 (cl_peers cl)) (ac_peers a) \<and>
     (\<exists>as. sinv (cl_svc cl) as \<and> set (voices (cl_peers cl)) \<subseteq> set as) \<and>
     distinct (voices (cl_peers cl))"

lemma voices_simps [simp]:
  "voices [] = []"
  "voices (p # ps) = (if cp_connected p then (case cp_peer p of None \<Rightarrow> [] | Some a \<Rightarrow> [a]) else []) @
     voices ps"
  "voices (ps @ qs) = voices ps @ voices qs"
  by (simp_all add: voices_def)

lemma crep_peers:
  "list_all2 (\<lambda>(i, p) x. cp_rep i p x) (enumerate 0 ps) xs \<longleftrightarrow>
   length ps = length xs \<and> (\<forall>i<length xs. cp_rep i (ps ! i) (xs ! i))"
  by (auto simp: list_all2_conv_all_nth nth_enumerate_eq)

lemma crepE:
  assumes "crep cl a"
  obtains d as where "cl_my_id cl = ac_id a" "cl_info cl = Inr d" "dsrep True d (ac_info a)"
    "unat (cl_size cl) = length (ac_peers a)" "length (cl_peers cl) = length (ac_peers a)"
    "\<And>i. i < length (ac_peers a) \<Longrightarrow> cp_rep i (cl_peers cl ! i) (ac_peers a ! i)"
    "sinv (cl_svc cl) as" "set (voices (cl_peers cl)) \<subseteq> set as" "distinct (voices (cl_peers cl))"
  using assms by (auto simp: crep_def crep_peers)

lemma crepI:
  assumes "cl_my_id cl = ac_id a" "cl_info cl = Inr d" "dsrep True d (ac_info a)"
    "unat (cl_size cl) = length (ac_peers a)" "length (cl_peers cl) = length (ac_peers a)"
    "\<And>i. i < length (ac_peers a) \<Longrightarrow> cp_rep i (cl_peers cl ! i) (ac_peers a ! i)"
    "sinv (cl_svc cl) as" "set (voices (cl_peers cl)) \<subseteq> set as" "distinct (voices (cl_peers cl))"
  shows "crep cl a"
  using assms by (auto simp: crep_def crep_peers)

lemma crep_out [simp]: "crep (cl\<lparr>cl_out := t\<rparr>) a = crep cl a"
  by (simp add: crep_def)

lemma echo_gives:
  assumes "dholds line cmd" "crep cl a"
  shows "gives (echo_cmd cmd cl) (\<lambda>cl'. crep cl' a \<and> cl_out cl' = cl_out cl @ [cstr line])"
  using assms by (simp add: echo_cmd_def read_cs_holds print_line_def)

section \<open>The commands\<close>

definition grow :: "nat \<Rightarrow> acp list \<Rightarrow> acp list" where
  "grow n ps = (if n < length ps then ps else ps @ replicate (Suc n - length ps) None)"

text \<open>\<open>None\<close>: a command on a peer that is not there, where the code follows a bad pointer.\<close>

text \<open>The entry of a table, \<open>None\<close> beyond its end.\<close>

definition peer_at :: "'x option list \<Rightarrow> nat \<Rightarrow> 'x option" where
  "peer_at ps j = (if j < length ps then ps ! j else None)"

lemma peer_at_grow [simp]: "peer_at (grow n ps) j = peer_at ps j"
  by (simp add: peer_at_def grow_def nth_append)

lemma peer_at_update: "i < length ps \<Longrightarrow> peer_at (ps[i := x]) j = (if j = i then x else peer_at ps j)"
  by (simp add: peer_at_def nth_list_update)

definition on_peer :: "(acp \<Rightarrow> acp option) \<Rightarrow> string \<Rightarrow> acl \<Rightarrow> acl option" where
  "on_peer f t a =
     (let n = unat (number t) in
      if n < length (ac_peers a)
      then map_option (\<lambda>x. a\<lparr>ac_peers := (ac_peers a)[n := x]\<rparr>) (f (ac_peers a ! n)) else Some a)"

definition acmd :: "string list \<Rightarrow> acl \<Rightarrow> acl option" where
  "acmd ws a =
     (if ws = [] then None
      else if hd ws = ''SSET'' \<and> length ws = 3 then
        Some (a\<lparr>ac_info := AList.update (cstr (ws ! 1)) (ws ! 2) (ac_info a)\<rparr>)
      else if hd ws = ''YARE'' \<and> length ws = 2 then Some (a\<lparr>ac_id := number (ws ! 1)\<rparr>)
      else if hd ws = ''PADD'' \<and> length ws = 2 then
        (let n = unat (number (ws ! 1)) in
         if Suc n < 2 ^ 32 then
           Some (a\<lparr>ac_peers := (grow n (ac_peers a))[n := Some ([], number (ws ! 1) \<noteq> ac_id a)]\<rparr>)
         else None)
      else if hd ws = ''PDEL'' \<and> length ws = 2 then
        on_peer (\<lambda>x. if x = None then None else Some None) (ws ! 1) a
      else if hd ws = ''PSET'' \<and> length ws = 4 then
        on_peer (map_option (\<lambda>(kvs, voice). Some (AList.update (cstr (ws ! 2)) (ws ! 3) kvs, voice)))
          (ws ! 1) a
      else Some a)"

lemma voices_split:
  assumes "i < length ps"
  shows "voices ps = voices (take i ps) @ voices [ps ! i] @ voices (drop (Suc i) ps)"
    and "voices (ps[i := p]) = voices (take i ps) @ voices [p] @ voices (drop (Suc i) ps)"
proof -
  have "ps = take i ps @ [ps ! i] @ drop (Suc i) ps" "ps[i := p] = take i ps @ [p] @ drop (Suc i) ps"
    using assms by (simp_all add: id_take_nth_drop [symmetric] upd_conv_take_nth_drop)
  then show "voices ps = voices (take i ps) @ voices [ps ! i] @ voices (drop (Suc i) ps)"
    and "voices (ps[i := p]) = voices (take i ps) @ voices [p] @ voices (drop (Suc i) ps)"
    by (metis voices_simps(3))+
qed

lemma distinct_voice: "distinct (voices [p])"
  by (simp split: option.splits)

lemma voices_update:
  assumes i: "i < length ps" and dist: "distinct (voices ps)"
    and p: "set (voices [p]) \<inter> set (voices ps) \<subseteq> set (voices [ps ! i])"
  shows "distinct (voices (ps[i := p]))"
    and "set (voices (ps[i := p])) \<subseteq> set (voices [p]) \<union> (set (voices ps) - set (voices [ps ! i]))"
proof -
  obtain xs ys y z where eq: "voices ps = xs @ y @ ys" "voices (ps[i := p]) = xs @ z @ ys"
    "voices [p] = z" "voices [ps ! i] = y" "distinct z"
    using voices_split [OF i] distinct_voice by metis
  show "distinct (voices (ps[i := p]))"
    and "set (voices (ps[i := p])) \<subseteq> set (voices [p]) \<union> (set (voices ps) - set (voices [ps ! i]))"
    using dist p unfolding eq by (auto simp: eq(5))
qed

lemma voices_off:
  assumes "i < length ps" "distinct (voices ps)" "voices [p] = []"
  shows "distinct (voices (ps[i := p]))"
    and "set (voices (ps[i := p])) \<subseteq> set (voices ps) - set (voices [ps ! i])"
  using voices_update [OF assms(1,2), of p] unfolding assms(3)
  by (simp_all del: voices_simps)

lemma voices_on:
  assumes "i < length ps" "distinct (voices ps)" "voices [p] = [x]" "x \<notin> set (voices ps)"
  shows "distinct (voices (ps[i := p]))"
    and "set (voices (ps[i := p])) \<subseteq> insert x (set (voices ps))"
proof -
  have "set (voices [p]) \<inter> set (voices ps) \<subseteq> set (voices [ps ! i])"
    unfolding assms(3) using assms(4) by (simp del: voices_simps)
  note u = voices_update [OF assms(1,2) this, unfolded assms(3)]
  show "distinct (voices (ps[i := p]))" by (rule u(1))
  show "set (voices (ps[i := p])) \<subseteq> insert x (set (voices ps))"
    using u(2) by (simp del: voices_simps) blast
qed

lemma crep_put:
  assumes c: "crep cl a" and i: "i < length (ac_peers a)" and p: "cp_rep i p x"
    and svc: "sinv svc as" "set (voices ((cl_peers cl)[i := p])) \<subseteq> set as"
    and dist: "distinct (voices ((cl_peers cl)[i := p]))"
  shows "gives (put_cpeer i p (cl\<lparr>cl_svc := svc\<rparr>))
    (\<lambda>cl'. crep cl' (a\<lparr>ac_peers := (ac_peers a)[i := x]\<rparr>) \<and> cl_out cl' = cl_out cl)"
proof -
  from c obtain d bs where d: "cl_my_id cl = ac_id a" "cl_info cl = Inr d" "dsrep True d (ac_info a)"
    "unat (cl_size cl) = length (ac_peers a)" "length (cl_peers cl) = length (ac_peers a)"
    "\<And>i. i < length (ac_peers a) \<Longrightarrow> cp_rep i (cl_peers cl ! i) (ac_peers a ! i)"
    by (elim crepE) blast
  have "cp_rep j ((cl_peers cl)[i := p] ! j) ((ac_peers a)[i := x] ! j)" if "j < length (ac_peers a)" for j
    using d(5,6) that p by (cases "j = i") simp_all
  then have "crep (cl\<lparr>cl_svc := svc, cl_peers := (cl_peers cl)[i := p]\<rparr>)
      (a\<lparr>ac_peers := (ac_peers a)[i := x]\<rparr>)"
    by (intro crepI [where d = d and as = as]) (use d svc dist in auto)
  then show ?thesis using i d(5) by (simp add: put_cpeer_def)
qed

lemma same_svc [simp]: "cl\<lparr>cl_svc := cl_svc cl\<rparr> = cl"
  by simp

section \<open>Each command implements its abstract one\<close>

lemma scmd_yare_gives:
  assumes c: "crep cl a" and v: "vrep True v ws" "length ws = 2" and l: "dholds line cmd"
  shows "gives (scmd_yare cmd 2 v cl) (\<lambda>cl'. crep cl' (a\<lparr>ac_id := number (ws ! 1)\<rparr>) \<and>
    cl_out cl' = cl_out cl @ [cstr line])"
proof -
  obtain s where s: "arg v 1 = Inr s" "decode_peer_id s = Inr (number (ws ! 1))"
    by (rule peer_id_gives [OF v(1), of 1]) (use v(2) in auto)
  have "crep (cl\<lparr>cl_my_id := number (ws ! 1)\<rparr>) (a\<lparr>ac_id := number (ws ! 1)\<rparr>)"
    using c by (simp add: crep_def)
  from echo_gives [OF l this] s show ?thesis by (simp add: scmd_yare_def)
qed

lemma set_arg_gives:
  assumes v: "vrep True v ws" "Suc i < length ws" and small: "\<forall>w\<in>set ws. length w + 1 < dmax"
    and d: "dsrep True d kvs"
  obtains k x d' where "arg v i = Inr k" "read_cs (ddata k) = Inr (cstr (ws ! i))"
    "arg v (Suc i) = Inr x" "dsdict_set d (cstr (ws ! i)) x = Inr d'"
    "dsrep True d' (AList.update (cstr (ws ! i)) (ws ! Suc i) kvs)"
proof -
  obtain k where k: "arg v i = Inr k" "dholds (ws ! i) k"
    by (rule arg_gives [OF v(1), of i]) (use v(2) in auto)
  obtain x where x: "arg v (Suc i) = Inr x" "drept True x (ws ! Suc i)"
    by (rule arg_gives [OF v(1), of "Suc i"]) (use v(2) in auto)
  have len: "length (cstr (ws ! i)) < dmax" "length (ws ! Suc i) + 1 < dmax"
    using small v(2) length_cstr_le [of "ws ! i"]
    by (metis Suc_lessD add_lessD1 le_less_trans nth_mem) (use small v(2) in auto)
  have "gives (dsdict_set d (cstr (ws ! i)) x)
      (\<lambda>d'. dsrep True d' (AList.update (cstr (cstr (ws ! i))) (ws ! Suc i) kvs))"
    by (rule dsdict_set_gives [OF d len(1) x(2) len(2)])
  then obtain d' where "dsdict_set d (cstr (ws ! i)) x = Inr d'"
    "dsrep True d' (AList.update (cstr (ws ! i)) (ws ! Suc i) kvs)" by (rule givesE) simp
  with k x read_cs_holds [OF k(2)] that show thesis by blast
qed

lemma scmd_sset_gives:
  assumes c: "crep cl a" and v: "vrep True v ws" "length ws = 3" and l: "dholds line cmd"
    and small: "\<forall>w\<in>set ws. length w + 1 < dmax"
  shows "gives (scmd_sset cmd 3 v cl) (\<lambda>cl'.
    crep cl' (a\<lparr>ac_info := AList.update (cstr (ws ! 1)) (ws ! 2) (ac_info a)\<rparr>) \<and>
    cl_out cl' = cl_out cl @ [cstr line])"
proof -
  from c obtain d where d: "cl_info cl = Inr d" "dsrep True d (ac_info a)" by (elim crepE)
  have "Suc 1 < length ws" using v(2) by simp
  then obtain k x d' where k: "arg v 1 = Inr k" "read_cs (ddata k) = Inr (cstr (ws ! 1))"
    "arg v (Suc 1) = Inr x" "dsdict_set d (cstr (ws ! 1)) x = Inr d'"
    "dsrep True d' (AList.update (cstr (ws ! 1)) (ws ! Suc 1) (ac_info a))"
    by (rule set_arg_gives [OF v(1) _ small d(2)])
  have "crep (cl\<lparr>cl_info := Inr d'\<rparr>) (a\<lparr>ac_info := AList.update (cstr (ws ! 1)) (ws ! 2) (ac_info a)\<rparr>)"
    using c k(5) by (simp add: crep_def numeral_2_eq_2)
  from echo_gives [OF l this] k d show ?thesis by (simp add: scmd_sset_def numeral_2_eq_2)
qed

lemma voices_fresh [simp]: "voices (map fresh_cpeer is) = []"
  by (induction "is") (auto simp: fresh_cpeer_def)

lemma fresh_cp_rep: "cp_rep i (fresh_cpeer i) None"
  by (simp add: cp_rep_def fresh_cpeer_def)

lemma unat_Suc: "Suc (unat n) < 2 ^ 32 \<Longrightarrow> unat (n + 1 :: u32) = Suc (unat n)"
  by (subst unat_Suc_small) auto

lemma enlarge_gives:
  assumes c: "crep cl a" and n: "Suc (unat n) < 2 ^ 32"
  shows "gives (enlarge_peers n cl) (\<lambda>cl'. crep cl' (a\<lparr>ac_peers := grow (unat n) (ac_peers a)\<rparr>) \<and>
    cl_out cl' = cl_out cl \<and> cl_my_id cl' = cl_my_id cl)"
proof -
  let ?len = "length (ac_peers a)"
  from c obtain d as where d: "cl_my_id cl = ac_id a" "cl_info cl = Inr d" "dsrep True d (ac_info a)"
    "unat (cl_size cl) = ?len" "length (cl_peers cl) = ?len"
    "\<And>i. i < ?len \<Longrightarrow> cp_rep i (cl_peers cl ! i) (ac_peers a ! i)"
    "sinv (cl_svc cl) as" "set (voices (cl_peers cl)) \<subseteq> set as" "distinct (voices (cl_peers cl))"
    by (elim crepE) blast
  show ?thesis
  proof (cases "unat n < ?len")
    case True
    then have "\<not> cl_size cl \<le> n" "cl_size cl \<noteq> 0" using d(4) by (auto simp: word_le_nat_alt)
    then show ?thesis using c True by (simp add: enlarge_peers_def Let_def grow_def)
  next
    case False
    let ?k = "Suc (unat n) - ?len"
    let ?ps = "cl_peers cl @ map fresh_cpeer [?len..<Suc (unat n)]"
    define cl' where "cl' = cl\<lparr>cl_size := n + 1, cl_peers := ?ps\<rparr>"
    have le: "cl_size cl \<le> n" using False d(4) by (simp add: word_le_nat_alt)
    have "enlarge_peers n cl = Inr cl'"
    proof (cases "cl_size cl = 0")
      case True
      then have "?len = 0" "cl_peers cl = []" using d(4,5) by auto
      then show ?thesis using True by (simp add: enlarge_peers_def Let_def cl'_def unat_Suc [OF n] del: upt_Suc)
    next
      case nz: False
      then show ?thesis using le False d(4,5)
        by (simp add: enlarge_peers_def Let_def cl'_def unat_Suc [OF n] del: upt_Suc)
    qed
    moreover have "crep cl' (a\<lparr>ac_peers := grow (unat n) (ac_peers a)\<rparr>)"
    proof (rule crepI [where d = d and as = as])
      fix i assume "i < length (ac_peers (a\<lparr>ac_peers := grow (unat n) (ac_peers a)\<rparr>))"
      then show "cp_rep i (cl_peers cl' ! i) (ac_peers (a\<lparr>ac_peers := grow (unat n) (ac_peers a)\<rparr>) ! i)"
        using False d(5) d(6) [of i] fresh_cp_rep [of i]
        by (cases "i < ?len") (simp_all add: cl'_def grow_def nth_append del: upt_Suc)
    qed (use d False in \<open>simp_all add: cl'_def grow_def unat_Suc [OF n] del: upt_Suc\<close>)
    ultimately show ?thesis by (simp add: cl'_def)
  qed
qed

lemma length_grow: "n < length (grow n ps)"
  by (simp add: grow_def)

lemma scmd_padd_gives:
  assumes c: "crep cl a" and v: "vrep True v ws" "length ws = 2" and l: "dholds line cmd"
    and n: "Suc (unat (number (ws ! 1))) < 2 ^ 32"
  shows "gives (scmd_padd d0 cmd 2 v cl) (\<lambda>cl'. crep cl' (a\<lparr>ac_peers :=
      (grow (unat (number (ws ! 1))) (ac_peers a))[unat (number (ws ! 1)) :=
        Some ([], number (ws ! 1) \<noteq> ac_id a)]\<rparr>) \<and> cl_out cl' = cl_out cl @ [cstr line])"
proof -
  let ?w = "number (ws ! 1)"
  let ?n = "unat ?w"
  obtain s where s: "arg v 1 = Inr s" "decode_peer_id s = Inr ?w"
    by (rule peer_id_gives [OF v(1), of 1]) (use v(2) in auto)
  define a1 where "a1 = a\<lparr>ac_peers := grow ?n (ac_peers a)\<rparr>"
  from enlarge_gives [OF c n] obtain cl1 where cl1: "enlarge_peers ?w cl = Inr cl1" "crep cl1 a1"
    "cl_out cl1 = cl_out cl" "cl_my_id cl1 = cl_my_id cl" by (auto simp: gives_def a1_def)
  have n1: "?n < length (ac_peers a1)" by (simp add: a1_def length_grow)
  from cl1(2) obtain as where r: "length (cl_peers cl1) = length (ac_peers a1)"
    "cp_rep ?n (cl_peers cl1 ! ?n) (ac_peers a1 ! ?n)" "sinv (cl_svc cl1) as"
    "set (voices (cl_peers cl1)) \<subseteq> set as" "distinct (voices (cl_peers cl1))" "cl_my_id cl1 = ac_id a1"
    using n1 by (elim crepE) blast
  define p where "p = (cl_peers cl1 ! ?n)\<lparr>cp_connected := True, cp_data := Inr dsdict_new\<rparr>"
  have get: "get_cpeer ?n cl1 = Inr (cl_peers cl1 ! ?n)" using r(1) n1 by (simp add: get_cpeer_def)
  have rep: "cp_rep ?n (p\<lparr>cp_peer := q\<rparr>) (Some ([], q \<noteq> None))" for q
    using r(2) by (auto simp: p_def cp_rep_def)
  have i: "?n < length (cl_peers cl1)" using r(1) n1 by simp
  have id: "ac_id a1 = ac_id a" by (simp add: a1_def)
  have "gives (if ?w = cl_my_id cl1 then put_cpeer ?n (p\<lparr>cp_peer := None\<rparr>) cl1
      else bindR (svc_peer_join d0 (cl_svc cl1)) (\<lambda>(svc, x).
        put_cpeer ?n (p\<lparr>cp_peer := Some x\<rparr>) (cl1\<lparr>cl_svc := svc\<rparr>)))
      (\<lambda>cl'. crep cl' (a1\<lparr>ac_peers := (ac_peers a1)[?n := Some ([], ?w \<noteq> ac_id a)]\<rparr>) \<and>
        cl_out cl' = cl_out cl)"
  proof (cases "?w = cl_my_id cl1")
    case True
    have none: "voices [p\<lparr>cp_peer := None\<rparr>] = []" by (simp add: p_def)
    note vu = voices_off [OF i r(5) none]
    have "gives (put_cpeer ?n (p\<lparr>cp_peer := None\<rparr>) (cl1\<lparr>cl_svc := cl_svc cl1\<rparr>))
        (\<lambda>cl'. crep cl' (a1\<lparr>ac_peers := (ac_peers a1)[?n := Some ([], False)]\<rparr>) \<and>
           cl_out cl' = cl_out cl1)"
    proof (rule crep_put [OF cl1(2) n1 _ r(3)])
      show "cp_rep ?n (p\<lparr>cp_peer := None\<rparr>) (Some ([], False))" using rep [of None] by simp
      show "set (voices ((cl_peers cl1)[?n := p\<lparr>cp_peer := None\<rparr>])) \<subseteq> set as" using vu(2) r(4) by blast
      show "distinct (voices ((cl_peers cl1)[?n := p\<lparr>cp_peer := None\<rparr>]))" by (rule vu(1))
    qed
    then show ?thesis using True r(6) id cl1(3) by simp
  next
    case False
    from svc_peer_join_gives [OF r(3), of d0] obtain svc x where
      j: "svc_peer_join d0 (cl_svc cl1) = Inr (svc, x)" "sinv svc (x # as)" by (auto simp: gives_def)
    then have x: "x \<notin> set as" by (simp add: sinv_def)
    have v1: "voices [p\<lparr>cp_peer := Some x\<rparr>] = [x]" by (simp add: p_def)
    have "x \<notin> set (voices (cl_peers cl1))" using x r(4) by blast
    note vu = voices_on [OF i r(5) v1 this]
    have "gives (put_cpeer ?n (p\<lparr>cp_peer := Some x\<rparr>) (cl1\<lparr>cl_svc := svc\<rparr>))
        (\<lambda>cl'. crep cl' (a1\<lparr>ac_peers := (ac_peers a1)[?n := Some ([], True)]\<rparr>) \<and>
           cl_out cl' = cl_out cl1)"
    proof (rule crep_put [OF cl1(2) n1 _ j(2)])
      show "cp_rep ?n (p\<lparr>cp_peer := Some x\<rparr>) (Some ([], True))" using rep [of "Some x"] by simp
      show "set (voices ((cl_peers cl1)[?n := p\<lparr>cp_peer := Some x\<rparr>])) \<subseteq> set (x # as)"
        using vu(2) r(4) by auto
      show "distinct (voices ((cl_peers cl1)[?n := p\<lparr>cp_peer := Some x\<rparr>]))" by (rule vu(1))
    qed
    then show ?thesis using False r(6) id cl1(3) j(1) by simp
  qed
  then obtain cl2 where cl2: "(if ?w = cl_my_id cl1 then put_cpeer ?n (p\<lparr>cp_peer := None\<rparr>) cl1
      else bindR (svc_peer_join d0 (cl_svc cl1)) (\<lambda>(svc, x).
        put_cpeer ?n (p\<lparr>cp_peer := Some x\<rparr>) (cl1\<lparr>cl_svc := svc\<rparr>))) = Inr cl2"
    "crep cl2 (a1\<lparr>ac_peers := (ac_peers a1)[?n := Some ([], ?w \<noteq> ac_id a)]\<rparr>)"
    "cl_out cl2 = cl_out cl" by (rule givesE) simp
  have "scmd_padd d0 cmd 2 v cl = echo_cmd cmd cl2"
    by (simp add: scmd_padd_def Let_def s cl1(1) get cl2(1) [unfolded p_def] del: One_nat_def split del: if_split)
  with echo_gives [OF l cl2(2)] cl2(3) show ?thesis by (simp add: a1_def)
qed

lemma crep_size: "crep cl a \<Longrightarrow> cl_size cl \<le> n \<longleftrightarrow> length (ac_peers a) \<le> unat n"
  by (auto simp: crep_def word_le_nat_alt)

lemma crep_get:
  assumes "crep cl a" "i < length (ac_peers a)"
  shows "get_cpeer i cl = Inr (cl_peers cl ! i)" "cp_rep i (cl_peers cl ! i) (ac_peers a ! i)"
    "i < length (cl_peers cl)"
  using assms by (auto simp: crep_def crep_peers get_cpeer_def)

lemma scmd_pset_gives:
  assumes c: "crep cl a" and v: "vrep True v ws" "length ws = 4" and l: "dholds line cmd"
    and small: "\<forall>w\<in>set ws. length w + 1 < dmax"
    and i: "i = unat (number (ws ! 1))" "i < length (ac_peers a)" "ac_peers a ! i = Some (kvs, voice)"
  shows "gives (scmd_pset cmd 4 v cl) (\<lambda>cl'. crep cl' (a\<lparr>ac_peers := (ac_peers a)[i :=
      Some (AList.update (cstr (ws ! 2)) (ws ! 3) kvs, voice)]\<rparr>) \<and> cl_out cl' = cl_out cl @ [cstr line])"
proof -
  obtain s where s: "arg v 1 = Inr s" "decode_peer_id s = Inr (number (ws ! 1))"
    by (rule peer_id_gives [OF v(1), of 1]) (use v(2) in auto)
  let ?p = "cl_peers cl ! i"
  note g = crep_get [OF c i(2)]
  from g(2) i(3) obtain d where d: "cp_data ?p = Inr d" "dsrep True d kvs" by (auto simp: cp_rep_def)
  have "Suc 2 < length ws" using v(2) by simp
  then obtain k x d' where k: "arg v 2 = Inr k" "read_cs (ddata k) = Inr (cstr (ws ! 2))"
    "arg v (Suc 2) = Inr x" "dsdict_set d (cstr (ws ! 2)) x = Inr d'"
    "dsrep True d' (AList.update (cstr (ws ! 2)) (ws ! Suc 2) kvs)"
    by (rule set_arg_gives [OF v(1) _ small d(2)])
  have three: "Suc 2 = (3 :: nat)" by simp
  define p where "p = ?p\<lparr>cp_data := Inr d'\<rparr>"
  have vp: "voices [p] = voices [?p]" by (simp add: p_def)
  from c obtain as where as: "sinv (cl_svc cl) as" "set (voices (cl_peers cl)) \<subseteq> set as"
    "distinct (voices (cl_peers cl))" by (elim crepE) blast
  have vs: "voices ((cl_peers cl)[i := p]) = voices (cl_peers cl)"
    using voices_split [OF g(3)] vp by metis
  have "gives (put_cpeer i p (cl\<lparr>cl_svc := cl_svc cl\<rparr>)) (\<lambda>cl'. crep cl' (a\<lparr>ac_peers := (ac_peers a)[i :=
      Some (AList.update (cstr (ws ! 2)) (ws ! 3) kvs, voice)]\<rparr>) \<and> cl_out cl' = cl_out cl)"
  proof (rule crep_put [OF c i(2) _ as(1)])
    show "cp_rep i p (Some (AList.update (cstr (ws ! 2)) (ws ! 3) kvs, voice))"
      using g(2) i(3) k(5) unfolding three by (auto simp: cp_rep_def p_def)
  qed (use vs as in simp_all)
  then obtain cl1 where cl1: "put_cpeer i p cl = Inr cl1" "cl_out cl1 = cl_out cl" "crep cl1
      (a\<lparr>ac_peers := (ac_peers a)[i := Some (AList.update (cstr (ws ! 2)) (ws ! 3) kvs, voice)]\<rparr>)"
    by (rule givesE) simp
  have "scmd_pset cmd 4 v cl = echo_cmd cmd cl1"
    using cl1(1) i(2) g(1)
    by (simp add: scmd_pset_def s crep_size [OF c] i(1) [symmetric] d k(1,2,4) k(3) [unfolded three] p_def
        del: One_nat_def)
  with echo_gives [OF l cl1(3)] cl1(2) show ?thesis by simp
qed

lemma dsdict_free_gives: "dsrep t d kvs \<Longrightarrow> gives (dsdict_free d) (\<lambda>_. True)"
  by (auto simp: dsrep_def lrep_def dsdict_free_def intro: gives_mono [OF free_from_linv])

lemma scmd_pdel_gives:
  assumes c: "crep cl a" and v: "vrep True v ws" "length ws = 2" and l: "dholds line cmd"
    and i: "i = unat (number (ws ! 1))" "i < length (ac_peers a)" "ac_peers a ! i = Some (kvs, voice)"
  shows "gives (scmd_pdel cmd 2 v cl) (\<lambda>cl'. crep cl' (a\<lparr>ac_peers := (ac_peers a)[i := None]\<rparr>) \<and>
    cl_out cl' = cl_out cl @ [cstr line])"
proof -
  obtain s where s: "arg v 1 = Inr s" "decode_peer_id s = Inr (number (ws ! 1))"
    by (rule peer_id_gives [OF v(1), of 1]) (use v(2) in auto)
  let ?p = "cl_peers cl ! i"
  note g = crep_get [OF c i(2)]
  from g(2) i(3) obtain d where d: "cp_data ?p = Inr d" "dsrep True d kvs" and con: "cp_connected ?p"
    by (auto simp: cp_rep_def)
  obtain d' where free: "dsdict_free d = Inr d'" by (rule givesE [OF dsdict_free_gives [OF d(2)]])
  from c obtain as where as: "sinv (cl_svc cl) as" "set (voices (cl_peers cl)) \<subseteq> set as"
    "distinct (voices (cl_peers cl))" by (elim crepE) blast
  define p where "p = ?p\<lparr>cp_connected := False, cp_data := Inl Dangling\<rparr>"
  have off: "voices [p] = []" by (simp add: p_def)
  note vo = voices_off [OF g(3) as(3) off]
  let ?leave = "case cp_peer ?p of None \<Rightarrow> Inr (cl_svc cl)
    | Some a \<Rightarrow> bindR (svc_peer_leave a (cl_svc cl)) (\<lambda>(svc, _). Inr svc)"
  have "\<exists>svc bs. ?leave = Inr svc \<and> sinv svc bs \<and> set as - set (voices [?p]) \<subseteq> set bs"
  proof (cases "cp_peer ?p")
    case None
    then show ?thesis using as(1)
      by (intro exI [of _ "cl_svc cl"] exI [of _ as]) (simp del: voices_simps)
  next
    case (Some x)
    then have v1: "voices [?p] = [x]" using con by simp
    then have "x \<in> set (voices (cl_peers cl))" unfolding voices_split(1) [OF g(3)] by simp
    then obtain xs ys where xy: "as = xs @ x # ys" using as(2) by (meson in_mono split_list)
    from svc_peer_leave_gives [OF as(1) [unfolded xy]] obtain svc freed where
      "svc_peer_leave x (cl_svc cl) = Inr (svc, freed)" "sinv svc (xs @ ys)" by (auto simp: gives_def)
    then show ?thesis using Some unfolding v1 xy by (intro exI [of _ svc] exI [of _ "xs @ ys"]) auto
  qed
  then obtain svc bs where svc: "?leave = Inr svc" "sinv svc bs" "set as - set (voices [?p]) \<subseteq> set bs"
    by blast
  have "gives (put_cpeer i p (cl\<lparr>cl_svc := svc\<rparr>)) (\<lambda>cl'.
      crep cl' (a\<lparr>ac_peers := (ac_peers a)[i := None]\<rparr>) \<and> cl_out cl' = cl_out cl)"
  proof (rule crep_put [OF c i(2) _ svc(2)])
    show "cp_rep i p None" using g(2) by (auto simp: cp_rep_def p_def)
    show "set (voices ((cl_peers cl)[i := p])) \<subseteq> set bs" using vo(2) as(2) svc(3) by blast
    show "distinct (voices ((cl_peers cl)[i := p]))" by (rule vo(1))
  qed
  then obtain cl1 where cl1: "put_cpeer i p (cl\<lparr>cl_svc := svc\<rparr>) = Inr cl1" "cl_out cl1 = cl_out cl"
    "crep cl1 (a\<lparr>ac_peers := (ac_peers a)[i := None]\<rparr>)" by (rule givesE) simp
  have "scmd_pdel cmd 2 v cl = echo_cmd cmd cl1"
    using i(2) by (simp add: scmd_pdel_def s crep_size [OF c] i(1) [symmetric] g(1) svc(1) d(1) free
        cl1(1) [unfolded p_def] del: One_nat_def)
  with echo_gives [OF l cl1(3)] cl1(2) show ?thesis by simp
qed

lemma unat_of_nat32: "k < 2 ^ 32 \<Longrightarrow> unat (of_nat k :: u32) = k"
  by (simp add: unat_of_nat take_bit_nat_eq_self)

lemma of_nat_eq_small: "m < 2 ^ 32 \<Longrightarrow> n < 2 ^ 32 \<Longrightarrow> (of_nat m :: u32) = of_nat n \<longleftrightarrow> m = n"
  by (rule iffI, drule arg_cong [where f = unat]) (simp_all only: unat_of_nat32)

lemma on_peerE:
  assumes "on_peer f t a = Some a'" "i = unat (number t)" "i < length (ac_peers a)"
  obtains x where "f (ac_peers a ! i) = Some x" "a' = a\<lparr>ac_peers := (ac_peers a)[i := x]\<rparr>"
  using assms by (auto simp: on_peer_def Let_def)

lemma run_words_gives:
  assumes c: "crep cl a" and v: "vrep True v ws" and l: "dholds line cmd"
    and small: "\<forall>w\<in>set ws. length w + 1 < dmax" "length ws < 2 ^ 32" and a': "acmd ws a = Some a'"
  shows "gives (run_words d0 cmd (hd ws) (of_nat (length ws)) v cl) (\<lambda>cl'. crep cl' a')"
proof -
  have n: "(of_nat (length ws) :: u32) = of_nat k \<longleftrightarrow> length ws = k" if "k < 5" for k
    using of_nat_eq_small [OF small(2), of k] that by simp
  note n2 = n [of 2, simplified] and n3 = n [of 3, simplified] and n4 = n [of 4, simplified]
  have echo: "gives (echo_cmd cmd cl) (\<lambda>cl'. crep cl' a)"
    by (rule gives_mono [OF echo_gives [OF l c]]) simp
  have rd: "read_cs (ddata cmd) = Inr (cstr line)" by (rule read_cs_holds [OF l])
  consider (sset) "hd ws = ''SSET''" | (yare) "hd ws = ''YARE''" | (padd) "hd ws = ''PADD''"
    | (pdel) "hd ws = ''PDEL''" | (pset) "hd ws = ''PSET''" | (mesg) "hd ws = ''MESG''"
    | (other) "hd ws \<notin> {''SSET'', ''YARE'', ''PADD'', ''PDEL'', ''PSET'', ''MESG''}" by blast
  then show ?thesis
  proof cases
    case sset
    then show ?thesis using a' c n3 gives_mono [OF scmd_sset_gives [OF c v _ l small(1)]]
      by (cases "length ws = 3") (auto simp: run_words_def acmd_def scmd_sset_def split: if_splits)
  next
    case yare
    then show ?thesis using a' c n2 gives_mono [OF scmd_yare_gives [OF c v _ l]]
      by (cases "length ws = 2") (auto simp: run_words_def acmd_def scmd_yare_def split: if_splits)
  next
    case padd
    show ?thesis
    proof (cases "length ws = 2")
      case True
      then have "Suc (unat (number (ws ! 1))) < 2 ^ 32" and
        a'_eq: "a' = a\<lparr>ac_peers := (grow (unat (number (ws ! 1))) (ac_peers a))[unat (number (ws ! 1)) :=
          Some ([], number (ws ! 1) \<noteq> ac_id a)]\<rparr>"
        using padd a' by (auto simp: acmd_def Let_def split: if_splits)
      from scmd_padd_gives [OF c v True l this(1), of d0] True padd
      show ?thesis by (auto simp: run_words_def a'_eq intro: gives_mono)
    next
      case False
      then show ?thesis using padd a' c n2 rd
        by (auto simp: run_words_def acmd_def scmd_padd_def split: if_splits)
    qed
  next
    case mesg
    then show ?thesis using a' c n2 echo
      by (auto simp: run_words_def acmd_def scmd_mesg_def split: if_splits)
  next
    case other
    then show ?thesis using a' c by (auto simp: run_words_def acmd_def split: if_splits)
  next
    case pdel
    let ?i = "unat (number (ws ! 1))"
    obtain s where s: "length ws = 2 \<Longrightarrow> arg v 1 = Inr s \<and> decode_peer_id s = Inr (number (ws ! 1))"
      using peer_id_gives [OF v, of 1] by (metis one_less_numeral_iff semiring_norm(76))
    consider "length ws \<noteq> 2" | "length ws = 2" "length (ac_peers a) \<le> ?i"
      | "length ws = 2" "?i < length (ac_peers a)" by linarith
    then show ?thesis
    proof cases
      case 3
      then have op: "on_peer (\<lambda>x. if x = None then None else Some None) (ws ! 1) a = Some a'"
        using pdel a' by (auto simp: acmd_def split: if_splits)
      obtain x where x: "(if ac_peers a ! ?i = None then None else Some None) = Some x"
        "a' = a\<lparr>ac_peers := (ac_peers a)[?i := x]\<rparr>" by (rule on_peerE [OF op refl 3(2)])
      then obtain kvs voice where "ac_peers a ! ?i = Some (kvs, voice)" by (auto split: if_splits)
      from scmd_pdel_gives [OF c v 3(1) l refl 3(2) this] x 3(1) pdel
      show ?thesis by (auto simp: run_words_def split: if_splits intro: gives_mono)
    qed (use pdel a' c n2 s crep_size [OF c] in
      \<open>auto simp: run_words_def acmd_def scmd_pdel_def on_peer_def Let_def split: if_splits\<close>)
  next
    case pset
    let ?i = "unat (number (ws ! 1))"
    obtain s where s: "length ws = 4 \<Longrightarrow> arg v 1 = Inr s \<and> decode_peer_id s = Inr (number (ws ! 1))"
      using peer_id_gives [OF v, of 1] by (metis one_less_numeral_iff semiring_norm(76))
    consider "length ws \<noteq> 4" | "length ws = 4" "length (ac_peers a) \<le> ?i"
      | "length ws = 4" "?i < length (ac_peers a)" by linarith
    then show ?thesis
    proof cases
      case 3
      then have op: "on_peer (map_option (\<lambda>(kvs, voice).
          Some (AList.update (cstr (ws ! 2)) (ws ! 3) kvs, voice))) (ws ! 1) a = Some a'"
        using pset a' by (auto simp: acmd_def split: if_splits)
      obtain x where x: "map_option (\<lambda>(kvs, voice). Some (AList.update (cstr (ws ! 2)) (ws ! 3) kvs, voice))
          (ac_peers a ! ?i) = Some x"
        "a' = a\<lparr>ac_peers := (ac_peers a)[?i := x]\<rparr>" by (rule on_peerE [OF op refl 3(2)])
      then obtain kvs voice where "ac_peers a ! ?i = Some (kvs, voice)" by auto
      from scmd_pset_gives [OF c v 3(1) l small(1) refl 3(2) this] x 3(1) pset this
      show ?thesis by (auto simp: run_words_def split: if_splits intro: gives_mono)
    qed (use pset a' c n4 s crep_size [OF c] in
      \<open>auto simp: run_words_def acmd_def scmd_pset_def on_peer_def Let_def split: if_splits\<close>)
  qed
qed

end
