(* ===== verification/ClientMsg.thy ===== *)
theory ClientMsg
  imports ClientSpec
begin

text \<open>
  A packet of the server, line by line: \<open>handle_server_msg\<close> implements the abstract commands
  of the lines that a newline closes, in order; what follows the last newline is ignored.
\<close>

section \<open>Lines\<close>

abbreviation newline :: char where "newline \<equiv> CHR 0x0A"

fun split_lines :: "string \<Rightarrow> string \<Rightarrow> string list" where
  "split_lines acc [] = []"
| "split_lines acc (c # cs) = (if c = newline then acc # split_lines [] cs else split_lines (acc @ [c]) cs)"

definition lines :: "string \<Rightarrow> string list" where
  "lines xs = split_lines [] xs"

lemma split_lines_none: "newline \<notin> set xs \<Longrightarrow> split_lines acc xs = []"
  by (induction xs arbitrary: acc) auto

lemma split_lines_line: "newline \<notin> set l \<Longrightarrow> split_lines acc (l @ newline # xs) = (acc @ l) # lines xs"
  by (induction l arbitrary: acc) (auto simp: lines_def)

lemma lines_simps [simp]:
  "lines [] = []"
  "newline \<notin> set l \<Longrightarrow> lines (l @ newline # xs) = l # lines xs"
  "newline \<notin> set xs \<Longrightarrow> lines xs = []"
  by (simp_all add: lines_def split_lines_none split_lines_line [unfolded lines_def])

lemma lines_concat:
  "\<forall>l\<in>set ls. newline \<notin> set l \<Longrightarrow> lines (concat (map (\<lambda>l. l @ [newline]) ls) @ xs) = ls @ lines xs"
  by (induction ls) auto

lemma mempos_none: "newline \<notin> set (drop i xs) \<Longrightarrow> mempos xs newline i = None"
  by (auto simp: mempos_def find_None_iff in_set_conv_nth) (metis add_diff_inverse_nat diff_less_mono not_less)

lemma mempos_line:
  assumes "newline \<notin> set l"
  shows "mempos (pre @ l @ newline # xs) newline (length pre) = Some (length pre + length l)"
proof -
  let ?xs = "pre @ l @ newline # xs"
  have "?xs ! j \<noteq> newline" if "length pre \<le> j" "j < length pre + length l" for j
  proof -
    have "j - length pre < length l" using that by simp
    from nth_mem [OF this] assms have "l ! (j - length pre) \<noteq> newline" by metis
    then show ?thesis using that by (simp add: nth_append)
  qed
  moreover have "?xs ! (length pre + length l) = newline" by (simp add: nth_append)
  moreover have "[length pre..<length ?xs] =
      [length pre..<length pre + length l] @ [length pre + length l..<length ?xs]"
    using upt_add_eq_append [of "length pre" "length pre + length l" "Suc (length xs)"]
    by (simp add: add.assoc del: upt_Suc)
  moreover have "[length pre + length l..<length ?xs] =
      (length pre + length l) # [Suc (length pre + length l)..<length ?xs]"
    by (rule upt_conv_Cons) simp
  moreover have "find P (as @ bs) = find P bs" if "\<forall>x\<in>set as. \<not> P x" for P as and bs :: "nat list"
    using that by (induction as) auto
  ultimately show ?thesis by (simp add: mempos_def)
qed

section \<open>The abstract command of a line, and of a packet\<close>

text \<open>A line the lexer rejects is skipped; a line without words makes the code follow \<open>NULL\<close>.\<close>

definition aline :: "string \<Rightarrow> acl \<Rightarrow> acl option" where
  "aline l a =
     (if l = [] then Some a
      else case snd (lex l) of
        None \<Rightarrow> Some a
      | Some ws \<Rightarrow> if ws \<noteq> [] \<and> hd ws \<noteq> [] then acmd ws a else None)"

fun alines :: "string list \<Rightarrow> acl \<Rightarrow> acl option" where
  "alines [] a = Some a"
| "alines (l # ls) a = Option.bind (aline l a) (alines ls)"

lemma alines_append: "alines (ls @ ms) a = Option.bind (alines ls a) (alines ms)"
  by (induction ls arbitrary: a) (simp_all, metis Option.bind_assoc)

text \<open>
  What every line the server sends satisfies: its words fit the lexer's buffer, it is not without
  words, and a line that sets a value has no zero.
\<close>

definition line_ok :: "string \<Rightarrow> bool" where
  "line_ok l \<longleftrightarrow> lex_fits l \<and> (l \<noteq> [] \<longrightarrow> (case snd (lex l) of None \<Rightarrow> True
     | Some ws \<Rightarrow> ws \<noteq> [] \<and> hd ws \<noteq> [] \<and>
         (hd ws = ''SSET'' \<and> length ws = 3 \<longrightarrow> nul \<notin> set l \<and> nul \<notin> set (ws ! 1))))"

lemma line_okD: "line_ok l \<Longrightarrow> lex_fits l"
  by (simp add: line_ok_def)

lemma line_gives:
  assumes c: "crep cl a" and s: "dholds l str" and small: "length l + 1 < dmax" "lex_fits l"
    and a': "aline l a = Some a'" "l \<noteq> []"
  shows "gives (handle_server_decoded_msg d0 str cl) (\<lambda>cl'. crep cl' a')"
proof (cases "snd (lex l)")
  case None
  from dstrlex_parse_gives [of str l] s small obtain code r where
    "dstrlex_parse str = Inr (code, r)" "lex_result (lex l) (code, r)" by (auto simp: gives_def dholds_def)
  with None c a' show ?thesis by (auto simp: handle_server_decoded_msg_def lex_result_def aline_def)
next
  case (Some ws)
  with a' have ws: "ws \<noteq> []" "hd ws \<noteq> []" "acmd ws a = Some a'" by (auto simp: aline_def split: if_splits)
  have d: "drep str l" using s by (simp add: dholds_def)
  obtain argv where v: "vrep True argv ws"
    "handle_server_decoded_msg d0 str cl = run_words d0 str (hd ws) (of_nat (length ws)) argv cl"
    using decoded_words [OF d small Some ws(1,2), of d0 cl] .
  have "\<forall>w\<in>set ws. length w + 1 < dmax"
    using lex_bounds(1) [OF Some] small(1) by (auto dest!: bspec) fastforce
  moreover have "length ws < 2 ^ 32" using lex_bounds(2) [OF Some] small(1) by simp
  ultimately show ?thesis unfolding v(2) by (rule run_words_gives [OF c v(1) s _ _ ws(3)])
qed

section \<open>The packet\<close>

lemma line_string:
  assumes "length data + 1 < dmax" and d: "data = pre @ l @ rest"
  shows "gives (dfrommem (map Some data) (length pre) (of_nat (length l))) (dholds l)"
proof -
  have "gives (dfrommem (map Some data) (length pre) (of_nat (length l)))
      (\<lambda>s. dholds l s \<and> dcap s = (length l div 64 + 1) * 64)"
    by (rule dfrommem_gives)
      (use assms in \<open>auto simp: unat_of_nat take_bit_nat_eq_self\<close>)
  then show ?thesis by (rule gives_mono) simp
qed

lemma line_cases:
  obtains "newline \<notin> set (xs :: string)"
  | l rest where "xs = l @ newline # rest" "newline \<notin> set l"
  by (metis split_list_first)

lemma msg_from_gives:
  fixes cl :: "('a::zero, 'd) client"
  assumes small: "length data + 1 < dmax"
  shows "data = pre @ xs \<Longrightarrow> crep cl a \<Longrightarrow> \<forall>l\<in>set (lines xs). lex_fits l \<Longrightarrow>
    alines (lines xs) a = Some a' \<Longrightarrow>
    gives (msg_from d0 data (length pre) cl) (\<lambda>cl'. crep cl' a')"
proof (induction "length xs" arbitrary: xs pre cl a rule: less_induct)
  case less
  consider "newline \<notin> set xs" | l rest where "xs = l @ newline # rest" "newline \<notin> set l"
    by (rule line_cases)
  then show ?case
  proof cases
    case 1
    then show ?thesis using less.prems mempos_none [of "length pre" data]
      by (simp add: msg_from.simps [of d0 "pre @ xs" "length pre" cl])
  next
    case (2 l rest)
    have m: "mempos data newline (length pre) = Some (length pre + length l)"
      using mempos_line [OF 2(2)] less.prems(1) 2(1) by simp
    from less.prems(4) 2 obtain a1 where a1: "aline l a = Some a1" "alines (lines rest) a1 = Some a'"
      by (auto simp: Option.bind_eq_Some_conv)
    let ?m = "if length pre < length pre + length l then
        bindR (dfrommem (map Some data) (length pre) (of_nat (length pre + length l - length pre)))
          (\<lambda>packet_str. handle_server_decoded_msg d0 packet_str cl) else Inr cl"
    have "gives ?m (\<lambda>cl'. crep cl' a1)"
    proof (cases "l = []")
      case True
      then show ?thesis using a1(1) less.prems(2) by (simp add: aline_def)
    next
      case False
      have "gives (dfrommem (map Some data) (length pre) (of_nat (length l))) (dholds l)"
        by (rule line_string [OF small]) (simp add: less.prems(1) 2(1))
      then have "gives (bindR (dfrommem (map Some data) (length pre) (of_nat (length l)))
          (\<lambda>packet_str. handle_server_decoded_msg d0 packet_str cl)) (\<lambda>cl'. crep cl' a1)"
      proof (rule gives_bind)
        fix str assume "dholds l str"
        then show "gives (handle_server_decoded_msg d0 str cl) (\<lambda>cl'. crep cl' a1)"
          by (rule line_gives [OF less.prems(2)]) (use small less.prems(1,3) 2 a1(1) False in auto)
      qed
      then show ?thesis using False by simp
    qed
    then have "gives (bindR ?m (\<lambda>cl. msg_from d0 data (Suc (length pre + length l)) cl)) (\<lambda>cl'. crep cl' a')"
    proof (rule gives_bind)
      fix cl1 :: "('a, 'd) client" assume "crep cl1 a1"
      from less.hyps [of rest "pre @ l @ [newline]", OF _ _ this] less.prems 2 a1(2)
      show "gives (msg_from d0 data (Suc (length pre + length l)) cl1) (\<lambda>cl'. crep cl' a')"
        by simp
    qed
    then show ?thesis by (simp add: msg_from.simps [of d0 data "length pre" cl] m)
  qed
qed

lemma handle_server_msg_gives:
  assumes "crep cl a" "length data + 1 < dmax" "\<forall>l\<in>set (lines data). lex_fits l"
    "alines (lines data) a = Some a'"
  shows "gives (handle_server_msg d0 data cl) (\<lambda>cl'. crep cl' a')"
  using msg_from_gives [OF assms(2), of "[]" data cl a a' d0] assms by (simp add: handle_server_msg_def)

text \<open>A packet without a newline changes nothing, whatever it says.\<close>

lemma handle_server_msg_unclosed: "newline \<notin> set data \<Longrightarrow> handle_server_msg d0 data cl = Inr cl"
  using mempos_none [of 0 data] by (simp add: handle_server_msg_def msg_from.simps [of d0 data 0])

text \<open>A client that has just been connected.\<close>

definition fresh_client :: "('a::zero, 'd) client \<Rightarrow> bool" where
  "fresh_client cl \<longleftrightarrow> cl_info cl = Inr dsdict_new \<and> cl_peers cl = [] \<and> cl_size cl = 0 \<and>
     (\<exists>as. sinv (cl_svc cl) as)"

lemma fresh_crep: "fresh_client cl \<Longrightarrow> crep cl \<lparr>ac_id = cl_my_id cl, ac_info = [], ac_peers = []\<rparr>"
  by (auto simp: fresh_client_def crep_def)

end
