(* ===== verification/Session.thy ===== *)
theory Session
  imports ServerScript ClientMsg
begin

text \<open>
  The two ends together: what the client makes of the packets the server writes.
\<close>

section \<open>The words of a line\<close>

definition plain :: "string \<Rightarrow> bool" where
  "plain xs \<longleftrightarrow> (\<forall>c\<in>set xs. \<not> special c \<and> c \<noteq> chr_sp)"

lemma lsteps_plain: "plain xs \<Longrightarrow> foldl lstep (False, False, w, ws) xs = (False, False, w @ xs, ws)"
  by (induction xs arbitrary: w) (auto simp: plain_def special_def)

lemma fits_plain:
  "plain xs \<Longrightarrow> length w + length xs < 32 \<Longrightarrow> lex_fits_from (False, False, w, ws) xs"
proof (induction xs arbitrary: w)
  case (Cons c xs)
  then have "lstep (False, False, w, ws) c = (False, False, w @ [c], ws)"
    by (auto simp: plain_def special_def)
  with Cons show ?case by (simp add: plain_def)
qed simp

lemma plain_fmt [simp]: "plain (fmt_i n)"
proof -
  have "\<not> special c \<and> c \<noteq> chr_sp" if "c \<in> set (fmt_i n)" for c
    using dec_int_chars [of c "sint n"] that by (auto simp: fmt_i_def special_def is_digit_def)
  then show ?thesis by (simp add: plain_def)
qed

lemma plain_cmds [simp]: "plain ''YARE''" "plain ''SSET''" "plain ''PADD''" "plain ''PSET''" "plain ''PDEL''"
  by (simp_all add: plain_def special_def)

lemma fmt_ne [simp]: "fmt_i n \<noteq> []"
  by (simp add: fmt_i_def dec_int_def)

lemma fmt_short: "length (fmt_i n) < 32"
  using fmt_i_length [of n] by simp

lemma step_space: "lstep (False, False, w, ws) chr_sp = (False, False, [], if w = [] then ws else ws @ [w])"
  by simp

text \<open>A plain word and the space after it, a quoted word and the space after it.\<close>

lemma word_sp:
  "plain w \<Longrightarrow> w \<noteq> [] \<Longrightarrow>
   foldl lstep (False, False, [], ws) (w @ chr_sp # xs) = foldl lstep (False, False, [], ws @ [w]) xs"
  by (simp add: lsteps_plain)

lemma fits_word_sp:
  "plain w \<Longrightarrow> w \<noteq> [] \<Longrightarrow> length w < 32 \<Longrightarrow>
   lex_fits_from (False, False, [], ws) (w @ chr_sp # xs) = lex_fits_from (False, False, [], ws @ [w]) xs"
  by (simp add: lex_fits_append fits_plain lsteps_plain)

lemma quote_sp:
  "foldl lstep (False, False, [], ws) (quote w @ chr_sp # xs) = foldl lstep (False, False, [], ws @ [w]) xs"
  by (simp add: lstep_quote)

lemma fits_quote_sp:
  "length w < 32 \<Longrightarrow>
   lex_fits_from (False, False, [], ws) (quote w @ chr_sp # xs) = lex_fits_from (False, False, [], ws @ [w]) xs"
  by (simp add: lex_fits_append fits_quote lstep_quote)

definition reads :: "string \<Rightarrow> string list \<Rightarrow> bool" where
  "reads l ws \<longleftrightarrow> lex_fits l \<and> snd (lex l) = Some ws \<and> l \<noteq> [] \<and> newline \<notin> set l \<and> nul \<notin> set l"

lemma plain_no_newline: "plain xs \<Longrightarrow> newline \<notin> set xs"
  by (auto simp: plain_def special_def)

lemma quote_no_newline: "newline \<notin> set (quote xs)"
  using escape_no_special [of newline xs] by (auto simp: quote_def)

lemma no_nul: "plain xs \<Longrightarrow> nul \<notin> set xs" "nul \<notin> set (quote ys)"
  using escape_no_special [of nul ys] by (auto simp: plain_def special_def quote_def)

lemma reads_ok:
  assumes "reads l ws" "ws \<noteq> []" "hd ws \<noteq> []" "hd ws = ''SSET'' \<Longrightarrow> nul \<notin> set (ws ! 1)"
  shows "newline \<notin> set l \<and> line_ok l"
  using assms by (simp add: reads_def line_ok_def)

lemma reads_two:
  assumes "plain c" "c \<noteq> []" "length c < 32" "plain w" "w \<noteq> []" "length w < 32"
  shows "reads (c @ chr_sp # w) [c, w]"
  using assms plain_no_newline [of c] plain_no_newline [of w] no_nul(1) [of c] no_nul(1) [of w]
  by (auto simp: reads_def lex_fits_def lex_def fits_word_sp word_sp lsteps_plain fits_plain lfinish_def)

lemma reads_set:
  assumes "plain c" "c \<noteq> []" "length c < 32" "length k < 32" "length v < 32"
  shows "reads (c @ chr_sp # quote k @ chr_sp # quote v) [c, k, v]"
  using assms plain_no_newline [of c] quote_no_newline [of k] quote_no_newline [of v] no_nul(1) [of c] no_nul(2) [of k]
    no_nul(2) [of v]
  by (auto simp: reads_def lex_fits_def lex_def fits_word_sp word_sp quote_sp fits_quote_sp lstep_quote
      fits_quote lfinish_def lsteps_plain)

lemma reads_pset:
  assumes "plain c" "c \<noteq> []" "length c < 32" "plain w" "w \<noteq> []" "length w < 32"
    "length k < 32" "length v < 32"
  shows "reads (c @ chr_sp # w @ chr_sp # quote k @ chr_sp # quote v) [c, w, k, v]"
  using assms plain_no_newline [of c] plain_no_newline [of w] quote_no_newline [of k] quote_no_newline [of v]
    no_nul(1) [of c] no_nul(1) [of w] no_nul(2) [of k] no_nul(2) [of v]
  by (auto simp: reads_def lex_fits_def lex_def fits_word_sp word_sp quote_sp fits_quote_sp lstep_quote
      fits_quote lfinish_def lsteps_plain)

lemma aline_reads: "reads l ws \<Longrightarrow> ws \<noteq> [] \<Longrightarrow> hd ws \<noteq> [] \<Longrightarrow> aline l a = acmd ws a"
  by (simp add: aline_def reads_def)

section \<open>The lines of a packet\<close>

definition cmd_line :: "string \<Rightarrow> nat \<Rightarrow> string" where
  "cmd_line c i = c @ chr_sp # fmt_i (of_nat i)"

definition sset_line :: "string \<times> bool \<times> string \<Rightarrow> string" where
  "sset_line kv = ''SSET'' @ chr_sp # quote (fst kv) @ chr_sp # quote (snd (snd kv))"

definition pset_line :: "nat \<Rightarrow> string \<times> bool \<times> string \<Rightarrow> string" where
  "pset_line i kv = ''PSET'' @ chr_sp # fmt_i (of_nat i) @ chr_sp # quote (fst kv) @ chr_sp # quote (snd (snd kv))"

definition unlines :: "string list \<Rightarrow> string" where
  "unlines ls = concat (map (\<lambda>l. l @ [newline]) ls)"

lemma unlines_simps [simp]:
  "unlines [] = []" "unlines (l # ls) = l @ newline # unlines ls" "unlines (ls @ ms) = unlines ls @ unlines ms"
  by (simp_all add: unlines_def)

lemma lines_unlines: "\<forall>l\<in>set ls. newline \<notin> set l \<Longrightarrow> lines (unlines ls) = ls"
  using lines_concat [of ls "[]"] by (simp add: unlines_def)

lemma entry_texts:
  "entry_text sset_pre kv = unlines [sset_line kv]"
  "entry_text (pset_pre i) kv = unlines [pset_line i kv]"
  by (simp_all add: entry_text_def sset_pre_def pset_pre_def sset_line_def pset_line_def quote_def)

lemma dict_texts:
  "dict_text sset_pre kvs = unlines (map sset_line kvs)"
  "dict_text (pset_pre i) kvs = unlines (map (pset_line i) kvs)"
  by (induction kvs) (simp_all add: entry_texts)

lemma peer_lines: "peer_line (c @ [chr_sp]) i = unlines [cmd_line c i]"
  by (simp add: peer_line_def cmd_line_def)

definition peer_greeting :: "'p apeer option list \<Rightarrow> nat \<Rightarrow> string list" where
  "peer_greeting ps i = (case ps ! i of None \<Rightarrow> []
     | Some (e, pub, priv) \<Rightarrow> cmd_line ''PADD'' i # map (pset_line i) pub)"

definition greeting_lines :: "nat \<Rightarrow> kvs \<Rightarrow> 'p apeer option list \<Rightarrow> string list" where
  "greeting_lines i sd ps = cmd_line ''YARE'' i # map sset_line sd @
     concat (map (peer_greeting ps) [0..<length ps])"

lemma greeting_unlines: "greeting i sd ps = unlines (greeting_lines i sd ps)"
proof -
  have "peer_text ps j = unlines (peer_greeting ps j)" for j
    using peer_lines [of "''PADD''" j]
    by (auto simp: peer_text_def peer_greeting_def dict_texts split: option.splits)
  then have "concat (map (peer_text ps) js) = unlines (concat (map (peer_greeting ps) js))" for js
    by (induction js) simp_all
  with peer_lines [of "''YARE''" i] show ?thesis
    by (simp add: greeting_def greeting_lines_def dict_texts)
qed

section \<open>The client's view\<close>

definition view :: "kvs \<Rightarrow> (string \<times> string) list" where
  "view kvs = map (\<lambda>kv. (fst kv, snd (snd kv))) kvs"

text \<open>What a dictionary of the server may hold for its packets to be read.\<close>

definition kvs_ok :: "kvs \<Rightarrow> bool" where
  "kvs_ok kvs \<longleftrightarrow> distinct (map fst kvs) \<and> (\<forall>kv\<in>set kvs. ent_ok kv \<and> nul \<notin> set (fst kv))"

lemma ent_short: "ent_ok kv \<Longrightarrow> length (fst kv) < 32 \<and> length (snd (snd kv)) < 32"
  using escape_length(1) [of "fst kv"] escape_length(1) [of "snd (snd kv)"] by (simp add: ent_ok_def)

lemma number_fmt: "number (fmt_i n) = n"
  by (simp add: number_def atoi_fmt_i)

lemma cmd_line_reads: "plain c \<Longrightarrow> c \<noteq> [] \<Longrightarrow> length c < 32 \<Longrightarrow> reads (cmd_line c i) [c, fmt_i (of_nat i)]"
  unfolding cmd_line_def by (rule reads_two) (simp_all add: fmt_short)

lemma sset_reads: "ent_ok kv \<Longrightarrow> reads (sset_line kv) [''SSET'', fst kv, snd (snd kv)]"
  unfolding sset_line_def by (rule reads_set) (simp_all add: ent_short)

lemma pset_reads:
  "ent_ok kv \<Longrightarrow> reads (pset_line i kv) [''PSET'', fmt_i (of_nat i), fst kv, snd (snd kv)]"
  unfolding pset_line_def by (rule reads_pset) (simp_all add: ent_short fmt_short)

lemma yare_line: "aline (cmd_line ''YARE'' i) a = Some (a\<lparr>ac_id := of_nat i\<rparr>)"
  using aline_reads [OF cmd_line_reads [of "''YARE''" i]] by (simp add: acmd_def number_fmt)

lemma padd_line:
  "i < 2 ^ 32 - 1 \<Longrightarrow> aline (cmd_line ''PADD'' i) a =
   Some (a\<lparr>ac_peers := (grow i (ac_peers a))[i := Some ([], of_nat i \<noteq> ac_id a)]\<rparr>)"
  using aline_reads [OF cmd_line_reads [of "''PADD''" i]] by (simp add: acmd_def number_fmt unat_of_nat32)

definition up :: "(string \<times> string) list \<Rightarrow> kvs \<Rightarrow> (string \<times> string) list" where
  "up ckvs kvs = foldl (\<lambda>c kv. AList.update (fst kv) (snd (snd kv)) c) ckvs kvs"

lemma up_simps [simp]:
  "up c [] = c" "up c (kv # kvs) = up (AList.update (fst kv) (snd (snd kv)) c) kvs"
  by (simp_all add: up_def)

lemma up_new:
  "distinct (map fst kvs) \<Longrightarrow> fst ` set kvs \<inter> fst ` set c = {} \<Longrightarrow> up c kvs = c @ view kvs"
proof (induction kvs arbitrary: c)
  case (Cons kv kvs)
  then have "AList.update (fst kv) (snd (snd kv)) c = c @ [(fst kv, snd (snd kv))]"
    by (intro update_new) auto
  moreover have "up (c @ [(fst kv, snd (snd kv))]) kvs = (c @ [(fst kv, snd (snd kv))]) @ view kvs"
    using Cons.prems by (intro Cons.IH) auto
  ultimately show ?case by (simp add: view_def)
qed (simp add: view_def)

lemma map_of_up: "map_of (up c kvs) = map_of c ++ map_of (rev (view kvs))"
proof (induction kvs arbitrary: c)
  case (Cons kv kvs)
  then show ?case by (simp add: view_def update_conv' map_add_upd_left fun_eq_iff map_add_def split: option.splits)
qed (simp add: view_def)

definition sendable :: "kvs \<Rightarrow> bool" where
  "sendable kvs \<longleftrightarrow> (\<forall>kv\<in>set kvs. ent_ok kv \<and> nul \<notin> set (fst kv))"

lemma sset_lines:
  "sendable kvs \<Longrightarrow> alines (map sset_line kvs) a = Some (a\<lparr>ac_info := up (ac_info a) kvs\<rparr>)"
proof (induction kvs arbitrary: a)
  case (Cons kv kvs)
  then have "aline (sset_line kv) a = Some (a\<lparr>ac_info := AList.update (fst kv) (snd (snd kv)) (ac_info a)\<rparr>)"
    using aline_reads [OF sset_reads [of kv]] by (simp add: acmd_def sendable_def)
  with Cons show ?case by (simp add: sendable_def)
qed simp

lemma pset_lines:
  "sendable kvs \<Longrightarrow> i < length (ac_peers a) \<Longrightarrow> i < 2 ^ 32 \<Longrightarrow> ac_peers a ! i = Some (c, voice) \<Longrightarrow>
   alines (map (pset_line i) kvs) a = Some (a\<lparr>ac_peers := (ac_peers a)[i := Some (up c kvs, voice)]\<rparr>)"
proof (induction kvs arbitrary: a c)
  case (Cons kv kvs)
  let ?c = "AList.update (fst kv) (snd (snd kv)) c"
  have "aline (pset_line i kv) a = Some (a\<lparr>ac_peers := (ac_peers a)[i := Some (?c, voice)]\<rparr>)"
    using aline_reads [OF pset_reads [of kv i]] Cons.prems
    by (simp add: acmd_def sendable_def on_peer_def number_fmt unat_of_nat32)
  with Cons.IH [of "a\<lparr>ac_peers := (ac_peers a)[i := Some (?c, voice)]\<rparr>" ?c] Cons.prems
  show ?case by (simp add: sendable_def)
next
  case Nil
  then have "(ac_peers a)[i := Some (c, voice)] = ac_peers a" by (metis list_update_id)
  then show ?case by simp
qed

text \<open>The peers of the server as the client numbered \<open>me\<close> is to see them.\<close>

definition mirror :: "u32 \<Rightarrow> 'p apeer option list \<Rightarrow> nat \<Rightarrow> acp" where
  "mirror me ps j = map_option (\<lambda>(e, pub, priv). (view pub, of_nat j \<noteq> me)) (peer_at ps j)"

definition table_ok :: "'p apeer option list \<Rightarrow> bool" where
  "table_ok ps \<longleftrightarrow> (\<forall>j e pub priv. peer_at ps j = Some (e, pub, priv) \<longrightarrow> kvs_ok pub)"

lemma kvs_ok_sendable: "kvs_ok kvs \<Longrightarrow> sendable kvs"
  by (simp add: kvs_ok_def sendable_def)

lemma peer_greeting_lines:
  assumes "table_ok ps" "n < length ps" "length ps < 2 ^ 32"
  obtains a' where "alines (peer_greeting ps n) a = Some a'" "ac_id a' = ac_id a"
    "ac_info a' = ac_info a"
    "\<And>j. peer_at (ac_peers a') j = (if j = n \<and> ps ! n \<noteq> None then mirror (ac_id a) ps n else peer_at (ac_peers a) j)"
proof (cases "ps ! n")
  case None
  then show ?thesis using that [of a] by (simp add: peer_greeting_def)
next
  case (Some x)
  then obtain e pub priv where x: "ps ! n = Some (e, pub, priv)" by (cases x) auto
  then have at: "peer_at ps n = Some (e, pub, priv)" using assms(2) by (simp add: peer_at_def)
  then have ok: "kvs_ok pub" using assms(1) by (auto simp: table_ok_def)
  define a1 where "a1 = a\<lparr>ac_peers := (grow n (ac_peers a))[n := Some ([], of_nat n \<noteq> ac_id a)]\<rparr>"
  have n: "n < length (grow n (ac_peers a))" by (rule length_grow)
  have "aline (cmd_line ''PADD'' n) a = Some a1"
    unfolding a1_def by (rule padd_line) (use assms(2,3) in simp)
  moreover have "alines (map (pset_line n) pub) a1 = Some (a1\<lparr>ac_peers := (ac_peers a1)[n :=
      Some (up [] pub, of_nat n \<noteq> ac_id a)]\<rparr>)"
    by (rule pset_lines [OF kvs_ok_sendable [OF ok]]) (use n assms(2,3) in \<open>simp_all add: a1_def\<close>)
  moreover have "up [] pub = view pub" using ok up_new [of pub "[]"] by (simp add: kvs_ok_def)
  ultimately show ?thesis
    using that [of "a1\<lparr>ac_peers := (ac_peers a1)[n := Some (view pub, of_nat n \<noteq> ac_id a)]\<rparr>"] n x at
    by (simp add: peer_greeting_def a1_def peer_at_update mirror_def)
qed

lemma peer_greetings_lines:
  assumes ok: "table_ok ps" "length ps < 2 ^ 32"
  shows "n \<le> length ps \<Longrightarrow> \<exists>a'. alines (concat (map (peer_greeting ps) [0..<n])) a = Some a' \<and>
    ac_id a' = ac_id a \<and> ac_info a' = ac_info a \<and>
    (\<forall>j. peer_at (ac_peers a') j =
       (if j < n \<and> ps ! j \<noteq> None then mirror (ac_id a) ps j else peer_at (ac_peers a) j))"
proof (induction n)
  case (Suc n)
  then obtain a1 where a1: "alines (concat (map (peer_greeting ps) [0..<n])) a = Some a1"
    "ac_id a1 = ac_id a" "ac_info a1 = ac_info a"
    "\<And>j. peer_at (ac_peers a1) j =
       (if j < n \<and> ps ! j \<noteq> None then mirror (ac_id a) ps j else peer_at (ac_peers a) j)" by auto
  have lt: "n < length ps" using Suc.prems by simp
  obtain a2 where a2: "alines (peer_greeting ps n) a1 = Some a2" "ac_id a2 = ac_id a1"
    "ac_info a2 = ac_info a1"
    "\<And>j. peer_at (ac_peers a2) j = (if j = n \<and> ps ! n \<noteq> None then mirror (ac_id a1) ps n
       else peer_at (ac_peers a1) j)"
    using peer_greeting_lines [OF ok(1) lt ok(2), of a1] by blast
  have "alines (concat (map (peer_greeting ps) [0..<Suc n])) a = Some a2"
    using a1(1) a2(1) by (simp add: alines_append)
  moreover have "\<forall>j. peer_at (ac_peers a2) j =
       (if j < Suc n \<and> ps ! j \<noteq> None then mirror (ac_id a) ps j else peer_at (ac_peers a) j)"
    using a1(2,4) a2(4) by (auto simp: less_Suc_eq)
  ultimately show ?case using a1(2,3) a2(2,3) by auto
qed simp

lemma greeting_alines:
  assumes ok: "table_ok ps" "length ps < 2 ^ 32" "kvs_ok sd" and a: "ac_info a = []" "ac_peers a = []"
  shows "\<exists>a'. alines (greeting_lines i sd ps) a = Some a' \<and> ac_id a' = of_nat i \<and>
    ac_info a' = view sd \<and> (\<forall>j. peer_at (ac_peers a') j = mirror (of_nat i) ps j)"
proof -
  define b where "b = a\<lparr>ac_id := of_nat i, ac_info := view sd\<rparr>"
  have b: "ac_id b = of_nat i" "ac_info b = view sd" "peer_at (ac_peers b) j = None" for j
    using a by (simp_all add: b_def peer_at_def)
  have "up [] sd = view sd" using ok(3) up_new [of sd "[]"] by (simp add: kvs_ok_def)
  then have s: "alines (map sset_line sd) (a\<lparr>ac_id := of_nat i\<rparr>) = Some b"
    using sset_lines [OF kvs_ok_sendable [OF ok(3)], of "a\<lparr>ac_id := of_nat i\<rparr>"] a by (simp add: b_def)
  from peer_greetings_lines [OF ok(1,2) order_refl, of b] obtain a' where
    a': "alines (concat (map (peer_greeting ps) [0..<length ps])) b = Some a'"
    "ac_id a' = of_nat i" "ac_info a' = view sd"
    "\<And>j. peer_at (ac_peers a') j =
       (if j < length ps \<and> ps ! j \<noteq> None then mirror (of_nat i) ps j else None)"
    unfolding b by blast
  have "peer_at (ac_peers a') j = mirror (of_nat i) ps j" for j
    unfolding a'(4) by (cases "ps ! j") (auto simp: mirror_def peer_at_def [of ps])
  then show ?thesis using a' s by (auto simp: greeting_lines_def yare_line alines_append)
qed

lemma line_clean:
  "kvs_ok sd \<Longrightarrow> kv \<in> set sd \<Longrightarrow> newline \<notin> set (sset_line kv) \<and> line_ok (sset_line kv)"
  "kvs_ok sd \<Longrightarrow> kv \<in> set sd \<Longrightarrow> newline \<notin> set (pset_line i kv) \<and> line_ok (pset_line i kv)"
  using reads_ok [OF sset_reads [of kv]] reads_ok [OF pset_reads [of kv i]] by (auto simp: kvs_ok_def)

lemma cmd_clean: "plain c \<Longrightarrow> c \<noteq> [] \<Longrightarrow> length c < 32 \<Longrightarrow> c \<noteq> ''SSET'' \<Longrightarrow>
  newline \<notin> set (cmd_line c i) \<and> line_ok (cmd_line c i)"
  using reads_ok [OF cmd_line_reads [of c i]] by auto

lemma greeting_clean:
  assumes "table_ok ps" "kvs_ok sd" "l \<in> set (greeting_lines i sd ps)"
  shows "newline \<notin> set l \<and> line_ok l"
  using assms(3) unfolding greeting_lines_def
proof (simp, elim disjE)
  assume "\<exists>j\<in>{0..<length ps}. l \<in> set (peer_greeting ps j)"
  then obtain j where j: "j < length ps" "l \<in> set (peer_greeting ps j)" by auto
  then obtain e pub priv where x: "ps ! j = Some (e, pub, priv)"
    by (cases "ps ! j") (auto simp: peer_greeting_def)
  then have "peer_at ps j = Some (e, pub, priv)" using j(1) by (simp add: peer_at_def)
  then have "kvs_ok pub" using assms(1) unfolding table_ok_def by blast
  with j(2) x show ?thesis
    by (auto simp: peer_greeting_def cmd_clean line_clean)
qed (use assms(2) in \<open>auto simp: cmd_clean line_clean\<close>)

end
