(* ===== verification/Sync.thy ===== *)
theory Sync
  imports Session
begin

text \<open>
  How the client's view follows the server's data: it agrees with every entry that is not
  waiting to be sent, each command of the script keeps that, and each packet restores the
  rest.
\<close>

section \<open>Agreement on a dictionary\<close>

text \<open>An entry whose flag is set is going to be sent; the client may hold anything for it.\<close>

definition agrees :: "(string \<times> string) list \<Rightarrow> kvs \<Rightarrow> bool" where
  "agrees c kvs \<longleftrightarrow> (\<forall>k. case map_of kvs k of
     None \<Rightarrow> map_of c k = None | Some (dirty, v) \<Rightarrow> dirty \<or> map_of c k = Some v)"

definition same :: "(string \<times> string) list \<Rightarrow> kvs \<Rightarrow> bool" where
  "same c kvs \<longleftrightarrow> (\<forall>k. map_of c k = map_option snd (map_of kvs k))"

lemma agrees_put: "agrees c kvs \<Longrightarrow> agrees c (put_kv k v kvs)"
  by (simp add: agrees_def put_kv_def update_conv')

lemma agrees_empty [simp]: "agrees [] []"
  by (simp add: agrees_def)

lemma map_of_clear: "map_of (clear kvs) k = map_option (\<lambda>(d, v). (False, v)) (map_of kvs k)"
  by (induction kvs) (auto simp: clear_Cons, simp add: clear_def)

lemma agrees_clear: "agrees c (clear kvs) = same c kvs"
proof -
  have "(case map_of (clear kvs) k of None \<Rightarrow> map_of c k = None
      | Some (dirty, v) \<Rightarrow> dirty \<or> map_of c k = Some v) = (map_of c k = map_option snd (map_of kvs k))" for k
    by (auto simp: map_of_clear split: option.splits)
  then show ?thesis by (simp add: agrees_def same_def)
qed

lemma same_agrees: "same c kvs \<Longrightarrow> agrees c kvs"
  by (auto simp: agrees_def same_def split: option.splits)

lemma map_of_view: "map_of (view kvs) k = map_option snd (map_of kvs k)"
  by (induction kvs) (auto simp: view_def)

lemma same_view: "same (view kvs) kvs"
  by (simp add: same_def map_of_view)

lemma keys_view [simp]: "map fst (view kvs) = map fst kvs"
  by (simp add: view_def comp_def)

lemma map_of_changed:
  "distinct (map fst kvs) \<Longrightarrow> map_of (changed kvs) k =
   (case map_of kvs k of None \<Rightarrow> None | Some (d, v) \<Rightarrow> if d then Some (d, v) else None)"
proof (induction kvs)
  case (Cons kv kvs)
  moreover have "map_of kvs (fst kv) = None" using Cons.prems by (simp add: map_of_eq_None_iff)
  ultimately show ?case by (cases kv) (auto simp: changed_def)
qed (simp add: changed_def)

lemma distinct_changed: "distinct (map fst kvs) \<Longrightarrow> distinct (map fst (changed kvs))"
  by (simp add: changed_def distinct_map_filter)

lemma map_of_rev: "distinct (map fst xs) \<Longrightarrow> map_of (rev xs) = map_of xs"
  using map_of_inject_set [of "rev xs" xs] by (simp add: rev_map [symmetric])

lemma up_changed_same:
  assumes "distinct (map fst kvs)" "agrees c kvs"
  shows "same (up c (changed kvs)) kvs"
proof -
  have d: "distinct (map fst (view (changed kvs)))" using distinct_changed [OF assms(1)] by simp
  have "map_of (up c (changed kvs)) k = map_option snd (map_of kvs k)" for k
  proof -
    have "map_of (up c (changed kvs)) k =
        (case map_of (view (changed kvs)) k of None \<Rightarrow> map_of c k | Some v \<Rightarrow> Some v)"
      using d map_of_up [of c "changed kvs"] by (simp add: map_add_def map_of_rev split: option.splits)
    also have "\<dots> = map_option snd (map_of kvs k)"
      using assms(2) [unfolded agrees_def, rule_format, of k]
      by (auto simp: map_of_view map_of_changed [OF assms(1)] split: option.splits)
    finally show ?thesis .
  qed
  then show ?thesis by (simp add: same_def)
qed

section \<open>Agreement on the table of peers\<close>

definition tracks :: "acl \<Rightarrow> kvs \<Rightarrow> 'p apeer option list \<Rightarrow> bool" where
  "tracks a sd ps \<longleftrightarrow> agrees (ac_info a) sd \<and>
     (\<forall>j e pub priv. peer_at ps j = Some (e, pub, priv) \<longrightarrow>
        (\<exists>c. peer_at (ac_peers a) j = Some (c, of_nat j \<noteq> ac_id a) \<and> agrees c pub))"

lemma tracksI:
  assumes "agrees (ac_info a) sd"
    "\<And>j e pub priv. peer_at ps j = Some (e, pub, priv) \<Longrightarrow>
       \<exists>c. peer_at (ac_peers a) j = Some (c, of_nat j \<noteq> ac_id a) \<and> agrees c pub"
  shows "tracks a sd ps"
  using assms unfolding tracks_def by blast

lemma tracksD:
  assumes "tracks a sd ps"
  shows "agrees (ac_info a) sd"
    and "peer_at ps j = Some (e, pub, priv) \<Longrightarrow>
      \<exists>c. peer_at (ac_peers a) j = Some (c, of_nat j \<noteq> ac_id a) \<and> agrees c pub"
  using assms unfolding tracks_def by blast+

text \<open>What the script's commands and the departure of a peer do to the server's side.\<close>

lemma tracks_serverset: "tracks a sd ps \<Longrightarrow> tracks a (put_kv k v sd) ps"
  by (simp add: tracks_def agrees_put)

lemma tracks_peerset:
  assumes "tracks a sd ps" "i < length ps" "ps ! i = Some x"
  shows "tracks a sd (ps[i := Some (set_scoped priv (put_kv k v (scoped priv x)) x)])"
proof (rule tracksI)
  show "agrees (ac_info a) sd" by (rule tracksD [OF assms(1)])
  fix j e pub pri
  obtain f pu pr where x: "x = (f, pu, pr)" by (cases x)
  then have at: "peer_at ps i = Some (f, pu, pr)" using assms(2,3) by (simp add: peer_at_def)
  assume "peer_at (ps[i := Some (set_scoped priv (put_kv k v (scoped priv x)) x)]) j = Some (e, pub, pri)"
  then show "\<exists>c. peer_at (ac_peers a) j = Some (c, of_nat j \<noteq> ac_id a) \<and> agrees c pub"
    using tracksD(2) [OF assms(1) at] tracksD(2) [OF assms(1), of j e pub pri]
    by (auto simp: peer_at_update [OF assms(2)] set_scoped_def scoped_def x intro: agrees_put split: if_splits)
qed

lemma tracks_remove: "tracks a sd ps \<Longrightarrow> i < length ps \<Longrightarrow> tracks a sd (ps[i := None])"
  by (auto simp: tracks_def peer_at_update split: if_splits)

lemma tracks_table: "tracks a sd (table ps) = tracks a sd ps"
proof -
  have "peer_at (table ps) j = peer_at ps j" for j by (auto simp: table_def peer_at_def)
  then show ?thesis by (simp add: tracks_def)
qed

text \<open>What the greeting leaves the new client with.\<close>

lemma mirror_tracks:
  assumes "ac_info a = view sd" "\<And>j. peer_at (ac_peers a) j = mirror (ac_id a) ps j"
  shows "tracks a sd ps"
proof (rule tracksI)
  show "agrees (ac_info a) sd" using assms(1) same_agrees [OF same_view] by simp
  fix j e pub priv assume "peer_at ps j = Some (e, pub, priv)"
  then show "\<exists>c. peer_at (ac_peers a) j = Some (c, of_nat j \<noteq> ac_id a) \<and> agrees c pub"
    using same_agrees [OF same_view] by (simp add: assms(2) mirror_def)
qed

section \<open>The packet of what changed\<close>

definition delta_peer_lines :: "'p apeer option list \<Rightarrow> nat \<Rightarrow> string list" where
  "delta_peer_lines ps i = (case ps ! i of None \<Rightarrow> []
     | Some (e, pub, priv) \<Rightarrow> map (pset_line i) (changed pub))"

definition delta_lines :: "kvs \<Rightarrow> 'p apeer option list \<Rightarrow> string list" where
  "delta_lines sd ps = map sset_line (changed sd) @ concat (map (delta_peer_lines ps) [0..<length ps])"

lemma delta_unlines: "delta sd ps = unlines (delta_lines sd ps)"
proof -
  have "delta_peer ps j = unlines (delta_peer_lines ps j)" for j
    by (auto simp: delta_peer_def delta_peer_lines_def dict_texts split: option.splits)
  then have "concat (map (delta_peer ps) js) = unlines (concat (map (delta_peer_lines ps) js))" for js
    by (induction js) simp_all
  then show ?thesis by (simp add: delta_def delta_lines_def dict_texts)
qed

lemma changed_sendable: "kvs_ok kvs \<Longrightarrow> sendable (changed kvs)"
  by (auto simp: kvs_ok_def sendable_def changed_def)

lemma delta_peer_step:
  assumes ok: "table_ok ps" "n < length ps" "length ps < 2 ^ 32" and t: "tracks a sd ps"
  obtains a' where "alines (delta_peer_lines ps n) a = Some a'" "ac_id a' = ac_id a"
    "ac_info a' = ac_info a"
    "\<And>j. j \<noteq> n \<Longrightarrow> peer_at (ac_peers a') j = peer_at (ac_peers a) j"
    "\<And>e pub priv. ps ! n = Some (e, pub, priv) \<Longrightarrow>
       \<exists>c. peer_at (ac_peers a') n = Some (c, of_nat n \<noteq> ac_id a) \<and> same c pub"
proof (cases "ps ! n")
  case None
  then show ?thesis using that [of a] by (simp add: delta_peer_lines_def)
next
  case (Some x)
  then obtain e pub priv where x: "ps ! n = Some (e, pub, priv)" by (cases x) auto
  then have at: "peer_at ps n = Some (e, pub, priv)" using ok(2) by (simp add: peer_at_def)
  then have kok: "kvs_ok pub" using ok(1) by (auto simp: table_ok_def)
  obtain c where c: "peer_at (ac_peers a) n = Some (c, of_nat n \<noteq> ac_id a)" "agrees c pub"
    using tracksD(2) [OF t at] by blast
  then have n: "n < length (ac_peers a)" "ac_peers a ! n = Some (c, of_nat n \<noteq> ac_id a)"
    by (auto simp: peer_at_def split: if_splits)
  have "alines (map (pset_line n) (changed pub)) a = Some (a\<lparr>ac_peers := (ac_peers a)[n :=
      Some (up c (changed pub), of_nat n \<noteq> ac_id a)]\<rparr>)"
    by (rule pset_lines [OF changed_sendable [OF kok] n(1) _ n(2)]) (use ok in simp)
  moreover have "same (up c (changed pub)) pub"
    by (rule up_changed_same) (use kok c in \<open>simp_all add: kvs_ok_def\<close>)
  ultimately show ?thesis
    using that [of "a\<lparr>ac_peers := (ac_peers a)[n := Some (up c (changed pub), of_nat n \<noteq> ac_id a)]\<rparr>"] n x
    by (simp add: delta_peer_lines_def peer_at_update)
qed

text \<open>Everything the server holds and shows is what the client holds.\<close>

definition mirrors :: "acl \<Rightarrow> kvs \<Rightarrow> 'p apeer option list \<Rightarrow> bool" where
  "mirrors a sd ps \<longleftrightarrow> same (ac_info a) sd \<and>
     (\<forall>j e pub priv. peer_at ps j = Some (e, pub, priv) \<longrightarrow>
        (\<exists>c. peer_at (ac_peers a) j = Some (c, of_nat j \<noteq> ac_id a) \<and> same c pub))"

lemma peer_at_clean: "peer_at (map clean ps) j = clean (peer_at ps j)"
  by (simp add: peer_at_def clean_def)

lemma mirrors_clean: "mirrors a sd ps \<Longrightarrow> tracks a (clear sd) (map clean ps)"
  by (auto simp: mirrors_def tracks_def peer_at_clean clean_def agrees_clear)

lemma delta_peers:
  assumes ok: "table_ok ps" "length ps < 2 ^ 32" and t: "tracks a sd ps"
  shows "n \<le> length ps \<Longrightarrow> \<exists>a'. alines (concat (map (delta_peer_lines ps) [0..<n])) a = Some a' \<and>
    ac_id a' = ac_id a \<and> ac_info a' = ac_info a \<and> tracks a' sd ps \<and>
    (\<forall>j e pub priv. j < n \<and> ps ! j = Some (e, pub, priv) \<longrightarrow>
       (\<exists>c. peer_at (ac_peers a') j = Some (c, of_nat j \<noteq> ac_id a) \<and> same c pub))"
proof (induction n)
  case 0
  then show ?case using t by simp
next
  case (Suc n)
  then obtain a1 where a1: "alines (concat (map (delta_peer_lines ps) [0..<n])) a = Some a1"
    "ac_id a1 = ac_id a" "ac_info a1 = ac_info a" "tracks a1 sd ps"
    "\<And>j e pub priv. j < n \<Longrightarrow> ps ! j = Some (e, pub, priv) \<Longrightarrow>
       \<exists>c. peer_at (ac_peers a1) j = Some (c, of_nat j \<noteq> ac_id a) \<and> same c pub" by auto
  have lt: "n < length ps" using Suc.prems by simp
  obtain a2 where a2: "alines (delta_peer_lines ps n) a1 = Some a2" "ac_id a2 = ac_id a1"
    "ac_info a2 = ac_info a1" "\<And>j. j \<noteq> n \<Longrightarrow> peer_at (ac_peers a2) j = peer_at (ac_peers a1) j"
    "\<And>e pub priv. ps ! n = Some (e, pub, priv) \<Longrightarrow>
       \<exists>c. peer_at (ac_peers a2) n = Some (c, of_nat n \<noteq> ac_id a1) \<and> same c pub"
    using delta_peer_step [OF ok(1) lt ok(2) a1(4)] by blast
  have at: "peer_at ps j = Some x \<Longrightarrow> ps ! j = Some x" for j x
    by (simp add: peer_at_def split: if_splits)
  have "tracks a2 sd ps"
  proof (rule tracksI)
    show "agrees (ac_info a2) sd" using tracksD(1) [OF a1(4)] a2(3) by simp
    fix j e pub priv assume j: "peer_at ps j = Some (e, pub, priv)"
    show "\<exists>c. peer_at (ac_peers a2) j = Some (c, of_nat j \<noteq> ac_id a2) \<and> agrees c pub"
    proof (cases "j = n")
      case True
      then show ?thesis using a2(5) [of e pub priv] at [OF j] same_agrees a2(2) by auto
    next
      case False
      then show ?thesis using tracksD(2) [OF a1(4) j] a2(2,4) by simp
    qed
  qed
  moreover have "\<exists>c. peer_at (ac_peers a2) j = Some (c, of_nat j \<noteq> ac_id a) \<and> same c pub"
    if "j < Suc n" "ps ! j = Some (e, pub, priv)" for j e pub priv
    using that a1(2) a1(5) [of j e pub priv] a2(4) [of j] a2(5) [of e pub priv]
    by (cases "j = n") (simp_all add: less_Suc_eq)
  ultimately show ?case using a1 a2 by (auto simp: alines_append)
qed

lemma delta_alines:
  assumes ok: "table_ok ps" "length ps < 2 ^ 32" "kvs_ok sd" and t: "tracks a sd ps"
  shows "\<exists>a'. alines (delta_lines sd ps) a = Some a' \<and> ac_id a' = ac_id a \<and> mirrors a' sd ps"
proof -
  define b where "b = a\<lparr>ac_info := up (ac_info a) (changed sd)\<rparr>"
  have s: "alines (map sset_line (changed sd)) a = Some b"
    using sset_lines [OF changed_sendable [OF ok(3)]] by (simp add: b_def)
  have info: "same (ac_info b) sd"
    using up_changed_same [OF _ tracksD(1) [OF t]] ok(3) by (simp add: b_def kvs_ok_def)
  have "tracks b sd ps" using t same_agrees [OF info] by (simp add: tracks_def b_def)
  from delta_peers [OF ok(1,2) this order_refl] obtain a' where a':
    "alines (concat (map (delta_peer_lines ps) [0..<length ps])) b = Some a'"
    "ac_id a' = ac_id b" "ac_info a' = ac_info b"
    "\<forall>j e pub priv. j < length ps \<and> ps ! j = Some (e, pub, priv) \<longrightarrow>
       (\<exists>c. peer_at (ac_peers a') j = Some (c, of_nat j \<noteq> ac_id b) \<and> same c pub)" by blast
  have "mirrors a' sd ps"
    unfolding mirrors_def a'(3)
  proof (intro conjI allI impI info)
    fix j e pub priv assume "peer_at ps j = Some (e, pub, priv)"
    then show "\<exists>c. peer_at (ac_peers a') j = Some (c, of_nat j \<noteq> ac_id a') \<and> same c pub"
      using a'(2,4) by (auto simp: peer_at_def [of ps] split: if_splits)
  qed
  then show ?thesis using s a' by (auto simp: delta_lines_def alines_append b_def)
qed

lemma delta_clean:
  assumes "table_ok ps" "kvs_ok sd" "l \<in> set (delta_lines sd ps)"
  shows "newline \<notin> set l \<and> line_ok l"
  using assms(3) unfolding delta_lines_def
proof (simp, elim disjE)
  assume "\<exists>j\<in>{0..<length ps}. l \<in> set (delta_peer_lines ps j)"
  then obtain j where j: "j < length ps" "l \<in> set (delta_peer_lines ps j)" by auto
  then obtain e pub priv where x: "ps ! j = Some (e, pub, priv)"
    by (cases "ps ! j") (auto simp: delta_peer_lines_def)
  then have "peer_at ps j = Some (e, pub, priv)" using j(1) by (simp add: peer_at_def)
  then have "kvs_ok pub" using assms(1) unfolding table_ok_def by blast
  with j(2) x show ?thesis by (auto simp: delta_peer_lines_def changed_def line_clean)
qed (use assms(2) in \<open>auto simp: changed_def line_clean\<close>)

section \<open>The other packets\<close>

text \<open>A peer that joined is announced to the others; all its data are still to be sent.\<close>

definition unsent :: "kvs \<Rightarrow> bool" where
  "unsent kvs \<longleftrightarrow> (\<forall>kv\<in>set kvs. fst (snd kv))"

lemma unsent_agrees: "unsent kvs \<Longrightarrow> agrees [] kvs"
  by (auto simp: agrees_def unsent_def split: option.splits dest!: map_of_SomeD bspec)

lemma set_update_cases: "x \<in> set (AList.update k v kvs) \<Longrightarrow> x = (k, v) \<or> x \<in> set kvs"
  by (induction kvs) (auto split: if_splits)

lemma unsent_put: "unsent kvs \<Longrightarrow> unsent (put_kv k v kvs)"
  by (auto simp: unsent_def put_kv_def dest!: set_update_cases)

end
