(* ===== verification/Protocol.thy ===== *)
theory Protocol
  imports Sync
begin

text \<open>
  One client's session: the server with its script, the packets on their way to the client in
  the order they were sent, and the client.  Whatever happens to the other peers, reading the
  packets on their way brings the client's view up to the server's data.
\<close>

section \<open>What a script may do\<close>

text \<open>A text of the script whose lines are no commands of the protocol.\<close>

definition chat_line :: "string \<Rightarrow> bool" where
  "chat_line l \<longleftrightarrow> lex_fits l \<and> (l = [] \<or> (case snd (lex l) of None \<Rightarrow> True
     | Some ws \<Rightarrow> ws \<noteq> [] \<and> hd ws \<noteq> [] \<and> hd ws \<notin> {''SSET'', ''YARE'', ''PADD'', ''PDEL'', ''PSET''}))"

definition harmless :: "string \<Rightarrow> bool" where
  "harmless msg \<longleftrightarrow> length msg + 1 < dmax \<and> (\<forall>l\<in>set (lines msg). chat_line l)"

lemma chat_aline: "chat_line l \<Longrightarrow> aline l a = Some a"
  by (auto simp: chat_line_def aline_def acmd_def split: option.splits)

lemma chat_alines: "\<forall>l\<in>set ls. chat_line l \<Longrightarrow> alines ls a = Some a"
  by (induction ls) (simp_all add: chat_aline)

text \<open>The number of entries the server may write into a packet, and its bound.\<close>

definition load :: "kvs \<Rightarrow> 'p apeer option list \<Rightarrow> nat" where
  "load sd ps = length sd + (\<Sum>x\<leftarrow>ps. case x of None \<Rightarrow> 0 | Some (e, pub, priv) \<Rightarrow> length pub)"

definition tame :: "'t \<Rightarrow> kvs \<Rightarrow> 'p apeer option list \<Rightarrow> 'p effect \<Rightarrow> bool" where
  "tame t sd ps x = (case x of (sd', ps', acts, r) \<Rightarrow>
     acts_on harmless sd ps sd' ps' acts \<and> (load sd ps < 2 ^ 24 \<longrightarrow> load sd' ps' < 2 ^ 24))"

section \<open>Properties of every peer's public data\<close>

definition pubs :: "(nat \<Rightarrow> kvs \<Rightarrow> bool) \<Rightarrow> 'p apeer option list \<Rightarrow> bool" where
  "pubs I ps \<longleftrightarrow> (\<forall>j e pub priv. peer_at ps j = Some (e, pub, priv) \<longrightarrow> I j pub)"

lemma pubsD: "pubs I ps \<Longrightarrow> peer_at ps j = Some (e, pub, priv) \<Longrightarrow> I j pub"
  unfolding pubs_def by blast

lemma pubs_update:
  "pubs I ps \<Longrightarrow> i < length ps \<Longrightarrow> (\<And>e pub priv. x = Some (e, pub, priv) \<Longrightarrow> I i pub) \<Longrightarrow> pubs I (ps[i := x])"
  by (auto simp: pubs_def peer_at_update split: if_splits)

lemma pubs_mono: "pubs I ps \<Longrightarrow> (\<And>j pub. I j pub \<Longrightarrow> J j pub) \<Longrightarrow> pubs J ps"
  unfolding pubs_def by blast

lemma table_ok_pubs: "table_ok ps = pubs (\<lambda>_. kvs_ok) ps"
  by (simp add: table_ok_def pubs_def)

lemma acts_pubs:
  assumes "acts_on ok sd ps sd' ps' acts"
    and put: "\<And>j k v kvs. I j kvs \<Longrightarrow> kv_fits k v \<Longrightarrow> I j (put_kv k v kvs)"
  shows "pubs I ps \<Longrightarrow> pubs I ps'"
  using assms(1)
proof (induction rule: acts_on.induct)
  case (a_peer sd' ps' acts i a k v priv)
  obtain e pu pr where a: "a = (e, pu, pr)" by (cases a)
  then have "peer_at ps' i = Some (e, pu, pr)" using a_peer.hyps(2,3) by (simp add: peer_at_def)
  then have "I i pu" using pubsD a_peer by metis
  then show ?case using a_peer
    by (intro pubs_update) (auto simp: a set_scoped_def scoped_def intro: put split: if_splits)
qed

lemma acts_server:
  assumes "acts_on ok sd ps sd' ps' acts"
    and put: "\<And>k v kvs. I kvs \<Longrightarrow> kv_fits k v \<Longrightarrow> I (put_kv k v kvs)"
  shows "I sd \<Longrightarrow> I sd'"
  using assms(1) by (induction rule: acts_on.induct) (auto intro: put)

lemma nul_cstr [simp]: "nul \<notin> set (cstr xs)"
  by (induction xs) (auto simp: cstr_def)

lemma kvs_ok_put: "kvs_ok kvs \<Longrightarrow> kv_fits k v \<Longrightarrow> kvs_ok (put_kv k v kvs)"
  by (auto simp: kvs_ok_def put_kv_def kv_fits_def distinct_update dest!: set_update_cases)

definition voiced :: "acl \<Rightarrow> nat \<Rightarrow> kvs \<Rightarrow> bool" where
  "voiced a j pub \<longleftrightarrow> (\<exists>c. peer_at (ac_peers a) j = Some (c, of_nat j \<noteq> ac_id a) \<and> agrees c pub)"

lemma tracks_pubs: "tracks a sd ps = (agrees (ac_info a) sd \<and> pubs (voiced a) ps)"
  by (simp add: tracks_def pubs_def voiced_def)

lemma voiced_put: "voiced a j kvs \<Longrightarrow> voiced a j (put_kv k v kvs)"
  by (auto simp: voiced_def intro: agrees_put)

lemma acts_tracks: "acts_on ok sd ps sd' ps' acts \<Longrightarrow> tracks a sd ps \<Longrightarrow> tracks a sd' ps'"
  unfolding tracks_pubs
  using acts_pubs [of ok sd ps sd' ps' acts "voiced a"] acts_server [of ok sd ps sd' ps' acts "agrees (ac_info a)"]
    voiced_put agrees_put by blast

lemma acts_kvs_ok:
  assumes "acts_on ok sd ps sd' ps' acts"
  shows "kvs_ok sd \<Longrightarrow> kvs_ok sd'" "table_ok ps \<Longrightarrow> table_ok ps'"
  using acts_server [OF assms, of kvs_ok] acts_pubs [OF assms, of "\<lambda>_. kvs_ok"] kvs_ok_put
  unfolding table_ok_pubs by blast+

section \<open>The size of the packets\<close>

lemma kvs_ok_ents: "kvs_ok sd \<Longrightarrow> table_ok ps \<Longrightarrow> ents_ok sd ps"
  unfolding ents_ok_def table_ok_def kvs_ok_def peer_at_def by (metis in_set_conv_nth)

lemma dict_text_length:
  assumes "\<forall>kv\<in>set kvs. ent_ok kv"
  shows "length (dict_text pre kvs) \<le> (length (concat pre) + 67) * length kvs"
  using assms
proof (induction kvs)
  case (Cons kv kvs)
  then have "length (entry_text pre kv) \<le> length (concat pre) + 67"
    by (simp add: entry_text_def ent_ok_def)
  with Cons show ?case by simp
qed simp

lemma pre_length: "length (concat sset_pre) = 6" "length (concat (pset_pre i)) \<le> 18"
  using fmt_i_length [of "of_nat i"] by (simp_all add: sset_pre_def pset_pre_def)

lemma pset_text_length:
  assumes "kvs_ok kvs"
  shows "length (dict_text (pset_pre i) kvs) \<le> 85 * length kvs"
proof -
  have "length (dict_text (pset_pre i) kvs) \<le> (length (concat (pset_pre i)) + 67) * length kvs"
    using assms by (intro dict_text_length) (simp add: kvs_ok_def)
  also have "\<dots> \<le> 85 * length kvs" using pre_length(2) [of i] by (intro mult_right_mono) simp_all
  finally show ?thesis .
qed

lemma sset_text_length: "kvs_ok kvs \<Longrightarrow> length (dict_text sset_pre kvs) \<le> 85 * length kvs"
  using dict_text_length [of kvs sset_pre] by (simp add: kvs_ok_def pre_length)

lemma load_Cons: "load sd (ps @ [x]) = load sd ps + (case x of None \<Rightarrow> 0 | Some (e, pub, priv) \<Rightarrow> length pub)"
  by (simp add: load_def)

lemma texts_length:
  assumes "\<And>i. i < length ps \<Longrightarrow> length (f i) \<le>
    17 + 85 * (case ps ! i of None \<Rightarrow> 0 | Some (e, pub, priv) \<Rightarrow> length pub)"
  shows "n \<le> length ps \<Longrightarrow> length (concat (map f [0..<n])) \<le> 17 * n + 85 * load [] (take n ps)"
proof (induction n)
  case (Suc n)
  then show ?case using assms [of n] by (simp add: take_Suc_conv_app_nth load_Cons)
qed (simp add: load_def)

lemma peer_line_length: "length cmd = 5 \<Longrightarrow> length (peer_line cmd i) \<le> 17"
  using fmt_i_length [of "of_nat i"] by (simp add: peer_line_def)

lemma table_kvs: "table_ok ps \<Longrightarrow> i < length ps \<Longrightarrow> ps ! i = Some (e, pub, priv) \<Longrightarrow> kvs_ok pub"
  unfolding table_ok_def peer_at_def by metis

lemma changed_length: "length (changed kvs) \<le> length kvs"
  by (simp add: changed_def)

lemma load_nil: "load sd ps = length sd + load [] ps"
  by (simp add: load_def)

lemma greeting_length:
  assumes "kvs_ok sd" "table_ok ps" "length ps \<le> 10" "load sd ps < 2 ^ 24"
  shows "length (greeting i sd ps) + 1 < dmax"
proof -
  have "length (peer_text ps j) \<le> 17 + 85 * (case ps ! j of None \<Rightarrow> 0 | Some (e, pub, priv) \<Rightarrow> length pub)"
    if "j < length ps" for j
    using peer_line_length [of "''PADD ''" j] pset_text_length [OF table_kvs [OF assms(2) that]]
    by (auto simp: peer_text_def intro!: add_mono split: option.splits)
  from texts_length [of ps, OF this order_refl] sset_text_length [OF assms(1)]
    peer_line_length [of "''YARE ''" i] assms(3,4) load_nil [of sd ps]
  show ?thesis by (simp add: greeting_def)
qed

lemma delta_length:
  assumes "kvs_ok sd" "table_ok ps" "length ps \<le> 10" "load sd ps < 2 ^ 24"
  shows "length (delta sd ps) + 1 < dmax"
proof -
  have ch: "kvs_ok (changed kvs)" if "kvs_ok kvs" for kvs
    using that distinct_changed [of kvs] by (auto simp: kvs_ok_def changed_def)
  have "length (delta_peer ps j) \<le> 17 + 85 * (case ps ! j of None \<Rightarrow> 0 | Some (e, pub, priv) \<Rightarrow> length pub)"
    if "j < length ps" for j
  proof (cases "ps ! j")
    case (Some x)
    then obtain e pub priv where x: "ps ! j = Some (e, pub, priv)" by (cases x) auto
    have "length (dict_text (pset_pre j) (changed pub)) \<le> 85 * length pub"
      by (rule order_trans [OF pset_text_length [OF ch [OF table_kvs [OF assms(2) that x]]]])
        (simp add: changed_length)
    then show ?thesis by (simp add: delta_peer_def x)
  qed (simp add: delta_peer_def)
  from texts_length [of ps, OF this order_refl] sset_text_length [OF ch [OF assms(1)]]
    assms(3,4) load_nil [of sd ps] changed_length [of sd]
  show ?thesis by (simp add: delta_def)
qed

section \<open>The packets on their way\<close>

definition inbox :: "'p \<Rightarrow> 'p action list \<Rightarrow> string list" where
  "inbox e acts = concat (map (\<lambda>x. case x of
     Send e' ch msg \<Rightarrow> if e' = e \<and> ch = 0 then [msg] else [] | Disconnect _ \<Rightarrow> []) acts)"

lemma inbox_simps [simp]:
  "inbox e [] = []" "inbox e (xs @ ys) = inbox e xs @ inbox e ys"
  "inbox e (Send e' ch msg # xs) = (if e' = e \<and> ch = 0 then [msg] else []) @ inbox e xs"
  "inbox e (Disconnect e' # xs) = inbox e xs"
  by (simp_all add: inbox_def)

text \<open>The endpoint \<open>e\<close> is in the table at \<open>i\<close>, or nowhere.\<close>

definition only_at :: "'p \<Rightarrow> nat option \<Rightarrow> 'p apeer option list \<Rightarrow> bool" where
  "only_at e r ps \<longleftrightarrow> (\<forall>j. map_option fst (peer_at ps j) = Some e \<longleftrightarrow> r = Some j)"

lemma endpoints_at: "endpoints ps' = endpoints ps \<Longrightarrow> map_option fst (peer_at ps' j) = map_option fst (peer_at ps j)"
  using endpoints_nth(1) [of ps' ps] endpoints_nth(2) [of ps' ps j] by (simp add: peer_at_def)

lemma only_at_endpoints: "endpoints ps' = endpoints ps \<Longrightarrow> only_at e r ps' = only_at e r ps"
  using endpoints_at [of ps' ps] by (simp add: only_at_def)

lemma only_at_update:
  "only_at e r ps \<Longrightarrow> j < length ps \<Longrightarrow> r \<noteq> Some j \<Longrightarrow> map_option fst x \<noteq> Some e \<Longrightarrow> only_at e r (ps[j := x])"
  unfolding only_at_def by (auto simp: peer_at_update)

lemma only_at_Some:
  assumes "only_at e (Some i) ps"
  obtains x where "i < length ps" "ps ! i = Some (e, x)"
proof -
  from assms have "map_option fst (peer_at ps i) = Some e" by (simp add: only_at_def)
  then show ?thesis using that by (auto simp: peer_at_def split: if_splits)
qed

lemma inbox_bcast:
  assumes r: "only_at e r ps"
  shows "n \<le> length ps \<Longrightarrow> inbox e (bcast but msg ps n) =
    (case r of None \<Rightarrow> [] | Some i \<Rightarrow> if i < n \<and> but \<noteq> Some i then [msg] else [])"
proof (induction n)
  case (Suc n)
  have "bcast but msg ps (Suc n) = bcast but msg ps n @ (case ps ! n of None \<Rightarrow> []
       | Some (e, _) \<Rightarrow> if but = Some n then [] else [Send e 0 msg])"
    by (simp add: bcast_def)
  moreover have "map_option fst (ps ! n) = Some e \<longleftrightarrow> r = Some n"
    using r [unfolded only_at_def, rule_format, of n] Suc.prems by (simp add: peer_at_def)
  ultimately show ?case using Suc
    by (cases "ps ! n"; cases r) (auto simp: less_Suc_eq split: if_splits)
qed (simp add: bcast_def split: option.split)

lemma inbox_bcast_all:
  assumes "only_at e (Some i) ps"
  shows "inbox e (bcast but msg ps (length ps)) = (if but = Some i then [] else [msg])"
  using inbox_bcast [OF assms order_refl] only_at_Some [OF assms] by auto

text \<open>The script's own texts, among what it sent.\<close>

lemma acts_inbox: "acts_on harmless sd ps sd' ps' acts \<Longrightarrow> m \<in> set (inbox e acts) \<Longrightarrow> harmless m"
  by (induction rule: acts_on.induct) (auto split: if_splits)

section \<open>What reading the packets leads to\<close>

definition packet_ok :: "string \<Rightarrow> bool" where
  "packet_ok m \<longleftrightarrow> length m + 1 < dmax \<and> (\<forall>l\<in>set (lines m). line_ok l)"

definition apackets :: "string list \<Rightarrow> acl \<Rightarrow> acl option" where
  "apackets ms a = alines (concat (map lines ms)) a"

lemma apackets_simps [simp]:
  "apackets [] a = Some a"
  "apackets (m # ms) a = Option.bind (alines (lines m) a) (apackets ms)"
  "apackets (ms @ ns) a = Option.bind (apackets ms a) (apackets ns)"
  by (simp_all add: apackets_def alines_append fun_eq_iff [symmetric] cong: Option.bind_cong)

lemma chat_line_ok: "chat_line l \<Longrightarrow> line_ok l"
  by (auto simp: chat_line_def line_ok_def split: option.splits)

lemma harmless_packets: "\<forall>m\<in>set ms. harmless m \<Longrightarrow> apackets ms a = Some a \<and> (\<forall>m\<in>set ms. packet_ok m)"
  by (induction ms) (auto simp: harmless_def packet_ok_def chat_alines chat_line_ok)

lemma packets_read:
  "crep cl a \<Longrightarrow> \<forall>m\<in>set ms. packet_ok m \<Longrightarrow> apackets ms a = Some a' \<Longrightarrow>
   gives (foldR (handle_server_msg d0) ms cl) (\<lambda>cl'. crep cl' a')"
proof (induction ms arbitrary: cl a)
  case (Cons m ms)
  then obtain a1 where a1: "alines (lines m) a = Some a1" "apackets ms a1 = Some a'"
    by (auto simp: Option.bind_eq_Some_conv)
  have "gives (handle_server_msg d0 m cl) (\<lambda>cl'. crep cl' a1)"
    by (rule handle_server_msg_gives [OF Cons.prems(1) _ _ a1(1)])
      (use Cons.prems(2) in \<open>simp_all add: packet_ok_def line_okD\<close>)
  then obtain cl1 where "handle_server_msg d0 m cl = Inr cl1" "crep cl1 a1" by (rule givesE)
  then show ?case using Cons.IH [of cl1 a1] Cons.prems(2) a1(2) by simp
qed simp

text \<open>The packets the server writes, as read.\<close>

lemma unlines_ok:
  assumes "\<And>l. l \<in> set ls \<Longrightarrow> newline \<notin> set l \<and> line_ok l" "length (unlines ls) + 1 < dmax"
  shows "packet_ok (unlines ls)" "lines (unlines ls) = ls"
  using assms lines_unlines [of ls] by (auto simp: packet_ok_def)

lemma pdel_read: "packet_ok (pdel i)" "lines (pdel i) = []"
proof -
  have "newline \<notin> set (pdel i)"
    using plain_no_newline [OF plain_fmt, of "of_nat i"] by (simp add: pdel_def)
  then show "lines (pdel i) = []" by simp
  then show "packet_ok (pdel i)" using fmt_i_length [of "of_nat i"] by (simp add: packet_ok_def pdel_def)
qed

lemma padd_read:
  "packet_ok (peer_line ''PADD '' i)" "lines (peer_line ''PADD '' i) = [cmd_line ''PADD'' i]"
proof -
  have u: "peer_line ''PADD '' i = unlines [cmd_line ''PADD'' i]" using peer_lines [of "''PADD''" i] by simp
  have c: "newline \<notin> set l \<and> line_ok l" if "l \<in> set [cmd_line ''PADD'' i]" for l
    using that cmd_clean [of "''PADD''" i] by simp
  have "length (peer_line ''PADD '' i) + 1 < dmax" using peer_line_length [of "''PADD ''" i] by simp
  from unlines_ok [OF c this [unfolded u]] show "packet_ok (peer_line ''PADD '' i)"
    "lines (peer_line ''PADD '' i) = [cmd_line ''PADD'' i]" unfolding u by simp_all
qed

section \<open>The invariant\<close>

definition good :: "kvs \<Rightarrow> 'p apeer option list \<Rightarrow> bool" where
  "good sd ps \<longleftrightarrow> kvs_ok sd \<and> table_ok ps \<and> load sd ps < 2 ^ 24"

text \<open>
  The server is in a good state with \<open>e\<close> at \<open>i\<close>; the client, once it will have read the
  packets \<open>ms\<close>, has a view that is related by \<open>T\<close> to the server's data.
\<close>

definition synced :: "(acl \<Rightarrow> kvs \<Rightarrow> 'p apeer option list \<Rightarrow> bool) \<Rightarrow> nat \<Rightarrow> 'p \<Rightarrow> 'p server \<Rightarrow>
  string list \<Rightarrow> ('a::zero, 'd) client \<Rightarrow> bool" where
  "synced T i e s ms cl \<longleftrightarrow> (\<exists>sd ps a a'. srep s sd ps \<and> good sd ps \<and> only_at e (Some i) ps \<and>
     crep cl a \<and> (\<forall>m\<in>set ms. packet_ok m) \<and> apackets ms a = Some a' \<and> ac_id a' = of_nat i \<and> T a' sd ps)"

abbreviation "follows \<equiv> synced tracks"

lemma syncedE:
  assumes "synced T i e s ms cl"
  obtains sd ps a a' where "srep s sd ps" "good sd ps" "only_at e (Some i) ps" "crep cl a"
    "\<forall>m\<in>set ms. packet_ok m" "apackets ms a = Some a'" "ac_id a' = of_nat i" "T a' sd ps"
  using assms unfolding synced_def by blast

text \<open>How the invariant is re-established: new data on the server, new packets on their way.\<close>

lemma synced_step:
  assumes "crep cl a" "\<forall>m\<in>set ms. packet_ok m" "apackets ms a = Some a'"
    and "srep s' sd' ps'" "good sd' ps'" "only_at e (Some i) ps'"
    and "\<forall>m\<in>set ns. packet_ok m" "apackets ns a' = Some a''" "ac_id a'' = of_nat i" "T a'' sd' ps'"
  shows "synced T i e s' (ms @ ns) cl"
  unfolding synced_def
  by (rule exI [of _ sd'], rule exI [of _ ps'], rule exI [of _ a], rule exI [of _ a'']) (use assms in auto)

lemma synced_deliver:
  assumes "synced T i e s (m # ms) cl"
  shows "gives (handle_server_msg d0 m cl) (\<lambda>cl'. synced T i e s ms cl')"
proof -
  from assms obtain sd ps a a' where *: "srep s sd ps" "good sd ps" "only_at e (Some i) ps" "crep cl a"
    "\<forall>m\<in>set (m # ms). packet_ok m" "apackets (m # ms) a = Some a'" "ac_id a' = of_nat i" "T a' sd ps"
    by (rule syncedE)
  then obtain a1 where a1: "alines (lines m) a = Some a1" "apackets ms a1 = Some a'"
    by (auto simp: Option.bind_eq_Some_conv)
  have "gives (handle_server_msg d0 m cl) (\<lambda>cl'. crep cl' a1)"
    by (rule handle_server_msg_gives [OF *(4) _ _ a1(1)]) (use *(5) in \<open>simp_all add: packet_ok_def line_okD\<close>)
  then show ?thesis
    by (rule gives_mono) (use * a1(2) in \<open>auto simp: synced_def\<close>)
qed

lemma acts_good:
  assumes "tame t sd ps (sd', ps', acts, r)" "good sd ps"
  shows "good sd' ps'" "acts_on harmless sd ps sd' ps' acts"
  using assms acts_kvs_ok [of harmless sd ps sd' ps' acts] by (auto simp: tame_def good_def)

lemma script_good:
  assumes "script_ok jim tame" "srep s sd ps" "good sd ps"
  obtains s' sd' ps' acts r where "jim t s = (s', r)" "srep s' sd' ps'" "sv_log s' = sv_log s @ acts"
    "endpoints ps' = endpoints ps" "acts_on harmless sd ps sd' ps' acts" "good sd' ps'"
proof -
  from assms(1,2) obtain s' sd' ps' acts r where *: "jim t s = (s', r)" "tame t sd ps (sd', ps', acts, r)"
    "srep s' sd' ps'" "sv_log s' = sv_log s @ acts" "endpoints ps' = endpoints ps" by (rule script_okE)
  from that [OF *(1,3,4,5)] acts_good [OF *(2) assms(3)] show thesis by blast
qed

lemma script_packets:
  assumes "acts_on harmless sd ps sd' ps' acts"
  shows "apackets (inbox e acts) a = Some a" "\<forall>m\<in>set (inbox e acts). packet_ok m"
  using harmless_packets acts_inbox [OF assms] by blast+

section \<open>A turn of the logic\<close>

lemma peer_at_length: "length ps = length qs \<Longrightarrow> (\<And>j. j < length qs \<Longrightarrow> ps ! j = qs ! j) \<Longrightarrow> peer_at ps j = peer_at qs j"
  by (simp add: peer_at_def)

lemma good_clean:
  assumes "good sd ps"
  shows "good (clear sd) (map clean ps)"
proof -
  have k: "kvs_ok (clear kvs)" if "kvs_ok kvs" for kvs
    using that by (auto simp: kvs_ok_def clear_def ent_ok_def comp_def case_prod_beta)
  have "table_ok (map clean ps)"
    unfolding table_ok_def peer_at_clean clean_def
    using assms k by (fastforce simp: good_def table_ok_def)
  moreover have "load (clear sd) (map clean ps) = load sd ps"
    by (auto simp: load_def clear_def clean_def comp_def intro!: arg_cong [where f = sum_list] split: option.splits)
  ultimately show ?thesis using assms k by (simp add: good_def)
qed

lemma only_at_clean: "only_at e r (map clean ps) = only_at e r ps"
proof -
  have "map_option fst (peer_at (map clean ps) j) = map_option fst (peer_at ps j)" for j
    by (cases "peer_at ps j") (auto simp: peer_at_clean clean_def)
  then show ?thesis by (simp add: only_at_def)
qed

lemma same_clear: "same c (clear kvs) = same c kvs"
  by (simp add: same_def map_of_clear option.map_comp comp_def case_prod_beta)

lemma mirrors_clear: "mirrors a sd ps \<Longrightarrow> mirrors a (clear sd) (map clean ps)"
  by (auto simp: mirrors_def peer_at_clean clean_def same_clear)

lemma mirrors_tracks: "mirrors a sd ps \<Longrightarrow> tracks a sd ps"
  unfolding mirrors_def tracks_def using same_agrees by metis

lemma table_small: "srep s sd ps \<Longrightarrow> length ps \<le> 10"
  by (auto simp: srep_def)

lemma logic_turn_synced:
  assumes jim: "script_ok jim tame" and f: "follows i e s ms cl"
  shows "gives (logic_turn jim d s) (\<lambda>s'. \<exists>acts. sv_log s' = sv_log s @ acts \<and>
    synced mirrors i e s' (ms @ inbox e acts) cl)"
proof -
  from f obtain sd ps a a' where *: "srep s sd ps" "good sd ps" "only_at e (Some i) ps" "crep cl a"
    "\<forall>m\<in>set ms. packet_ok m" "apackets ms a = Some a'" "ac_id a' = of_nat i" "tracks a' sd ps"
    by (rule syncedE)
  obtain s1 sd1 ps1 acts r where s1: "jim (''on_logic '' @ dec_nat (unat d)) s = (s1, r)" "srep s1 sd1 ps1"
    "sv_log s1 = sv_log s @ acts" "endpoints ps1 = endpoints ps" "acts_on harmless sd ps sd1 ps1 acts"
    "good sd1 ps1" by (rule script_good [OF jim *(1,2)])
  have k: "kvs_ok sd1" "table_ok ps1" "load sd1 ps1 < 2 ^ 24" using s1(6) by (simp_all add: good_def)
  have l10: "length ps1 \<le> 10" by (rule table_small [OF s1(2)])
  have len: "length (delta sd1 ps1) + 1 < dmax" by (rule delta_length [OF k(1,2) l10 k(3)])
  have o: "only_at e (Some i) ps1" using *(3) by (simp add: only_at_endpoints [OF s1(4)])
  have t: "tracks a' sd1 ps1" by (rule acts_tracks [OF s1(5) *(8)])
  obtain a2 where a2: "alines (delta_lines sd1 ps1) a' = Some a2" "ac_id a2 = ac_id a'" "mirrors a2 sd1 ps1"
    using delta_alines [OF k(2) _ k(1) t] l10 by auto
  have u: "packet_ok (delta sd1 ps1)" "lines (delta sd1 ps1) = delta_lines sd1 ps1"
    unfolding delta_unlines
    by (rule unlines_ok, erule delta_clean [OF k(2,1)], use len in \<open>simp add: delta_unlines\<close>)+
  have "gives (send_modified_data s1) (\<lambda>s'. srep s' (clear sd1) (map clean ps1) \<and>
      sv_log s' = sv_log s1 @ bcast None (delta sd1 ps1) ps1 (length ps1))"
    by (rule send_modified_data_gives [OF s1(2) kvs_ok_ents [OF k(1,2)] len])
  then show ?thesis
    unfolding logic_turn_def s1(1) fst_conv
  proof (rule gives_mono, intro exI conjI)
    fix s' assume s': "srep s' (clear sd1) (map clean ps1) \<and>
        sv_log s' = sv_log s1 @ bcast None (delta sd1 ps1) ps1 (length ps1)"
    then show "sv_log s' = sv_log s @ acts @ bcast None (delta sd1 ps1) ps1 (length ps1)"
      using s1(3) by simp
    show "synced mirrors i e s' (ms @ inbox e (acts @ bcast None (delta sd1 ps1) ps1 (length ps1))) cl"
    proof (rule synced_step [OF *(4,5,6)])
      show "srep s' (clear sd1) (map clean ps1)" using s' by simp
      show "good (clear sd1) (map clean ps1)" by (rule good_clean [OF s1(6)])
      show "only_at e (Some i) (map clean ps1)" using o by (simp add: only_at_clean)
      show "mirrors a2 (clear sd1) (map clean ps1)" by (rule mirrors_clear [OF a2(3)])
      show "ac_id a2 = of_nat i" using a2(2) *(7) by simp
    qed (use script_packets [OF s1(5)] u a2(1) in \<open>auto simp: inbox_bcast_all [OF o]\<close>)
  qed
qed

section \<open>What happens to the other peers\<close>

text \<open>\<open>moves P s s'\<close>: from \<open>s\<close> to \<open>s'\<close> more is sent, and \<open>P\<close> holds of what is sent to \<open>e\<close>.\<close>

definition moves :: "nat \<Rightarrow> 'p \<Rightarrow> string list \<Rightarrow> ('a::zero, 'd) client \<Rightarrow> 'p server \<Rightarrow> 'p server \<Rightarrow> bool" where
  "moves i e ms cl s s' \<longleftrightarrow> (\<exists>acts. sv_log s' = sv_log s @ acts \<and> follows i e s' (ms @ inbox e acts) cl)"

lemma script_moves:
  assumes jim: "script_ok jim tame" and f: "follows i e s ms cl" and s1: "jim t s = (s1, r)"
  shows "moves i e ms cl s s1"
proof -
  from f obtain sd ps a a' where *: "srep s sd ps" "good sd ps" "only_at e (Some i) ps" "crep cl a"
    "\<forall>m\<in>set ms. packet_ok m" "apackets ms a = Some a'" "ac_id a' = of_nat i" "tracks a' sd ps"
    by (rule syncedE)
  obtain sd1 ps1 acts where s: "srep s1 sd1 ps1" "sv_log s1 = sv_log s @ acts"
    "endpoints ps1 = endpoints ps" "acts_on harmless sd ps sd1 ps1 acts" "good sd1 ps1"
    by (rule script_good [OF jim *(1,2), of t]) (use s1 in auto)
  have "follows i e s1 (ms @ inbox e acts) cl"
  proof (rule synced_step [OF *(4,5,6) s(1,5)])
    show "only_at e (Some i) ps1" using *(3) by (simp add: only_at_endpoints [OF s(3)])
    show "tracks a' sd1 ps1" by (rule acts_tracks [OF s(4) *(8)])
  qed (use script_packets [OF s(4)] *(7) in blast)+
  with s(2) show ?thesis unfolding moves_def by blast
qed

lemma follows_audio: "follows i e (s\<lparr>sv_audio := x\<rparr>) ms cl = follows i e s ms cl"
  by (simp add: synced_def)

lemma audio_moves:
  assumes jim: "script_ok jim tame" and f: "follows i e s ms cl"
    and s': "handle_packet_input_audio jim slot data s = Inr s'"
  shows "moves i e ms cl s s'"
proof (cases "s' = s")
  case True
  then show ?thesis using f by (auto simp: moves_def intro!: exI [of _ "[]"])
next
  case False
  then obtain t x where s': "s' = (fst (jim t (s\<lparr>sv_audio := Some x\<rparr>)))\<lparr>sv_audio := None\<rparr>"
    using s' by (auto simp: handle_packet_input_audio_def Let_def split: sum.splits option.splits
        dest!: bindR_eq_Inr [THEN iffD1])
  have "follows i e (s\<lparr>sv_audio := Some x\<rparr>) ms cl" using f by (simp add: follows_audio)
  from script_moves [OF jim this, of t] have "moves i e ms cl (s\<lparr>sv_audio := Some x\<rparr>) (fst (jim t (s\<lparr>sv_audio := Some x\<rparr>)))"
    by (metis prod.collapse)
  then show ?thesis unfolding s' moves_def by (simp add: follows_audio)
qed

lemma command_moves:
  assumes jim: "script_ok jimv tame" and f: "follows i e s ms cl"
    and s': "handle_packet_input_command jimv slot data s = Inr s'"
  shows "moves i e ms cl s s'"
proof -
  from s' obtain args where "s' = fst (jimv args s)"
    by (auto simp: handle_packet_input_command_def bindR_eq_Inr split: option.splits)
  then show ?thesis using script_moves [OF jim f, of args] by (metis prod.collapse)
qed

text \<open>A peer that leaves: the client is told, in a packet it does not read.\<close>

lemma only_at_other:
  assumes "only_at e (Some i) ps" "j \<noteq> i" "j < length ps"
  shows "only_at e (Some i) (ps[j := None])"
  using assms(2) by (intro only_at_update [OF assms(1,3)]) simp_all

lemma good_remove:
  assumes "good sd ps" "i < length ps"
  shows "good sd (ps[i := None])"
proof -
  have "table_ok (ps[i := None])"
    using assms by (auto simp: good_def table_ok_def peer_at_update split: if_splits)
  moreover have "load sd (ps[i := None]) \<le> load sd ps"
    unfolding load_def map_update by (simp add: sum_list_update assms(2))
  ultimately show ?thesis using assms by (simp add: good_def)
qed

lemma disconnect_good:
  assumes jim: "script_ok jim tame" and s: "srep s sd ps" "good sd ps" and i: "i < length ps" "ps ! i \<noteq> None"
  shows "gives (handle_peer_disconnect jim e i s) (\<lambda>s'. \<exists>sd' ps' acts.
     acts_on harmless sd ps sd' ps' acts \<and> good sd' (ps'[i := None]) \<and>
     endpoints ps' = endpoints ps \<and> srep s' sd' (ps'[i := None]) \<and>
     sv_log s' = sv_log s @ acts @ [Disconnect e] @ bcast (Some i) (pdel i) ps' (length ps'))"
  using disconnect_gives [OF jim s(1) i, of e]
proof (rule gives_mono, elim exE conjE)
  fix s' sd' ps' acts r
  assume t: "tame (''on_peer_disconnect '' @ fmt_i (of_nat i)) sd ps (sd', ps', acts, r)"
    and e: "endpoints ps' = endpoints ps"
    and "srep s' sd' (ps'[i := None])"
      "sv_log s' = sv_log s @ acts @ [Disconnect e] @ bcast (Some i) (pdel i) ps' (length ps')"
  moreover have "i < length ps'" using i(1) endpoints_nth(1) [OF e] by simp
  ultimately show "\<exists>sd' ps' acts. acts_on harmless sd ps sd' ps' acts \<and> good sd' (ps'[i := None]) \<and>
      endpoints ps' = endpoints ps \<and> srep s' sd' (ps'[i := None]) \<and>
      sv_log s' = sv_log s @ acts @ [Disconnect e] @ bcast (Some i) (pdel i) ps' (length ps')"
    using acts_good [OF t s(2)] good_remove by blast
qed

lemma disconnect_moves:
  assumes jim: "script_ok jim tame" and f: "follows i e s ms cl" and j: "j \<noteq> i"
    and s': "handle_peer_disconnect jim e' j s = Inr s'"
  shows "moves i e ms cl s s'"
proof -
  from f obtain sd ps a a' where *: "srep s sd ps" "good sd ps" "only_at e (Some i) ps" "crep cl a"
    "\<forall>m\<in>set ms. packet_ok m" "apackets ms a = Some a'" "ac_id a' = of_nat i" "tracks a' sd ps"
    by (rule syncedE)
  have jl: "j < length ps"
    using s' *(1) by (auto simp: handle_peer_disconnect_def bindR_eq_Inr get_slot_def srep_def split: if_splits)
  have occ: "ps ! j \<noteq> None"
  proof
    assume "ps ! j = None"
    from disconnect_rejected [OF jim *(1) jl this, of e'] s' show False by simp
  qed
  from disconnect_gives [OF jim *(1) jl occ, of e'] s' obtain sd1 ps1 acts r where
    s1: "tame (''on_peer_disconnect '' @ fmt_i (of_nat j)) sd ps (sd1, ps1, acts, r)"
    "endpoints ps1 = endpoints ps" "srep s' sd1 (ps1[j := None])"
    "sv_log s' = sv_log s @ acts @ [Disconnect e'] @ bcast (Some j) (pdel j) ps1 (length ps1)"
    by (auto simp: gives_def)
  note g = acts_good [OF s1(1) *(2)]
  have j1: "j < length ps1" using jl endpoints_nth(1) [OF s1(2)] by simp
  have o: "only_at e (Some i) ps1" using *(3) by (simp add: only_at_endpoints [OF s1(2)])
  let ?ns = "inbox e acts @ [pdel j]"
  have "follows i e s' (ms @ ?ns) cl"
  proof (rule synced_step [OF *(4,5,6) s1(3)])
    show "good sd1 (ps1[j := None])" by (rule good_remove [OF g(1) j1])
    show "only_at e (Some i) (ps1[j := None])" by (rule only_at_other [OF o j j1])
    show "tracks a' sd1 (ps1[j := None])" by (rule tracks_remove [OF acts_tracks [OF g(2) *(8)] j1])
  qed (use script_packets [OF g(2)] pdel_read *(7) in auto)
  moreover have "inbox e (acts @ [Disconnect e'] @ bcast (Some j) (pdel j) ps1 (length ps1)) = ?ns"
    using j by (simp add: inbox_bcast_all [OF o])
  ultimately show ?thesis using s1(4) unfolding moves_def by metis
qed

text \<open>A peer that joins: it is announced, and what the script set for it is still to be sent.\<close>

lemma good_table: "good sd (table ps) = good sd ps"
  by (auto simp: table_def good_def table_ok_def peer_at_def load_def sum_list_replicate)

lemma good_joined:
  assumes "good sd ps" "free_at ps k"
  shows "good sd (joined e k ps)"
proof -
  let ?t = "table ps"
  have k: "k < length ?t" "?t ! k = None" and t: "good sd ?t"
    using assms by (auto simp: free_at_def good_table)
  have "table_ok (?t[k := Some (e, [], [])])"
    using t k by (auto simp: good_def table_ok_def peer_at_update kvs_ok_def split: if_splits)
  moreover have "load sd (?t[k := Some (e, [], [])]) = load sd ?t"
    unfolding load_def map_update using k by (simp add: sum_list_update)
  ultimately show ?thesis using t by (simp add: good_def joined_def)
qed

text \<open>A connection, when the script is tame: the packets fit.\<close>

lemma connect_good:
  assumes jim: "script_ok jim tame" and s: "srep s sd ps" "good sd ps" and k: "free_at ps k"
  shows "gives (handle_peer_connect jim e s) (\<lambda>(s', j). j = k \<and> (\<exists>sd' ps' acts r.
    acts_on harmless sd (joined e k ps) sd' ps' acts \<and> good sd' ps' \<and>
    endpoints ps' = endpoints (joined e k ps) \<and>
    (if accepted r then srep s' sd' ps' \<and> sv_log s' = sv_log s @ acts @ greet_log k e sd' ps'
     else srep s' sd' (ps'[k := None]) \<and> sv_log s' = sv_log s @ acts @ [Disconnect e])))"
proof -
  note j = good_joined [OF s(2) k, of e]
  have t10: "length (joined e k ps) \<le> 10" using table_small [OF s(1)] by (simp add: joined_def table_def)
  have "gives (handle_peer_connect jim e s) (\<lambda>(s', j). j = k \<and> (\<exists>sd' ps' acts r.
    tame (''on_peer_connect '' @ fmt_i (of_nat k)) sd (joined e k ps) (sd', ps', acts, r) \<and>
    endpoints ps' = endpoints (joined e k ps) \<and>
    (if accepted r then srep s' sd' ps' \<and> sv_log s' = sv_log s @ acts @ greet_log k e sd' ps'
     else srep s' sd' (ps'[k := None]) \<and> sv_log s' = sv_log s @ acts @ [Disconnect e])))"
  proof (rule connect_gives [OF jim s(1) k])
    fix sd' ps' acts r
    assume "tame (''on_peer_connect '' @ fmt_i (of_nat k)) sd (joined e k ps) (sd', ps', acts, r)"
    note g = acts_good [OF this j]
    have "length ps' \<le> 10" using endpoints_nth(1) [OF acts_on_endpoints [OF g(2)]] t10 by simp
    with g(1) show "ents_ok sd' ps' \<and> length (greeting k sd' ps') + 1 < dmax"
      using greeting_length [of sd' ps' k] by (simp add: good_def kvs_ok_ents)
  qed
  then show ?thesis
  proof (rule gives_mono, clarify)
    fix s' sd' ps' acts r
    assume t: "tame (''on_peer_connect '' @ fmt_i (of_nat k)) sd (joined e k ps) (sd', ps', acts, r)"
    assume "endpoints ps' = endpoints (joined e k ps)"
      "if accepted r then srep s' sd' ps' \<and> sv_log s' = sv_log s @ acts @ greet_log k e sd' ps'
       else srep s' sd' (ps'[k := None]) \<and> sv_log s' = sv_log s @ acts @ [Disconnect e]"
    with acts_good [OF t j] show "k = k \<and> (\<exists>sd' ps' acts r.
        acts_on harmless sd (joined e k ps) sd' ps' acts \<and> good sd' ps' \<and>
        endpoints ps' = endpoints (joined e k ps) \<and>
        (if accepted r then srep s' sd' ps' \<and> sv_log s' = sv_log s @ acts @ greet_log k e sd' ps'
         else srep s' sd' (ps'[k := None]) \<and> sv_log s' = sv_log s @ acts @ [Disconnect e]))"
      by blast
  qed
qed

definition newcomer :: "acl \<Rightarrow> nat \<Rightarrow> nat \<Rightarrow> kvs \<Rightarrow> bool" where
  "newcomer a k j pub = (if j = k then unsent pub else voiced a j pub)"

lemma newcomer_joined:
  assumes "tracks a sd ps" "free_at ps k" "ps \<noteq> []"
  shows "pubs (newcomer a k) (joined e k ps)"
proof -
  have k: "k < length ps" "ps ! k = None" "table ps = ps" using assms(2,3) by (auto simp: free_at_def table_def)
  have "pubs (voiced a) ps" using assms(1) by (simp add: tracks_pubs)
  then show ?thesis using k
    by (auto simp: pubs_def joined_def newcomer_def peer_at_update unsent_def peer_at_def [of ps k] split: if_splits)
qed

lemma newcomer_put: "newcomer a k j kvs \<Longrightarrow> newcomer a k j (put_kv x v kvs)"
  by (simp add: newcomer_def unsent_put voiced_put)

lemma newcomer_tracks:
  assumes "pubs (newcomer a k) ps" "agrees (ac_info a) sd"
  shows "tracks (a\<lparr>ac_peers := (grow k (ac_peers a))[k := Some ([], of_nat k \<noteq> ac_id a)]\<rparr>) sd ps"
    and "k < length ps \<Longrightarrow> tracks a sd (ps[k := None])"
proof -
  let ?a = "a\<lparr>ac_peers := (grow k (ac_peers a))[k := Some ([], of_nat k \<noteq> ac_id a)]\<rparr>"
  have "voiced ?a j pub" if "newcomer a k j pub" for j pub
    using that length_grow [of k "ac_peers a"]
    by (cases "j = k") (simp_all add: newcomer_def voiced_def peer_at_update unsent_agrees)
  from pubs_mono [OF assms(1) this] assms(2) show "tracks ?a sd ps" by (simp add: tracks_pubs)
  assume k: "k < length ps"
  have "voiced a j pub" if "peer_at (ps[k := None]) j = Some (e, pub, priv)" for j e pub priv
    using pubsD [OF assms(1), of j e pub priv] that k
    by (cases "j = k") (simp_all add: newcomer_def peer_at_update)
  then have "pubs (voiced a) (ps[k := None])" unfolding pubs_def by blast
  with assms(2) show "tracks a sd (ps[k := None])" by (simp add: tracks_pubs)
qed

lemma connect_moves:
  assumes jim: "script_ok jim tame" and f: "follows i e s ms cl" and e': "e' \<noteq> e"
    and s': "handle_peer_connect jim e' s = Inr (s', k')"
  shows "moves i e ms cl s s'"
proof -
  from f obtain sd ps a a' where *: "srep s sd ps" "good sd ps" "only_at e (Some i) ps" "crep cl a"
    "\<forall>m\<in>set ms. packet_ok m" "apackets ms a = Some a'" "ac_id a' = of_nat i" "tracks a' sd ps"
    by (rule syncedE)
  obtain x where i: "i < length ps" "ps ! i = Some (e, x)" by (rule only_at_Some [OF *(3)])
  then have ne: "ps \<noteq> []" by auto
  have "None \<in> set ps"
  proof (rule ccontr)
    assume "None \<notin> set ps"
    from get_new_peer_full [OF *(1) ne this] s' show False by (simp add: handle_peer_connect_def)
  qed
  then obtain k where k: "free_at ps k" using free_at_ex [of ps] by blast
  then have kl: "k < length ps" "ps ! k = None" "k \<noteq> i" using ne i by (auto simp: free_at_def table_def)
  from connect_good [OF jim *(1,2) k, of e'] s' obtain sd1 ps1 acts r where
    s1: "acts_on harmless sd (joined e' k ps) sd1 ps1 acts" "good sd1 ps1"
    "endpoints ps1 = endpoints (joined e' k ps)"
    "if accepted r then srep s' sd1 ps1 \<and> sv_log s' = sv_log s @ acts @ greet_log k e' sd1 ps1
     else srep s' sd1 (ps1[k := None]) \<and> sv_log s' = sv_log s @ acts @ [Disconnect e']"
    unfolding gives_def by auto
  have k1: "k < length ps1" using endpoints_nth(1) [OF s1(3)] kl(1) ne by (simp add: joined_def table_def)
  have oj: "only_at e (Some i) (joined e' k ps)"
    using only_at_update [OF *(3) kl(1), of "Some (e', [], [])"] kl(3) e' ne by (simp add: joined_def table_def)
  have o: "only_at e (Some i) ps1" using oj by (simp add: only_at_endpoints [OF s1(3)])
  have n: "pubs (newcomer a' k) ps1"
    by (rule acts_pubs [OF s1(1) newcomer_put newcomer_joined [OF *(8) k ne]])
  have sd: "agrees (ac_info a') sd1"
    using acts_server [OF s1(1), of "agrees (ac_info a')"] agrees_put tracksD(1) [OF *(8)] by blast
  note sp = script_packets [OF s1(1)]
  show ?thesis
  proof (cases "accepted r")
    case True
    let ?a = "a'\<lparr>ac_peers := (grow k (ac_peers a'))[k := Some ([], of_nat k \<noteq> ac_id a')]\<rparr>"
    let ?ns = "inbox e acts @ [peer_line ''PADD '' k]"
    have "aline (cmd_line ''PADD'' k) a' = Some ?a"
      by (rule padd_line) (use kl(1) table_small [OF *(1)] in simp)
    then have ns: "apackets ?ns a' = Some ?a" "\<forall>m\<in>set ?ns. packet_ok m"
      using sp padd_read [of k] by auto
    have "srep s' sd1 ps1" using s1(4) True by simp
    from synced_step [where T = tracks, OF *(4,5,6) this s1(2) o ns(2,1)] *(7) newcomer_tracks(1) [OF n sd]
    have "follows i e s' (ms @ ?ns) cl" by simp
    moreover have "inbox e (acts @ greet_log k e' sd1 ps1) = ?ns"
      using e' kl(3) by (simp add: greet_log_def inbox_bcast_all [OF o])
    ultimately show ?thesis using s1(4) True unfolding moves_def by auto
  next
    case False
    have "follows i e s' (ms @ inbox e acts) cl"
    proof (rule synced_step [OF *(4,5,6)])
      show "good sd1 (ps1[k := None])" by (rule good_remove [OF s1(2) k1])
      show "only_at e (Some i) (ps1[k := None])" by (rule only_at_other [OF o kl(3) k1])
      show "tracks a' sd1 (ps1[k := None])" by (rule newcomer_tracks(2) [OF n sd k1])
    qed (use sp s1(4) False *(7) in auto)
    then show ?thesis using s1(4) False unfolding moves_def by auto
  qed
qed

text \<open>Any event that is not the end of this session.\<close>

definition spares :: "nat \<Rightarrow> 'p \<Rightarrow> 'p Server.event \<Rightarrow> bool" where
  "spares i e ev = (case ev of Connect e' \<Rightarrow> e' \<noteq> e | Disconnected e' j \<Rightarrow> j \<noteq> i | Receive j ch data \<Rightarrow> True)"

lemma event_moves:
  assumes "script_ok jim tame" "script_ok jimv tame" and f: "follows i e s ms cl"
    and "spares i e ev" "handle_event jim jimv ev s = Inr s'"
  shows "moves i e ms cl s s'"
proof (cases ev)
  case (Connect e')
  then show ?thesis using assms connect_moves [OF assms(1) f, of e']
    by (auto simp: handle_event_def bindR_eq_Inr spares_def)
next
  case (Disconnected e' j)
  then show ?thesis using assms disconnect_moves [OF assms(1) f, of j e'] by (simp add: handle_event_def spares_def)
next
  case (Receive j ch data)
  consider "ch = 0" | "ch = 1" | "ch \<noteq> 0" "ch \<noteq> 1" by blast
  then show ?thesis
  proof cases
    case 3
    then show ?thesis using assms(5) f Receive by (auto simp: handle_event_def moves_def intro!: exI [of _ "[]"])
  qed (use assms Receive command_moves [OF assms(2) f, of j data] audio_moves [OF assms(1) f, of j data] in
    \<open>simp_all add: handle_event_def\<close>)
qed

section \<open>The start of a session\<close>

text \<open>The new peer was accepted when the server did not disconnect it.\<close>

definition sent_since :: "'p server \<Rightarrow> 'p server \<Rightarrow> 'p action list" where
  "sent_since s s' = drop (length (sv_log s)) (sv_log s')"

lemma start_synced:
  fixes cl :: "('a::zero, 'd) client"
  assumes jim: "script_ok jim tame" and s: "srep s sd ps" "good sd ps" "only_at e None ps"
    and cl: "fresh_client cl" and s': "handle_peer_connect jim e s = Inr (s', i)"
    and acc: "Disconnect e \<notin> set (sent_since s s')"
  shows "follows i e s' (inbox e (sent_since s s')) cl"
proof -
  let ?a = "\<lparr>ac_id = cl_my_id cl, ac_info = [], ac_peers = []\<rparr>"
  have "ps = [] \<or> None \<in> set ps"
  proof (rule ccontr)
    assume "\<not> (ps = [] \<or> None \<in> set ps)"
    with get_new_peer_full [OF s(1)] s' show False by (simp add: handle_peer_connect_def)
  qed
  then obtain k where k: "free_at ps k" using free_at_ex by blast
  then have kt: "k < length (table ps)" "table ps ! k = None" by (simp_all add: free_at_def)
  have t10: "length (table ps) \<le> 10" using table_small [OF s(1)] by (simp add: table_def)
  from connect_good [OF jim s(1,2) k, of e] s' obtain sd1 ps1 acts r where
    s1: "i = k" "acts_on harmless sd (joined e k ps) sd1 ps1 acts" "good sd1 ps1"
    "endpoints ps1 = endpoints (joined e k ps)"
    "if accepted r then srep s' sd1 ps1 \<and> sv_log s' = sv_log s @ acts @ greet_log k e sd1 ps1
     else srep s' sd1 (ps1[k := None]) \<and> sv_log s' = sv_log s @ acts @ [Disconnect e]"
    unfolding gives_def by auto
  have r: "accepted r" using s1(5) acc by (auto simp: sent_since_def split: if_splits)
  have gd: "kvs_ok sd1" "table_ok ps1" "load sd1 ps1 < 2 ^ 24" using s1(3) by (simp_all add: good_def)
  have l1: "length ps1 = length (table ps)" using endpoints_nth(1) [OF s1(4)] by (simp add: joined_def)
  have "only_at e None (table ps)" using s(3) by (auto simp: only_at_def table_def peer_at_def)
  then have "only_at e (Some k) (joined e k ps)"
    using kt(1) by (auto simp: only_at_def joined_def peer_at_update)
  then have o: "only_at e (Some k) ps1" by (simp add: only_at_endpoints [OF s1(4)])
  obtain a' where a': "alines (greeting_lines k sd1 ps1) ?a = Some a'" "ac_id a' = of_nat k"
    "ac_info a' = view sd1" "\<And>j. peer_at (ac_peers a') j = mirror (of_nat k) ps1 j"
    using greeting_alines [OF gd(2) _ gd(1), of ?a k] l1 t10 by auto
  have u: "packet_ok (greeting k sd1 ps1)" "lines (greeting k sd1 ps1) = greeting_lines k sd1 ps1"
    unfolding greeting_unlines
    by (rule unlines_ok, erule greeting_clean [OF gd(2,1)],
        use greeting_length [OF gd(1,2) _ gd(3), of k] l1 t10 in \<open>simp add: greeting_unlines\<close>)+
  have log: "sent_since s s' = acts @ greet_log k e sd1 ps1" using s1(5) r by (simp add: sent_since_def)
  have ib: "inbox e (sent_since s s') = inbox e acts @ [greeting k sd1 ps1]"
    unfolding log by (simp add: greet_log_def inbox_bcast_all [OF o])
  have "follows i e s' ([] @ inbox e (sent_since s s')) cl"
    unfolding s1(1)
  proof (rule synced_step [OF fresh_crep [OF cl]])
    show "srep s' sd1 ps1" using s1(5) r by simp
    show "tracks a' sd1 ps1" by (rule mirror_tracks) (simp_all add: a')
  qed (use s1(3) o script_packets [OF s1(2)] u a' ib in auto)
  then show ?thesis by simp
qed

section \<open>The session\<close>

text \<open>
  \<open>session d0 i e\<close>: the states a session of the client at the endpoint \<open>e\<close>, numbered
  \<open>i\<close>, goes through.  The interpreter has variables of its own, so what it does with a script
  may be different at every step.
\<close>

inductive session ::
  "'d \<Rightarrow> nat \<Rightarrow> 'p \<Rightarrow> 'p server \<Rightarrow> string list \<Rightarrow> ('a::zero, 'd) client \<Rightarrow> bool" for d0 i e where
  started: "srep s sd ps \<Longrightarrow> good sd ps \<Longrightarrow> only_at e None ps \<Longrightarrow> fresh_client cl \<Longrightarrow>
    script_ok jim tame \<Longrightarrow> handle_peer_connect jim e s = Inr (s', i) \<Longrightarrow>
    Disconnect e \<notin> set (sent_since s s') \<Longrightarrow> session d0 i e s' (inbox e (sent_since s s')) cl"
| event: "session d0 i e s ms cl \<Longrightarrow> spares i e ev \<Longrightarrow> script_ok jim tame \<Longrightarrow> script_ok jimv tame \<Longrightarrow>
    handle_event jim jimv ev s = Inr s' \<Longrightarrow> session d0 i e s' (ms @ inbox e (sent_since s s')) cl"
| logic: "session d0 i e s ms cl \<Longrightarrow> script_ok jim tame \<Longrightarrow> logic_turn jim dt s = Inr s' \<Longrightarrow>
    session d0 i e s' (ms @ inbox e (sent_since s s')) cl"
| deliver: "session d0 i e s (m # ms) cl \<Longrightarrow> handle_server_msg d0 m cl = Inr cl' \<Longrightarrow> session d0 i e s ms cl'"

lemma moves_follows: "moves i e ms cl s s' \<Longrightarrow> follows i e s' (ms @ inbox e (sent_since s s')) cl"
  by (auto simp: moves_def sent_since_def)

lemma synced_mono: "synced T i e s ms cl \<Longrightarrow> (\<And>a sd ps. T a sd ps \<Longrightarrow> U a sd ps) \<Longrightarrow> synced U i e s ms cl"
  unfolding synced_def by meson

lemma session_inv: "session d0 i e s ms cl \<Longrightarrow> follows i e s ms cl"
proof (induction rule: session.induct)
  case (started s sd ps cl jim s')
  then show ?case by (intro start_synced)
next
  case (event s ms cl ev jim jimv s')
  then show ?case by (intro moves_follows event_moves)
next
  case (logic s ms cl jim dt s')
  from logic_turn_synced [OF logic.hyps(2) logic.IH, of dt] logic.hyps(3)
  have "synced mirrors i e s' (ms @ inbox e (sent_since s s')) cl"
    by (auto simp: gives_def sent_since_def)
  then show ?case by (rule synced_mono) (rule mirrors_tracks)
next
  case (deliver s m ms cl cl')
  with synced_deliver [OF deliver.IH, of d0] show ?case by (simp add: gives_def)
qed

lemma synced_read:
  assumes "synced T i e s ms cl"
  shows "\<exists>sd ps. srep s sd ps \<and> gives (foldR (handle_server_msg d0) ms cl)
    (\<lambda>cl'. \<exists>a. crep cl' a \<and> ac_id a = of_nat i \<and> T a sd ps)"
proof -
  from assms obtain sd ps a a' where *: "srep s sd ps" "good sd ps" "only_at e (Some i) ps" "crep cl a"
    "\<forall>m\<in>set ms. packet_ok m" "apackets ms a = Some a'" "ac_id a' = of_nat i" "T a' sd ps"
    by (rule syncedE)
  from packets_read [OF *(4,5,6), of d0] have "gives (foldR (handle_server_msg d0) ms cl)
    (\<lambda>cl'. \<exists>a. crep cl' a \<and> ac_id a = of_nat i \<and> T a sd ps)"
    by (rule gives_mono) (use * in blast)
  with *(1) show ?thesis by blast
qed

end
