(* ===== verification/ClientLife.thy ===== *)
theory ClientLife
  imports ClientMsg
begin

text \<open>
  The client's connection: whatever the server and the user say, ENet's objects are there
  while the client is connecting or connected, and the client has a number only while it is
  connected.
\<close>

section \<open>What the commands of the server leave alone\<close>

definition frame :: "('a, 'd) client \<Rightarrow> ('a, 'd) client \<Rightarrow> bool" where
  "frame cl cl' \<longleftrightarrow> cl_state cl' = cl_state cl \<and> cl_host cl' = cl_host cl \<and> cl_client cl' = cl_client cl \<and>
     cl_name cl' = cl_name cl \<and> cl_addr cl' = cl_addr cl \<and> cl_port cl' = cl_port cl \<and>
     cl_muted cl' = cl_muted cl \<and> cl_deafen cl' = cl_deafen cl"

text \<open>The connection alone.\<close>

definition linked :: "('a, 'd) client \<Rightarrow> ('a, 'd) client \<Rightarrow> bool" where
  "linked cl cl' \<longleftrightarrow> cl_state cl' = cl_state cl \<and> cl_host cl' = cl_host cl \<and> cl_client cl' = cl_client cl"

lemma frame_linked: "frame cl cl' \<Longrightarrow> linked cl cl'"
  by (simp add: frame_def linked_def)

lemma frame_refl [simp]: "frame cl cl"
  by (simp add: frame_def)

lemma frame_trans: "frame cl cl1 \<Longrightarrow> frame cl1 cl2 \<Longrightarrow> frame cl cl2"
  by (simp add: frame_def)

lemma put_cpeer_frame: "put_cpeer i p cl = Inr cl' \<Longrightarrow> frame cl cl'"
  by (auto simp: put_cpeer_def frame_def split: if_splits)

lemma echo_frame: "echo_cmd cmd cl = Inr cl' \<Longrightarrow> frame cl cl'"
  by (auto simp: echo_cmd_def print_line_def frame_def res_iff)

lemma enlarge_frame: "enlarge_peers i cl = Inr cl' \<Longrightarrow> frame cl cl'"
  by (auto simp: enlarge_peers_def Let_def frame_def split: if_splits)

lemma frame_simps [simp]:
  "frame (cl\<lparr>cl_info := x\<rparr>) cl' = frame cl cl'" "frame (cl\<lparr>cl_my_id := i\<rparr>) cl' = frame cl cl'"
  "frame (cl\<lparr>cl_svc := v\<rparr>) cl' = frame cl cl'" "frame cl (cl'\<lparr>cl_svc := v\<rparr>) = frame cl cl'"
  by (simp_all add: frame_def)

lemmas frame_dests = echo_frame put_cpeer_frame enlarge_frame

lemma scmd_frames:
  "scmd_sset cmd n v cl = Inr cl' \<Longrightarrow> frame cl cl'"
  "scmd_yare cmd n v cl = Inr cl' \<Longrightarrow> frame cl cl'"
  "scmd_mesg cmd n v cl = Inr cl' \<Longrightarrow> frame cl cl'"
  by (auto simp: scmd_sset_def scmd_yare_def scmd_mesg_def res_iff dest: echo_frame split: if_splits)

lemma scmd_padd_frame: "scmd_padd d0 cmd n v cl = Inr cl' \<Longrightarrow> frame cl cl'"
  by (auto simp: scmd_padd_def Let_def res_iff frame_def dest!: frame_dests split: if_splits)

lemma scmd_pdel_frame: "scmd_pdel cmd n v cl = Inr cl' \<Longrightarrow> frame cl cl'"
  by (auto simp: scmd_pdel_def res_iff frame_def dest!: frame_dests split: if_splits option.splits)

lemma scmd_pset_frame: "scmd_pset cmd n v cl = Inr cl' \<Longrightarrow> frame cl cl'"
  by (auto simp: scmd_pset_def res_iff frame_def dest!: frame_dests split: if_splits)

lemmas handler_frames = scmd_frames scmd_padd_frame scmd_pdel_frame scmd_pset_frame

lemma bindR_E: "bindR m f = Inr y \<Longrightarrow> (\<And>x. m = Inr x \<Longrightarrow> f x = Inr y \<Longrightarrow> P) \<Longrightarrow> P"
  by (auto simp: bindR_eq_Inr)

lemma decoded_frame:
  assumes "handle_server_decoded_msg d0 str cl = Inr cl'"
  shows "frame cl cl'"
  using assms unfolding handle_server_decoded_msg_def
proof (rule bindR_E)
  fix x
  assume "(case x of (code, None) \<Rightarrow> Inr cl
      | (code, Some l) \<Rightarrow> let argc = ucast (lsize l) in
         bindR (dlist_tovector l) (\<lambda>argv. bindR (dlist_free l) (\<lambda>_.
         bindR (arg argv 0) (\<lambda>a.
         bindR (select_cmd a [''SSET'', ''YARE'', ''PADD'', ''PDEL'', ''PSET'', ''MESG'']) (\<lambda>c.
           if c = Some ''SSET'' then scmd_sset str argc argv cl
           else if c = Some ''YARE'' then scmd_yare str argc argv cl
           else if c = Some ''PADD'' then scmd_padd d0 str argc argv cl
           else if c = Some ''PDEL'' then scmd_pdel str argc argv cl
           else if c = Some ''PSET'' then scmd_pset str argc argv cl
           else if c = Some ''MESG'' then scmd_mesg str argc argv cl
           else bindR (read_cs (ddata a)) (\<lambda>_. Inr cl)))))) = Inr cl'"
  then show ?thesis
    by (cases x; cases "snd x")
      (auto simp: Let_def simp del: select_cmd.simps elim!: bindR_E dest: handler_frames split: if_splits)
qed

lemma msg_from_frame: "msg_from d0 data i cl = Inr cl' \<Longrightarrow> frame cl cl'"
proof (induction d0 data i cl rule: msg_from.induct)
  case (1 d0 data prev cl)
  show ?case
  proof (cases "mempos data (CHR 0x0A) prev")
    case None
    then show ?thesis using "1.prems" by (simp add: msg_from.simps [of d0 data prev cl])
  next
    case (Some pos)
    with "1.prems" obtain cl1 where
      c: "(if prev < pos then bindR (dfrommem (map Some data) prev (of_nat (pos - prev))) (\<lambda>packet_str.
            handle_server_decoded_msg d0 packet_str cl) else Inr cl) = Inr cl1"
      "msg_from d0 data (Suc pos) cl1 = Inr cl'"
      by (auto simp: msg_from.simps [of d0 data prev cl] res_iff)
    have "frame cl cl1" using c(1) by (auto simp: res_iff dest: decoded_frame split: if_splits)
    with "1.IH" [OF Some c(2)] show ?thesis by (blast intro: frame_trans)
  qed
qed

lemma msg_frame: "handle_server_msg d0 data cl = Inr cl' \<Longrightarrow> frame cl cl'"
  unfolding handle_server_msg_def by (rule msg_from_frame)

lemma audio_frame:
  "handle_server_audio dec data cl = Inr cl' \<Longrightarrow> frame cl cl' \<and> cl_my_id cl' = cl_my_id cl"
  by (auto simp: handle_server_audio_def res_iff frame_def split: if_splits option.splits)

section \<open>The connection\<close>

definition conn_ok :: "('a, 'd) client \<Rightarrow> bool" where
  "conn_ok cl \<longleftrightarrow> (cl_state cl \<noteq> DISCONNECTED \<longrightarrow> cl_host cl = HLive \<and> cl_client cl = HLive) \<and>
     (cl_my_id cl \<noteq> no_id \<longrightarrow> cl_state cl = CONNECTED)"

lemma msg_server_same: "msg_server cl = Inr cl' \<Longrightarrow> frame cl cl' \<and> cl_my_id cl' = cl_my_id cl"
  by (auto simp: msg_server_def print_line_def frame_def res_iff)

lemma msg_state_same: "msg_state cl = Inr cl' \<Longrightarrow> frame cl cl' \<and> cl_my_id cl' = cl_my_id cl"
  by (cases "cl_state cl") (auto simp: msg_state_def print_line_def frame_def res_iff dest!: msg_server_same)

lemma free_server_info_same:
  "free_server_info cl = Inr cl' \<Longrightarrow> frame cl cl' \<and> cl_my_id cl' = no_id \<and> cl_peers cl' = []"
  by (auto simp: free_server_info_def free_info_def frame_def res_iff split: sum.splits if_splits)

lemma drop_ok:
  "drop_connection cl = Inr cl' \<Longrightarrow> cl_my_id cl = no_id \<Longrightarrow> conn_ok cl' \<and> cl_state cl' = DISCONNECTED"
  by (auto simp: drop_connection_def conn_ok_def frame_def res_iff dest!: msg_state_same)

lemma connect_ok:
  assumes "conn_ok cl" "cmd_connect net n v cl = Inr cl'"
  shows "conn_ok cl'"
proof (cases "cl_state cl = DISCONNECTED \<and> n = 3")
  case True
  then have "cl_my_id cl = no_id" using assms(1) by (auto simp: conn_ok_def)
  from True assms(2) obtain host port found where
    c: "(case net host port of Unresolved \<Rightarrow> Inr cl
       | NoHost ip \<Rightarrow> bindR (found ip) (\<lambda>cl. Inr (cl\<lparr>cl_host := HNull\<rparr>))
       | NoPeer ip \<Rightarrow> bindR (found ip) (\<lambda>cl. Inr (cl\<lparr>cl_host := HFreed, cl_client := HNull\<rparr>))
       | Started ip \<Rightarrow> bindR (found ip) (\<lambda>cl.
           msg_state (cl\<lparr>cl_host := HLive, cl_client := HLive, cl_state := CONNECTING\<rparr>))) = Inr cl'"
    "\<And>ip cl1. found ip = Inr cl1 \<Longrightarrow> cl_state cl1 = DISCONNECTED \<and> cl_my_id cl1 = no_id"
    unfolding cmd_connect_def Let_def
    by (simp add: res_iff del: bindR_simps, elim exE conjE)
      (erule that, use \<open>cl_my_id cl = no_id\<close> in \<open>auto simp: res_iff\<close>)
  then show ?thesis using assms(1)
    by (cases "net host port") (auto simp: conn_ok_def frame_def bindR_eq_Inr True \<open>cl_my_id cl = no_id\<close>
        dest!: msg_state_same)
qed (use assms in \<open>auto simp: cmd_connect_def split: if_splits\<close>)

lemma disconnect_ok:
  assumes "conn_ok cl" "cmd_disconnect cl = Inr cl'"
  shows "conn_ok cl'"
proof (cases "cl_state cl")
  case CONNECTED
  with assms(2) obtain cl1 where "free_server_info cl = Inr cl1" "drop_connection cl1 = Inr cl'"
    by (auto simp: cmd_disconnect_def res_iff)
  then show ?thesis using free_server_info_same drop_ok by blast
next
  case CONNECTING
  then have "cl_my_id cl = no_id" using assms(1) by (auto simp: conn_ok_def)
  with assms(2) CONNECTING drop_ok show ?thesis by (auto simp: cmd_disconnect_def)
qed (use assms in \<open>simp add: cmd_disconnect_def\<close>)

lemma flags_same:
  "cmd_mute n v cl = Inr cl' \<Longrightarrow> linked cl cl' \<and> cl_my_id cl' = cl_my_id cl"
  "cmd_deafen n v cl = Inr cl' \<Longrightarrow> linked cl cl' \<and> cl_my_id cl' = cl_my_id cl"
  by (auto simp: cmd_mute_def cmd_deafen_def print_line_def linked_def res_iff split: if_splits)

lemma send_same: "enet_send ch data cl = Inr cl' \<Longrightarrow> frame cl cl' \<and> cl_my_id cl' = cl_my_id cl"
  by (auto simp: enet_send_def frame_def split: hptr.splits)

lemma same_ok: "linked cl cl' \<and> cl_my_id cl' = cl_my_id cl \<Longrightarrow> conn_ok cl' = conn_ok cl"
  by (simp add: linked_def conn_ok_def)

lemma send_linked: "enet_send ch data cl = Inr cl' \<Longrightarrow> linked cl cl' \<and> cl_my_id cl' = cl_my_id cl"
  using send_same frame_linked by blast

lemma input_ok:
  assumes "conn_ok cl" "handle_input_command net str cl = Inr (cl', r)"
  shows "conn_ok cl'"
proof -
  from assms show ?thesis unfolding handle_input_command_def Let_def
    by (auto simp del: select_cmd.simps elim!: bindR_E split: if_splits option.splits)
      (erule connect_ok disconnect_ok same_ok [OF flags_same(1), THEN iffD2]
         same_ok [OF flags_same(2), THEN iffD2] same_ok [OF send_linked, THEN iffD2], assumption)+
qed

lemma connected_ok:
  assumes "conn_ok cl" "cl_state cl = CONNECTED" "handle_connected d0 dec ev cl = Inr cl'"
  shows "conn_ok cl'"
proof (cases ev)
  case EvDisconnect
  with assms(3) obtain cl1 where "free_server_info (cl\<lparr>cl_state := DISCONNECTED\<rparr>) = Inr cl1" "msg_state cl1 = Inr cl'"
    by (auto simp: handle_connected_def res_iff)
  then show ?thesis by (auto simp: conn_ok_def frame_def dest!: free_server_info_same msg_state_same)
next
  case (EvReceive ch data)
  with assms show ?thesis
    by (auto simp: handle_connected_def conn_ok_def frame_def dest!: msg_frame audio_frame split: if_splits)
qed (use assms in \<open>simp add: handle_connected_def\<close>)

lemma connecting_ok:
  assumes "conn_ok cl" "cl_state cl = CONNECTING" "handle_connecting ev cl = Inr cl'"
  shows "conn_ok cl'"
proof -
  have "cl_my_id cl = no_id" "cl_host cl = HLive" "cl_client cl = HLive" using assms(1,2) by (auto simp: conn_ok_def)
  then show ?thesis using assms(3) drop_ok
    by (auto simp: handle_connecting_def conn_ok_def frame_def dest!: msg_state_same split: if_splits)
qed

section \<open>The client's run\<close>

text \<open>A line of the user, an event of the network in either state, a packet from the sound card.\<close>

inductive cstep ::
  "(string \<Rightarrow> 16 word \<Rightarrow> attempt) \<Rightarrow> 'd \<Rightarrow> ('d \<Rightarrow> string \<Rightarrow> 'a option list \<Rightarrow> 'd \<times> 'a option list) \<Rightarrow>
   ('a, 'd) client \<Rightarrow> ('a, 'd) client \<Rightarrow> bool" for net d0 dec where
  input: "handle_input_command net str cl = Inr (cl', r) \<Longrightarrow> cstep net d0 dec cl cl'"
| connected: "cl_state cl = CONNECTED \<Longrightarrow> handle_connected d0 dec ev cl = Inr cl' \<Longrightarrow> cstep net d0 dec cl cl'"
| connecting: "cl_state cl = CONNECTING \<Longrightarrow> handle_connecting ev cl = Inr cl' \<Longrightarrow> cstep net d0 dec cl cl'"
| sound: "send_callback p cl = Inr cl' \<Longrightarrow> cstep net d0 dec cl cl'"

inductive_cases cstepE: "cstep net d0 dec cl cl'"

abbreviation creach where "creach net d0 dec svc \<equiv> (cstep net d0 dec)\<^sup>*\<^sup>* (init_client_state svc)"

lemma callback_same: "send_callback p cl = Inr cl' \<Longrightarrow> frame cl cl' \<and> cl_my_id cl' = cl_my_id cl"
  by (auto simp: send_callback_def dest: send_same split: if_splits)

lemma callback_linked: "send_callback p cl = Inr cl' \<Longrightarrow> linked cl cl' \<and> cl_my_id cl' = cl_my_id cl"
  using callback_same frame_linked by blast

lemma cstep_ok: "cstep net d0 dec cl cl' \<Longrightarrow> conn_ok cl \<Longrightarrow> conn_ok cl'"
  by (erule cstepE) (blast dest: input_ok connected_ok connecting_ok same_ok [OF callback_linked])+

lemma init_ok: "conn_ok (init_client_state svc)"
  by (simp add: init_client_state_def conn_ok_def)

lemma creach_ok: "creach net d0 dec svc cl \<Longrightarrow> conn_ok cl"
  by (induction rule: rtranclp_induct) (auto intro: cstep_ok init_ok)

section \<open>The end of a connection\<close>

lemma free_cpeers_gives:
  fixes cl :: "('a::zero, 'd) client"
  assumes c: "crep cl a" and as: "sinv (cl_svc cl) as" "set (voices (cl_peers cl)) \<subseteq> set as"
  shows "n \<le> length (cl_peers cl) \<Longrightarrow> gives (foldR (free_cpeer cl) [0..<n] (cl_svc cl))
    (\<lambda>svc. \<exists>bs. sinv svc bs \<and> set bs = set as - set (voices (take n (cl_peers cl))))"
proof (induction n)
  case 0
  then show ?case using as by auto
next
  case (Suc n)
  then have n: "n < length (cl_peers cl)" by simp
  let ?p = "cl_peers cl ! n"
  from Suc obtain svc bs where
    svc: "foldR (free_cpeer cl) [0..<n] (cl_svc cl) = Inr svc" "sinv svc bs"
    "set bs = set as - set (voices (take n (cl_peers cl)))" by (auto simp: gives_def simp del: voices_simps)
  have l: "length (cl_peers cl) = length (ac_peers a)" using c by (auto elim: crepE)
  have g: "get_cpeer n cl = Inr ?p" "cp_rep n ?p (ac_peers a ! n)"
    using crep_get [OF c, of n] n l by simp_all
  have dist: "distinct (voices (cl_peers cl))" using c by (auto elim: crepE)
  have tk: "voices (take (Suc n) (cl_peers cl)) = voices (take n (cl_peers cl)) @ voices [?p]"
    unfolding take_Suc_conv_app_nth [OF n] by (rule voices_simps)
  have "gives (free_cpeer cl n svc) (\<lambda>svc'. \<exists>bs'. sinv svc' bs' \<and> set bs' = set bs - set (voices [?p]))"
  proof (cases "ac_peers a ! n")
    case None
    then show ?thesis using g svc(2) by (auto simp: free_cpeer_def cp_rep_def)
  next
    case (Some x)
    then obtain kvs voice where x: "ac_peers a ! n = Some (kvs, voice)" by (cases x) auto
    with g(2) obtain d where d: "cp_connected ?p" "cp_data ?p = Inr d" "dsrep True d kvs"
      by (auto simp: cp_rep_def)
    obtain d' where d': "dsdict_free d = Inr d'" by (rule givesE [OF dsdict_free_gives [OF d(3)]])
    show ?thesis
    proof (cases "cp_peer ?p")
      case None
      then show ?thesis using g(1) d d' svc(2) by (auto simp: free_cpeer_def)
    next
      case (Some v)
      then have v: "voices [?p] = [v]" using d(1) by simp
      then have "v \<in> set as" "v \<notin> set (voices (take n (cl_peers cl)))"
        using voices_split(1) [OF n] dist as(2) by auto
      then have "v \<in> set bs" using svc(3) by simp
      then obtain xs ys where bs: "bs = xs @ v # ys" by (meson split_list)
      have "distinct bs" using svc(2) by (simp add: sinv_def)
      then have "set (xs @ ys) = set bs - set (voices [?p])" unfolding v bs by auto
      moreover from svc_peer_leave_gives [OF svc(2) [unfolded bs]] obtain svc' freed where
        "svc_peer_leave v svc = Inr (svc', freed)" "sinv svc' (xs @ ys)" by (auto simp: gives_def)
      ultimately show ?thesis using g(1) d d' Some by (auto simp: free_cpeer_def simp del: voices_simps)
    qed
  qed
  then obtain svc' bs' where s': "free_cpeer cl n svc = Inr svc'" "sinv svc' bs'"
    "set bs' = set bs - set (voices [?p])" by (auto simp: gives_def simp del: voices_simps)
  have "set bs' = set as - set (voices (take (Suc n) (cl_peers cl)))" unfolding s'(3) svc(3) tk set_append by blast
  with s'(2) have "\<exists>bs. sinv svc' bs \<and> set bs = set as - set (voices (take (Suc n) (cl_peers cl)))"
    by blast
  moreover have "foldR (free_cpeer cl) [0..<Suc n] (cl_svc cl) = Inr svc'" using svc(1) s'(1) by simp
  ultimately show ?case unfolding gives_def by blast
qed

lemma free_server_info_gives:
  fixes cl :: "('a::zero, 'd) client"
  assumes c: "crep cl a" and as: "sinv (cl_svc cl) as" "set (voices (cl_peers cl)) \<subseteq> set as"
  shows "gives (free_server_info cl) (\<lambda>cl'. cl_my_id cl' = no_id \<and> cl_info cl' = Inl NullDeref \<and>
    cl_peers cl' = [] \<and> cl_size cl' = 0 \<and> frame cl cl' \<and>
    (\<exists>bs. sinv (cl_svc cl') bs \<and> set bs = set as - set (voices (cl_peers cl))))"
proof -
  from c obtain d where d: "cl_info cl = Inr d" "dsrep True d (ac_info a)"
    "unat (cl_size cl) = length (ac_peers a)" "length (cl_peers cl) = length (ac_peers a)"
    by (elim crepE) blast
  obtain d' where "dsdict_free d = Inr d'" by (rule givesE [OF dsdict_free_gives [OF d(2)]])
  then have i: "free_info cl = Inr (cl\<lparr>cl_info := Inl NullDeref\<rparr>)" using d(1) by (simp add: free_info_def)
  have f: "free_cpeer (cl\<lparr>cl_info := Inl NullDeref\<rparr>) = free_cpeer cl"
    by (simp add: free_cpeer_def get_cpeer_def fun_eq_iff)
  have z: "cl_peers cl = [] \<Longrightarrow> cl_size cl = 0" using d(3,4) by (simp add: unat_eq_0)
  have u: "[0..<unat (cl_size cl)] = [0..<length (cl_peers cl)]" using d(3,4) by simp
  have "free_server_info cl = bindR (foldR (free_cpeer cl) [0..<length (cl_peers cl)] (cl_svc cl)) (\<lambda>svc.
      Inr (cl\<lparr>cl_info := Inl NullDeref, cl_my_id := no_id, cl_svc := svc, cl_peers := [],
        cl_size := if cl_peers cl = [] then cl_size cl else 0\<rparr>))"
    by (simp add: free_server_info_def i f u)
  then show ?thesis using free_cpeers_gives [OF c as order_refl] z
    by (auto simp: gives_def frame_def)
qed

section \<open>Audio packets\<close>

text \<open>The bytes of an audio packet.\<close>

definition wire :: "u32 \<Rightarrow> svc_network_packet \<Rightarrow> string" where
  "wire i p = put32 i @ put32 (of_nat (length (np_data p)) + 2) @ put16 (ucast (np_time p)) @ np_data p"

lemma wire_fields:
  "be32 (wire i p) 0 = i" "be32 (wire i p) 4 = of_nat (length (np_data p)) + 2"
  "be16 (wire i p) 8 = ucast (np_time p)" "length (wire i p) = length (np_data p) + 10"
  "drop 10 (wire i p) = np_data p"
  using be32_put32 [of "[]" 0 i] be32_put32 [of "put32 i" 4]
    be16_put16 [of "put32 i @ put32 (of_nat (length (np_data p)) + 2)" 8 "ucast (np_time p)" "np_data p"]
  by (simp_all add: wire_def)

lemma wire_length: "length (np_data p) + 2 < 2 ^ 32 \<Longrightarrow>
  unat (of_nat (length (np_data p)) + 2 :: u32) = length (np_data p) + 2"
  using unat_of_nat32 [of "length (np_data p) + 2"] by (simp add: add.commute)

lemma wire_data: "length (np_data p) + 2 < 2 ^ 32 \<Longrightarrow>
  unat (of_nat (length (np_data p)) + 2 - 2 :: u32) = length (np_data p)"
  using unat_of_nat32 [of "length (np_data p)"] by simp

lemma wire_time: "unat (np_time p) \<le> MAX_TIME \<Longrightarrow> (ucast (ucast (np_time p) :: 16 word) :: u32) = np_time p"
  by (simp add: word_unat_eq_iff unsigned_ucast_eq unsigned_take_bit_eq take_bit_nat_eq_self MAX_TIME_def)

lemma audio_handled:
  assumes "cl_deafen cl = 0" "i < cl_size cl" "get_cpeer (unat i) cl = Inr q"
    and p: "length (np_data p) + 2 < 2 ^ 32" "unat (np_time p) \<le> MAX_TIME"
  shows "handle_server_audio dec (wire i p) cl = (case cp_peer q of None \<Rightarrow> Inl NullDeref
    | Some v \<Rightarrow> bindR (svc_packet_recieve dec p v (cl_svc cl)) (\<lambda>svc. Inr (cl\<lparr>cl_svc := svc\<rparr>)))"
proof -
  have "\<not> cl_size cl \<le> i" using assms(2) by simp
  then show ?thesis using assms(1,3) wire_data [OF p(1)] wire_time [OF p(2)]
    by (cases "cp_peer q"; cases p) (simp_all add: handle_server_audio_def read32_def read16_def wire_fields)
qed

lemma audio_delivered:
  "crep cl a \<Longrightarrow> cl_deafen cl = 0 \<Longrightarrow> peer_at (ac_peers a) (unat i) = Some (kvs, voice) \<Longrightarrow> decoder_writes dec \<Longrightarrow>
   length (np_data p) + 2 < 2 ^ 32 \<Longrightarrow> unat (np_time p) \<le> MAX_TIME \<Longrightarrow>
   if voice then gives (handle_server_audio dec (wire i p) cl) (\<lambda>cl'. crep cl' a \<and>
     (\<exists>v. cp_peer (cl_peers cl ! unat i) = Some v \<and> svc_packet_recieve dec p v (cl_svc cl) = Inr (cl_svc cl')))
   else handle_server_audio dec (wire i p) cl = Inl NullDeref"
proof -
  assume c: "crep cl a" and deaf: "cl_deafen cl = 0" and i: "peer_at (ac_peers a) (unat i) = Some (kvs, voice)"
    and dec: "decoder_writes dec" and p: "length (np_data p) + 2 < 2 ^ 32" "unat (np_time p) \<le> MAX_TIME"
  let ?q = "cl_peers cl ! unat i"
  have il: "unat i < length (ac_peers a)" "ac_peers a ! unat i = Some (kvs, voice)"
    using i by (simp_all add: peer_at_def split: if_splits)
  note g = crep_get [OF c il(1)]
  have lt: "i < cl_size cl" using crep_size [OF c, of i] il(1) by (simp add: not_le [symmetric])
  have q: "cp_connected ?q" "(cp_peer ?q \<noteq> None) = voice" using g(2) il(2) by (auto simp: cp_rep_def)
  note h = audio_handled [OF deaf lt g(1) p, of dec]
  show ?thesis
  proof (cases "cp_peer ?q")
    case None
    then show ?thesis using h q(2) by simp
  next
    case (Some v)
    from c obtain as where as: "sinv (cl_svc cl) as" "set (voices (cl_peers cl)) \<subseteq> set as" by (elim crepE) blast
    have "voices [?q] = [v]" using q(1) Some by simp
    then have "v \<in> set as" using voices_split(1) [OF g(3)] as(2) by auto
    then obtain xs ys where xy: "as = xs @ v # ys" by (meson split_list)
    from svc_packet_recieve_gives [OF as(1) [unfolded xy] dec p(2)] obtain svc where
      svc: "svc_packet_recieve dec p v (cl_svc cl) = Inr svc" "sinv svc as" by (auto simp: gives_def xy)
    have "crep (cl\<lparr>cl_svc := svc\<rparr>) a"
      using c as(2) svc(2) by (auto simp: crep_def)
    then show ?thesis using h Some q(2) svc(1) by simp
  qed
qed

end
