(* ===== verification/NetProps.thy ===== *)
theory NetProps
  imports Protocol ClientLife
begin

text \<open>
  The properties of the server, of the client and of the session between them.
\<close>

section \<open>Concrete states\<close>

text \<open>A script that accepts every peer and does nothing else.\<close>

definition welcoming :: "'t \<Rightarrow> 'p server \<Rightarrow> 'p server \<times> int option option" where
  "welcoming t s = (s, Some (Some 1))"

lemma welcoming_ok: "script_ok welcoming tame"
  by (auto simp: script_ok_def welcoming_def tame_def intro: a_none)

lemma good_empty: "good [] []"
  by (simp add: good_def kvs_ok_def table_ok_def peer_at_def load_def)

text \<open>A client that has just been connected, with the sound of 2 samples.\<close>

definition client0 :: "(int, unit) client" where
  "client0 = (init_client_state (case svc_incoming_init 2 of Inr st \<Rightarrow> st))
     \<lparr>cl_state := CONNECTED, cl_host := HLive, cl_client := HLive, cl_info := Inr dsdict_new\<rparr>"

lemma svc0: "sinv (cl_svc client0) []"
  using svc_incoming_init_gives [of 2, where 'a = int and 'd = unit]
  by (auto simp: gives_def client0_def init_client_state_def)

lemma fresh0: "fresh_client client0"
  using svc0 by (auto simp: fresh_client_def client0_def init_client_state_def)

lemma crep0: "crep client0 \<lparr>ac_id = no_id, ac_info = [], ac_peers = []\<rparr>"
  using fresh_crep [OF fresh0] by (simp add: client0_def init_client_state_def)

text \<open>The server after one peer joined.\<close>

definition server1 :: "nat server" where
  "server1 = (case handle_peer_connect welcoming 7 server_init of Inr (s, i) \<Rightarrow> s)"

lemma free_first: "free_at [] 0"
  by (simp add: free_at_def table_def)

lemma welcoming_exact: "script_ok welcoming (\<lambda>t sd ps x. x = (sd, ps, [], Some (Some 1)))"
  by (auto simp: script_ok_def welcoming_def)

lemma server1:
  "handle_peer_connect welcoming 7 server_init = Inr (server1, 0)"
  "srep server1 [] (joined 7 0 [])" "sv_log server1 = greet_log 0 7 [] (joined 7 0 [])"
proof -
  have "gives (handle_peer_connect welcoming 7 server_init) (\<lambda>(s', j). j = 0 \<and> (\<exists>sd' ps' acts r.
    (sd', ps', acts, r) = ([], joined 7 0 [], [], Some (Some 1)) \<and>
    endpoints ps' = endpoints (joined (7 :: nat) 0 []) \<and>
    (if accepted r then srep s' sd' ps' \<and> sv_log s' = sv_log server_init @ acts @ greet_log 0 7 sd' ps'
     else srep s' sd' (ps'[0 := None]) \<and> sv_log s' = sv_log server_init @ acts @ [Disconnect 7])))"
  proof (rule connect_gives [OF welcoming_exact srep_init free_first])
    fix sd' :: kvs and ps' and acts :: "nat action list" and r :: "int option option"
    assume "(sd', ps', acts, r) = ([], joined (7 :: nat) 0 [], [], Some (Some 1))"
    moreover have g: "good [] (joined (7 :: nat) 0 [])" by (rule good_joined [OF good_empty free_first])
    moreover have "length (joined (7 :: nat) 0 []) \<le> 10" by (simp add: joined_def table_def)
    ultimately show "ents_ok sd' ps' \<and> length (greeting 0 sd' ps') + 1 < dmax"
      using greeting_length [of "[]" "joined (7 :: nat) 0 []" 0] kvs_ok_ents [of "[]" "joined (7 :: nat) 0 []"]
      by (simp add: good_def)
  qed
  then show "handle_peer_connect welcoming 7 server_init = Inr (server1, 0)"
    "srep server1 [] (joined 7 0 [])" "sv_log server1 = greet_log 0 7 [] (joined 7 0 [])"
    by (auto simp: gives_def server1_def accepted_def server_init_def)
qed

definition packet1 :: string where
  "packet1 = greeting 0 [] (joined (7 :: nat) 0 [])"

lemma log1: "sv_log server1 = [Send 7 0 packet1]"
  unfolding server1(3) by (simp add: greet_log_def packet1_def bcast_def joined_def table_def eval_nat_numeral)

lemma sent1: "sent_since server_init server1 = [Send 7 0 packet1]"
  by (simp add: sent_since_def log1 server_init_def)

text \<open>What the new peer is sent.\<close>

lemma packet1: "packet1 = ''YARE 0'' @ [newline] @ ''PADD 0'' @ [newline]"
proof -
  have "digit 0 = CHR ''0''" by code_simp
  then have "fmt_i 0 = ''0''" by (simp add: fmt_i_def dec_int_def dec_nat.simps)
  then show ?thesis
    by (simp add: packet1_def greeting_def peer_line_def peer_text_def joined_def table_def eval_nat_numeral)
qed

lemma session1: "session () 0 7 server1 [packet1] client0"
proof -
  have "session () 0 7 server1 (inbox 7 (sent_since server_init server1)) client0"
    by (rule session.started [OF srep_init good_empty _ fresh0 welcoming_ok server1(1)])
      (auto simp: only_at_def peer_at_def sent1)
  then show ?thesis by (simp add: sent1)
qed

section \<open>The session\<close>

text \<open>C2: in every state of a session, whatever the other peers, the script and the network's
  order of delivery do, reading the packets on their way makes the client's number its place in
  the server's table and brings its view up to the server's data: it agrees with every entry the
  server is not still to send.\<close>

theorem session_follows:
  "session d0 i e s ms cl \<Longrightarrow>
   \<exists>sd ps. srep s sd ps \<and> gives (foldR (handle_server_msg d0) ms cl)
     (\<lambda>cl'. \<exists>a. crep cl' a \<and> ac_id a = of_nat i \<and> tracks a sd ps)"
  by (rule synced_read [OF session_inv])

theorem session_follows_witness:
  "\<exists>sd ps. srep server1 sd ps \<and> gives (foldR (handle_server_msg ()) [packet1] client0)
     (\<lambda>cl'. \<exists>a. crep cl' a \<and> ac_id a = of_nat 0 \<and> tracks a sd ps)"
  by (rule session_follows [OF session1])

text \<open>A turn of the server's logic returns, and the packet it sends brings the client up to
  date: its view of the server's data and of the public data of every peer in the table is then
  exactly the server's.\<close>

theorem logic_turn_synchronises:
  "session d0 i e s ms cl \<Longrightarrow> script_ok jim tame \<Longrightarrow>
   gives (logic_turn jim dt s) (\<lambda>s'. \<exists>sd ps. srep s' sd ps \<and>
     gives (foldR (handle_server_msg d0) (ms @ inbox e (sent_since s s')) cl)
       (\<lambda>cl'. \<exists>a. crep cl' a \<and> ac_id a = of_nat i \<and> mirrors a sd ps))"
proof -
  assume "session d0 i e s ms cl" "script_ok jim tame"
  from logic_turn_synced [OF this(2) session_inv [OF this(1)], of dt] show ?thesis
    by (rule gives_mono) (use synced_read in \<open>fastforce simp: sent_since_def simp del: foldR_append\<close>)
qed

theorem logic_turn_synchronises_witness:
  "gives (logic_turn welcoming 20 server1) (\<lambda>s'. \<exists>sd ps. srep s' sd ps \<and>
     gives (foldR (handle_server_msg ()) ([packet1] @ inbox 7 (sent_since server1 s')) client0)
       (\<lambda>cl'. \<exists>a. crep cl' a \<and> ac_id a = of_nat 0 \<and> mirrors a sd ps))"
  by (rule logic_turn_synchronises [OF session1 welcoming_ok])

section \<open>The server\<close>



text \<open>C5: a peer that leaves is announced to all the others and taken out of the table, after the
  script was told; everybody else keeps their place.\<close>

theorem disconnect_outcome:
  "script_ok jim tame \<Longrightarrow> srep s sd ps \<Longrightarrow> good sd ps \<Longrightarrow> i < length ps \<Longrightarrow> ps ! i \<noteq> None \<Longrightarrow>
   gives (handle_peer_disconnect jim e i s) (\<lambda>s'. \<exists>sd' ps' acts.
     acts_on harmless sd ps sd' ps' acts \<and> good sd' (ps'[i := None]) \<and>
     endpoints ps' = endpoints ps \<and> srep s' sd' (ps'[i := None]) \<and>
     sv_log s' = sv_log s @ acts @ [Disconnect e] @ bcast (Some i) (pdel i) ps' (length ps'))"
  by (rule disconnect_good)

lemma good1: "good [] (joined (7 :: nat) 0 [])"
  by (rule good_joined [OF good_empty free_first])

lemma joined1: "0 < length (joined (7 :: nat) 0 [])" "joined (7 :: nat) 0 [] ! 0 = Some (7, [], [])"
  by (simp_all add: joined_def table_def)

theorem disconnect_outcome_witness:
  "gives (handle_peer_disconnect welcoming 7 0 server1) (\<lambda>s'. \<exists>sd' ps' acts.
     acts_on harmless [] (joined 7 0 []) sd' ps' acts \<and> good sd' (ps'[0 := None]) \<and>
     endpoints ps' = endpoints (joined 7 0 []) \<and> srep s' sd' (ps'[0 := None]) \<and>
     sv_log s' = sv_log server1 @ acts @ [Disconnect 7] @ bcast (Some 0) (pdel 0) ps' (length ps'))"
  by (rule disconnect_outcome [OF welcoming_ok server1(2) good1 joined1(1)]) (simp add: joined1)

text \<open>A peer that the script rejected is out of the table when its disconnection is reported;
  the server then frees its data a second time.\<close>

theorem rejected_leaves_twice:
  "script_ok jim tame \<Longrightarrow> srep s sd ps \<Longrightarrow> i < length ps \<Longrightarrow> ps ! i = None \<Longrightarrow>
   \<exists>f. handle_peer_disconnect jim e i s = Inl f"
  using disconnect_rejected [of jim tame s sd ps i e] by simp

theorem rejected_leaves_twice_witness: "\<exists>f. handle_peer_disconnect welcoming 8 1 server1 = Inl f"
  by (rule rejected_leaves_twice [OF welcoming_ok server1(2)]) (simp_all add: joined_def table_def)

text \<open>C36: the connection of a peer to a server whose table is full runs past the end of the table:
  the enlarged table is never made the server's.\<close>

theorem table_overflow:
  "srep s sd ps \<Longrightarrow> ps \<noteq> [] \<Longrightarrow> None \<notin> set ps \<Longrightarrow> handle_peer_connect jim e s = Inl OutOfBounds"
  by (simp add: handle_peer_connect_def get_new_peer_full)

definition full_server :: "nat server" where
  "full_server = server_init\<lparr>sv_size := 10, sv_count := 10, sv_peers := map (\<lambda>i. (fresh_slot i)
     \<lparr>pr_empty := False, pr_peer := Some i, pr_pub := Some dd_new, pr_priv := Some dd_new\<rparr>) [0..<10]\<rparr>"

lemma full_server: "srep full_server [] (map (\<lambda>i. Some (i, [], [])) [0..<10])"
  by (simp add: srep_def full_server_def server_init_def peers_of_def filter_map comp_def peer_rep_def fresh_slot_def)

theorem table_overflow_witness: "handle_peer_connect welcoming 10 full_server = Inl OutOfBounds"
  by (rule table_overflow [OF full_server]) auto


lemma kv_fits_short: "length k < 16 \<Longrightarrow> length v < 16 \<Longrightarrow> kv_fits k v"
  using escape_length(2) [of "cstr k"] escape_length(2) [of "cstr v"] length_cstr_le [of k] length_cstr_le [of v]
  by (simp add: kv_fits_def kv_small_def ent_ok_def)


text \<open>What the script sets for a peer, public or private, it reads back, up to the first zero
  byte; the other keys are untouched, and so is all other data.\<close>

theorem peer_data_roundtrip:
  "srep s sd ps \<Longrightarrow> parse_scope sc = Some priv \<Longrightarrow> getlong t = Some n \<Longrightarrow> live_at ps n = Some a \<Longrightarrow>
   kv_small k v \<Longrightarrow> length k' < dmax \<Longrightarrow>
   gives (cmd_peerset getlong [c, sc, t, k, v] s) (\<lambda>(s', r). r = JIM_OK [] \<and>
     cmd_peerget getlong [c', sc, t, k'] s' =
       Inr (JIM_OK (if cstr k' = cstr k then cstr v else read_kv k' (scoped priv a))) \<and>
     sv_log s' = sv_log s \<and> srep s' sd (ps[nat n := Some (set_scoped priv (put_kv k v (scoped priv a)) a)]))"
proof -
  assume s: "srep s sd ps" and sc: "parse_scope sc = Some priv" and n: "getlong t = Some n" "live_at ps n = Some a"
    and kv: "kv_small k v" "length k' < dmax"
  let ?a = "set_scoped priv (put_kv k v (scoped priv a)) a"
  from cmd_peerset_gives [OF s, where getlong = getlong and t = t, OF sc n(1) n(2) kv(1), of c]
  show ?thesis
  proof (rule gives_mono, clarify)
    fix s'
    assume s': "srep s' sd (ps[nat n := Some ?a])" "sv_log s' = sv_log s"
    have "live_at (ps[nat n := Some ?a]) n = Some ?a" using n(2) by (auto simp: live_at_def split: if_splits)
    from cmd_peerget_gives [OF s'(1), where getlong = getlong and t = t, OF sc n(1) this kv(2), of c']
    have "cmd_peerget getlong [c', sc, t, k'] s' = Inr (JIM_OK (read_kv k' (scoped priv ?a)))" .
    moreover have "scoped priv ?a = put_kv k v (scoped priv a)" by (simp add: scoped_def set_scoped_def)
    ultimately show "JIM_OK [] = JIM_OK [] \<and> cmd_peerget getlong [c', sc, t, k'] s' =
        Inr (JIM_OK (if cstr k' = cstr k then cstr v else read_kv k' (scoped priv a))) \<and>
        sv_log s' = sv_log s \<and> srep s' sd (ps[nat n := Some ?a])"
      using s' by (simp add: read_put)
  qed
qed

definition long0 :: "string \<Rightarrow> int option" where
  "long0 t = (if t = ''0'' then Some 0 else None)"

theorem peer_data_roundtrip_witness:
  "gives (cmd_peerset long0 [''peerset'', ''pub'', ''0'', ''nick'', ''ann''] server1) (\<lambda>(s', r).
     r = JIM_OK [] \<and> cmd_peerget long0 [''peerget'', ''pub'', ''0'', ''nick''] s' = Inr (JIM_OK ''ann''))"
proof -
  have "live_at (joined 7 0 []) 0 = Some (7 :: nat, [], [])" by (simp add: live_at_def joined_def table_def)
  moreover have "kv_small ''nick'' ''ann''" by (simp add: kv_small_def)
  ultimately show ?thesis
    using peer_data_roundtrip [OF server1(2), of "''pub''" False long0 "''0''" 0 "(7, [], [])"
        "''nick''" "''ann''" "''nick''" "''peerset''" "''peerget''"]
    by (auto simp: long0_def parse_scope_def cstr_def elim!: gives_mono)
qed

text \<open>A command packet reaches the script as the words of the reference lexer; a packet the
  lexer rejects makes the server follow a null pointer.\<close>

theorem command_words:
  "slot < length (sv_peers s) \<Longrightarrow> lex_fits data \<Longrightarrow> length data < dmax \<Longrightarrow>
   handle_packet_input_command jimv slot data s =
     (case snd (lex data) of None \<Rightarrow> Inl NullDeref | Some ws \<Rightarrow> Inr (fst (jimv ws s)))"
  by (rule input_command_lexed)

theorem command_words_witness:
  "handle_packet_input_command welcoming 0 ''say hi'' server1 = Inr server1"
proof -
  have "0 < length (sv_peers server1)" using server1(2) joined1(1) by (simp add: srep_def)
  moreover have "lex_fits ''say hi''" by (rule lex_fits_short) simp
  moreover have "lex ''say hi'' = (DSTRLEX_OK, Some [''say'', ''hi''])" by (simp add: lex_def lfinish_def)
  ultimately show ?thesis using command_words [of 0 server1 "''say hi''" welcoming] by (simp add: welcoming_def)
qed

section \<open>The client\<close>



text \<open>C14: the greeting tells a new client its number, the server's data and the public data of
  all the peers, with a voice for everyone but itself, and nothing else.\<close>

theorem greeting_understood:
  "crep cl a \<Longrightarrow> ac_info a = [] \<Longrightarrow> ac_peers a = [] \<Longrightarrow> good sd ps \<Longrightarrow> length ps \<le> 10 \<Longrightarrow>
   gives (handle_server_msg d0 (greeting i sd ps) cl) (\<lambda>cl'. \<exists>a'. crep cl' a' \<and> ac_id a' = of_nat i \<and>
     ac_info a' = view sd \<and> (\<forall>j. peer_at (ac_peers a') j = mirror (of_nat i) ps j))"
proof -
  assume c: "crep cl a" "ac_info a = []" "ac_peers a = []" and g: "good sd ps" "length ps \<le> 10"
  then have k: "kvs_ok sd" "table_ok ps" "load sd ps < 2 ^ 24" by (simp_all add: good_def)
  from greeting_alines [OF k(2) _ k(1) c(2,3), of i] g(2) obtain a' where
    a': "alines (greeting_lines i sd ps) a = Some a'" "ac_id a' = of_nat i" "ac_info a' = view sd"
    "\<forall>j. peer_at (ac_peers a') j = mirror (of_nat i) ps j" by auto
  have len: "length (greeting i sd ps) + 1 < dmax" by (rule greeting_length [OF k(1,2) g(2) k(3)])
  have u: "packet_ok (greeting i sd ps)" "lines (greeting i sd ps) = greeting_lines i sd ps"
    unfolding greeting_unlines
    by (rule unlines_ok, erule greeting_clean [OF k(2,1)], use len in \<open>simp add: greeting_unlines\<close>)+
  have "gives (handle_server_msg d0 (greeting i sd ps) cl) (\<lambda>cl'. crep cl' a')"
    by (rule handle_server_msg_gives [OF c(1)]) (use u a'(1) in \<open>simp_all add: packet_ok_def line_okD\<close>)
  then show ?thesis by (rule gives_mono) (use a' in blast)
qed

theorem greeting_understood_witness:
  "gives (handle_server_msg () (greeting 0 [] (joined (7 :: nat) 0 [])) client0) (\<lambda>cl'. \<exists>a'. crep cl' a' \<and>
     ac_id a' = of_nat 0 \<and> ac_info a' = view [] \<and>
     (\<forall>j. peer_at (ac_peers a') j = mirror (of_nat 0) (joined (7 :: nat) 0 []) j))"
  by (rule greeting_understood [OF crep0 _ _ good1]) (simp_all add: joined_def table_def)

text \<open>The packet of what changed restores the client's view: a client that agrees with what
  was not changed holds, after it, exactly what the server holds.\<close>

theorem delta_understood:
  "crep cl a \<Longrightarrow> tracks a sd ps \<Longrightarrow> good sd ps \<Longrightarrow> length ps \<le> 10 \<Longrightarrow>
   gives (handle_server_msg d0 (delta sd ps) cl) (\<lambda>cl'. \<exists>a'. crep cl' a' \<and> ac_id a' = ac_id a \<and> mirrors a' sd ps)"
proof -
  assume c: "crep cl a" "tracks a sd ps" and g: "good sd ps" "length ps \<le> 10"
  then have k: "kvs_ok sd" "table_ok ps" "load sd ps < 2 ^ 24" by (simp_all add: good_def)
  from delta_alines [OF k(2) _ k(1) c(2)] g(2) obtain a' where
    a': "alines (delta_lines sd ps) a = Some a'" "ac_id a' = ac_id a" "mirrors a' sd ps" by auto
  have len: "length (delta sd ps) + 1 < dmax" by (rule delta_length [OF k(1,2) g(2) k(3)])
  have u: "packet_ok (delta sd ps)" "lines (delta sd ps) = delta_lines sd ps"
    unfolding delta_unlines
    by (rule unlines_ok, erule delta_clean [OF k(2,1)], use len in \<open>simp add: delta_unlines\<close>)+
  have "gives (handle_server_msg d0 (delta sd ps) cl) (\<lambda>cl'. crep cl' a')"
    by (rule handle_server_msg_gives [OF c(1)]) (use u a'(1) in \<open>simp_all add: packet_ok_def line_okD\<close>)
  then show ?thesis by (rule gives_mono) (use a' in blast)
qed

lemma name_good: "good [(''name'', True, ''lobby'')] []"
  using escape_length(2) [of "''name''"] escape_length(2) [of "''lobby''"]
  by (simp add: good_def kvs_ok_def table_ok_def peer_at_def load_def ent_ok_def)

theorem delta_understood_witness:
  "gives (handle_server_msg () (delta [(''name'', True, ''lobby'')] ([] :: nat apeer option list)) client0)
     (\<lambda>cl'. \<exists>a'. crep cl' a' \<and> ac_id a' = ac_id \<lparr>ac_id = no_id, ac_info = [], ac_peers = []\<rparr> \<and>
        mirrors a' [(''name'', True, ''lobby'')] ([] :: nat apeer option list))"
  by (rule delta_understood [OF crep0 _ name_good]) (simp_all add: tracks_def agrees_def peer_at_def)

text \<open>The packet that announces a departure has no newline, so the client does nothing with it:
  a peer that left stays in the client's table.\<close>

theorem departure_ignored: "handle_server_msg d0 (pdel i) cl = Inr cl"
  using plain_no_newline [OF plain_fmt, of "of_nat i"]
  by (intro handle_server_msg_unclosed) (simp add: pdel_def)

section \<open>Audio\<close>

text \<open>A client that has a number and is not muted sends every packet of the sound card, under
  its own number; the server takes it from this client and from no other.\<close>

theorem audio_accepted:
  "cl_my_id cl \<noteq> no_id \<Longrightarrow> cl_muted cl = 0 \<Longrightarrow> cl_client cl = HLive \<Longrightarrow> length (np_data p) + 2 < 2 ^ 32 \<Longrightarrow>
   send_callback p cl = Inr (cl\<lparr>cl_sent := cl_sent cl @ [(1, wire (cl_my_id cl) p)]\<rparr>) \<and>
   decode_audio_packet i (wire (cl_my_id cl) p) = (if i = cl_my_id cl then Some (wire (cl_my_id cl) p) else None)"
  by (auto simp: send_callback_def enet_send_def decode_audio_packet_def wire_fields wire_length, simp add: wire_def)

definition sound :: svc_network_packet where
  "sound = \<lparr>np_data = ''abc'', np_time = 9\<rparr>"

theorem audio_accepted_witness:
  "send_callback sound (client0\<lparr>cl_my_id := 4\<rparr>) = Inr (client0\<lparr>cl_my_id := 4, cl_sent := [(1, wire 4 sound)]\<rparr>) \<and>
   decode_audio_packet 4 (wire 4 sound) = Some (wire 4 sound) \<and> decode_audio_packet 5 (wire 4 sound) = None"
  using audio_accepted [of "client0\<lparr>cl_my_id := 4\<rparr>" sound 4] audio_accepted [of "client0\<lparr>cl_my_id := 4\<rparr>" sound 5]
  by (simp add: client0_def init_client_state_def no_id_def sound_def)

text \<open>What a new client knows once it is told of the peer 2.\<close>

definition third_peer :: acl where
  "third_peer = \<lparr>ac_id = no_id, ac_info = [], ac_peers = [None, None, Some ([], True)]\<rparr>"

lemma third_joins:
  assumes c: "crep cl \<lparr>ac_id = no_id, ac_info = [], ac_peers = []\<rparr>"
  shows "gives (handle_server_msg d0 (peer_line ''PADD '' 2) cl) (\<lambda>cl'. crep cl' third_peer)"
proof (rule handle_server_msg_gives [OF c])
  have l: "lines (peer_line ''PADD '' 2) = [cmd_line ''PADD'' 2]" by (rule padd_read)
  have "(grow 2 [])[2 := x] = [None, None, x]" for x by (simp add: grow_def numeral_2_eq_2)
  moreover have "of_nat 2 \<noteq> no_id" by (simp add: no_id_def)
  ultimately show "alines (lines (peer_line ''PADD '' 2)) \<lparr>ac_id = no_id, ac_info = [], ac_peers = []\<rparr> =
      Some third_peer"
    unfolding l third_peer_def using padd_line [of 2] by simp
qed (use padd_read [of 2] in \<open>simp_all add: packet_ok_def line_okD\<close>)

text \<open>A client that is not deaf puts the packet of another peer, relayed as it was sent, into
  the cage of the voice it has for that peer: the very packet the sender made, and nothing else
  changes; its own packet, sent back to it, makes it follow a null pointer.\<close>

theorem audio_heard:
  "crep cl a \<Longrightarrow> cl_deafen cl = 0 \<Longrightarrow> peer_at (ac_peers a) (unat i) = Some (kvs, voice) \<Longrightarrow> decoder_writes dec \<Longrightarrow>
   length (np_data p) + 2 < 2 ^ 32 \<Longrightarrow> unat (np_time p) \<le> MAX_TIME \<Longrightarrow>
   if voice then gives (handle_server_audio dec (wire i p) cl) (\<lambda>cl'. crep cl' a \<and>
     (\<exists>v. cp_peer (cl_peers cl ! unat i) = Some v \<and> svc_packet_recieve dec p v (cl_svc cl) = Inr (cl_svc cl')))
   else handle_server_audio dec (wire i p) cl = Inl NullDeref"
  by (rule audio_delivered)

theorem audio_heard_witness:
  "\<exists>cl :: (int, unit) client. gives (handle_server_audio (\<lambda>d b pcm. (d, replicate (length pcm) (Some 1))) (wire 2 sound) cl)
     (\<lambda>cl'. crep cl' third_peer)"
proof -
  let ?a = third_peer
  obtain cl where cl: "handle_server_msg () (peer_line ''PADD '' 2) client0 = Inr cl" "crep cl ?a"
    by (rule givesE [OF third_joins [OF crep0, of "()"]])
  let ?cl = "cl\<lparr>cl_deafen := 0\<rparr>"
  have "crep ?cl ?a" using cl(2) by (simp add: crep_def)
  moreover have "decoder_writes (\<lambda>d b pcm. (d :: unit, replicate (length pcm) (Some (1 :: int))))"
    by (auto simp: decoder_writes_def)
  ultimately have "gives (handle_server_audio (\<lambda>d b pcm. (d, replicate (length pcm) (Some 1))) (wire 2 sound) ?cl)
      (\<lambda>cl'. crep cl' ?a \<and> (\<exists>v. cp_peer (cl_peers ?cl ! unat (2 :: u32)) = Some v \<and>
        svc_packet_recieve (\<lambda>d b pcm. (d, replicate (length pcm) (Some 1))) sound v (cl_svc ?cl) = Inr (cl_svc cl')))"
    using audio_heard [of ?cl ?a 2 "[]" True "\<lambda>d b pcm. (d, replicate (length pcm) (Some 1))" sound]
    by (simp add: third_peer_def peer_at_def sound_def MAX_TIME_def)
  then show ?thesis by (intro exI [of _ ?cl]) (auto elim: gives_mono)
qed

section \<open>The connection\<close>



text \<open>When the network resolves the server's name but cannot start the connection, the client
  keeps a pointer to the host it destroyed; quitting then destroys it again.\<close>

theorem failed_connect_quit:
  "vrep True v ws \<Longrightarrow> length ws = 3 \<Longrightarrow> \<forall>w\<in>set ws. length w + 1 < dmax \<Longrightarrow> cl_state cl = DISCONNECTED \<Longrightarrow>
   length (ddata (cl_name cl)) = dcap (cl_name cl) \<Longrightarrow> length (ddata (cl_addr cl)) = dcap (cl_addr cl) \<Longrightarrow>
   net (cstr (ws ! 1)) (word_of_int (atoi (cstr (ws ! 2)))) = NoPeer ip \<Longrightarrow> length ip + 1 < dmax \<Longrightarrow>
   gives (cmd_connect net 3 v cl) (\<lambda>cl'. cl_state cl' = DISCONNECTED \<and> quit_client_state cl' = Inl Dangling)"
proof -
  assume v: "vrep True v ws" "length ws = 3" "\<forall>w\<in>set ws. length w + 1 < dmax"
    and cl: "cl_state cl = DISCONNECTED" "length (ddata (cl_name cl)) = dcap (cl_name cl)"
      "length (ddata (cl_addr cl)) = dcap (cl_addr cl)"
    and net: "net (cstr (ws ! 1)) (word_of_int (atoi (cstr (ws ! 2)))) = NoPeer ip" and ip: "length ip + 1 < dmax"
  obtain a1 where a1: "arg v 1 = Inr a1" "dholds (ws ! 1) a1" by (rule arg_gives [OF v(1), of 1]) (use v(2) in auto)
  obtain a2 where a2: "arg v 2 = Inr a2" "dholds (ws ! 2) a2" by (rule arg_gives [OF v(1), of 2]) (use v(2) in auto)
  have "length (ws ! 1) + 1 < dmax" using v(2,3) by simp
  then obtain nm where "dcpy (cl_name cl) a1 = Inr nm"
    using dcpy_gives [of "cl_name cl" a1 "ws ! 1"] cl(2) a1(2) by (auto simp: gives_def dholds_def)
  moreover obtain ad where "dcpycs (cl_addr cl) ip = Inr ad"
    using dcpycs_gives [of "cl_addr cl" ip] cl(3) ip by (auto simp: gives_def)
  ultimately show ?thesis using a1(1) a2(1) net cl(1)
    by (simp add: cmd_connect_def read_cs_holds [OF a1(2)] read_cs_holds [OF a2(2)] Let_def
        quit_client_state_def use_def)
qed

lemma words_ex:
  "\<forall>w\<in>set ws. cstr w = w \<and> length w + 1 < dmax \<Longrightarrow> \<exists>ss. list_all2 (drept True) ss ws"
proof (induction ws)
  case (Cons w ws)
  then obtain ss where "list_all2 (drept True) ss ws" by auto
  moreover obtain s where "drept True s w"
    using dfromcs_gives [of w] Cons.prems by (auto simp: gives_def drept_def dholds_def)
  ultimately show ?case by (intro exI [of _ "s # ss"]) simp
qed simp

theorem failed_connect_quit_witness:
  "\<exists>v. gives (cmd_connect (\<lambda>_ _. NoPeer ''10.0.0.1'') 3 v (client0\<lparr>cl_state := DISCONNECTED\<rparr>))
     (\<lambda>cl'. cl_state cl' = DISCONNECTED \<and> quit_client_state cl' = Inl Dangling)"
proof -
  let ?ws = "[''/connect'', ''host'', ''7000'']"
  obtain ss where "list_all2 (drept True) ss ?ws"
    using words_ex [of ?ws] by (auto simp: cstr_def)
  then have "vrep True (map (Some \<circ> Some) ss @ [Some None]) ?ws" by (auto simp: vrep_def)
  from failed_connect_quit [OF this, where cl = "client0\<lparr>cl_state := DISCONNECTED\<rparr>" and
      net = "\<lambda>_ _. NoPeer ''10.0.0.1''" and ip = "''10.0.0.1''"]
  show ?thesis by (intro exI) (simp add: client0_def init_client_state_def dnew_def)
qed

text \<open>When a connection ends, the client forgets everything it was told: its number, the
  server's data, the peers; every voice it had leaves the voice library, and the client is as
  it was before the greeting of its next connection.\<close>

theorem disconnect_forgets:
  "crep cl a \<Longrightarrow> gives (free_server_info cl) (\<lambda>cl'. cl_my_id cl' = no_id \<and> cl_info cl' = Inl NullDeref \<and>
     fresh_client (cl'\<lparr>cl_info := Inr dsdict_new\<rparr>) \<and>
     (\<exists>bs. sinv (cl_svc cl') bs \<and> set bs \<inter> set (voices (cl_peers cl)) = {}))"
proof -
  assume c: "crep cl a"
  then obtain as where as: "sinv (cl_svc cl) as" "set (voices (cl_peers cl)) \<subseteq> set as" by (elim crepE) blast
  from free_server_info_gives [OF c as] show ?thesis
    by (rule gives_mono) (auto simp: fresh_client_def simp del: voices_simps)
qed

theorem disconnect_forgets_witness:
  "gives (free_server_info client0) (\<lambda>cl'. cl_my_id cl' = no_id \<and> cl_info cl' = Inl NullDeref \<and>
     fresh_client (cl'\<lparr>cl_info := Inr dsdict_new\<rparr>) \<and>
     (\<exists>bs. sinv (cl_svc cl') bs \<and> set bs \<inter> set (voices (cl_peers client0)) = {}))"
  by (rule disconnect_forgets [OF crep0])

end
