(* ===== verification/Gui.thy ===== *)
theory Gui
  imports Lexer
begin

text \<open>
  The state behind the graphical client (\<open>src/network/svcenet/wx\<close>): the parser of command
  lines (\<open>svcparser.cpp\<close>), the events (\<open>svcevent.hpp\<close>), the thread that
  cuts the output of \<open>svcc\<close> into lines (\<open>svcreaderthread.cpp\<close>) and the
  state built from these lines (\<open>svcstate.cpp\<close>).

  The containers are wxWidgets': a \<open>wxString\<close> is the list of its characters, an array or
  list of strings is a list, a hash map is a partial map.
\<close>

section \<open>The parser of command lines\<close>

datatype parser_error = SVCPARSER_OK | SVCPARSER_ESCAPE | SVCPARSER_STRING

record gparser =
  gp_escape :: bool
  gp_string :: bool
  gp_buffer :: string
  gp_cmd :: "string list"

definition gp_append :: "char \<Rightarrow> gparser \<Rightarrow> gparser" where
  "gp_append c st = st\<lparr>gp_buffer := gp_buffer st @ [c]\<rparr>"

text \<open>\<open>cmd.Add(buffer); buffer.Clear()\<close>\<close>

definition gp_add :: "gparser \<Rightarrow> gparser" where
  "gp_add st = st\<lparr>gp_cmd := gp_cmd st @ [gp_buffer st], gp_buffer := []\<rparr>"

text \<open>One turn of the loop of \<open>SVCParser::parse\<close>.\<close>

definition parse_char :: "gparser \<Rightarrow> char \<Rightarrow> gparser" where
  "parse_char st ch =
     (if gp_escape st then
        (if ch = CHR ''n'' then gp_append chr_nl st
         else if ch = CHR ''r'' then gp_append chr_cr st
         else if ch = CHR ''0'' then gp_append nul st
         else if ch = chr_quote then gp_append chr_quote st
         else if ch = CHR ''t'' then gp_append chr_tab st
         else if ch = chr_bslash then gp_append chr_bslash st
         else gp_append ch st)\<lparr>gp_escape := False\<rparr>
      else if gp_string st then
        (if ch = chr_quote then (gp_add st)\<lparr>gp_string := False\<rparr>
         else if ch = chr_bslash then st\<lparr>gp_escape := True\<rparr>
         else gp_append ch st)
      else
        (if ch = chr_quote then
           (if gp_buffer st \<noteq> [] then gp_add st else st)\<lparr>gp_string := True\<rparr>
         else if ch = chr_bslash then st\<lparr>gp_escape := True\<rparr>
         else if ch = chr_sp \<or> ch = chr_tab \<or> ch = chr_nl \<or> ch = chr_cr then
           (if gp_buffer st \<noteq> [] then gp_add st else st)
         else gp_append ch st))"

text \<open>The result and the array \<open>cmd\<close>, which keeps the words before an error.\<close>

definition svcparser_parse :: "string \<Rightarrow> parser_error \<times> string list" where
  "svcparser_parse line =
     (let st = foldl parse_char \<lparr>gp_escape = False, gp_string = False, gp_buffer = [], gp_cmd = []\<rparr> line in
      if gp_escape st then (SVCPARSER_ESCAPE, gp_cmd st)
      else if gp_string st then (SVCPARSER_STRING, gp_cmd st)
      else if gp_buffer st \<noteq> [] then (SVCPARSER_OK, gp_cmd st @ [gp_buffer st])
      else (SVCPARSER_OK, gp_cmd st))"

primrec svcparser_escape_from :: "string \<Rightarrow> string \<Rightarrow> string" where
  "svcparser_escape_from out [] = out"
| "svcparser_escape_from out (c # text) = svcparser_escape_from
     (if c = chr_nl then out @ [chr_bslash, CHR ''n'']
      else if c = chr_cr then out @ [chr_bslash, CHR ''r'']
      else if c = nul then out @ [chr_bslash, CHR ''0'']
      else if c = chr_quote then out @ [chr_bslash, chr_quote]
      else if c = chr_tab then out @ [chr_bslash, CHR ''t'']
      else if c = chr_bslash then out @ [chr_bslash, chr_bslash]
      else out @ [c]) text"

definition svcparser_escape :: "string \<Rightarrow> string" where
  "svcparser_escape text = svcparser_escape_from [] text"

section \<open>The thread that reads lines\<close>

text \<open>
  One turn of \<open>SVCReaderThread::Entry\<close> on the character read: the line so far and the
  list shared with the user interface.
\<close>

definition reader_char :: "string \<times> string list \<Rightarrow> char \<Rightarrow> string \<times> string list" where
  "reader_char st c = (case st of (buffer, output) \<Rightarrow>
     if c = chr_nl then ([], output @ [buffer]) else (buffer @ [c], output))"

text \<open>The characters read until the end of the stream or of the thread.\<close>

definition reader_run :: "string \<Rightarrow> string list \<Rightarrow> string \<times> string list" where
  "reader_run stream output = foldl reader_char ([], output) stream"

section \<open>Events\<close>

datatype event_type =
    EVENT_UNKNOWN | EVENT_MUTED | EVENT_DEAFEN | EVENT_SERVER | EVENT_CONNECTION_STATE
  | EVENT_PEER_ADD | EVENT_PEER_DEL | EVENT_PEER_SET | EVENT_SERVER_SET | EVENT_I_AM

datatype connection = SVCCON_DISCONNECTED | SVCCON_CONNECTED | SVCCON_CONNECTING

text \<open>
  \<open>None\<close> for an \<open>unsigned int\<close> that was given no value.  The member
  \<open>connectionState\<close> is an \<open>int\<close>, 0 at first, that holds values of the
  enumeration only.
\<close>

record svcevent =
  ev_type :: event_type
  ev_flag :: bool
  ev_host :: string
  ev_address :: string
  ev_port :: "u32 option"
  ev_peer :: int
  ev_connection :: connection
  ev_key :: string
  ev_value :: string

definition svcevent_new :: svcevent where
  "svcevent_new = \<lparr>ev_type = EVENT_UNKNOWN, ev_flag = False, ev_host = [], ev_address = [],
     ev_port = Some 0, ev_peer = - 1, ev_connection = SVCCON_DISCONNECTED, ev_key = [], ev_value = []\<rparr>"

definition createMuted :: "bool \<Rightarrow> svcevent" where
  "createMuted flag = svcevent_new\<lparr>ev_type := EVENT_MUTED, ev_flag := flag\<rparr>"

definition createDefean :: "bool \<Rightarrow> svcevent" where
  "createDefean flag = svcevent_new\<lparr>ev_type := EVENT_DEAFEN, ev_flag := flag\<rparr>"

definition createServer :: "string \<Rightarrow> string \<Rightarrow> u32 option \<Rightarrow> svcevent" where
  "createServer host address port =
     svcevent_new\<lparr>ev_type := EVENT_SERVER, ev_host := host, ev_address := address, ev_port := port\<rparr>"

definition createConnectionState :: "connection \<Rightarrow> svcevent" where
  "createConnectionState c = svcevent_new\<lparr>ev_type := EVENT_CONNECTION_STATE, ev_connection := c\<rparr>"

definition createPeerAdd :: "int \<Rightarrow> svcevent" where
  "createPeerAdd i = svcevent_new\<lparr>ev_type := EVENT_PEER_ADD, ev_peer := i\<rparr>"

definition createPeerDel :: "int \<Rightarrow> svcevent" where
  "createPeerDel i = svcevent_new\<lparr>ev_type := EVENT_PEER_DEL, ev_peer := i\<rparr>"

definition createPeerSet :: "int \<Rightarrow> string \<Rightarrow> string \<Rightarrow> svcevent" where
  "createPeerSet i key val =
     svcevent_new\<lparr>ev_type := EVENT_PEER_SET, ev_peer := i, ev_key := key, ev_value := val\<rparr>"

definition createServerSet :: "string \<Rightarrow> string \<Rightarrow> svcevent" where
  "createServerSet key val = svcevent_new\<lparr>ev_type := EVENT_SERVER_SET, ev_key := key, ev_value := val\<rparr>"

definition createIAm :: "int \<Rightarrow> svcevent" where
  "createIAm i = svcevent_new\<lparr>ev_type := EVENT_I_AM, ev_peer := i\<rparr>"

section \<open>The state of the client\<close>

text \<open>A pointer to a reader thread.\<close>

datatype thread_ptr = NoThread | Running | Deleted

record gui =
  gu_svc :: bool
  gu_pid :: int
  gu_out_thread :: thread_ptr
  gu_err_thread :: thread_ptr
  gu_stdout :: "string list"
  gu_stderr :: "string list"
  gu_muted :: bool
  gu_deafen :: bool
  gu_host :: string
  gu_address :: string
  gu_port :: "u32 option"
  gu_connection :: connection
  gu_output :: "string list"
  gu_error :: "string list"
  gu_log :: "string list"
  gu_peers :: "int \<Rightarrow> (string \<rightharpoonup> string) option"
  gu_info :: "string \<rightharpoonup> string"
  gu_events :: "svcevent list"
  gu_written :: "string list"  \<comment> \<open>what went to the standard input of \<open>svcc\<close>\<close>

definition gui_new :: gui where
  "gui_new = \<lparr>gu_svc = False, gu_pid = 0, gu_out_thread = NoThread, gu_err_thread = NoThread,
     gu_stdout = [], gu_stderr = [], gu_muted = False, gu_deafen = False, gu_host = [], gu_address = [],
     gu_port = None, gu_connection = SVCCON_DISCONNECTED, gu_output = [], gu_error = [], gu_log = [],
     gu_peers = Map.empty, gu_info = Map.empty, gu_events = [], gu_written = []\<rparr>"

definition add_log :: "string \<Rightarrow> gui \<Rightarrow> gui" where
  "add_log t g = g\<lparr>gu_log := gu_log g @ [t]\<rparr>"

definition add_event :: "svcevent \<Rightarrow> gui \<Rightarrow> gui" where
  "add_event e g = g\<lparr>gu_events := gu_events g @ [e]\<rparr>"

definition handleCommandSSET :: "string list \<Rightarrow> gui \<Rightarrow> gui" where
  "handleCommandSSET cmd g =
     (if length cmd \<noteq> 3 then add_log ''error: Invalid number of arguments in SSET'' g
      else add_event (createServerSet (cmd ! 1) (cmd ! 2))
             (g\<lparr>gu_info := (gu_info g)(cmd ! 1 \<mapsto> cmd ! 2)\<rparr>))"

text \<open>Called by nothing.  The peer is always the peer 0, with only this value left.\<close>

definition handleCommandPSET :: "string list \<Rightarrow> gui \<Rightarrow> gui" where
  "handleCommandPSET cmd g =
     (if length cmd \<noteq> 4 then add_log ''error: Invalid number of arguments in PSET'' g
      else add_event (createPeerSet 0 (cmd ! 2) (cmd ! 3))
             (g\<lparr>gu_peers := (gu_peers g)(0 \<mapsto> [cmd ! 2 \<mapsto> cmd ! 3])\<rparr>))"

definition handleStateMuted :: "string list \<Rightarrow> gui \<Rightarrow> gui" where
  "handleStateMuted cmd g =
     (if length cmd \<noteq> 2 then add_log ''error: Invalid number of arguments in :MUTED'' g
      else if cmd ! 1 = ''0'' \<and> gu_muted g then add_event (createMuted False) (g\<lparr>gu_muted := False\<rparr>)
      else if cmd ! 1 = ''1'' \<and> \<not> gu_muted g then add_event (createMuted True) (g\<lparr>gu_muted := True\<rparr>)
      else g)"

definition handleStateDeafen :: "string list \<Rightarrow> gui \<Rightarrow> gui" where
  "handleStateDeafen cmd g =
     (if length cmd \<noteq> 2 then add_log ''error: Invalid number of arguments in :DEAFEN'' g
      else if cmd ! 1 = ''0'' \<and> gu_deafen g then add_event (createDefean False) (g\<lparr>gu_deafen := False\<rparr>)
      else if cmd ! 1 = ''1'' \<and> \<not> gu_deafen g then add_event (createDefean True) (g\<lparr>gu_deafen := True\<rparr>)
      else g)"

definition enter :: "connection \<Rightarrow> gui \<Rightarrow> gui" where
  "enter c g = add_event (createConnectionState c) (g\<lparr>gu_connection := c\<rparr>)"

definition handleStateConnection :: "string list \<Rightarrow> gui \<Rightarrow> gui" where
  "handleStateConnection cmd g =
     (if length cmd \<noteq> 2 then add_log ''error: Invalid number of arguments in :DEAFEN'' g
      else if cmd ! 1 = ''connecting'' \<and> gu_connection g \<noteq> SVCCON_CONNECTING then enter SVCCON_CONNECTING g
      else if cmd ! 1 = ''connected'' \<and> gu_connection g \<noteq> SVCCON_CONNECTED then enter SVCCON_CONNECTED g
      else if cmd ! 1 = ''disconnected'' \<and> gu_connection g \<noteq> SVCCON_DISCONNECTED then
        (enter SVCCON_DISCONNECTED g)\<lparr>gu_info := Map.empty, gu_peers := Map.empty\<rparr>
      else add_log ''error: Invalid connection state'' g)"

text \<open>
  \<open>toul\<close> is \<open>wxString::ToULong\<close> for base 10; its result is not looked at, and
  the port stays without a value when it fails.
\<close>

definition handleStateServer :: "(string \<Rightarrow> u64 option) \<Rightarrow> string list \<Rightarrow> gui \<Rightarrow> gui" where
  "handleStateServer toul cmd g =
     (if length cmd \<noteq> 4 then add_log ''error: Invalid number of arguments in :SERVER'' g
      else
        let port = map_option ucast (toul (cmd ! 3)) in
        add_event (createServer (cmd ! 1) (cmd ! 2) port)
          (g\<lparr>gu_host := cmd ! 1, gu_address := cmd ! 2, gu_port := port\<rparr>))"

text \<open>
  A word may be empty, from two quotes; \<open>cmd[0][0]\<close> is then the character that ends the
  string.
\<close>

definition parseCommand :: "(string \<Rightarrow> u64 option) \<Rightarrow> string \<Rightarrow> gui \<Rightarrow> gui" where
  "parseCommand toul command g =
     (case svcparser_parse command of (res, cmd) \<Rightarrow>
        if res = SVCPARSER_ESCAPE then
          add_log ''error: SVC command has an unterminated escape sequence'' g
        else if res = SVCPARSER_STRING then
          add_log ''error: SVC command has an unterminated string'' g
        else if cmd = [] then g
        else if cmd ! 0 \<noteq> [] \<and> cmd ! 0 ! 0 = CHR '':'' then
          (if cmd ! 0 = '':STATE'' then handleStateConnection cmd g
           else if cmd ! 0 = '':MUTED'' then handleStateMuted cmd g
           else if cmd ! 0 = '':DEAFEN'' then handleStateDeafen cmd g
           else if cmd ! 0 = '':SERVER'' then handleStateServer toul cmd g
           else g)
        else if cmd ! 0 = ''SSET'' then handleCommandSSET cmd g
        else g)"

section \<open>The process\<close>

text \<open>\<open>signalEnd()\<close>, \<open>Wait()\<close> and \<open>delete\<close> of a reader thread.\<close>

definition end_thread :: "thread_ptr \<Rightarrow> thread_ptr res" where
  "end_thread t = (case t of NoThread \<Rightarrow> Inr NoThread | Running \<Rightarrow> Inr Deleted | Deleted \<Rightarrow> Inl Dangling)"

definition killSVC :: "gui \<Rightarrow> gui res" where
  "killSVC g =
     (if \<not> gu_svc g then Inr g
      else bindR (end_thread (gu_out_thread g)) (\<lambda>ot. bindR (end_thread (gu_err_thread g)) (\<lambda>et.
        Inr (g\<lparr>gu_out_thread := ot, gu_err_thread := et, gu_svc := False\<rparr>))))"

text \<open>\<open>pid\<close> is the process \<open>wxProcess::Open\<close> has started, if it could.\<close>

definition openSVC :: "string \<Rightarrow> int option \<Rightarrow> gui \<Rightarrow> gui" where
  "openSVC svccPath pid g =
     (let g = add_log ''Starting svcc...'' g in
      case pid of
        None \<Rightarrow> add_log (''error: failed to start '' @ svccPath) (g\<lparr>gu_svc := False\<rparr>)
      | Some p \<Rightarrow> (add_log ''svcc running'' (g\<lparr>gu_svc := True, gu_pid := p\<rparr>))
          \<lparr>gu_out_thread := Running, gu_err_thread := Running\<rparr>)"

text \<open>The loop over the lines of \<open>svcc\<close>, one turn of it on the first line.\<close>

definition process_line :: "(string \<Rightarrow> u64 option) \<Rightarrow> string \<Rightarrow> gui \<Rightarrow> gui" where
  "process_line toul line g =
     parseCommand toul line (g\<lparr>gu_output := gu_output g @ [line], gu_stdout := tl (gu_stdout g)\<rparr>)"

text \<open>\<open>exists pid\<close>: \<open>wxProcess::Exists\<close>.\<close>

definition processIO :: "(int \<Rightarrow> bool) \<Rightarrow> (string \<Rightarrow> u64 option) \<Rightarrow> gui \<Rightarrow> gui res" where
  "processIO exists toul g =
     (if \<not> gu_svc g then Inr g
      else if \<not> exists (gu_pid g) then killSVC g
      else
        let g = fold (process_line toul) (gu_stdout g) g in
        Inr (g\<lparr>gu_error := gu_error g @ gu_stderr g, gu_stderr := []\<rparr>))"

definition isReady :: "(int \<Rightarrow> bool) \<Rightarrow> gui \<Rightarrow> bool" where
  "isReady exists g \<longleftrightarrow> gu_svc g \<and> gu_pid g \<noteq> 0 \<and> exists (gu_pid g)"

text \<open>\<open>strlen\<close> ends the bytes at the first zero.\<close>

definition sendCommand :: "(int \<Rightarrow> bool) \<Rightarrow> string \<Rightarrow> gui \<Rightarrow> gui" where
  "sendCommand exists command g =
     (let msg = command @ [chr_nl] in
      if isReady exists g then g\<lparr>gu_written := gu_written g @ [cstr msg]\<rparr> else g)"

definition getSVCOutput :: "gui \<Rightarrow> (string \<times> gui) option" where
  "getSVCOutput g = (case gu_output g of [] \<Rightarrow> None | l # ls \<Rightarrow> Some (l, g\<lparr>gu_output := ls\<rparr>))"

definition getSVCError :: "gui \<Rightarrow> (string \<times> gui) option" where
  "getSVCError g = (case gu_error g of [] \<Rightarrow> None | l # ls \<Rightarrow> Some (l, g\<lparr>gu_error := ls\<rparr>))"

definition getLog :: "gui \<Rightarrow> (string \<times> gui) option" where
  "getLog g = (case gu_log g of [] \<Rightarrow> None | l # ls \<Rightarrow> Some (l, g\<lparr>gu_log := ls\<rparr>))"

definition hasEvents :: "gui \<Rightarrow> bool" where
  "hasEvents g \<longleftrightarrow> gu_events g \<noteq> []"

definition getNextEvent :: "gui \<Rightarrow> svcevent \<times> gui" where
  "getNextEvent g = (case gu_events g of [] \<Rightarrow> (svcevent_new, g) | e # es \<Rightarrow> (e, g\<lparr>gu_events := es\<rparr>))"

end
