(* ===== verification/GuiWindow.thy ===== *)
theory GuiWindow
  imports Gui Decimal
begin

text \<open>
  The window of the graphical client (\<open>svcwindow.cpp\<close>, \<open>svcobjectinfo.cpp\<close>) and
  the application (\<open>app.cpp\<close>) in \<open>src/network/svcenet/wx\<close>: what the window shows
  and how the events of the state change it.  A text control is the list of its coloured
  pieces of text.
\<close>

section \<open>The panel of keys and values\<close>

text \<open>
  \<open>ob_keys\<close> are the items of the list box and \<open>ob_sel\<close> the index of the one selected or
  -1.  Where \<open>Insert\<close> puts a new item of a sorted list box, and the selection after it,
  are the argument \<open>ins\<close> of the definitions below.
\<close>

record object_info =
  ob_values :: "string \<rightharpoonup> string"
  ob_keys :: "string list"
  ob_sel :: int
  ob_text :: string
  ob_italic :: bool

definition object_info_new :: object_info where
  "object_info_new = \<lparr>ob_values = Map.empty, ob_keys = [], ob_sel = - 1, ob_text = [], ob_italic = False\<rparr>"

definition clearOptions :: "object_info \<Rightarrow> object_info" where
  "clearOptions ob = ob\<lparr>ob_keys := [], ob_sel := - 1, ob_values := Map.empty, ob_text := []\<rparr>"

text \<open>\<open>values[name]\<close> makes an empty entry when there is none.\<close>

definition displayOption :: "string \<Rightarrow> object_info \<Rightarrow> object_info" where
  "displayOption name ob =
     (let val = (case ob_values ob name of None \<Rightarrow> [] | Some v \<Rightarrow> v);
          ob = ob\<lparr>ob_values := (ob_values ob)(name \<mapsto> val)\<rparr> in
      if val = [] then ob\<lparr>ob_italic := True, ob_text := ''(empty)''\<rparr>
      else ob\<lparr>ob_italic := False, ob_text := val\<rparr>)"

definition find_string :: "string \<Rightarrow> string list \<Rightarrow> int" where
  "find_string name keys = (case find (\<lambda>i. keys ! i = name) [0..<length keys] of None \<Rightarrow> - 1 | Some i \<Rightarrow> int i)"

type_synonym inserter = "string \<Rightarrow> string list \<times> int \<Rightarrow> string list \<times> int"

definition setOption :: "inserter \<Rightarrow> string \<Rightarrow> string \<Rightarrow> object_info \<Rightarrow> object_info" where
  "setOption ins name val ob =
     (if ob_values ob name = None then
        case ins name (ob_keys ob, ob_sel ob) of (keys, sel) \<Rightarrow>
          ob\<lparr>ob_keys := keys, ob_sel := sel, ob_values := (ob_values ob)(name \<mapsto> val)\<rparr>
      else
        let ob = ob\<lparr>ob_values := (ob_values ob)(name \<mapsto> val)\<rparr> in
        if ob_sel ob = find_string name (ob_keys ob) then displayOption name ob else ob)"

definition OnItemSelect :: "object_info \<Rightarrow> object_info" where
  "OnItemSelect ob = (if 0 \<le> ob_sel ob then displayOption (ob_keys ob ! nat (ob_sel ob)) ob else ob)"

section \<open>The window\<close>

datatype colour = Black | Red | Blue | Green | Orange

record window =
  sw_console :: "(colour \<times> string) list"
  sw_io :: "(colour \<times> string) list"
  sw_status :: string
  sw_peers :: object_info
  sw_server :: object_info
  sw_state :: connection
  sw_host :: string
  sw_address :: string
  sw_port :: "u32 option"
  sw_first :: bool

definition window_new :: window where
  "window_new = \<lparr>sw_console = [], sw_io = [], sw_status = ''svcc not running'', sw_peers = object_info_new,
     sw_server = object_info_new, sw_state = SVCCON_DISCONNECTED, sw_host = [], sw_address = [],
     sw_port = None, sw_first = True\<rparr>"

definition to_console :: "colour \<Rightarrow> string \<Rightarrow> window \<Rightarrow> window" where
  "to_console c t w = w\<lparr>sw_console := sw_console w @ [(c, t)]\<rparr>"

definition to_io :: "colour \<Rightarrow> string \<Rightarrow> window \<Rightarrow> window" where
  "to_io c t w = w\<lparr>sw_io := sw_io w @ [(c, t @ [chr_nl])]\<rparr>"

definition ioStdout :: "string \<Rightarrow> window \<Rightarrow> window" where "ioStdout = to_io Black"
definition ioStderr :: "string \<Rightarrow> window \<Rightarrow> window" where "ioStderr = to_io Red"
definition ioStdin :: "string \<Rightarrow> window \<Rightarrow> window" where "ioStdin = to_io Blue"

definition logText :: "string \<Rightarrow> window \<Rightarrow> window" where
  "logText t = to_console Black (t @ [chr_nl])"

definition logError :: "string \<Rightarrow> window \<Rightarrow> window" where
  "logError t = to_console Red (''error: '' @ t @ [chr_nl])"

definition logSVCError :: "string \<Rightarrow> window \<Rightarrow> window" where
  "logSVCError t = to_console Red (''svcc error: '' @ t @ [chr_nl])"

definition logCommand :: "string \<Rightarrow> window \<Rightarrow> window" where
  "logCommand t w = to_console Blue (t @ [chr_nl]) (to_console Green ''excuting '' w)"

definition logConnection :: "string \<Rightarrow> window \<Rightarrow> window" where
  "logConnection t = to_console Orange (t @ [chr_nl])"

text \<open>\<open><< host << " (" << address << ":" << port << ")"\<close>; reading a port that has no value
  is a fault.\<close>

definition server_text :: "window \<Rightarrow> string res" where
  "server_text w = (case sw_port w of None \<Rightarrow> Inl Uninit | Some p \<Rightarrow>
     Inr (sw_host w @ '' ('' @ sw_address w @ '':'' @ dec_nat (unat p) @ '')''))"

definition handleConnectionState :: "svcevent \<Rightarrow> window \<Rightarrow> window res" where
  "handleConnectionState event w =
     (let oldState = sw_state w; w = w\<lparr>sw_state := ev_connection event\<rparr> in
      bindR (case sw_state w of
          SVCCON_CONNECTED \<Rightarrow> bindR (server_text w) (\<lambda>t.
            Inr (''svcc running - connected to '' @ t, ''You are now connected to '' @ t, w))
        | SVCCON_CONNECTING \<Rightarrow> bindR (server_text w) (\<lambda>t.
            Inr (''svcc running - connecting to '' @ t, ''Connecting to '' @ t, w))
        | SVCCON_DISCONNECTED \<Rightarrow>
            Inr (''svcc running - disconnected'',
              (if oldState = SVCCON_CONNECTED then ''Disconnected''
               else if oldState = SVCCON_CONNECTING then ''Connection failed'' else []),
              (if oldState = SVCCON_CONNECTED
               then w\<lparr>sw_server := clearOptions (sw_server w), sw_peers := clearOptions (sw_peers w)\<rparr>
               else w))) (\<lambda>(status, message, w).
        let w = w\<lparr>sw_status := status\<rparr> in
        Inr (if message \<noteq> [] then logConnection message w else w)))"

text \<open>One turn of the loop of \<open>updateSVCState\<close>.\<close>

definition window_event :: "inserter \<Rightarrow> svcevent \<Rightarrow> window \<Rightarrow> window res" where
  "window_event ins event w =
     (case ev_type event of
        EVENT_CONNECTION_STATE \<Rightarrow> handleConnectionState event w
      | EVENT_MUTED \<Rightarrow>
          Inr (logText (if ev_flag event then ''You are now locally muted''
                        else ''You are no longer locally muted'') w)
      | EVENT_DEAFEN \<Rightarrow>
          Inr (logText (if ev_flag event then ''You are now locally deafen''
                        else ''You are no longer locally deafen'') w)
      | EVENT_SERVER \<Rightarrow>
          Inr (w\<lparr>sw_address := ev_address event, sw_host := ev_host event, sw_port := ev_port event\<rparr>)
      | EVENT_SERVER_SET \<Rightarrow>
          Inr (w\<lparr>sw_server := setOption ins (ev_key event) (ev_value event) (sw_server w)\<rparr>)
      | _ \<Rightarrow> Inr w)"

text \<open>The two loops of \<open>updateSVCState\<close>: one empties the list of events, one acts on them.\<close>

function drain_events :: "gui \<Rightarrow> gui" where
  "drain_events g = (if hasEvents g then drain_events (snd (getNextEvent g)) else g)"
  by pat_completeness auto

termination
  by (relation "measure (\<lambda>g. length (gu_events g))")
    (auto simp: hasEvents_def getNextEvent_def split: list.splits)

function handle_events :: "inserter \<Rightarrow> gui \<Rightarrow> window \<Rightarrow> (gui \<times> window) res" where
  "handle_events ins g w =
     (if hasEvents g then
        bindR (window_event ins (fst (getNextEvent g)) w) (\<lambda>w. handle_events ins (snd (getNextEvent g)) w)
      else Inr (g, w))"
  by pat_completeness auto

termination
  by (relation "measure (\<lambda>(ins, g, w). length (gu_events g))")
    (auto simp: hasEvents_def getNextEvent_def split: list.splits)

declare drain_events.simps [simp del] handle_events.simps [simp del]

definition updateSVCState ::
  "inserter \<Rightarrow> (int \<Rightarrow> bool) \<Rightarrow> gui \<times> window \<Rightarrow> (gui \<times> window) res" where
  "updateSVCState ins exists st = (case st of (g, w) \<Rightarrow>
     if \<not> isReady exists g then Inr (drain_events g, w\<lparr>sw_status := ''svcc not running''\<rparr>)
     else handle_events ins g
       (if sw_first w then w\<lparr>sw_status := ''svcc running - disconnected'', sw_first := False\<rparr> else w))"

text \<open>\<open>line.StartsWith("error: ", &rest)\<close>\<close>

definition show_log :: "string \<Rightarrow> window \<Rightarrow> window" where
  "show_log line =
     (if take 7 line = ''error: '' then logError (drop 7 line) else logText line)"

text \<open>The three loops of the timer, over what the state has to tell.\<close>

function show_output :: "gui \<Rightarrow> window \<Rightarrow> gui \<times> window" where
  "show_output g w = (case getSVCOutput g of None \<Rightarrow> (g, w) | Some (line, g) \<Rightarrow> show_output g (ioStdout line w))"
  by pat_completeness auto

termination
  by (relation "measure (\<lambda>(g, w). length (gu_output g))") (auto simp: getSVCOutput_def split: list.splits)

function show_errors :: "gui \<Rightarrow> window \<Rightarrow> gui \<times> window" where
  "show_errors g w = (case getSVCError g of None \<Rightarrow> (g, w) | Some (line, g) \<Rightarrow> show_errors g (ioStderr line w))"
  by pat_completeness auto

termination
  by (relation "measure (\<lambda>(g, w). length (gu_error g))") (auto simp: getSVCError_def split: list.splits)

function show_logs :: "gui \<Rightarrow> window \<Rightarrow> gui \<times> window" where
  "show_logs g w = (case getLog g of None \<Rightarrow> (g, w) | Some (line, g) \<Rightarrow> show_logs g (show_log line w))"
  by pat_completeness auto

termination
  by (relation "measure (\<lambda>(g, w). length (gu_log g))") (auto simp: getLog_def split: list.splits)

declare show_output.simps [simp del] show_errors.simps [simp del] show_logs.simps [simp del]

definition OnIOTimer ::
  "inserter \<Rightarrow> (int \<Rightarrow> bool) \<Rightarrow> (string \<Rightarrow> u64 option) \<Rightarrow> gui \<times> window \<Rightarrow> (gui \<times> window) res" where
  "OnIOTimer ins exists toul st = (case st of (g, w) \<Rightarrow>
     bindR (processIO exists toul g) (\<lambda>g.
     case show_output g w of (g, w) \<Rightarrow>
     case show_errors g w of (g, w) \<Rightarrow>
     updateSVCState ins exists (show_logs g w)))"

section \<open>The application\<close>

definition OnInit :: "int option \<Rightarrow> gui \<times> window" where
  "OnInit pid = (openSVC ''./svcc'' pid gui_new, window_new)"

definition app_sendCommand :: "(int \<Rightarrow> bool) \<Rightarrow> string \<Rightarrow> gui \<times> window \<Rightarrow> gui \<times> window" where
  "app_sendCommand exists command st = (case st of (g, w) \<Rightarrow>
     if \<not> isReady exists g then (g, logError ''Can't execute command, svcc not running'' w)
     else (sendCommand exists command g, ioStdin command w))"

definition sendUserCommand :: "(int \<Rightarrow> bool) \<Rightarrow> string \<Rightarrow> gui \<times> window \<Rightarrow> gui \<times> window" where
  "sendUserCommand exists command st = (case st of (g, w) \<Rightarrow>
     if \<not> isReady exists g then (g, logError ''Can't execute command, svcc not running'' w)
     else (sendCommand exists command g, ioStdin command (logCommand command w)))"

text \<open>The text of the input field, and what is left in it.\<close>

definition OnCommand :: "(int \<Rightarrow> bool) \<Rightarrow> string \<Rightarrow> gui \<times> window \<Rightarrow> (gui \<times> window) \<times> string" where
  "OnCommand exists input st = (sendUserCommand exists input st, [])"

definition OnExit :: "gui \<times> window \<Rightarrow> (gui \<times> window) res" where
  "OnExit st = (case st of (g, w) \<Rightarrow> bindR (killSVC g) (\<lambda>g. Inr (g, w)))"

section \<open>The loops\<close>

lemma drain_events_eq: "drain_events g = g\<lparr>gu_events := []\<rparr>"
  by (induction g rule: drain_events.induct)
    (subst drain_events.simps, auto simp: hasEvents_def getNextEvent_def split: list.splits)

lemma handle_events_eq:
  "handle_events ins g w = bindR (foldR (window_event ins) (gu_events g) w) (\<lambda>w. Inr (g\<lparr>gu_events := []\<rparr>, w))"
proof (induction "gu_events g" arbitrary: g w)
  case Nil
  then show ?case by (simp add: handle_events.simps [of ins g w] hasEvents_def)
next
  case (Cons e es)
  then have "handle_events ins (g\<lparr>gu_events := es\<rparr>) =
      (\<lambda>w. bindR (foldR (window_event ins) es w) (\<lambda>w. Inr (g\<lparr>gu_events := []\<rparr>, w)))"
    by (intro ext) simp
  with Cons.hyps(2) [symmetric] show ?case by (simp add: handle_events.simps [of ins g w] hasEvents_def getNextEvent_def bindR_assoc)
qed

lemma show_output_eq: "show_output g w = (g\<lparr>gu_output := []\<rparr>, fold ioStdout (gu_output g) w)"
  by (induction g w rule: show_output.induct)
    (subst show_output.simps, auto simp: getSVCOutput_def split: list.splits)

lemma show_errors_eq: "show_errors g w = (g\<lparr>gu_error := []\<rparr>, fold ioStderr (gu_error g) w)"
  by (induction g w rule: show_errors.induct)
    (subst show_errors.simps, auto simp: getSVCError_def split: list.splits)

lemma show_logs_eq: "show_logs g w = (g\<lparr>gu_log := []\<rparr>, fold show_log (gu_log g) w)"
  by (induction g w rule: show_logs.induct)
    (subst show_logs.simps, auto simp: getLog_def split: list.splits)

lemmas loop_eqs = drain_events_eq handle_events_eq show_output_eq show_errors_eq show_logs_eq

end
