(* ===== verification/GuiLines.thy ===== *)
theory GuiLines
  imports ClientLife Protocol GuiWindow
begin

text \<open>
  The lines between the client and its graphical user interface: the two parsers of command
  lines agree, and what the client prints of a packet tells the interface what the packet told the
  client.
\<close>

section \<open>The parser\<close>

definition gp_of :: "lexst \<Rightarrow> gparser" where
  "gp_of a = (case a of (e, q, w, ws) \<Rightarrow> \<lparr>gp_escape = e, gp_string = q, gp_buffer = w, gp_cmd = ws\<rparr>)"

lemma parse_char_step: "parse_char (gp_of a) c = gp_of (lstep a c)"
proof (cases a)
  case (fields e q w ws)
  show ?thesis
    by (cases e; cases q) (auto simp: fields gp_of_def parse_char_def gp_append_def gp_add_def unescape_def)
qed

lemma parse_chars: "foldl parse_char (gp_of a) xs = gp_of (foldl lstep a xs)"
  by (induction xs arbitrary: a) (simp_all add: parse_char_step)

definition parser_code :: "int \<Rightarrow> parser_error" where
  "parser_code code = (if code = DSTRLEX_OK then SVCPARSER_OK
     else if code = DSTRLEX_ESCAPE then SVCPARSER_ESCAPE else SVCPARSER_STRING)"

lemma parse_lex:
  "fst (svcparser_parse l) = parser_code (fst (lex l))"
  "snd (lex l) = Some ws \<longleftrightarrow> svcparser_parse l = (SVCPARSER_OK, ws)"
proof -
  obtain e q w vs where s: "foldl lstep (False, False, [], []) l = (e, q, w, vs)"
    by (cases "foldl lstep (False, False, [], []) l") auto
  have p: "foldl parse_char \<lparr>gp_escape = False, gp_string = False, gp_buffer = [], gp_cmd = []\<rparr> l =
      gp_of (e, q, w, vs)"
    using parse_chars [of "(False, False, [], [])" l] s by (simp add: gp_of_def)
  show "fst (svcparser_parse l) = parser_code (fst (lex l))"
    unfolding svcparser_parse_def p
    by (simp add: gp_of_def lex_def s lfinish_def parser_code_def DSTRLEX_OK_def DSTRLEX_ESCAPE_def
        DSTRLEX_STRING_def Let_def)
  show "snd (lex l) = Some ws \<longleftrightarrow> svcparser_parse l = (SVCPARSER_OK, ws)"
    unfolding svcparser_parse_def p by (auto simp: gp_of_def lex_def s lfinish_def Let_def)
qed

lemma svcparser_escape_from_eq: "svcparser_escape_from out xs = out @ escape xs"
  by (induction xs arbitrary: out) (simp_all add: esc_def)

lemma svcparser_escape_eq: "svcparser_escape xs = escape xs"
  by (simp add: svcparser_escape_def svcparser_escape_from_eq)

section \<open>A line cut at a zero\<close>

lemma words_grow: "\<exists>zs. words_of (foldl lstep a xs) = words_of a @ zs"
proof (induction xs arbitrary: a)
  case (Cons c xs)
  have "\<exists>ys. words_of (lstep a c) = words_of a @ ys"
    by (cases "(a, c)" rule: lstep.cases) auto
  with Cons.IH [of "lstep a c"] show ?case by auto
qed simp

definition first_word :: "lexst \<Rightarrow> string" where
  "first_word a = (if words_of a = [] then word_of a else hd (words_of a))"

lemma first_word_step: "\<exists>ys. first_word (lstep a c) = first_word a @ ys"
  by (cases "(a, c)" rule: lstep.cases) (auto simp: first_word_def)

lemma first_word_grows: "\<exists>ys. first_word (foldl lstep a xs) = first_word a @ ys"
proof (induction xs arbitrary: a)
  case (Cons c xs)
  from Cons.IH [of "lstep a c"] first_word_step [of a c] show ?case by auto
qed simp

lemma cstr_cases:
  obtains "cstr l = l" | r where "l = cstr l @ nul # r"
proof (cases "nul \<in> set l")
  case True
  then obtain p r where "l = p @ nul # r" "nul \<notin> set p" by (meson split_list_first)
  moreover from this have "cstr l = p" by (auto simp: cstr_def takeWhile_tail)
  ultimately show ?thesis using that(2) by simp
qed (use that(1) in simp)

text \<open>What is left of a line cut at a zero has the first word of the line, if any.\<close>

lemma cut_words:
  assumes l: "snd (lex l) = Some ws" "ws \<noteq> []" "nul \<notin> set (hd ws)" and c: "snd (lex (cstr l)) = Some vs"
  shows "vs = [] \<or> hd vs = hd ws"
proof (rule cstr_cases [of l])
  fix r assume r: "l = cstr l @ nul # r"
  obtain e q w us where s: "foldl lstep (False, False, [], []) (cstr l) = (e, q, w, us)"
    by (cases "foldl lstep (False, False, [], []) (cstr l)") auto
  with c have eq: "\<not> e" "\<not> q" "vs = (if w = [] then us else us @ [w])"
    by (auto simp: lex_def lfinish_def split: if_splits)
  define a where "a = (False, False, w @ [nul], us)"
  have "foldl lstep (False, False, [], []) l = foldl lstep a r"
    using eq by (subst r) (simp add: s a_def)
  moreover obtain e' q' w' us' where s': "foldl lstep a r = (e', q', w', us')"
    by (cases "foldl lstep a r") auto
  ultimately have ws: "ws = (if w' = [] then us' else us' @ [w'])"
    using l(1) by (auto simp: lex_def lfinish_def split: if_splits)
  have hd: "hd ws = first_word (foldl lstep a r)"
    using l(2) by (auto simp: ws s' first_word_def split: if_splits)
  show ?thesis
  proof (cases "us = []")
    case True
    with first_word_grows [of a r] hd l(3) show ?thesis by (auto simp: first_word_def a_def)
  next
    case False
    then have "first_word (foldl lstep a r) = hd us"
      using words_grow [of a r] by (auto simp: first_word_def a_def s')
    with False hd eq(3) show ?thesis by simp
  qed
qed (use l c in simp)

section \<open>Lines about the server's data\<close>

text \<open>The key and value a line sets, and what lines make of the data.\<close>

definition sset_of :: "string \<Rightarrow> (string \<times> string) option" where
  "sset_of l = (case svcparser_parse l of (res, cmd) \<Rightarrow>
     if res = SVCPARSER_OK \<and> length cmd = 3 \<and> cmd ! 0 = ''SSET'' then Some (cmd ! 1, cmd ! 2) else None)"

definition info_line :: "string \<Rightarrow> (string \<rightharpoonup> string) \<Rightarrow> (string \<rightharpoonup> string)" where
  "info_line l m = (case sset_of l of None \<Rightarrow> m | Some (k, v) \<Rightarrow> m(k \<mapsto> v))"

text \<open>A line that does not speak of the client itself, and is one line.\<close>

definition mild :: "string \<Rightarrow> bool" where
  "mild l \<longleftrightarrow> newline \<notin> set l \<and> (case svcparser_parse l of (res, cmd) \<Rightarrow>
     res = SVCPARSER_OK \<longrightarrow> cmd \<noteq> [] \<longrightarrow> cmd ! 0 \<notin> {'':STATE'', '':MUTED'', '':DEAFEN'', '':SERVER''})"

definition sset_events :: "string list \<Rightarrow> svcevent list" where
  "sset_events ls = map (\<lambda>(k, v). createServerSet k v) (List.map_filter sset_of ls)"

lemma sset_events_simps [simp]:
  "sset_events [] = []"
  "sset_events (l # ls) = (case sset_of l of None \<Rightarrow> [] | Some (k, v) \<Rightarrow> [createServerSet k v]) @ sset_events ls"
  by (simp_all add: sset_events_def map_filter_simps split: option.splits)

definition keeps :: "gui \<Rightarrow> gui \<Rightarrow> bool" where
  "keeps g g' \<longleftrightarrow> gu_svc g' = gu_svc g \<and> gu_pid g' = gu_pid g \<and> gu_out_thread g' = gu_out_thread g \<and>
     gu_err_thread g' = gu_err_thread g \<and> gu_stderr g' = gu_stderr g \<and> gu_muted g' = gu_muted g \<and>
     gu_deafen g' = gu_deafen g \<and> gu_host g' = gu_host g \<and> gu_address g' = gu_address g \<and>
     gu_port g' = gu_port g \<and> gu_connection g' = gu_connection g"

lemma keeps_refl [simp]: "keeps g g" by (simp add: keeps_def)

lemma keeps_trans: "keeps g h \<Longrightarrow> keeps h k \<Longrightarrow> keeps g k" by (simp add: keeps_def)

lemma mild_parse:
  assumes "mild l"
  obtains "sset_of l = None" "parseCommand toul l g = g"
  | t where "sset_of l = None" "parseCommand toul l g = add_log t g"
  | k v where "sset_of l = Some (k, v)"
      "parseCommand toul l g = add_event (createServerSet k v) (g\<lparr>gu_info := (gu_info g)(k \<mapsto> v)\<rparr>)"
proof -
  obtain r cmd where p: "svcparser_parse l = (r, cmd)" by (cases "svcparser_parse l")
  show thesis
  proof (cases "r = SVCPARSER_OK \<and> cmd \<noteq> [] \<and> cmd ! 0 = ''SSET''")
    case True
    then show thesis using that
      by (cases "length cmd = 3") (auto simp: parseCommand_def p sset_of_def handleCommandSSET_def)
  next
    case False
    then have n: "sset_of l = None" by (auto simp: sset_of_def p)
    with False assms that(1,2) show thesis
      by (cases r; cases "cmd = []") (auto simp: parseCommand_def mild_def p)
  qed
qed

lemma mild_line:
  assumes "mild l"
  shows "gu_info (process_line toul l g) = info_line l (gu_info g) \<and>
    gu_events (process_line toul l g) = gu_events g @ sset_events [l] \<and>
    keeps g (process_line toul l g) \<and> gu_stdout (process_line toul l g) = tl (gu_stdout g)"
  by (rule mild_parse [OF assms, of toul "g\<lparr>gu_output := gu_output g @ [l], gu_stdout := tl (gu_stdout g)\<rparr>"])
    (simp_all add: process_line_def info_line_def add_log_def add_event_def keeps_def)

lemma mild_lines:
  assumes "\<forall>l\<in>set ls. mild l"
  shows "gu_info (fold (process_line toul) ls g) = fold info_line ls (gu_info g) \<and>
    gu_events (fold (process_line toul) ls g) = gu_events g @ sset_events ls \<and>
    keeps g (fold (process_line toul) ls g) \<and> gu_stdout (fold (process_line toul) ls g) = drop (length ls) (gu_stdout g)"
  using assms
proof (induction ls arbitrary: g)
  case (Cons l ls)
  have "mild l" "\<forall>l\<in>set ls. mild l" using Cons.prems by auto
  from mild_line [OF this(1), of toul g] Cons.IH [OF this(2), of "process_line toul l g"]
  show ?case by (auto simp: drop_Suc intro: keeps_trans)
qed simp

section \<open>What the client prints of a packet\<close>

definition info_has :: "('a, 'd) client \<Rightarrow> (string \<rightharpoonup> string) \<Rightarrow> bool" where
  "info_has cl m \<longleftrightarrow> (\<exists>d kvs. cl_info cl = Inr d \<and> dsrep True d kvs \<and> map_of kvs = m)"

text \<open>The client went on and printed mild lines that say what changed of the server's data.\<close>

definition tells :: "('a, 'd) client \<Rightarrow> ('a, 'd) client \<Rightarrow> bool" where
  "tells cl cl' \<longleftrightarrow> (\<exists>ls. cl_out cl' = cl_out cl @ ls \<and> (\<forall>l\<in>set ls. mild l) \<and>
     (\<forall>m. info_has cl m \<longrightarrow> info_has cl' (fold info_line ls m)))"

lemma tells_refl [simp]: "tells cl cl"
  unfolding tells_def by (rule exI [of _ "[]"]) simp

lemma tells_trans: "tells cl cl1 \<Longrightarrow> tells cl1 cl2 \<Longrightarrow> tells cl cl2"
  unfolding tells_def by (elim exE conjE) (rule_tac x = "ls @ lsa" in exI, auto)

lemma tells_one:
  assumes "cl_out cl' = cl_out cl @ [l]" "mild l" "\<And>m. info_has cl m \<Longrightarrow> info_has cl' (info_line l m)"
  shows "tells cl cl'"
  unfolding tells_def by (rule exI [of _ "[l]"]) (use assms in simp)

lemma tells_same: "cl_out cl' = cl_out cl \<Longrightarrow> cl_info cl' = cl_info cl \<Longrightarrow> tells cl cl'"
  unfolding tells_def by (rule exI [of _ "[]"]) (simp add: info_has_def)

definition echoes :: "dstring \<Rightarrow> ('a, 'd) client \<Rightarrow> ('a, 'd) client \<Rightarrow> bool" where
  "echoes cmd cl cl' \<longleftrightarrow> cl_info cl' = cl_info cl \<and>
     (cl_out cl' = cl_out cl \<or> (\<exists>t. read_cs (ddata cmd) = Inr t \<and> cl_out cl' = cl_out cl @ [t]))"

lemma echo_echoes: "echo_cmd cmd cl = Inr cl' \<Longrightarrow> \<exists>t. read_cs (ddata cmd) = Inr t \<and> cl' = print_line t cl"
  by (auto simp: echo_cmd_def res_iff)

lemma put_echoes: "put_cpeer i p cl = Inr cl' \<Longrightarrow> cl_info cl' = cl_info cl \<and> cl_out cl' = cl_out cl"
  by (auto simp: put_cpeer_def split: if_splits)

lemma enlarge_echoes: "enlarge_peers i cl = Inr cl' \<Longrightarrow> cl_info cl' = cl_info cl \<and> cl_out cl' = cl_out cl"
  by (auto simp: enlarge_peers_def Let_def split: if_splits)

lemmas echoes_dests = echo_echoes put_echoes enlarge_echoes

lemma scmd_echoes:
  "scmd_yare cmd n v cl = Inr cl' \<Longrightarrow> echoes cmd cl cl'"
  "scmd_mesg cmd n v cl = Inr cl' \<Longrightarrow> echoes cmd cl cl'"
  by (auto simp: scmd_yare_def scmd_mesg_def echoes_def print_line_def res_iff dest!: echoes_dests split: if_splits)

lemma scmd_padd_echoes: "scmd_padd d0 cmd n v cl = Inr cl' \<Longrightarrow> echoes cmd cl cl'"
  by (auto simp: scmd_padd_def Let_def echoes_def print_line_def res_iff dest!: echoes_dests split: if_splits)

lemma scmd_pdel_echoes: "scmd_pdel cmd n v cl = Inr cl' \<Longrightarrow> echoes cmd cl cl'"
  by (auto simp: scmd_pdel_def echoes_def print_line_def res_iff dest!: echoes_dests
      split: if_splits option.splits)

lemma scmd_pset_echoes: "scmd_pset cmd n v cl = Inr cl' \<Longrightarrow> echoes cmd cl cl'"
  by (auto simp: scmd_pset_def echoes_def print_line_def res_iff dest!: echoes_dests split: if_splits)

lemmas all_echoes = scmd_echoes scmd_padd_echoes scmd_pdel_echoes scmd_pset_echoes

lemma sset_out:
  "scmd_sset cmd n v cl = Inr cl' \<Longrightarrow> n = 3 \<Longrightarrow> \<exists>t. read_cs (ddata cmd) = Inr t \<and> cl_out cl' = cl_out cl @ [t]"
  by (auto simp: scmd_sset_def print_line_def res_iff dest!: echo_echoes)

lemma sset_info:
  assumes s: "scmd_sset cmd 3 v cl = Inr cl'" and v: "vrep True v ws" "length ws = 3"
    and small: "\<forall>w\<in>set ws. length w + 1 < dmax" and m: "info_has cl m"
  shows "info_has cl' (m(cstr (ws ! 1) \<mapsto> ws ! 2))"
proof -
  from m obtain d kvs where d: "cl_info cl = Inr d" "dsrep True d kvs" "map_of kvs = m" by (auto simp: info_has_def)
  have "Suc 1 < length ws" using v(2) by simp
  then obtain k x d' where k: "arg v 1 = Inr k" "read_cs (ddata k) = Inr (cstr (ws ! 1))"
    "arg v (Suc 1) = Inr x" "dsdict_set d (cstr (ws ! 1)) x = Inr d'"
    "dsrep True d' (AList.update (cstr (ws ! 1)) (ws ! Suc 1) kvs)"
    by (rule set_arg_gives [OF v(1) _ small d(2)])
  from s have "cl_info cl' = Inr d'"
    using k(1-4) d(1) by (auto simp: scmd_sset_def numeral_2_eq_2 print_line_def dest!: echo_echoes)
  moreover have "map_of (AList.update (cstr (ws ! 1)) (ws ! Suc 1) kvs) = m(cstr (ws ! 1) \<mapsto> ws ! 2)"
    by (simp add: update_conv' d(3) numeral_2_eq_2)
  ultimately show ?thesis using k(5) by (auto simp: info_has_def)
qed

lemma cut_mild:
  assumes l: "snd (lex l) = Some ws" "ws \<noteq> []" "newline \<notin> set l"
    and hd: "nul \<notin> set (hd ws)" "hd ws \<notin> {''SSET'', '':STATE'', '':MUTED'', '':DEAFEN'', '':SERVER''}"
  shows "mild (cstr l)" "sset_of (cstr l) = None"
proof -
  have nl: "newline \<notin> set (cstr l)" using l(3) by (auto simp: cstr_def dest: set_takeWhileD)
  have p: "vs = [] \<or> vs ! 0 = hd ws" if "svcparser_parse (cstr l) = (SVCPARSER_OK, vs)" for vs
    using cut_words [OF l(1,2) hd(1)] parse_lex(2) [of "cstr l" vs] that
    by (cases vs) auto
  obtain r vs where q: "svcparser_parse (cstr l) = (r, vs)" by (cases "svcparser_parse (cstr l)")
  from nl p hd(2) q show "mild (cstr l)" by (auto simp: mild_def)
  from p hd(2) q show "sset_of (cstr l) = None" by (auto simp: sset_of_def)
qed

lemma decoded_tells:
  assumes h: "handle_server_decoded_msg d0 str cl = Inr cl'" and s: "dholds l str"
    and small: "length l + 1 < dmax" "line_ok l" and l: "l \<noteq> []" "newline \<notin> set l"
  shows "tells cl cl'"
proof (cases "snd (lex l)")
  case None
  from dstrlex_parse_gives [of str l] s line_okD [OF small(2)] obtain code r where
    "dstrlex_parse str = Inr (code, r)" "lex_result (lex l) (code, r)" by (auto simp: gives_def dholds_def)
  with None h show ?thesis by (auto simp: handle_server_decoded_msg_def lex_result_def)
next
  case (Some ws)
  with small(2) l(1) have ws: "ws \<noteq> []" "hd ws \<noteq> []"
    "hd ws = ''SSET'' \<and> length ws = 3 \<longrightarrow> nul \<notin> set l \<and> nul \<notin> set (ws ! 1)" by (auto simp: line_ok_def)
  have d: "drep str l" using s by (simp add: dholds_def)
  obtain argv where v: "vrep True argv ws"
    "handle_server_decoded_msg d0 str cl = run_words d0 str (hd ws) (of_nat (length ws)) argv cl"
    using decoded_words [OF d small(1) line_okD [OF small(2)] Some ws(1,2), of d0 cl] .
  have rd: "read_cs (ddata str) = Inr (cstr l)" by (rule read_cs_holds [OF s])
  have len: "length ws < 2 ^ 32" using lex_bounds(2) [OF Some] small(1) by simp
  have three: "(of_nat (length ws) :: u32) = 3 \<longleftrightarrow> length ws = 3"
    using of_nat_eq_small [OF len, of 3] by simp
  from h v(2) have r: "run_words d0 str (hd ws) (of_nat (length ws)) argv cl = Inr cl'" by simp
  consider (sset) "hd ws = ''SSET''" "length ws = 3" | (wrong) "hd ws = ''SSET''" "length ws \<noteq> 3"
    | (echo) "hd ws \<in> {''YARE'', ''PADD'', ''PDEL'', ''PSET'', ''MESG''}"
    | (other) "hd ws \<notin> {''SSET'', ''YARE'', ''PADD'', ''PDEL'', ''PSET'', ''MESG''}" by blast
  then show ?thesis
  proof cases
    case sset
    with r have sc: "scmd_sset str 3 argv cl = Inr cl'" by (simp add: run_words_def)
    have nn: "cstr l = l" "cstr (ws ! 1) = ws ! 1" using ws(3) sset by auto
    have p: "svcparser_parse l = (SVCPARSER_OK, ws)" using Some parse_lex(2) by blast
    have "ws ! 0 = ''SSET''" using sset ws(1) by (simp add: hd_conv_nth)
    then have ms: "mild l" "sset_of l = Some (ws ! 1, ws ! 2)"
      using sset(2) l(2) by (auto simp: mild_def sset_of_def p)
    have sm: "\<forall>w\<in>set ws. length w + 1 < dmax"
      using lex_bounds(1) [OF Some] small(1) by (auto dest!: bspec) fastforce
    show ?thesis
    proof (rule tells_one [OF _ ms(1)])
      show "cl_out cl' = cl_out cl @ [l]" using sset_out [OF sc] rd nn(1) by simp
      show "info_has cl' (info_line l m)" if "info_has cl m" for m
        using sset_info [OF sc v(1) sset(2) sm that] by (simp add: info_line_def ms(2) nn(2) del: One_nat_def)
    qed
  next
    case wrong
    with r three show ?thesis by (simp add: run_words_def scmd_sset_def)
  next
    case echo
    then have e: "echoes str cl cl'" using r all_echoes by (auto simp: run_words_def)
    have cm: "mild (cstr l)" "sset_of (cstr l) = None"
      by (rule cut_mild [OF Some ws(1) l(2)]; use echo in auto)+
    from e rd consider "cl_out cl' = cl_out cl" | "cl_out cl' = cl_out cl @ [cstr l]"
      by (auto simp: echoes_def)
    then show ?thesis using e
      by cases (auto simp: echoes_def info_has_def info_line_def cm intro: tells_same tells_one [OF _ cm(1)])
  next
    case other
    with r show ?thesis by (simp add: run_words_def)
  qed
qed

lemma msg_from_tells:
  fixes cl :: "('a, 'd) client"
  assumes small: "length data + 1 < dmax"
  shows "data = pre @ xs \<Longrightarrow> \<forall>l\<in>set (lines xs). line_ok l \<Longrightarrow>
    msg_from d0 data (length pre) cl = Inr cl' \<Longrightarrow> tells cl cl'"
proof (induction "length xs" arbitrary: xs pre cl rule: less_induct)
  case less
  consider "newline \<notin> set xs" | l rest where "xs = l @ newline # rest" "newline \<notin> set l"
    by (rule line_cases)
  then show ?case
  proof cases
    case 1
    then show ?thesis using less.prems mempos_none [of "length pre" data]
      by (simp add: msg_from.simps [of d0 "pre @ xs" "length pre" cl])
  next
    case (2 l rest)
    have m: "mempos data newline (length pre) = Some (length pre + length l)"
      using mempos_line [OF 2(2)] less.prems(1) 2(1) by simp
    from less.prems(3) obtain cl1 where cl1:
      "(if length pre < length pre + length l then
          bindR (dfrommem (map Some data) (length pre) (of_nat (length pre + length l - length pre)))
            (\<lambda>packet_str. handle_server_decoded_msg d0 packet_str cl) else Inr cl) = Inr cl1"
      "msg_from d0 data (Suc (length pre + length l)) cl1 = Inr cl'"
      by (auto simp: msg_from.simps [of d0 data "length pre" cl] m bindR_eq_Inr)
    have "tells cl cl1"
    proof (cases "l = []")
      case False
      obtain str where str: "dfrommem (map Some data) (length pre) (of_nat (length l)) = Inr str" "dholds l str"
        by (rule givesE [OF line_string [OF small, of pre l "newline # rest"]])
          (simp add: less.prems(1) 2(1))
      with cl1(1) False have "handle_server_decoded_msg d0 str cl = Inr cl1" by simp
      then show ?thesis using decoded_tells [OF _ str(2)] small less.prems(1,2) 2 False by simp
    qed (use cl1(1) in simp)
    moreover have "tells cl1 cl'"
      using less.hyps [of rest "pre @ l @ [newline]" cl1] less.prems(1,2) 2 cl1(2) by simp
    ultimately show ?thesis by (rule tells_trans)
  qed
qed

lemma msg_tells:
  assumes "handle_server_msg d0 data cl = Inr cl'" "packet_ok data"
  shows "tells cl cl'"
  using msg_from_tells [of data "[]" data d0 cl cl'] assms by (simp add: handle_server_msg_def packet_ok_def)

lemma msgs_tell:
  "foldR (handle_server_msg d0) ms cl = Inr cl' \<Longrightarrow> \<forall>m\<in>set ms. packet_ok m \<Longrightarrow> tells cl cl'"
proof (induction ms arbitrary: cl)
  case (Cons m ms)
  from Cons.prems(1) obtain cl1 where "handle_server_msg d0 m cl = Inr cl1"
    "foldR (handle_server_msg d0) ms cl1 = Inr cl'" by (auto simp: bindR_eq_Inr)
  with Cons.prems(2) Cons.IH [of cl1] show ?case by (auto intro: tells_trans msg_tells)
qed simp

section \<open>From the pipe to the window\<close>

text \<open>The output of the client, as the reader thread gets it.\<close>

definition pipe :: "string list \<Rightarrow> gui \<Rightarrow> gui" where
  "pipe ls g = g\<lparr>gu_stdout := snd (reader_run (unlines ls) (gu_stdout g))\<rparr>"

lemma reader_line:
  "newline \<notin> set l \<Longrightarrow> foldl reader_char (b, out) (l @ newline # rest) = foldl reader_char ([], out @ [b @ l]) rest"
  by (induction l arbitrary: b) (auto simp: reader_char_def)

lemma reader_unlines: "\<forall>l\<in>set ls. newline \<notin> set l \<Longrightarrow> reader_run (unlines ls) out = ([], out @ ls)"
proof (induction ls arbitrary: out)
  case (Cons l ls)
  then show ?case using reader_line [of l "[]" out] by (simp add: reader_run_def)
qed (simp add: reader_run_def)

lemma pipe_lines: "\<forall>l\<in>set ls. newline \<notin> set l \<Longrightarrow> pipe ls g = g\<lparr>gu_stdout := gu_stdout g @ ls\<rparr>"
  by (simp add: pipe_def reader_unlines)

text \<open>What the window keeps when only text is added to it.\<close>

definition same_window :: "window \<Rightarrow> window \<Rightarrow> bool" where
  "same_window w w' \<longleftrightarrow> sw_peers w' = sw_peers w \<and> sw_server w' = sw_server w \<and> sw_state w' = sw_state w \<and>
     sw_host w' = sw_host w \<and> sw_address w' = sw_address w \<and> sw_port w' = sw_port w"

lemma same_window_text:
  "same_window w (fold ioStdout ls w)" "same_window w (fold ioStderr ls w)" "same_window w (fold show_log ls w)"
proof -
  have "same_window w (fold f ls w)" if "\<And>x w. same_window w (f x w)" for f :: "string \<Rightarrow> window \<Rightarrow> window"
    using that by (induction ls arbitrary: w) (simp_all add: same_window_def)
  then show "same_window w (fold ioStdout ls w)" "same_window w (fold ioStderr ls w)"
    "same_window w (fold show_log ls w)"
    by (auto simp: same_window_def ioStdout_def ioStderr_def to_io_def show_log_def logError_def
        logText_def to_console_def)
qed

lemma process_line_process:
  "gu_svc (process_line toul l g) = gu_svc g \<and> gu_pid (process_line toul l g) = gu_pid g"
  by (simp add: process_line_def parseCommand_def handleStateConnection_def handleStateMuted_def
      handleStateDeafen_def handleStateServer_def handleCommandSSET_def add_log_def add_event_def enter_def
      Let_def split: prod.split)

lemma process_lines_process:
  "gu_svc (fold (process_line toul) ls g) = gu_svc g \<and> gu_pid (fold (process_line toul) ls g) = gu_pid g"
  by (induction ls arbitrary: g) (simp_all add: process_line_process)

text \<open>One turn of the timer: the lines are parsed and their events handled.\<close>

lemma timer_turn:
  fixes g :: gui and toul :: "string \<Rightarrow> u64 option"
  defines "g' \<equiv> fold (process_line toul) (gu_stdout g) g"
  assumes "isReady exists g"
  obtains w1 where "same_window w w1"
    "OnIOTimer ins exists toul (g, w) = bindR (foldR (window_event ins) (gu_events g') w1) (\<lambda>w'.
       Inr (g'\<lparr>gu_stderr := [], gu_output := [], gu_error := [], gu_log := [], gu_events := []\<rparr>, w'))"
proof -
  define w0 where "w0 = fold show_log (gu_log g') (fold ioStderr (gu_error g' @ gu_stderr g')
    (fold ioStdout (gu_output g') w))"
  define w1 where "w1 = (if sw_first w0 then w0\<lparr>sw_status := ''svcc running - disconnected'', sw_first := False\<rparr> else w0)"
  have "same_window w w0"
    using same_window_text unfolding w0_def same_window_def by metis
  then have "same_window w w1" by (simp add: w1_def same_window_def)
  moreover have "processIO exists toul g = Inr (g'\<lparr>gu_error := gu_error g' @ gu_stderr g', gu_stderr := []\<rparr>)"
    using assms(2) by (simp add: processIO_def isReady_def Let_def g'_def)
  then have "OnIOTimer ins exists toul (g, w) = bindR (foldR (window_event ins) (gu_events g') w1) (\<lambda>w'.
       Inr (g'\<lparr>gu_stderr := [], gu_output := [], gu_error := [], gu_log := [], gu_events := []\<rparr>, w'))"
    using assms(2) process_lines_process [of toul "gu_stdout g" g]
    by (simp add: OnIOTimer_def isReady_def loop_eqs updateSVCState_def w1_def w0_def g'_def)
  ultimately show thesis by (rule that)
qed

end
