(* ===== verification/GuiSync.thy ===== *)
theory GuiSync
  imports GuiLines
begin

text \<open>
  The graphical user interface in step with the client behind it: after every step of the client
  and the turn of the timer that reads its lines, the window shows the state of the connection, the
  server's name and address, and the server's data, as the client has them.
\<close>

section \<open>A turn of the timer\<close>

lemma process_line_stdout: "gu_stdout (process_line toul l g) = tl (gu_stdout g)"
  by (simp add: process_line_def parseCommand_def handleStateConnection_def handleStateMuted_def
      handleStateDeafen_def handleStateServer_def handleCommandSSET_def add_log_def add_event_def enter_def
      Let_def split: prod.split)

lemma process_lines_stdout: "gu_stdout (fold (process_line toul) ls g) = drop (length ls) (gu_stdout g)"
  by (induction ls arbitrary: g) (simp_all add: process_line_stdout drop_Suc)

text \<open>The parts of the state that outlive a turn.\<close>

definition shown :: "gui \<Rightarrow> gui \<Rightarrow> bool" where
  "shown g g' \<longleftrightarrow> keeps g (g'\<lparr>gu_stderr := gu_stderr g\<rparr>) \<and> gu_info g' = gu_info g"

lemma gui_turn:
  assumes g: "isReady exists g" "gu_stdout g = []" and ls: "\<forall>l\<in>set ls. newline \<notin> set l"
    and g': "fold (process_line toul) ls (g\<lparr>gu_stdout := ls\<rparr>) = g'"
    and w: "\<And>w1. same_window w w1 \<Longrightarrow> gives (foldR (window_event ins) (gu_events g') w1) Q"
  shows "gives (OnIOTimer ins exists toul (pipe ls g, w)) (\<lambda>(g2, w'). shown g' g2 \<and> gu_stdout g2 = [] \<and>
    gu_events g2 = [] \<and> isReady exists g2 \<and> Q w')"
proof -
  have p: "pipe ls g = g\<lparr>gu_stdout := ls\<rparr>" using pipe_lines [OF ls] g(2) by simp
  have r: "isReady exists (pipe ls g)" using g(1) by (simp add: p isReady_def)
  obtain w1 where w1: "same_window w w1"
    "OnIOTimer ins exists toul (pipe ls g, w) = bindR (foldR (window_event ins) (gu_events g') w1) (\<lambda>w'.
       Inr (g'\<lparr>gu_stderr := [], gu_output := [], gu_error := [], gu_log := [], gu_events := []\<rparr>, w'))"
    using timer_turn [OF r, where ins = ins and toul = toul and w = w] by (auto simp: p g')
  have "gu_svc g' = gu_svc g" "gu_pid g' = gu_pid g" "gu_stdout g' = []"
    using process_lines_process [of toul ls "g\<lparr>gu_stdout := ls\<rparr>"]
      process_lines_stdout [of toul ls "g\<lparr>gu_stdout := ls\<rparr>"] by (simp_all add: g')
  with w [OF w1(1)] g(1) show ?thesis
    by (auto simp: w1(2) gives_def shown_def keeps_def isReady_def)
qed

section \<open>The lines about the client itself\<close>

lemma parse_own:
  "svcparser_parse '':STATE connected'' = (SVCPARSER_OK, ['':STATE'', ''connected''])"
  "svcparser_parse '':STATE connecting'' = (SVCPARSER_OK, ['':STATE'', ''connecting''])"
  "svcparser_parse '':STATE disconnected'' = (SVCPARSER_OK, ['':STATE'', ''disconnected''])"
  "svcparser_parse ('':MUTED '' @ dec_int 0) = (SVCPARSER_OK, ['':MUTED'', ''0''])"
  "svcparser_parse ('':MUTED '' @ dec_int 1) = (SVCPARSER_OK, ['':MUTED'', ''1''])"
  "svcparser_parse ('':DEAFEN '' @ dec_int 0) = (SVCPARSER_OK, ['':DEAFEN'', ''0''])"
  "svcparser_parse ('':DEAFEN '' @ dec_int 1) = (SVCPARSER_OK, ['':DEAFEN'', ''1''])"
proof -
  have d: "dec_int 0 = ''0''" "dec_int 1 = ''1''"
    by code_simp+
  show "svcparser_parse ('':MUTED '' @ dec_int 0) = (SVCPARSER_OK, ['':MUTED'', ''0''])"
    "svcparser_parse ('':MUTED '' @ dec_int 1) = (SVCPARSER_OK, ['':MUTED'', ''1''])"
    "svcparser_parse ('':DEAFEN '' @ dec_int 0) = (SVCPARSER_OK, ['':DEAFEN'', ''0''])"
    "svcparser_parse ('':DEAFEN '' @ dec_int 1) = (SVCPARSER_OK, ['':DEAFEN'', ''1''])"
    unfolding d by (simp_all add: svcparser_parse_def parse_char_def gp_append_def gp_add_def)
qed (simp_all add: svcparser_parse_def parse_char_def gp_append_def gp_add_def)

definition server_line :: "string \<Rightarrow> string \<Rightarrow> u32 \<Rightarrow> string" where
  "server_line h a p = '':SERVER'' @ chr_sp # quote h @ chr_sp # quote a @ chr_sp # fmt_i p"

lemma plain_escape: "plain xs \<Longrightarrow> escape xs = xs"
  by (rule escape_plain) (simp add: plain_def)

lemma plain_quote: "plain xs \<Longrightarrow> quote xs = chr_quote # xs @ [chr_quote]"
  by (simp add: quote_def plain_escape)

lemma fmt_not_nil: "fmt_i n \<noteq> []"
  by (simp add: fmt_i_def dec_int_def)

lemma parse_server:
  "svcparser_parse (server_line h a p) = (SVCPARSER_OK, ['':SERVER'', h, a, fmt_i p])"
proof -
  have c: "plain '':SERVER''" by (simp add: plain_def special_def)
  have "snd (lex (server_line h a p)) = Some ['':SERVER'', h, a, fmt_i p]"
    unfolding lex_def server_line_def word_sp [OF c list.distinct(2)] quote_sp
    by (simp add: lsteps_plain lfinish_def fmt_not_nil)
  then show ?thesis by (simp add: parse_lex)
qed

lemma own_newline:
  "newline \<notin> set '':STATE connected''" "newline \<notin> set '':STATE connecting''" "newline \<notin> set '':STATE disconnected''"
  "plain h \<Longrightarrow> plain a \<Longrightarrow> newline \<notin> set (server_line h a p)"
  using quote_no_newline [of h] quote_no_newline [of a] plain_no_newline [OF plain_fmt, of p]
  by (simp_all add: server_line_def)

section \<open>What the window makes of the events\<close>

lemma setOption_values: "ob_values (setOption ins k v ob) = (ob_values ob)(k \<mapsto> v)"
  by (auto simp: setOption_def displayOption_def Let_def split: prod.split)

definition same_server :: "window \<Rightarrow> window \<Rightarrow> bool" where
  "same_server w w' \<longleftrightarrow> sw_state w' = sw_state w \<and> sw_host w' = sw_host w \<and> sw_address w' = sw_address w \<and>
     sw_port w' = sw_port w"

lemma window_sset:
  "window_event ins (createServerSet k v) w = Inr (w\<lparr>sw_server := setOption ins k v (sw_server w)\<rparr>)"
  by (simp add: window_event_def createServerSet_def svcevent_new_def)

lemma window_ssets:
  "gives (foldR (window_event ins) (sset_events ls) w) (\<lambda>w'. same_server w w' \<and>
     ob_values (sw_server w') = fold info_line ls (ob_values (sw_server w)))"
proof (induction ls arbitrary: w)
  case (Cons l ls)
  show ?case
  proof (cases "sset_of l")
    case (Some kv)
    obtain k v where kv: "kv = (k, v)" by (cases kv)
    have i: "info_line l m = m(k \<mapsto> v)" for m by (simp add: info_line_def Some kv)
    from Cons.IH [of "w\<lparr>sw_server := setOption ins k v (sw_server w)\<rparr>"] show ?thesis
      by (simp add: Some kv i window_sset setOption_values same_server_def fun_upd_def)
  qed (use Cons.IH [of w] in \<open>simp add: info_line_def\<close>)
qed (simp add: same_server_def)

section \<open>In step\<close>

definition con_of :: "cstate \<Rightarrow> connection" where
  "con_of c = (case c of DISCONNECTED \<Rightarrow> SVCCON_DISCONNECTED | CONNECTING \<Rightarrow> SVCCON_CONNECTING
     | CONNECTED \<Rightarrow> SVCCON_CONNECTED)"

lemma con_of_simps [simp]:
  "con_of DISCONNECTED = SVCCON_DISCONNECTED" "con_of CONNECTING = SVCCON_CONNECTING"
  "con_of CONNECTED = SVCCON_CONNECTED"
  by (simp_all add: con_of_def)

definition named :: "('a, 'd) client \<Rightarrow> string \<Rightarrow> string \<Rightarrow> bool" where
  "named cl h a \<longleftrightarrow> read_cs (ddata (cl_name cl)) = Inr h \<and> read_cs (ddata (cl_addr cl)) = Inr a \<and>
     plain h \<and> plain a \<and> unat (cl_port cl) < 2 ^ 16"

definition in_step :: "('a, 'd) client \<Rightarrow> gui \<Rightarrow> window \<Rightarrow> bool" where
  "in_step cl g w \<longleftrightarrow> gu_stdout g = [] \<and> gu_events g = [] \<and>
     gu_connection g = con_of (cl_state cl) \<and> sw_state w = con_of (cl_state cl) \<and>
     gu_muted g = (cl_muted cl \<noteq> 0) \<and> gu_deafen g = (cl_deafen cl \<noteq> 0) \<and>
     (cl_state cl \<noteq> DISCONNECTED \<longrightarrow> named cl (gu_host g) (gu_address g) \<and> gu_port g = Some (cl_port cl) \<and>
        sw_host w = gu_host g \<and> sw_address w = gu_address g \<and> sw_port w = gu_port g) \<and>
     ob_values (sw_server w) = gu_info g \<and>
     (if cl_state cl = CONNECTED then info_has cl (gu_info g) else gu_info g = Map.empty)"

text \<open>Lines about the server's data leave them in step.\<close>

definition steady :: "('a, 'd) client \<Rightarrow> ('a, 'd) client \<Rightarrow> bool" where
  "steady cl cl' \<longleftrightarrow> cl_state cl' = cl_state cl \<and> cl_muted cl' = cl_muted cl \<and> cl_deafen cl' = cl_deafen cl \<and>
     (cl_state cl \<noteq> DISCONNECTED \<longrightarrow> cl_name cl' = cl_name cl \<and> cl_addr cl' = cl_addr cl \<and> cl_port cl' = cl_port cl)"

lemma frame_steady: "frame cl cl' \<Longrightarrow> steady cl cl'"
  by (simp add: frame_def steady_def)

lemma tells_turn:
  assumes t: "tells cl cl'" "steady cl cl'" and g: "isReady exists g" "in_step cl g w"
  shows "gives (OnIOTimer ins exists toul (pipe (drop (length (cl_out cl)) (cl_out cl')) g, w))
    (\<lambda>(g', w'). isReady exists g' \<and> (cl_state cl = CONNECTED \<longrightarrow> in_step cl' g' w') \<and>
      (cl_out cl' = cl_out cl \<longrightarrow> cl_state cl \<noteq> CONNECTED \<longrightarrow> in_step cl' g' w'))"
proof -
  from t(1) obtain ls where ls: "cl_out cl' = cl_out cl @ ls" "\<forall>l\<in>set ls. mild l"
    "\<And>m. info_has cl m \<Longrightarrow> info_has cl' (fold info_line ls m)" by (auto simp: tells_def)
  define g1 where "g1 = fold (process_line toul) ls (g\<lparr>gu_stdout := ls\<rparr>)"
  have g1: "gu_info g1 = fold info_line ls (gu_info g)" "gu_events g1 = sset_events ls" "keeps g g1"
    using mild_lines [OF ls(2), of toul "g\<lparr>gu_stdout := ls\<rparr>"] g(2)
    by (simp_all add: g1_def in_step_def keeps_def)
  have "gives (OnIOTimer ins exists toul (pipe ls g, w)) (\<lambda>(g2, w'). shown g1 g2 \<and> gu_stdout g2 = [] \<and>
    gu_events g2 = [] \<and> isReady exists g2 \<and> same_server w w' \<and>
    ob_values (sw_server w') = fold info_line ls (ob_values (sw_server w)))"
  proof (rule gui_turn [OF g(1) _ _ g1_def [symmetric]])
    show "gu_stdout g = []" using g(2) by (simp add: in_step_def)
    show "\<forall>l\<in>set ls. newline \<notin> set l" using ls(2) by (simp add: mild_def)
    fix w1 assume "same_window w w1"
    then show "gives (foldR (window_event ins) (gu_events g1) w1) (\<lambda>w'. same_server w w' \<and>
        ob_values (sw_server w') = fold info_line ls (ob_values (sw_server w)))"
      unfolding g1(2) by (intro gives_mono [OF window_ssets]) (auto simp: same_window_def same_server_def)
  qed
  moreover have "drop (length (cl_out cl)) (cl_out cl') = ls" by (simp add: ls(1))
  moreover have "isReady exists g2 \<and> (cl_state cl = CONNECTED \<longrightarrow> in_step cl' g2 w') \<and>
      (cl_out cl' = cl_out cl \<longrightarrow> cl_state cl \<noteq> CONNECTED \<longrightarrow> in_step cl' g2 w')"
    if *: "shown g1 g2" "gu_stdout g2 = []" "gu_events g2 = []" "isReady exists g2" "same_server w w'"
      "ob_values (sw_server w') = fold info_line ls (ob_values (sw_server w))" for g2 w'
  proof -
    have st: "cl_state cl' = cl_state cl" "cl_muted cl' = cl_muted cl" "cl_deafen cl' = cl_deafen cl"
      and nm: "cl_state cl \<noteq> DISCONNECTED \<Longrightarrow> named cl' = named cl \<and> cl_port cl' = cl_port cl"
      using t(2) by (simp_all add: steady_def named_def fun_eq_iff)
    have g2: "gu_connection g2 = gu_connection g" "gu_muted g2 = gu_muted g" "gu_deafen g2 = gu_deafen g"
      "gu_host g2 = gu_host g" "gu_address g2 = gu_address g" "gu_port g2 = gu_port g"
      "gu_info g2 = fold info_line ls (gu_info g)"
      using *(1) g1(1,3) by (simp_all add: shown_def keeps_def)
    have w': "sw_state w' = sw_state w" "sw_host w' = sw_host w" "sw_address w' = sw_address w"
      "sw_port w' = sw_port w" using *(5) by (simp_all add: same_server_def)
    have "in_step cl' g2 w'" if "cl_state cl = CONNECTED \<or> ls = []"
      using that g(2) ls(3) unfolding in_step_def st g2 w' *(2,3,6) by (auto simp: nm)
    with *(4) ls(1) show ?thesis by auto
  qed
  ultimately show ?thesis by (auto simp: gives_def)
qed

section \<open>The steps of the client\<close>

definition tidy :: "('a, 'd) client \<Rightarrow> bool" where
  "tidy cl \<longleftrightarrow> length (ddata (cl_name cl)) = dcap (cl_name cl) \<and> length (ddata (cl_addr cl)) = dcap (cl_addr cl) \<and>
     cl_muted cl \<in> {0, 1} \<and> cl_deafen cl \<in> {0, 1}"

text \<open>Names that resolve, and the addresses they resolve to, have no blank and nothing to escape.\<close>

definition net_ok :: "(string \<Rightarrow> 16 word \<Rightarrow> attempt) \<Rightarrow> bool" where
  "net_ok net \<longleftrightarrow> (\<forall>host port ip. net host port \<in> {NoHost ip, NoPeer ip, Started ip} \<longrightarrow>
     plain host \<and> plain ip \<and> length ip + 1 < dmax)"

text \<open>The state of the connection changes, and is printed.\<close>

definition moved :: "('a, 'd) client \<Rightarrow> ('a, 'd) client \<Rightarrow> bool" where
  "moved cl cl' \<longleftrightarrow> (\<exists>cl1. msg_state cl1 = Inr cl' \<and> cl_out cl1 = cl_out cl \<and> cl_muted cl1 = cl_muted cl \<and>
     cl_deafen cl1 = cl_deafen cl \<and>
     (cl_state cl = DISCONNECTED \<and> cl_state cl1 = CONNECTING \<and> (\<exists>h a. named cl1 h a) \<or>
      cl_state cl = CONNECTING \<and> cl_state cl1 = CONNECTED \<and> cl_info cl1 = Inr dsdict_new \<and>
        cl_name cl1 = cl_name cl \<and> cl_addr cl1 = cl_addr cl \<and> cl_port cl1 = cl_port cl \<or>
      cl_state cl \<noteq> DISCONNECTED \<and> cl_state cl1 = DISCONNECTED))"

definition flagged :: "('a, 'd) client \<Rightarrow> ('a, 'd) client \<Rightarrow> bool" where
  "flagged cl cl' \<longleftrightarrow> (\<exists>f \<in> {0, 1}. cl' = print_line ('':MUTED '' @ dec_int f) (cl\<lparr>cl_muted := f\<rparr>) \<or>
     cl' = print_line ('':DEAFEN '' @ dec_int f) (cl\<lparr>cl_deafen := f\<rparr>))"

definition effect :: "('a, 'd) client \<Rightarrow> ('a, 'd) client \<Rightarrow> bool" where
  "effect cl cl' \<longleftrightarrow> steady cl cl' \<and> tells cl cl' \<and> (cl_state cl = CONNECTED \<or> cl_out cl' = cl_out cl) \<or>
     flagged cl cl' \<or> moved cl cl'"

lemma quiet_effect: "cl_out cl' = cl_out cl \<Longrightarrow> cl_info cl' = cl_info cl \<Longrightarrow> steady cl cl' \<Longrightarrow> effect cl cl'"
  by (simp add: effect_def tells_same)

lemma effect_refl [simp]: "effect cl cl"
  by (rule quiet_effect) (simp_all add: steady_def)

lemma msg_state_tidy: "msg_state cl = Inr cl' \<Longrightarrow> tidy cl' = tidy cl"
  by (cases "cl_state cl") (auto simp: msg_state_def msg_server_def print_line_def tidy_def bindR_eq_Inr)

lemma frame_tidy: "frame cl cl' \<Longrightarrow> tidy cl' = tidy cl"
  by (simp add: frame_def tidy_def)

lemma connect_effect:
  assumes c: "cmd_connect net (of_nat (length ws)) argv cl = Inr cl'" and v: "vrep True argv ws" "length ws < 2 ^ 32"
    and small: "\<forall>w\<in>set ws. length w + 1 < dmax" and net: "net_ok net" and t: "tidy cl"
  shows "effect cl cl' \<and> tidy cl'"
proof (cases "cl_state cl = DISCONNECTED \<and> length ws = 3")
  case False
  then have "cl' = cl" using c of_nat_eq_small [OF v(2), of 3] by (auto simp: cmd_connect_def split: if_splits)
  then show ?thesis using t by simp
next
  case True
  obtain a1 where a1: "arg argv 1 = Inr a1" "dholds (ws ! 1) a1"
    using arg_gives [OF v(1), of 1] True by auto
  obtain a2 where a2: "arg argv 2 = Inr a2" "dholds (ws ! 2) a2"
    using arg_gives [OF v(1), of 2] True by auto
  define host where "host = cstr (ws ! 1)"
  define port where "port = (word_of_int (atoi (cstr (ws ! 2))) :: 16 word)"
  have rd: "read_cs (ddata a1) = Inr host" "read_cs (ddata a2) = Inr (cstr (ws ! 2))"
    using read_cs_holds [OF a1(2)] read_cs_holds [OF a2(2)] by (simp_all add: host_def)
  obtain name where name: "dcpy (cl_name cl) a1 = Inr name" "dholds (ws ! 1) name"
    using dcpy_gives [of "cl_name cl" a1 "ws ! 1"] t a1(2) small True
    by (auto simp: gives_def tidy_def dholds_def)
  define found where "found ip = bindR (dcpycs (cl_addr cl) ip) (\<lambda>addr.
    Inr (cl\<lparr>cl_name := name, cl_addr := addr, cl_port := ucast port\<rparr>))" for ip
  have c': "(case net host port of Unresolved \<Rightarrow> Inr cl
       | NoHost ip \<Rightarrow> bindR (found ip) (\<lambda>cl. Inr (cl\<lparr>cl_host := HNull\<rparr>))
       | NoPeer ip \<Rightarrow> bindR (found ip) (\<lambda>cl. Inr (cl\<lparr>cl_host := HFreed, cl_client := HNull\<rparr>))
       | Started ip \<Rightarrow> bindR (found ip) (\<lambda>cl.
           msg_state (cl\<lparr>cl_host := HLive, cl_client := HLive, cl_state := CONNECTING\<rparr>))) = Inr cl'"
    using c True a1(1) a2(1) rd name(1)
    by (simp add: cmd_connect_def Let_def port_def found_def bindR_assoc split: attempt.splits)
  have f: "\<exists>addr. found ip = Inr (cl\<lparr>cl_name := name, cl_addr := addr, cl_port := ucast port\<rparr>) \<and> dholds ip addr \<and>
      plain host \<and> plain ip" if "net host port \<in> {NoHost ip, NoPeer ip, Started ip}" for ip
  proof -
    have p: "plain host" "plain ip" "length ip + 1 < dmax" using net that unfolding net_ok_def by blast+
    have "length (ddata (cl_addr cl)) = dcap (cl_addr cl)" using t by (simp add: tidy_def)
    from dcpycs_gives [OF this p(3)] obtain addr where "dcpycs (cl_addr cl) ip = Inr addr" "dholds (cstr ip) addr"
      by (auto simp: gives_def)
    with p no_nul(1) [OF p(2)] show ?thesis by (auto simp: found_def)
  qed
  have wf: "length (ddata s) = dcap s" if "dholds xs s" for xs s
    using that by (auto simp: dholds_def drep_def)
  show ?thesis
  proof (cases "net host port")
    case Unresolved
    then show ?thesis using c' t by simp
  next
    case (NoHost ip)
    with f [of ip] c' obtain addr where "dholds ip addr"
      "cl' = cl\<lparr>cl_name := name, cl_addr := addr, cl_port := ucast port, cl_host := HNull\<rparr>" by auto
    then show ?thesis using t True wf [OF name(2)] wf [of ip addr]
      by (auto simp: tidy_def steady_def intro!: quiet_effect)
  next
    case (NoPeer ip)
    with f [of ip] c' obtain addr where "dholds ip addr"
      "cl' = cl\<lparr>cl_name := name, cl_addr := addr, cl_port := ucast port, cl_host := HFreed, cl_client := HNull\<rparr>" by auto
    then show ?thesis using t True wf [OF name(2)] wf [of ip addr]
      by (auto simp: tidy_def steady_def intro!: quiet_effect)
  next
    case (Started ip)
    with f [of ip] c' obtain addr where a: "dholds ip addr" "plain host" "plain ip"
      "msg_state (cl\<lparr>cl_name := name, cl_addr := addr, cl_port := ucast port, cl_host := HLive, cl_client := HLive,
         cl_state := CONNECTING\<rparr>) = Inr cl'" by auto
    let ?cl1 = "cl\<lparr>cl_name := name, cl_addr := addr, cl_port := ucast port, cl_host := HLive, cl_client := HLive,
         cl_state := CONNECTING\<rparr>"
    have "unat (ucast port :: u32) < 2 ^ 16"
      using unsigned_less [of port, where ?'a = nat] by (simp add: unsigned_ucast_eq take_bit_nat_eq_self)
    then have "named ?cl1 host ip"
      using read_cs_holds [OF name(2)] read_cs_holds [OF a(1)] a(2,3) no_nul(1) [OF a(3)]
      by (simp add: named_def host_def)
    with a(4) True have "moved cl cl'" unfolding moved_def by (intro exI [of _ ?cl1]) auto
    moreover have "tidy ?cl1" using t wf [OF name(2)] wf [OF a(1)] by (simp add: tidy_def)
    ultimately show ?thesis using msg_state_tidy [OF a(4)] by (simp add: effect_def)
  qed
qed

lemma flag_01: "flag_of argv = Inr f \<Longrightarrow> f \<in> {0, 1}"
  by (auto simp: flag_of_def res_iff split: if_splits)

lemma flag_effect:
  assumes "cmd_mute n v cl = Inr cl' \<or> cmd_deafen n v cl = Inr cl'" "tidy cl"
  shows "effect cl cl' \<and> tidy cl'"
proof -
  have "cl' = cl \<or> flagged cl cl'"
    using assms(1) by (auto simp: cmd_mute_def cmd_deafen_def flagged_def res_iff dest: flag_01 split: if_splits)
  then show ?thesis using assms(2) by (auto simp: effect_def flagged_def tidy_def print_line_def steady_def)
qed

lemma free_server_info_out:
  "free_server_info cl = Inr cl' \<Longrightarrow> cl_out cl' = cl_out cl"
  by (auto simp: free_server_info_def free_info_def res_iff split: sum.splits if_splits)

lemma drop_moved:
  assumes "drop_connection cl1 = Inr cl'" "frame cl cl1" "cl_out cl1 = cl_out cl" "cl_state cl \<noteq> DISCONNECTED"
  shows "moved cl cl'"
proof -
  from assms(1) have "msg_state (cl1\<lparr>cl_client := HNull, cl_host := HNull, cl_state := DISCONNECTED\<rparr>) = Inr cl'"
    by (auto simp: drop_connection_def res_iff)
  then show ?thesis unfolding moved_def
    by (rule_tac x = "cl1\<lparr>cl_client := HNull, cl_host := HNull, cl_state := DISCONNECTED\<rparr>" in exI)
      (use assms(2-) in \<open>simp add: frame_def\<close>)
qed

lemma drop_tidy: "drop_connection cl = Inr cl' \<Longrightarrow> tidy cl' = tidy cl"
  unfolding drop_connection_def by (elim bindR_E) (drule msg_state_tidy, simp add: tidy_def)

lemma disconnect_effect:
  assumes "cmd_disconnect cl = Inr cl'" "tidy cl"
  shows "effect cl cl' \<and> tidy cl'"
proof (cases "cl_state cl")
  case CONNECTED
  with assms(1) obtain cl1 where c: "free_server_info cl = Inr cl1" "drop_connection cl1 = Inr cl'"
    by (auto simp: cmd_disconnect_def res_iff)
  have "frame cl cl1" using free_server_info_same [OF c(1)] by blast
  from drop_moved [OF c(2) this free_server_info_out [OF c(1)]] CONNECTED drop_tidy [OF c(2)]
    frame_tidy [OF this] assms(2) show ?thesis by (simp add: effect_def)
next
  case CONNECTING
  with assms(1) have c: "drop_connection cl = Inr cl'" by (simp add: cmd_disconnect_def)
  from drop_moved [OF c frame_refl] CONNECTING drop_tidy [OF c] assms(2) show ?thesis by (simp add: effect_def)
qed (use assms in \<open>simp add: cmd_disconnect_def\<close>)

lemma send_effect: "enet_send ch data cl = Inr cl' \<Longrightarrow> tidy cl \<Longrightarrow> effect cl cl' \<and> tidy cl'"
  using send_same [of ch data cl cl']
  by (auto simp: enet_send_def frame_tidy intro!: quiet_effect frame_steady split: hptr.splits)

lemma slash_first:
  assumes "snd (lex (CHR ''/'' # xs)) = Some ws"
  shows "first_ok ws"
proof -
  obtain e q w us where s: "foldl lstep (False, False, ''/'', []) xs = (e, q, w, us)"
    by (cases "foldl lstep (False, False, ''/'', []) xs") auto
  with assms have "ws = (if w = [] then us else us @ [w])"
    by (auto simp: lex_def lfinish_def split: if_splits)
  with first_word_grows [of "(False, False, ''/'', [])" xs] s show ?thesis
    by (cases us) (auto simp: first_word_def first_ok_def split: if_splits)
qed

lemma peek_first:
  assumes "drep str xs" "dlen str \<noteq> 0" "peek (ddata str) 0 = Inr c"
  obtains ys where "xs = c # ys"
proof (cases xs)
  case (Cons a ys)
  then have "ddata str ! 0 = take (length xs) (ddata str) ! 0" by simp
  then have "ddata str ! 0 = Some a" using assms(1) Cons by (simp add: drep_def del: nth_take)
  with assms(3) Cons that show thesis by (auto simp: peek_def split: if_splits)
qed (use assms in \<open>simp add: drep_def unat_eq_zero\<close>)

lemma input_effect:
  assumes h: "handle_input_command net str cl = Inr (cl', r)" and s: "dholds text str" "length text + 1 < dmax"
    and net: "net_ok net" and t: "tidy cl"
  shows "effect cl cl' \<and> tidy cl'"
proof (cases "dlen str \<noteq> 0 \<and> (\<exists>l code. peek (ddata str) 0 = Inr (CHR ''/'') \<and> dstrlex_parse str = Inr (code, Some l))")
  case False
  then show ?thesis using h t unfolding handle_input_command_def
    by (auto simp: Let_def simp del: select_cmd.simps elim!: bindR_E dest!: send_effect split: if_splits option.splits)
next
  case True
  then obtain l code where l: "peek (ddata str) 0 = Inr (CHR ''/'')" "dstrlex_parse str = Inr (code, Some l)" by blast
  have d: "drep str text" using s(1) by (simp add: dholds_def)
  have fits: "lex_fits text" using dstrlex_parse_fault [OF d] l(2) by fastforce
  from dstrlex_parse_gives [OF d fits] l(2) have "lex_result (lex text) (code, Some l)" by simp
  then obtain ws where ws: "snd (lex text) = Some ws" "dlrep (first_ok ws) l ws"
    by (cases "snd (lex text)") (auto simp: lex_result_def)
  obtain xs where "text = CHR ''/'' # xs" by (rule peek_first [OF d _ l(1)]) (use True in simp)
  then have lr: "dlrep True l ws" using slash_first [of xs ws] ws by simp
  have "gives (dlist_tovector l) (\<lambda>v. vrep True v ws)"
  proof (rule dlist_tovector_gives [OF lr])
    show "\<forall>x\<in>set ws. length x < dmax" using s(2) by (auto dest!: lex_bounds(1) [OF ws(1)])
    show "length ws < 2 ^ 64 - 1" using lex_bounds(2) [OF ws(1)] s(2) by simp
  qed
  then obtain argv where v: "dlist_tovector l = Inr argv" "vrep True argv ws" by (rule givesE)
  have len: "length ws < 2 ^ 32" using lex_bounds(2) [OF ws(1)] s(2) by simp
  have n: "(ucast (lsize l) :: u32) = of_nat (length ws)"
    using dlrep_size [OF lr] len by (simp add: unsigned_of_nat take_bit_nat_eq_self)
  have small: "\<forall>w\<in>set ws. length w + 1 < dmax"
    using lex_bounds(1) [OF ws(1)] s(2) by (auto dest!: bspec) fastforce
  note connect = connect_effect [OF _ v(2) len small net t]
  show ?thesis using h t l v(1) True unfolding handle_input_command_def
    by (auto simp: n Let_def simp del: select_cmd.simps elim!: bindR_E
        dest!: connect disconnect_effect flag_effect [OF disjI1] flag_effect [OF disjI2] split: if_splits)
qed

lemma connected_effect:
  assumes h: "handle_connected d0 dec ev cl = Inr cl'" "cl_state cl = CONNECTED"
    and p: "\<And>data. ev = EvReceive 0 data \<Longrightarrow> packet_ok data" and t: "tidy cl"
  shows "effect cl cl' \<and> tidy cl'"
proof (cases ev)
  case EvDisconnect
  with h obtain cl1 where c: "free_server_info (cl\<lparr>cl_state := DISCONNECTED\<rparr>) = Inr cl1" "msg_state cl1 = Inr cl'"
    by (auto simp: handle_connected_def res_iff)
  have f: "frame (cl\<lparr>cl_state := DISCONNECTED\<rparr>) cl1" "cl_out cl1 = cl_out cl"
    using free_server_info_same [OF c(1)] free_server_info_out [OF c(1)] by simp_all
  then have "moved cl cl'" unfolding moved_def
    by (intro exI [of _ cl1]) (use c(2) h(2) in \<open>simp add: frame_def\<close>)
  moreover have "tidy cl1" using f(1) t by (simp add: frame_def tidy_def)
  ultimately show ?thesis using msg_state_tidy [OF c(2)] by (simp add: effect_def)
next
  case (EvReceive ch data)
  consider "ch = 0" | "ch = 1" | "ch \<noteq> 0" "ch \<noteq> 1" by blast
  then show ?thesis
  proof cases
    case 1
    with h(1) EvReceive have m: "handle_server_msg d0 data cl = Inr cl'" by (simp add: handle_connected_def)
    from msg_tells [OF this] p EvReceive 1 msg_frame [OF m] h(2) t show ?thesis
      by (auto simp: effect_def frame_tidy frame_steady)
  next
    case 2
    with h(1) EvReceive have m: "handle_server_audio dec data cl = Inr cl'" by (simp add: handle_connected_def)
    then have "cl_out cl' = cl_out cl" "cl_info cl' = cl_info cl"
      by (auto simp: handle_server_audio_def res_iff split: if_splits option.splits)
    with audio_frame [OF m] t show ?thesis by (auto simp: frame_tidy intro!: quiet_effect frame_steady)
  qed (use h EvReceive t in \<open>simp add: handle_connected_def\<close>)
qed (use h t in \<open>simp add: handle_connected_def\<close>)

lemma connecting_effect:
  assumes h: "handle_connecting ev cl = Inr cl'" "cl_state cl = CONNECTING" and t: "tidy cl"
  shows "effect cl cl' \<and> tidy cl'"
proof (cases "ev = EvConnect")
  case True
  then have m: "msg_state (cl\<lparr>cl_state := CONNECTED, cl_info := Inr dsdict_new\<rparr>) = Inr cl'"
    using h(1) by (simp add: handle_connecting_def)
  then have "moved cl cl'" unfolding moved_def
    by (rule_tac x = "cl\<lparr>cl_state := CONNECTED, cl_info := Inr dsdict_new\<rparr>" in exI) (use h(2) in simp)
  with msg_state_tidy [OF m] t show ?thesis by (simp add: effect_def tidy_def)
next
  case False
  with h(1) have c: "drop_connection cl = Inr cl'" by (simp add: handle_connecting_def)
  from drop_moved [OF c frame_refl] h(2) drop_tidy [OF c] t show ?thesis by (simp add: effect_def)
qed

lemma callback_effect:
  assumes h: "send_callback p cl = Inr cl'" and t: "tidy cl"
  shows "effect cl cl' \<and> tidy cl'"
  using assms by (auto simp: send_callback_def split: if_splits dest: send_effect)

text \<open>
  A step of the client on a line of the user that its buffers hold, on any event of the network
  (packets of commands as the server makes them), on a packet of the sound card.
\<close>

inductive vstep ::
  "(string \<Rightarrow> 16 word \<Rightarrow> attempt) \<Rightarrow> 'd \<Rightarrow> ('d \<Rightarrow> string \<Rightarrow> 'a option list \<Rightarrow> 'd \<times> 'a option list) \<Rightarrow>
   ('a, 'd) client \<Rightarrow> ('a, 'd) client \<Rightarrow> bool" for net d0 dec where
  "dholds text str \<Longrightarrow> length text + 1 < dmax \<Longrightarrow> handle_input_command net str cl = Inr (cl', r) \<Longrightarrow>
   vstep net d0 dec cl cl'"
| "cl_state cl = CONNECTED \<Longrightarrow> (\<And>data. ev = EvReceive 0 data \<Longrightarrow> packet_ok data) \<Longrightarrow>
   handle_connected d0 dec ev cl = Inr cl' \<Longrightarrow> vstep net d0 dec cl cl'"
| "cl_state cl = CONNECTING \<Longrightarrow> handle_connecting ev cl = Inr cl' \<Longrightarrow> vstep net d0 dec cl cl'"
| "send_callback p cl = Inr cl' \<Longrightarrow> vstep net d0 dec cl cl'"

lemma vstep_effect:
  assumes "vstep net d0 dec cl cl'" "net_ok net" "tidy cl"
  shows "effect cl cl' \<and> tidy cl'"
  using assms(1)
proof cases
  case 1
  from input_effect [OF 1(3,1,2) assms(2,3)] show ?thesis .
next
  case 2
  from connected_effect [OF 2(3,1,2) assms(3)] show ?thesis by blast
next
  case 3
  from connecting_effect [OF 3(2,1) assms(3)] show ?thesis .
next
  case 4
  from callback_effect [OF this assms(3)] show ?thesis .
qed

section \<open>The turn after a step\<close>

definition toul_ok :: "(string \<Rightarrow> u64 option) \<Rightarrow> bool" where
  "toul_ok toul \<longleftrightarrow> (\<forall>n < 2 ^ 16. toul (dec_nat n) = Some (of_nat n))"

lemma toul_port: "toul_ok toul \<Longrightarrow> unat p < 2 ^ 16 \<Longrightarrow> map_option ucast (toul (fmt_i p)) = Some (p :: u32)"
proof -
  have "ucast (ucast p :: u64) = p" by (rule bit_word_eqI) (simp add: bit_ucast_iff)
  moreover assume "toul_ok toul" "unat p < 2 ^ 16"
  ultimately show ?thesis by (simp add: toul_ok_def fmt_i_small)
qed

text \<open>What the lines about the client do to the state.\<close>

definition noted :: "string \<Rightarrow> gui \<Rightarrow> gui" where
  "noted l g = g\<lparr>gu_output := gu_output g @ [l], gu_stdout := tl (gu_stdout g)\<rparr>"

lemma own_line:
  assumes "svcparser_parse l = (SVCPARSER_OK, cmd)"
  shows "cmd = ['':MUTED'', if b then ''1'' else ''0''] \<Longrightarrow> process_line toul l g =
      (if gu_muted g = b then noted l g else add_event (createMuted b) (noted l g\<lparr>gu_muted := b\<rparr>))"
    and "cmd = ['':DEAFEN'', if b then ''1'' else ''0''] \<Longrightarrow> process_line toul l g =
      (if gu_deafen g = b then noted l g else add_event (createDefean b) (noted l g\<lparr>gu_deafen := b\<rparr>))"
    and "cmd = ['':SERVER'', h, a, t] \<Longrightarrow> process_line toul l g =
      add_event (createServer h a (map_option ucast (toul t)))
        (noted l g\<lparr>gu_host := h, gu_address := a, gu_port := map_option ucast (toul t)\<rparr>)"
    and "cmd = ['':STATE'', ''connecting''] \<Longrightarrow> gu_connection g \<noteq> SVCCON_CONNECTING \<Longrightarrow>
      process_line toul l g = enter SVCCON_CONNECTING (noted l g)"
    and "cmd = ['':STATE'', ''connected''] \<Longrightarrow> gu_connection g \<noteq> SVCCON_CONNECTED \<Longrightarrow>
      process_line toul l g = enter SVCCON_CONNECTED (noted l g)"
    and "cmd = ['':STATE'', ''disconnected''] \<Longrightarrow> gu_connection g \<noteq> SVCCON_DISCONNECTED \<Longrightarrow>
      process_line toul l g = (enter SVCCON_DISCONNECTED (noted l g))\<lparr>gu_info := Map.empty, gu_peers := Map.empty\<rparr>"
  using assms
  by (auto simp: process_line_def parseCommand_def noted_def handleStateMuted_def handleStateDeafen_def
      handleStateServer_def handleStateConnection_def Let_def)

lemma turn_of:
  assumes g: "isReady exists g" "in_step cl g w" and ls: "cl_out cl' = cl_out cl @ ls"
    "\<forall>l\<in>set ls. newline \<notin> set l"
    and g': "fold (process_line toul) ls (g\<lparr>gu_stdout := ls\<rparr>) = g'"
    and w: "\<And>w1. same_window w w1 \<Longrightarrow> gives (foldR (window_event ins) (gu_events g') w1) Q"
    and s: "\<And>g2 w'. shown g' g2 \<Longrightarrow> gu_stdout g2 = [] \<Longrightarrow> gu_events g2 = [] \<Longrightarrow> Q w' \<Longrightarrow> in_step cl' g2 w'"
  shows "gives (OnIOTimer ins exists toul (pipe (drop (length (cl_out cl)) (cl_out cl')) g, w))
    (\<lambda>(g', w'). isReady exists g' \<and> in_step cl' g' w')"
proof -
  have "drop (length (cl_out cl)) (cl_out cl') = ls" by (simp add: ls(1))
  moreover have "gu_stdout g = []" using g(2) by (simp add: in_step_def)
  ultimately show ?thesis using gives_mono [OF gui_turn [OF g(1) _ ls(2) g' w]] s by auto
qed

lemma flag_line:
  assumes "f \<in> {0, 1}"
  shows "process_line toul ('':MUTED '' @ dec_int f) g =
      (if gu_muted g = (f \<noteq> 0) then noted ('':MUTED '' @ dec_int f) g
       else add_event (createMuted (f \<noteq> 0)) (noted ('':MUTED '' @ dec_int f) g\<lparr>gu_muted := f \<noteq> 0\<rparr>))"
    and "process_line toul ('':DEAFEN '' @ dec_int f) g =
      (if gu_deafen g = (f \<noteq> 0) then noted ('':DEAFEN '' @ dec_int f) g
       else add_event (createDefean (f \<noteq> 0)) (noted ('':DEAFEN '' @ dec_int f) g\<lparr>gu_deafen := f \<noteq> 0\<rparr>))"
proof -
  have "svcparser_parse ('':MUTED '' @ dec_int f) = (SVCPARSER_OK, ['':MUTED'', if f \<noteq> 0 then ''1'' else ''0''])"
    "svcparser_parse ('':DEAFEN '' @ dec_int f) = (SVCPARSER_OK, ['':DEAFEN'', if f \<noteq> 0 then ''1'' else ''0''])"
    using assms parse_own(4-) by auto
  from own_line(1) [OF this(1) refl] own_line(2) [OF this(2) refl] show
    "process_line toul ('':MUTED '' @ dec_int f) g =
      (if gu_muted g = (f \<noteq> 0) then noted ('':MUTED '' @ dec_int f) g
       else add_event (createMuted (f \<noteq> 0)) (noted ('':MUTED '' @ dec_int f) g\<lparr>gu_muted := f \<noteq> 0\<rparr>))"
    "process_line toul ('':DEAFEN '' @ dec_int f) g =
      (if gu_deafen g = (f \<noteq> 0) then noted ('':DEAFEN '' @ dec_int f) g
       else add_event (createDefean (f \<noteq> 0)) (noted ('':DEAFEN '' @ dec_int f) g\<lparr>gu_deafen := f \<noteq> 0\<rparr>))"
    by blast+
qed

lemma dec_int_newline: "newline \<notin> set (dec_int i)"
  using dec_int_chars [of newline i] by (auto simp: is_digit_def)

lemma one_line_turn:
  assumes g: "isReady exists g" "in_step cl g w" and l: "cl_out cl' = cl_out cl @ [l]" "newline \<notin> set l"
    and p: "process_line toul l (g\<lparr>gu_stdout := [l]\<rparr>) = g'"
      "gu_events g' \<in> {[], [createMuted b], [createDefean b]}"
      "gu_info g' = gu_info g" "gu_connection g' = gu_connection g" "gu_host g' = gu_host g"
      "gu_address g' = gu_address g" "gu_port g' = gu_port g"
      "gu_muted g' = (cl_muted cl' \<noteq> 0)" "gu_deafen g' = (cl_deafen cl' \<noteq> 0)"
    and c: "cl_state cl' = cl_state cl" "cl_name cl' = cl_name cl" "cl_addr cl' = cl_addr cl"
      "cl_port cl' = cl_port cl" "cl_info cl' = cl_info cl"
  shows "gives (OnIOTimer ins exists toul (pipe (drop (length (cl_out cl)) (cl_out cl')) g, w))
    (\<lambda>(g', w'). isReady exists g' \<and> in_step cl' g' w')"
proof (rule turn_of [OF g l(1), where g' = g' and Q = "same_window w"])
  show "gives (foldR (window_event ins) (gu_events g') w1) (same_window w)" if "same_window w w1" for w1
    using p(2) that by (auto simp: window_event_def createMuted_def createDefean_def svcevent_new_def
        same_window_def logText_def to_console_def)
  show "in_step cl' g2 w'" if "shown g' g2" "gu_stdout g2 = []" "gu_events g2 = []" "same_window w w'" for g2 w'
    using g(2) p(3-) c that
    by (simp add: in_step_def shown_def keeps_def same_window_def named_def info_has_def split: if_splits)
qed (use l p(1) in simp_all)

lemma flag_turn:
  assumes g: "isReady exists g" "in_step cl g w" and fl: "flagged cl cl'"
  shows "gives (OnIOTimer ins exists toul (pipe (drop (length (cl_out cl)) (cl_out cl')) g, w))
    (\<lambda>(g', w'). isReady exists g' \<and> in_step cl' g' w')"
proof -
  from fl obtain f where f: "f \<in> {0, 1}" and
    "cl' = print_line ('':MUTED '' @ dec_int f) (cl\<lparr>cl_muted := f\<rparr>) \<or>
     cl' = print_line ('':DEAFEN '' @ dec_int f) (cl\<lparr>cl_deafen := f\<rparr>)" by (auto simp: flagged_def)
  then show ?thesis
  proof (elim disjE)
    assume "cl' = print_line ('':MUTED '' @ dec_int f) (cl\<lparr>cl_muted := f\<rparr>)"
    then show ?thesis
      by (intro one_line_turn [OF g _ _ flag_line(1) [OF f], where b = "f \<noteq> 0"])
        (use g(2) in \<open>simp_all add: print_line_def dec_int_newline noted_def add_event_def in_step_def\<close>)
  next
    assume "cl' = print_line ('':DEAFEN '' @ dec_int f) (cl\<lparr>cl_deafen := f\<rparr>)"
    then show ?thesis
      by (intro one_line_turn [OF g _ _ flag_line(2) [OF f], where b = "f \<noteq> 0"])
        (use g(2) in \<open>simp_all add: print_line_def dec_int_newline noted_def add_event_def in_step_def\<close>)
  qed
qed

lemma msg_server_out:
  assumes "named cl h a"
  shows "msg_server cl = Inr (print_line (server_line h a (cl_port cl)) cl)"
  using assms by (simp add: msg_server_def named_def server_line_def plain_quote)

text \<open>The connection begins or is made.\<close>

lemma begun_turn:
  assumes g: "isReady exists g" "in_step cl g w" and t: "toul_ok toul"
    and n: "named cl1 h a" and out: "cl_out cl1 = cl_out cl"
    and c: "c \<noteq> DISCONNECTED" "cl_state cl1 = c" "c \<noteq> cl_state cl" "cl_state cl \<noteq> CONNECTED"
    and m: "msg_state cl1 = Inr cl'" "cl_muted cl1 = cl_muted cl" "cl_deafen cl1 = cl_deafen cl"
    and i: "c = CONNECTED \<Longrightarrow> cl_info cl1 = Inr dsdict_new"
  shows "gives (OnIOTimer ins exists toul (pipe (drop (length (cl_out cl)) (cl_out cl')) g, w))
    (\<lambda>(g', w'). isReady exists g' \<and> in_step cl' g' w')"
proof -
  define l1 where "l1 = server_line h a (cl_port cl1)"
  define l2 where "l2 = (if c = CONNECTED then '':STATE connected'' else '':STATE connecting'')"
  have cl': "cl' = print_line l2 (print_line l1 cl1)"
    using m(1) c(1,2) msg_server_out [OF n] by (cases c) (simp_all add: msg_state_def l1_def l2_def)
  have nl: "newline \<notin> set l1" "newline \<notin> set l2"
    using own_newline n by (simp_all add: l1_def l2_def named_def)
  let ?g = "g\<lparr>gu_stdout := [l1, l2]\<rparr>"
  have port: "map_option ucast (toul (fmt_i (cl_port cl1))) = Some (cl_port cl1)"
    using toul_port [OF t] n by (simp add: named_def)
  define g1 where "g1 = add_event (createServer h a (Some (cl_port cl1)))
      (noted l1 ?g\<lparr>gu_host := h, gu_address := a, gu_port := Some (cl_port cl1)\<rparr>)"
  have s1: "process_line toul l1 ?g = g1"
    using own_line(3) [OF parse_server refl, of toul h a "cl_port cl1" ?g] by (simp add: l1_def port g1_def)
  have con: "gu_connection g1 \<noteq> con_of c"
    using g(2) c(1,3) by (cases c; cases "cl_state cl") (auto simp: g1_def in_step_def noted_def add_event_def)
  have s2: "process_line toul l2 g1 = enter (con_of c) (noted l2 g1)"
    using con c(1) own_line(4) [OF parse_own(2) refl] own_line(5) [OF parse_own(1) refl]
    by (cases c) (simp_all add: l2_def)
  let ?w = "\<lambda>w'. sw_state w' = con_of c \<and> sw_host w' = h \<and> sw_address w' = a \<and>
    sw_port w' = Some (cl_port cl1) \<and> sw_server w' = sw_server w"
  show ?thesis
  proof (rule turn_of [OF g, where ls = "[l1, l2]" and g' = "enter (con_of c) (noted l2 g1)" and Q = ?w])
    show "gives (foldR (window_event ins) (gu_events (enter (con_of c) (noted l2 g1))) w1) ?w"
      if "same_window w w1" for w1
      using g(2) that c(1)
      by (cases c) (auto simp: in_step_def g1_def enter_def noted_def add_event_def window_event_def createServer_def
          createConnectionState_def svcevent_new_def handleConnectionState_def server_text_def same_window_def
          logConnection_def to_console_def Let_def)
    show "in_step cl' g2 w'" if "shown (enter (con_of c) (noted l2 g1)) g2" "gu_stdout g2 = []"
      "gu_events g2 = []" "?w w'" for g2 w'
    proof -
      have info: "gu_info g = Map.empty" "ob_values (sw_server w) = gu_info g"
        "gu_muted g = (cl_muted cl \<noteq> 0)" "gu_deafen g = (cl_deafen cl \<noteq> 0)"
        using g(2) c(4) by (simp_all add: in_step_def split: if_splits)
      have g2: "gu_connection g2 = con_of c" "gu_host g2 = h" "gu_address g2 = a" "gu_port g2 = Some (cl_port cl1)"
        "gu_info g2 = gu_info g" "gu_muted g2 = gu_muted g" "gu_deafen g2 = gu_deafen g"
        using that(1) by (simp_all add: shown_def keeps_def enter_def noted_def add_event_def g1_def)
      have "info_has cl' Map.empty" if "c = CONNECTED"
        using i [OF that] by (simp add: cl' print_line_def info_has_def)
      then show ?thesis using that(2-4) info g2 n m(2,3) c(1,2)
        by (auto simp: in_step_def cl' print_line_def named_def)
    qed
  qed (use nl s1 s2 out in \<open>simp_all add: cl' print_line_def\<close>)
qed

text \<open>The connection is over.\<close>

lemma over_turn:
  assumes g: "isReady exists g" "in_step cl g w" and out: "cl_out cl1 = cl_out cl"
    and c: "cl_state cl \<noteq> DISCONNECTED" "cl_state cl1 = DISCONNECTED"
    and m: "msg_state cl1 = Inr cl'" "cl_muted cl1 = cl_muted cl" "cl_deafen cl1 = cl_deafen cl"
  shows "gives (OnIOTimer ins exists toul (pipe (drop (length (cl_out cl)) (cl_out cl')) g, w))
    (\<lambda>(g', w'). isReady exists g' \<and> in_step cl' g' w')"
proof -
  define l where "l = '':STATE disconnected''"
  have cl': "cl' = print_line l cl1" using m(1) c(2) by (simp add: msg_state_def l_def)
  let ?g = "g\<lparr>gu_stdout := [l]\<rparr>"
  define g1 where "g1 = (enter SVCCON_DISCONNECTED (noted l ?g))\<lparr>gu_info := Map.empty, gu_peers := Map.empty\<rparr>"
  have "gu_connection ?g \<noteq> SVCCON_DISCONNECTED"
    using g(2) c(1) by (cases "cl_state cl") (auto simp: in_step_def)
  then have s: "process_line toul l ?g = g1"
    using own_line(6) [OF parse_own(3) refl] by (simp add: l_def g1_def)
  let ?w = "\<lambda>w'. sw_state w' = SVCCON_DISCONNECTED \<and> ob_values (sw_server w') = Map.empty"
  show ?thesis
  proof (rule turn_of [OF g, where ls = "[l]" and g' = g1 and Q = ?w])
    show "gives (foldR (window_event ins) (gu_events g1) w1) ?w" if "same_window w w1" for w1
      using g(2) that c(1)
      by (cases "cl_state cl") (auto simp: in_step_def g1_def enter_def noted_def add_event_def window_event_def
          createConnectionState_def svcevent_new_def handleConnectionState_def same_window_def clearOptions_def
          logConnection_def to_console_def Let_def)
    show "in_step cl' g2 w'" if "shown g1 g2" "gu_stdout g2 = []" "gu_events g2 = []" "?w w'" for g2 w'
      using g(2) that m(2,3) c(2)
      by (simp add: in_step_def shown_def keeps_def g1_def enter_def noted_def add_event_def cl' print_line_def)
  qed (use s out own_newline(3) in \<open>simp_all add: cl' print_line_def l_def\<close>)
qed

lemma effect_turn:
  assumes g: "isReady exists g" "in_step cl g w" and t: "toul_ok toul" and e: "effect cl cl'"
  shows "gives (OnIOTimer ins exists toul (pipe (drop (length (cl_out cl)) (cl_out cl')) g, w))
    (\<lambda>(g', w'). isReady exists g' \<and> in_step cl' g' w')"
  using e unfolding effect_def
proof (elim disjE conjE)
  assume *: "steady cl cl'" "tells cl cl'" "cl_state cl = CONNECTED"
  show ?thesis by (rule gives_mono [OF tells_turn [OF *(2,1) g]]) (use *(3) in auto)
next
  assume *: "steady cl cl'" "tells cl cl'" "cl_out cl' = cl_out cl"
  show ?thesis by (rule gives_mono [OF tells_turn [OF *(2,1) g]]) (use *(3) in auto)
next
  assume "flagged cl cl'"
  then show ?thesis by (rule flag_turn [OF g])
next
  assume "moved cl cl'"
  then obtain cl1 where m: "msg_state cl1 = Inr cl'" "cl_out cl1 = cl_out cl" "cl_muted cl1 = cl_muted cl"
    "cl_deafen cl1 = cl_deafen cl" and
    "cl_state cl = DISCONNECTED \<and> cl_state cl1 = CONNECTING \<and> (\<exists>h a. named cl1 h a) \<or>
      cl_state cl = CONNECTING \<and> cl_state cl1 = CONNECTED \<and> cl_info cl1 = Inr dsdict_new \<and>
        cl_name cl1 = cl_name cl \<and> cl_addr cl1 = cl_addr cl \<and> cl_port cl1 = cl_port cl \<or>
      cl_state cl \<noteq> DISCONNECTED \<and> cl_state cl1 = DISCONNECTED" by (auto simp: moved_def)
  then show ?thesis
  proof (elim disjE conjE exE)
    fix h a assume "cl_state cl = DISCONNECTED" "cl_state cl1 = CONNECTING" "named cl1 h a"
    with begun_turn [OF g t this(3) m(2) _ this(2) _ _ m(1,3,4)] show ?thesis by simp
  next
    assume c: "cl_state cl = CONNECTING" "cl_state cl1 = CONNECTED" "cl_info cl1 = Inr dsdict_new"
      "cl_name cl1 = cl_name cl" "cl_addr cl1 = cl_addr cl" "cl_port cl1 = cl_port cl"
    have "named cl1 (gu_host g) (gu_address g)" using g(2) c by (simp add: in_step_def named_def)
    with begun_turn [OF g t this m(2) _ c(2) _ _ m(1,3,4) c(3)] c(1) show ?thesis by simp
  next
    assume "cl_state cl \<noteq> DISCONNECTED" "cl_state cl1 = DISCONNECTED"
    then show ?thesis by (rule over_turn [OF g m(2) _ _ m(1,3,4)])
  qed
qed

end
