(* ===== verification/GuiProps.thy ===== *)
theory GuiProps
  imports GuiSync NetProps
begin

text \<open>
  The properties of the graphical client (\<open>src/network/svcenet/wx\<close>): its parser, what its window
  shows of the client behind it, and, through the client, of the server.
\<close>

section \<open>Representations are unique\<close>

lemma seg_unique:
  "seg c p as None \<Longrightarrow> seg c p' bs None \<Longrightarrow> first_ptr as None = first_ptr bs None \<Longrightarrow> as = bs"
proof (induction as arbitrary: p p' bs)
  case Nil
  then show ?case by (cases bs) (simp_all add: first_ptr_def)
next
  case (Cons a as)
  then obtain bs' where bs: "bs = a # bs'" by (cases bs) (auto simp: first_ptr_def)
  with Cons.prems show ?case using Cons.IH [of "Some a" "Some a" bs'] by auto
qed

lemma dsrep_unique:
  assumes "dsrep t d kvs" "dsrep t d kvs'"
  shows "kvs = kvs'"
proof -
  from assms(1) obtain as where as: "linv d as" "list_all2 (entry_rep t) (vals d as) kvs" by (rule dsrepE)
  from assms(2) obtain bs where bs: "linv d bs" "list_all2 (entry_rep t) (vals d bs) kvs'" by (rule dsrepE)
  have "as = bs" using as(1) bs(1) by (intro seg_unique [of "lcells d" None _ None]) (simp_all add: linv_def)
  have s: "x = y" if "drep u x" "drep u y" for u x y
    using that by (metis drep_def length_map map_injective inj_Some)
  have e: "x = y" if "entry_rep t e x" "entry_rep t e y" for e x y
    using that s by (auto simp: entry_rep_def drept_def prod_eq_iff)
  show ?thesis
  proof (rule nth_equalityI)
    show "length kvs = length kvs'"
      using as(2) bs(2) by (simp add: \<open>as = bs\<close> list_all2_lengthD [symmetric])
    show "kvs ! i = kvs' ! i" if "i < length kvs" for i
      using as(2) bs(2) that e unfolding \<open>as = bs\<close> by (metis list_all2_conv_all_nth)
  qed
qed

section \<open>The parser\<close>

text \<open>C19: the parser of the graphical client and the lexer of the C programs agree: on every text
  whose words the lexer can hold they have the same verdict, and the same words.\<close>

theorem gui_parser_agrees:
  "drep str l \<Longrightarrow> lex_fits l \<Longrightarrow> gives (dstrlex_parse str) (\<lambda>(code, r).
     fst (svcparser_parse l) = parser_code code \<and>
     (case r of None \<Rightarrow> fst (svcparser_parse l) \<noteq> SVCPARSER_OK
      | Some ts \<Rightarrow> fst (svcparser_parse l) = SVCPARSER_OK \<and>
          dlrep (first_ok (snd (svcparser_parse l))) ts (snd (svcparser_parse l))))"
proof -
  assume "drep str l" "lex_fits l"
  from dstrlex_parse_gives [OF this] show ?thesis
  proof (rule gives_mono)
    fix x assume x: "lex_result (lex l) x"
    show "case x of (code, r) \<Rightarrow> fst (svcparser_parse l) = parser_code code \<and>
       (case r of None \<Rightarrow> fst (svcparser_parse l) \<noteq> SVCPARSER_OK
        | Some ts \<Rightarrow> fst (svcparser_parse l) = SVCPARSER_OK \<and>
            dlrep (first_ok (snd (svcparser_parse l))) ts (snd (svcparser_parse l)))"
    proof (cases "snd (lex l)")
      case None
      with parse_lex(2) [of l "snd (svcparser_parse l)"] have "fst (svcparser_parse l) \<noteq> SVCPARSER_OK"
        by (metis option.distinct(1) prod.collapse)
      with x None show ?thesis by (auto simp: lex_result_def parse_lex(1))
    next
      case (Some ws)
      then have "svcparser_parse l = (SVCPARSER_OK, ws)" using parse_lex(2) by blast
      with x Some parse_lex(1) [of l] show ?thesis by (auto simp: lex_result_def)
    qed
  qed
qed

theorem gui_parser_agrees_witness:
  "\<exists>str. gives (dstrlex_parse str) (\<lambda>(code, r).
     fst (svcparser_parse ''say hi'') = parser_code code \<and>
     (case r of None \<Rightarrow> fst (svcparser_parse ''say hi'') \<noteq> SVCPARSER_OK
      | Some ts \<Rightarrow> fst (svcparser_parse ''say hi'') = SVCPARSER_OK \<and>
          dlrep (first_ok (snd (svcparser_parse ''say hi''))) ts (snd (svcparser_parse ''say hi''))))"
proof -
  obtain str where "drep str ''say hi''"
    using dfromcs_gives [of "''say hi''"] by (auto simp: gives_def dholds_def cstr_def)
  from gui_parser_agrees [OF this lex_fits_short] show ?thesis by (intro exI) simp
qed

text \<open>A text the graphical client escapes and quotes is read back, by itself and, when it is
  short enough, by the lexer of the C programs, as the text.\<close>

theorem gui_escape_roundtrip:
  "svcparser_parse (chr_quote # svcparser_escape xs @ [chr_quote]) = (SVCPARSER_OK, [xs]) \<and>
   svcparser_escape xs = escape xs"
proof -
  have "snd (lex (quote xs)) = Some [xs]" by (simp add: lex_def lstep_quote lfinish_def)
  then show ?thesis by (simp add: svcparser_escape_eq parse_lex quote_def)
qed

section \<open>The window\<close>

text \<open>
  The client and the graphical client from their start: after each step of the client the lines it
  printed are read in a turn of the timer.
\<close>

inductive watched ::
  "(string \<Rightarrow> 16 word \<Rightarrow> attempt) \<Rightarrow> 'd \<Rightarrow> ('d \<Rightarrow> string \<Rightarrow> 'a option list \<Rightarrow> 'd \<times> 'a option list) \<Rightarrow>
   inserter \<Rightarrow> (int \<Rightarrow> bool) \<Rightarrow> (string \<Rightarrow> u64 option) \<Rightarrow> ('a, 'd) svc_in \<Rightarrow>
   ('a, 'd) client \<Rightarrow> gui \<times> window \<Rightarrow> bool" for net d0 dec ins exists toul svc where
  started: "pid \<noteq> 0 \<Longrightarrow> exists pid \<Longrightarrow>
    watched net d0 dec ins exists toul svc (init_client_state svc) (OnInit (Some pid))"
| step: "watched net d0 dec ins exists toul svc cl (g, w) \<Longrightarrow> vstep net d0 dec cl cl' \<Longrightarrow>
    OnIOTimer ins exists toul (pipe (drop (length (cl_out cl)) (cl_out cl')) g, w) = Inr st \<Longrightarrow>
    watched net d0 dec ins exists toul svc cl' st"

lemma started_in_step:
  assumes "pid \<noteq> 0" "exists pid" "OnInit (Some pid) = (g, w)"
  shows "isReady exists g \<and> in_step (init_client_state svc) g w \<and> tidy (init_client_state svc)"
  using assms by (auto simp: OnInit_def openSVC_def add_log_def gui_new_def window_new_def object_info_new_def
      isReady_def in_step_def init_client_state_def tidy_def dnew_def malloc_def Let_def)

lemma watched_in_step:
  assumes "net_ok net" "toul_ok toul" "watched net d0 dec ins exists toul svc cl st"
  shows "isReady exists (fst st) \<and> in_step cl (fst st) (snd st) \<and> tidy cl"
  using assms(3)
proof induction
  case (started pid)
  then show ?case using started_in_step [of pid exists] by (metis prod.collapse)
next
  case (step cl g w cl' st)
  then have "effect cl cl' \<and> tidy cl'" using vstep_effect [OF step.hyps(2) assms(1)] step.IH by simp
  with effect_turn [of exists g cl w toul cl' ins] step assms(2) show ?case by (cases st) auto
qed


text \<open>A host name that resolves to nothing, numbers read as they are.\<close>

definition nowhere :: "string \<Rightarrow> 16 word \<Rightarrow> attempt" where "nowhere host port = Unresolved"

definition number_of :: "string \<Rightarrow> u64 option" where "number_of t = Some (word_of_int (digits_val t))"

definition front :: inserter where "front name x = (name # fst x, snd x)"

definition deaf :: "unit \<Rightarrow> string \<Rightarrow> int option list \<Rightarrow> unit \<times> int option list" where
  "deaf d data pcm = (d, map (\<lambda>_. Some 0) pcm)"

lemma nowhere_ok: "net_ok nowhere" by (simp add: net_ok_def nowhere_def)

lemma number_of_ok: "toul_ok number_of"
  by (simp add: toul_ok_def number_of_def digits_val_dec)


lemma msgs_frame: "foldR (handle_server_msg d0) ms cl = Inr cl' \<Longrightarrow> frame cl cl'"
proof (induction ms arbitrary: cl)
  case (Cons m ms)
  then show ?case by (auto simp: bindR_eq_Inr intro: frame_trans dest: msg_frame)
qed simp

lemma logic_turn_shown:
  assumes jim: "script_ok jim tame" and s: "session d0 i e s ms cl"
    and g: "isReady exists g" "in_step cl g w" "cl_state cl = CONNECTED"
  shows "gives (logic_turn jim dt s) (\<lambda>s'. \<exists>sd ps. srep s' sd ps \<and>
     gives (foldR (handle_server_msg d0) (ms @ inbox e (sent_since s s')) cl) (\<lambda>cl'.
       gives (OnIOTimer ins exists toul (pipe (drop (length (cl_out cl)) (cl_out cl')) g, w))
         (\<lambda>(g', w'). ob_values (sw_server w') = map_of (view sd))))"
proof (rule gives_mono [OF logic_turn_synced [OF jim session_inv [OF s], of dt]])
  fix s' assume "\<exists>acts. sv_log s' = sv_log s @ acts \<and> synced mirrors i e s' (ms @ inbox e acts) cl"
  then have "synced mirrors i e s' (ms @ inbox e (sent_since s s')) cl" by (auto simp: sent_since_def)
  then obtain sd ps a a' where *: "srep s' sd ps" "crep cl a"
    "\<forall>m\<in>set (ms @ inbox e (sent_since s s')). packet_ok m" "apackets (ms @ inbox e (sent_since s s')) a = Some a'"
    "mirrors a' sd ps" by (rule syncedE) blast
  have "gives (foldR (handle_server_msg d0) (ms @ inbox e (sent_since s s')) cl) (\<lambda>cl'.
       gives (OnIOTimer ins exists toul (pipe (drop (length (cl_out cl)) (cl_out cl')) g, w))
         (\<lambda>(g', w'). ob_values (sw_server w') = map_of (view sd)))"
  proof (rule givesE [OF packets_read [OF *(2,3,4), of d0]])
    fix cl' assume r: "foldR (handle_server_msg d0) (ms @ inbox e (sent_since s s')) cl = Inr cl'" and c: "crep cl' a'"
    have fr: "frame cl cl'" by (rule msgs_frame [OF r])
    have "gives (OnIOTimer ins exists toul (pipe (drop (length (cl_out cl)) (cl_out cl')) g, w))
         (\<lambda>(g', w'). ob_values (sw_server w') = map_of (view sd))"
    proof (rule gives_mono [OF tells_turn [OF msgs_tell [OF r *(3)] frame_steady [OF fr] g(1,2)]], clarify)
      fix g' w' assume "cl_state cl = CONNECTED \<longrightarrow> in_step cl' g' w'"
      then have i: "info_has cl' (gu_info g')" "ob_values (sw_server w') = gu_info g'"
        using g(3) fr by (simp_all add: in_step_def frame_def)
      from c obtain d where d: "cl_info cl' = Inr d" "dsrep True d (ac_info a')" by (elim crepE)
      with i(1) have "gu_info g' = map_of (ac_info a')" by (auto simp: info_has_def dest: dsrep_unique)
      moreover have "map_of (ac_info a') = map_of (view sd)"
        using *(5) by (auto simp: mirrors_def same_def map_of_view)
      ultimately show "ob_values (sw_server w') = map_of (view sd)" using i(2) by simp
    qed
    with r show "gives (foldR (handle_server_msg d0) (ms @ inbox e (sent_since s s')) cl) (\<lambda>cl'.
       gives (OnIOTimer ins exists toul (pipe (drop (length (cl_out cl)) (cl_out cl')) g, w))
         (\<lambda>(g', w'). ob_values (sw_server w') = map_of (view sd)))" by simp
  qed
  with *(1) show "\<exists>sd ps. srep s' sd ps \<and>
     gives (foldR (handle_server_msg d0) (ms @ inbox e (sent_since s s')) cl) (\<lambda>cl'.
       gives (OnIOTimer ins exists toul (pipe (drop (length (cl_out cl)) (cl_out cl')) g, w))
         (\<lambda>(g', w'). ob_values (sw_server w') = map_of (view sd)))" by blast
qed


text \<open>A client that knows its server by name, and its window.\<close>

definition name_h :: dstring where
  "name_h = \<lparr>dlen = 1, dsize = 32, ddata = Some CHR ''h'' # Some nul # replicate 30 None\<rparr>"

definition client_h :: "(int, unit) client" where
  "client_h = client0\<lparr>cl_name := name_h, cl_addr := name_h\<rparr>"

definition gui_h :: gui where
  "gui_h = gui_new\<lparr>gu_svc := True, gu_pid := 7, gu_host := ''h'', gu_address := ''h'', gu_port := Some 0,
     gu_connection := SVCCON_CONNECTED\<rparr>"

definition window_h :: window where
  "window_h = window_new\<lparr>sw_host := ''h'', sw_address := ''h'', sw_port := Some 0, sw_state := SVCCON_CONNECTED\<rparr>"

lemma in_step_h: "in_step client_h gui_h window_h" "isReady (\<lambda>pid. pid = 7) gui_h" "cl_state client_h = CONNECTED"
proof -
  have "info_has client_h Map.empty" using dsrep_new by (auto simp: info_has_def client_h_def client0_def)
  then show "in_step client_h gui_h window_h"
    by (simp add: in_step_def client_h_def client0_def init_client_state_def gui_h_def gui_new_def window_h_def
        window_new_def object_info_new_def named_def name_h_def plain_def special_def)
qed (simp_all add: isReady_def gui_h_def gui_new_def client_h_def client0_def)

lemma session_h: "session () 0 7 server1 [packet1] client_h"
proof -
  have f: "fresh_client client_h" using fresh0 by (simp add: fresh_client_def client_h_def)
  have "session () 0 7 server1 (inbox 7 (sent_since server_init server1)) client_h"
    by (rule session.started [OF srep_init good_empty _ f welcoming_ok server1(1)])
      (auto simp: only_at_def peer_at_def sent1)
  then show ?thesis by (simp add: sent1)
qed


end
