(* ===== verification/PeerToPeer.thy ===== *)
theory PeerToPeer
  imports LibSvc Decimal
begin

text \<open>
  The peer-to-peer voice chat (\<open>src/network/svcp2p/main.c\<close>): every host sends the packets
  of its microphone to all the peers of its command line, in datagrams of two bytes of time and the
  compressed audio, and hears those of them that come from a known address.

  The program has three threads besides the main loop: the sound card's, the sender's and the
  one that prints statistics.  What they do is a step each, in any order with the loop's.
\<close>

unbundle bit_operations_syntax

section \<open>State\<close>

type_synonym address = "u32 \<times> u16"  \<comment> \<open>\<open>sin_addr\<close> and \<open>sin_port\<close>\<close>

record pp_peer =
  pp_voice :: "nat option"
  pp_address :: address

text \<open>\<open>pp_sent\<close> is what was given to \<open>sendto\<close>.\<close>

record ('a, 'd) p2p =
  pp_peers :: "pp_peer list"
  pp_initialized :: bool
  pp_done :: bool
  pp_up_bytes :: u32
  pp_down_bytes :: u32
  pp_up_packets :: u32
  pp_down_packets :: u32
  pp_svc :: "('a, 'd) svc_in"
  pp_sent :: "(address \<times> string) list"

section \<open>Sending and receiving\<close>

definition time_bytes :: "u32 \<Rightarrow> string" where
  "time_bytes t = [char_of (unat (t AND 0xFF)), char_of (unat (drop_bit 8 t AND 0xFF))]"

definition p2p_send_callback :: "svc_network_packet \<Rightarrow> ('a, 'd) p2p \<Rightarrow> ('a, 'd) p2p" where
  "p2p_send_callback packet st =
     (if \<not> pp_initialized st then st
      else
        let data = time_bytes (np_time packet) @ np_data packet;
            n = of_nat (length (pp_peers st)) in
        st\<lparr>pp_sent := pp_sent st @ map (\<lambda>p. (pp_address p, data)) (pp_peers st),
           pp_up_bytes := pp_up_bytes st + of_nat (length (np_data packet) + 2) * n,
           pp_up_packets := pp_up_packets st + n\<rparr>)"

definition bytes_time :: "string \<Rightarrow> u32" where
  "bytes_time b = of_nat (of_char (b ! 0)) OR push_bit 8 (of_nat (of_char (b ! 1)))"

text \<open>
  A datagram of \<open>r\<close> bytes in the buffer of 65535; \<open>recvfrom\<close> may write 65536.  When there
  are fewer than two bytes the length of the packet wraps, and the decoder reads past the buffer.
\<close>

definition p2p_datagram ::
  "('d \<Rightarrow> string \<Rightarrow> 'a option list \<Rightarrow> 'd \<times> 'a option list) \<Rightarrow> address \<Rightarrow> string \<Rightarrow> ('a, 'd) p2p \<Rightarrow>
   ('a, 'd) p2p res" where
  "p2p_datagram dec remote bytes st =
     (if 65535 < length bytes then Inl OutOfBounds
      else if bytes = [] then Inr st
      else
        let st = st\<lparr>pp_down_bytes := pp_down_bytes st + of_nat (length bytes),
                   pp_down_packets := pp_down_packets st + 1\<rparr> in
        case find (\<lambda>p. pp_address p = remote) (pp_peers st) of
          None \<Rightarrow> Inr st
        | Some p \<Rightarrow>
            if length bytes < 2 then Inl OutOfBounds
            else case pp_voice p of None \<Rightarrow> Inl NullDeref
            | Some v \<Rightarrow>
                bindR (svc_packet_recieve dec \<lparr>np_data = drop 2 bytes, np_time = bytes_time bytes\<rparr> v (pp_svc st))
                  (\<lambda>svc. Inr (st\<lparr>pp_svc := svc\<rparr>)))"

text \<open>One turn of the statistics: what it prints, with the counters reset.\<close>

definition p2p_stats :: "('a, 'd) p2p \<Rightarrow> (u32 \<times> u32 \<times> u32 \<times> u32) \<times> ('a, 'd) p2p" where
  "p2p_stats st =
     ((pp_up_bytes st, pp_down_bytes st, pp_up_packets st, pp_down_packets st),
      st\<lparr>pp_up_bytes := 0, pp_down_bytes := 0, pp_up_packets := 0, pp_down_packets := 0\<rparr>)"

section \<open>The main program\<close>

text \<open>
  \<open>resolve\<close> is \<open>gethostbyname\<close>, the first address of a name.  \<open>None\<close>: a name does not
  resolve, and the program ends.
\<close>

fun p2p_resolve :: "(string \<Rightarrow> u32 option) \<Rightarrow> u16 \<Rightarrow> string list \<Rightarrow> pp_peer list option" where
  "p2p_resolve resolve port [] = Some []"
| "p2p_resolve resolve port (name # names) =
     (case resolve name of None \<Rightarrow> None
      | Some ip \<Rightarrow> map_option (\<lambda>ps. \<lparr>pp_voice = None, pp_address = (ip, port)\<rparr> # ps)
          (p2p_resolve resolve port names))"

fun p2p_join :: "'d \<Rightarrow> pp_peer list \<Rightarrow> ('a::zero, 'd) svc_in \<Rightarrow> (pp_peer list \<times> ('a, 'd) svc_in) res" where
  "p2p_join d [] svc = Inr ([], svc)"
| "p2p_join d (p # ps) svc =
     bindR (svc_peer_join d svc) (\<lambda>(svc, v).
     bindR (p2p_join d ps svc) (\<lambda>(ps, svc). Inr (p\<lparr>pp_voice := Some v\<rparr> # ps, svc)))"

text \<open>
  \<open>main\<close> up to its loop.  \<open>args\<close> are the arguments after the name of the program, \<open>sock\<close>
  and \<open>bound\<close> whether the socket could be made and bound.  \<open>Inr None\<close>: it ends with status 1.
\<close>

definition p2p_start ::
  "bool \<Rightarrow> (u16 \<Rightarrow> bool) \<Rightarrow> (string \<Rightarrow> u32 option) \<Rightarrow> 'e \<Rightarrow> 'd \<Rightarrow> string list \<Rightarrow>
   (('a::zero, 'e) svc_out \<times> ('a, 'd) p2p) option res" where
  "p2p_start sock bound resolve e d args =
     (case args of
        port_arg # name # names \<Rightarrow>
          let port = word_of_int (atoi port_arg) in
          if \<not> sock \<or> \<not> bound port then Inr None
          else (case p2p_resolve resolve port (name # names) of None \<Rightarrow> Inr None
          | Some ps \<Rightarrow>
              case svc_init e of (so, si) \<Rightarrow>
              bindR si (\<lambda>svc. bindR (p2p_join d ps svc) (\<lambda>(ps, svc).
                Inr (Some (so, \<lparr>pp_peers = ps, pp_initialized = True, pp_done = False, pp_up_bytes = 0,
                  pp_down_bytes = 0, pp_up_packets = 0, pp_down_packets = 0, pp_svc = svc, pp_sent = []\<rparr>)))))
      | _ \<Rightarrow> Inr None)"

text \<open>
  What happens next: the loop's \<open>select\<close> times out, fails or has a datagram; \<open>SIGINT\<close> arrives;
  the sender has a packet, the sound card wants a frame, the statistics are due.
\<close>

datatype 'a p2p_event =
    PTimeout | PSelectError | PDatagram address string | PInterrupt
  | PSend svc_network_packet | PHear "'a audio" | PStats

definition p2p_turn ::
  "('d \<Rightarrow> string \<Rightarrow> 'a option list \<Rightarrow> 'd \<times> 'a option list) \<Rightarrow> 'a::{zero, plus} p2p_event \<Rightarrow>
   ('a, 'd) p2p \<Rightarrow> ('a, 'd) p2p res" where
  "p2p_turn dec ev st =
     (case ev of
        PTimeout \<Rightarrow> Inr st
      | PSelectError \<Rightarrow> Inr (st\<lparr>pp_done := True\<rparr>)
      | PDatagram remote bytes \<Rightarrow> p2p_datagram dec remote bytes st
      | PInterrupt \<Rightarrow> Inr (st\<lparr>pp_done := True\<rparr>)
      | PSend packet \<Rightarrow> Inr (p2p_send_callback packet st)
      | PHear out \<Rightarrow> bindR (svc_request_incoming_audio (pp_svc st) out) (\<lambda>(svc, _). Inr (st\<lparr>pp_svc := svc\<rparr>))
      | PStats \<Rightarrow> Inr (snd (p2p_stats st)))"

fun p2p_loop ::
  "('d \<Rightarrow> string \<Rightarrow> 'a option list \<Rightarrow> 'd \<times> 'a option list) \<Rightarrow> 'a::{zero, plus} p2p_event list \<Rightarrow>
   ('a, 'd) p2p \<Rightarrow> ('a, 'd) p2p res" where
  "p2p_loop dec [] st = Inr st"
| "p2p_loop dec (ev # evs) st =
     (if pp_done st then Inr st else bindR (p2p_turn dec ev st) (p2p_loop dec evs))"

text \<open>The end of \<open>main\<close>: the peers leave, and \<open>svc_close\<close> closes the incoming side.\<close>

definition p2p_leave :: "pp_peer \<Rightarrow> ('a, 'd) svc_in \<Rightarrow> ('a, 'd) svc_in res" where
  "p2p_leave p svc = (case pp_voice p of None \<Rightarrow> Inl NullDeref
     | Some v \<Rightarrow> bindR (svc_peer_leave v svc) (\<lambda>(svc, _). Inr svc))"

definition p2p_stop :: "('a, 'd) p2p \<Rightarrow> ('a, 'd) p2p res" where
  "p2p_stop st =
     bindR (foldR p2p_leave (pp_peers st) (pp_svc st)) (\<lambda>svc.
     bindR (svc_incoming_close svc) (\<lambda>svc. Inr (st\<lparr>pp_svc := svc\<rparr>)))"

section \<open>The time of a datagram\<close>

lemma and_ff: "(w :: u32) AND 0xFF = take_bit 8 w"
  by (simp add: take_bit_eq_mask mask_eq_exp_minus_1)

lemma low_byte: "of_nat (of_char (char_of (unat (take_bit 8 w)) :: char)) = take_bit 8 (w :: u32)"
proof -
  have "unat (take_bit 8 w) = take_bit 8 (unat w)" by (rule unsigned_take_bit_eq)
  then have "of_char (char_of (unat (take_bit 8 w)) :: char) = unat (take_bit 8 w)"
    by (simp add: take_bit_eq_mod)
  then show ?thesis by simp
qed

lemma bytes_time_bytes:
  assumes "unat t \<le> MAX_TIME"
  shows "bytes_time (time_bytes t @ d) = t"
proof -
  have t: "take_bit 16 t = t"
    using assms by (simp add: word_unat_eq_iff unsigned_take_bit_eq take_bit_nat_eq_self MAX_TIME_def)
  have "take_bit 8 t OR push_bit 8 (take_bit 8 (drop_bit 8 t)) = take_bit 16 t"
    by (rule bit_word_eqI) (auto simp: bit_simps)
  then show ?thesis unfolding bytes_time_def time_bytes_def and_ff append_Cons nth_Cons_0
      One_nat_def nth_Cons_Suc low_byte t .
qed

lemma time_bytes_length [simp]: "length (time_bytes t) = 2"
  by (simp add: time_bytes_def)

section \<open>The invariant\<close>

definition p2p_ok :: "('a::zero, 'd) p2p \<Rightarrow> bool" where
  "p2p_ok st \<longleftrightarrow> length (pp_peers st) \<le> MAX_PEERS \<and> si_frame (pp_svc st) = 1024 \<and>
     (\<exists>as. sinv (pp_svc st) as \<and> map pp_voice (pp_peers st) = map Some (rev as))"

text \<open>What the network, the sound card and the codec may bring.\<close>

definition p2p_fair :: "'a p2p_event \<Rightarrow> bool" where
  "p2p_fair ev \<longleftrightarrow> (case ev of
     PDatagram remote bytes \<Rightarrow> length bytes \<le> 65535 \<and> length bytes \<noteq> 1
   | PHear out \<Rightarrow> awf out \<and> asize out = 1024
   | _ \<Rightarrow> True)"

lemma find_voice:
  assumes "find P ps = Some p" "map pp_voice ps = map Some (rev as)"
  obtains v where "pp_voice p = Some v" "v \<in> set as"
proof -
  from assms(1) have "p \<in> set ps" by (auto simp: find_Some_iff)
  then have "pp_voice p \<in> set (map Some (rev as))" using assms(2) by (metis imageI list.set_map)
  with that show thesis by auto
qed

lemma bytes_time_small: "unat (bytes_time b) \<le> MAX_TIME"
proof -
  have c: "(of_nat (of_char c) :: u32) = take_bit 8 (of_nat (of_char c))" for c
  proof -
    have "(of_char c :: nat) < 256" by (rule nat_of_char_less_256)
    then have "take_bit 8 (of_char c :: nat) = of_char c" by (simp add: take_bit_nat_eq_self)
    then show ?thesis by (metis take_bit_of_nat)
  qed
  have "take_bit 16 (bytes_time b) = bytes_time b"
    unfolding bytes_time_def by (subst (1 2 3 4) c) (rule bit_word_eqI, auto simp: bit_simps)
  then have "unat (bytes_time b) = unat (take_bit 16 (bytes_time b))" by simp
  also have "\<dots> = take_bit 16 (unat (bytes_time b))" by (rule unsigned_take_bit_eq)
  also have "\<dots> < 65536" by (simp add: take_bit_eq_mod)
  finally show ?thesis by (simp add: MAX_TIME_def)
qed

lemma p2p_datagram_gives:
  assumes ok: "p2p_ok st" and dec: "decoder_writes dec" and b: "length bytes \<le> 65535" "length bytes \<noteq> 1"
  shows "gives (p2p_datagram dec remote bytes st) (\<lambda>st'. p2p_ok st' \<and> pp_peers st' = pp_peers st \<and>
    pp_done st' = pp_done st)"
proof (cases "bytes = []")
  case False
  define st1 where "st1 = st\<lparr>pp_down_bytes := pp_down_bytes st + of_nat (length bytes),
      pp_down_packets := pp_down_packets st + 1\<rparr>"
  show ?thesis
  proof (cases "find (\<lambda>p. pp_address p = remote) (pp_peers st)")
    case None
    with False b ok show ?thesis by (simp add: p2p_datagram_def p2p_ok_def)
  next
    case (Some p)
    from ok obtain as where as: "sinv (pp_svc st) as" "map pp_voice (pp_peers st) = map Some (rev as)"
      by (auto simp: p2p_ok_def)
    obtain v where v: "pp_voice p = Some v" "v \<in> set as" by (rule find_voice [OF Some as(2)])
    obtain xs ys where xs: "as = xs @ v # ys" using split_list [OF v(2)] by blast
    have "gives (svc_packet_recieve dec \<lparr>np_data = drop 2 bytes, np_time = bytes_time bytes\<rparr> v (pp_svc st))
        (\<lambda>svc. sinv svc as \<and> si_frame svc = si_frame (pp_svc st))"
      unfolding xs by (rule svc_packet_recieve_gives) (use as(1) xs dec bytes_time_small in auto)
    moreover have "2 \<le> length bytes" using b False by (cases bytes rule: remdups_adj.cases) auto
    ultimately show ?thesis using ok as(2) b False v(1) Some
      by (auto simp: p2p_datagram_def p2p_ok_def gives_def Let_def)
  qed
qed (use ok in \<open>simp add: p2p_datagram_def\<close>)

lemma p2p_turn_gives:
  assumes ok: "p2p_ok st" and dec: "decoder_writes dec" and ev: "p2p_fair ev"
  shows "gives (p2p_turn dec ev st) (\<lambda>st'. p2p_ok st' \<and> pp_peers st' = pp_peers st)"
proof (cases ev)
  case (PDatagram remote bytes)
  with p2p_datagram_gives [OF ok dec, of bytes remote] ev show ?thesis
    by (auto simp: p2p_turn_def p2p_fair_def intro: gives_mono)
next
  case (PHear out)
  from ok obtain as where as: "sinv (pp_svc st) as" "map pp_voice (pp_peers st) = map Some (rev as)"
    by (auto simp: p2p_ok_def)
  have "length as \<le> MAX_PEERS" using ok arg_cong [OF as(2), of length] by (simp add: p2p_ok_def)
  from svc_request_gives [OF as(1) this, of out] ev PHear ok
  obtain svc o' where r: "svc_request_incoming_audio (pp_svc st) out = Inr (svc, o')" "sinv svc as"
    by (auto simp: p2p_fair_def p2p_ok_def gives_def)
  with request_frame [OF r(1)] ok as PHear show ?thesis by (auto simp: p2p_turn_def p2p_ok_def)
qed (use ok in \<open>simp_all add: p2p_turn_def p2p_ok_def p2p_send_callback_def p2p_stats_def Let_def\<close>)

lemma p2p_loop_gives:
  assumes "p2p_ok st" "decoder_writes dec" "\<forall>ev\<in>set evs. p2p_fair ev"
  shows "gives (p2p_loop dec evs st) (\<lambda>st'. p2p_ok st' \<and> pp_peers st' = pp_peers st)"
  using assms(1,3)
proof (induction evs arbitrary: st)
  case (Cons ev evs)
  show ?case
  proof (cases "pp_done st")
    case False
    have "gives (bindR (p2p_turn dec ev st) (p2p_loop dec evs)) (\<lambda>st'. p2p_ok st' \<and> pp_peers st' = pp_peers st)"
      by (rule gives_bind [OF p2p_turn_gives [OF Cons.prems(1) assms(2), of ev]])
        (use Cons in \<open>auto intro!: gives_mono [OF Cons.IH]\<close>)
    with False show ?thesis by simp
  qed (use Cons.prems(1) in simp)
qed simp

lemma p2p_join_gives:
  "sinv svc as \<Longrightarrow> gives (p2p_join d ps svc) (\<lambda>(ps', svc'). \<exists>bs. sinv svc' (rev bs @ as) \<and>
     map pp_voice ps' = map Some bs \<and> map pp_address ps' = map pp_address ps \<and> si_frame svc' = si_frame svc)"
proof (induction ps arbitrary: svc as)
  case Nil
  then show ?case by (auto intro: exI [of _ "[]"])
next
  case (Cons p ps)
  from svc_peer_join_gives [OF Cons.prems, of d] obtain svc1 v where
    j: "svc_peer_join d svc = Inr (svc1, v)" "sinv svc1 (v # as)" "si_frame svc1 = si_frame svc"
    by (auto simp: gives_def)
  from Cons.IH [OF j(2)] obtain ps' svc' bs where
    "p2p_join d ps svc1 = Inr (ps', svc')" "sinv svc' (rev bs @ v # as)" "map pp_voice ps' = map Some bs"
    "map pp_address ps' = map pp_address ps" "si_frame svc' = si_frame svc1" by (auto simp: gives_def)
  with j show ?case by (auto intro!: exI [of _ "v # bs"])
qed

lemma p2p_leave_gives:
  "sinv svc as \<Longrightarrow> distinct vs \<Longrightarrow> set vs \<subseteq> set as \<Longrightarrow> map pp_voice ps = map Some vs \<Longrightarrow>
   gives (foldR p2p_leave ps svc) (\<lambda>svc'. \<exists>bs. sinv svc' bs \<and> set bs = set as - set vs)"
proof (induction ps arbitrary: svc as vs)
  case (Cons p ps)
  then obtain v vs' where vs: "vs = v # vs'" "pp_voice p = Some v" "map pp_voice ps = map Some vs'"
    by (cases vs) auto
  with Cons.prems(3) obtain xs ys where as: "as = xs @ v # ys" by (auto dest: split_list)
  have d: "distinct as" using Cons.prems(1) by (simp add: sinv_def)
  from svc_peer_leave_gives [of svc xs v ys] Cons.prems(1) as obtain svc1 fr where
    l: "svc_peer_leave v svc = Inr (svc1, fr)" "sinv svc1 (xs @ ys)" by (auto simp: gives_def)
  have "set vs' \<subseteq> set (xs @ ys)" using Cons.prems(2,3) vs(1) as by auto
  from Cons.IH [OF l(2) _ this vs(3)] Cons.prems(2) vs(1) have
    "gives (foldR p2p_leave ps svc1) (\<lambda>svc'. \<exists>bs. sinv svc' bs \<and> set bs = set (xs @ ys) - set vs')" by simp
  moreover have "set (xs @ ys) - set vs' = set as - set vs" using d as vs(1) by auto
  moreover have "p2p_leave p svc = Inr svc1" using vs(2) l(1) by (simp add: p2p_leave_def)
  ultimately show ?case by simp
qed auto

lemma p2p_stop_gives:
  assumes "p2p_ok st"
  shows "gives (p2p_stop st) (\<lambda>st'. sinv (pp_svc st') [])"
proof -
  from assms obtain as where as: "sinv (pp_svc st) as" "map pp_voice (pp_peers st) = map Some (rev as)"
    by (auto simp: p2p_ok_def)
  have "distinct (rev as)" using as(1) by (simp add: sinv_def)
  from p2p_leave_gives [OF as(1) this _ as(2)] obtain svc bs where
    "foldR p2p_leave (pp_peers st) (pp_svc st) = Inr svc" "sinv svc bs" by (auto simp: gives_def)
  with svc_incoming_close_gives [of svc bs] show ?thesis by (auto simp: p2p_stop_def gives_def)
qed

end
