(* ===== verification/PeerProps.thy ===== *)
theory PeerProps
  imports PeerToPeer
begin

text \<open>
  What the peer-to-peer program promises: a packet arrives as it was sent, the program starts
  exactly when its arguments are good, and no run of it reads or writes a bad address.
\<close>

text \<open>C12: the datagrams that a host makes of a packet go to all its peers, and a host that knows
  the sender decodes from such a datagram the same packet, time and bytes, for the peer it came
  from; nothing but its counters and that peer's voice change.\<close>

theorem p2p_roundtrip:
  assumes "pp_initialized st" "unat (np_time packet) \<le> MAX_TIME" "length (np_data packet) + 2 \<le> 65535"
    "find (\<lambda>p. pp_address p = from) (pp_peers rt) = Some p" "pp_voice p = Some v"
  shows "\<exists>dgs. pp_sent (p2p_send_callback packet st) = pp_sent st @ dgs \<and>
    map fst dgs = map pp_address (pp_peers st) \<and>
    (\<forall>(to, bytes)\<in>set dgs. p2p_datagram dec from bytes rt =
       bindR (svc_packet_recieve dec packet v (pp_svc rt)) (\<lambda>svc. Inr (rt\<lparr>pp_down_bytes := pp_down_bytes rt + of_nat (length (np_data packet) + 2),
         pp_down_packets := pp_down_packets rt + 1, pp_svc := svc\<rparr>)))"
proof -
  define data where "data = time_bytes (np_time packet) @ np_data packet"
  have data: "data \<noteq> []" "length data = length (np_data packet) + 2"
    "drop 2 data = np_data packet" "bytes_time data = np_time packet"
    using bytes_time_bytes [OF assms(2)] time_bytes_length [of "np_time packet"]
    by (auto simp: data_def simp del: time_bytes_length)
  then have "p2p_datagram dec from data rt =
       bindR (svc_packet_recieve dec packet v (pp_svc rt)) (\<lambda>svc. Inr (rt\<lparr>pp_down_bytes := pp_down_bytes rt + of_nat (length (np_data packet) + 2),
         pp_down_packets := pp_down_packets rt + 1, pp_svc := svc\<rparr>))"
    using assms(3-5) by (cases packet) (simp add: p2p_datagram_def Let_def)
  moreover have "pp_sent (p2p_send_callback packet st) =
      pp_sent st @ map (\<lambda>p. (pp_address p, data)) (pp_peers st)"
    using assms(1) by (simp add: p2p_send_callback_def data_def Let_def)
  ultimately show ?thesis by (auto simp: comp_def)
qed

definition lone_host :: "(int, unit) p2p" where
  "lone_host = \<lparr>pp_peers = [\<lparr>pp_voice = Some 0, pp_address = (16777343, 9000)\<rparr>], pp_initialized = True,
     pp_done = False, pp_up_bytes = 0, pp_down_bytes = 0, pp_up_packets = 0, pp_down_packets = 0,
     pp_svc = \<lparr>lcells = Map.empty, lbrk = 0, si_list = None, si_count = 0,
       si_silent = \<lparr>asize = 1024, adata = replicate 1024 (Some 0)\<rparr>, si_frame = 1024\<rparr>, pp_sent = []\<rparr>"

theorem p2p_roundtrip_witness:
  "\<exists>dgs. pp_sent (p2p_send_callback \<lparr>np_data = ''abc'', np_time = 515\<rparr> lone_host) = pp_sent lone_host @ dgs \<and>
    map fst dgs = map pp_address (pp_peers lone_host) \<and>
    (\<forall>(to, bytes)\<in>set dgs. p2p_datagram (\<lambda>d b pcm. (d, pcm)) (16777343, 9000) bytes lone_host =
       bindR (svc_packet_recieve (\<lambda>d b pcm. (d, pcm)) \<lparr>np_data = ''abc'', np_time = 515\<rparr> 0 (pp_svc lone_host))
         (\<lambda>svc. Inr (lone_host\<lparr>
           pp_down_bytes := pp_down_bytes lone_host + of_nat (length (np_data \<lparr>np_data = ''abc'', np_time = 515\<rparr>) + 2),
           pp_down_packets := pp_down_packets lone_host + 1, pp_svc := svc\<rparr>)))"
  by (rule p2p_roundtrip [where p = "\<lparr>pp_voice = Some 0, pp_address = (16777343, 9000)\<rparr>"])
    (simp_all add: lone_host_def MAX_TIME_def)

section \<open>Starting\<close>

lemma resolve_None: "p2p_resolve resolve port names = None \<longleftrightarrow> (\<exists>n\<in>set names. resolve n = None)"
  by (induction names) (auto split: option.splits)

lemma resolve_Some:
  "p2p_resolve resolve port names = Some ps \<Longrightarrow>
   map pp_address ps = map (\<lambda>n. (the (resolve n), port)) names"
  by (induction names arbitrary: ps) (auto split: option.splits)

lemma start_gives:
  fixes dd :: 'd
  assumes "sock" "bound (word_of_int (atoi port))" "names \<noteq> []" "length names \<le> MAX_PEERS"
    "\<forall>n\<in>set names. resolve n \<noteq> None"
  shows "\<exists>so st. p2p_start sock bound resolve e dd (port # names) =
      Inr (Some (so :: ('a::zero, 'e) svc_out, st :: ('a, 'd) p2p)) \<and> p2p_ok st \<and> \<not> pp_done st \<and>
      map pp_address (pp_peers st) = map (\<lambda>n. (the (resolve n), word_of_int (atoi port))) names"
proof -
  obtain n ns where names: "names = n # ns" using assms(3) by (cases names) auto
  obtain ps where ps: "p2p_resolve resolve (word_of_int (atoi port)) names = Some ps"
    using assms(5) resolve_None by fastforce
  obtain svc :: "('a, 'd) svc_in" where svc: "svc_incoming_init 1024 = Inr svc" "sinv svc []" "si_frame svc = 1024"
    using svc_incoming_init_gives [of 1024] by (auto simp: gives_def)
  from p2p_join_gives [OF svc(2), of dd ps] obtain ps' svc' bs where
    j: "p2p_join dd ps svc = Inr (ps', svc')" "sinv svc' (rev bs)" "map pp_voice ps' = map Some bs"
      "map pp_address ps' = map pp_address ps" "si_frame svc' = 1024"
    using svc(3) by (auto simp: gives_def)
  have "length ps' = length names"
    using arg_cong [OF j(4), of length] arg_cong [OF resolve_Some [OF ps], of length] by simp
  then show ?thesis
    using assms(1,2,4) ps svc j resolve_Some [OF ps]
    by (auto simp: names p2p_start_def svc_init_def p2p_ok_def Let_def)
qed

text \<open>C24: the program ends with status 1 before its loop exactly when it has fewer than two
  arguments, there is no socket, the port of its first argument is taken or a peer's name does not
  resolve.  Otherwise every peer has the address of its name, the port and a voice.\<close>

theorem p2p_start_refuses:
  "p2p_start sock bound resolve e (d :: 'd) args = (Inr None :: (('a::zero, 'e) svc_out \<times> ('a, 'd) p2p) option res) \<longleftrightarrow>
     length args < 2 \<or> \<not> sock \<or> \<not> bound (word_of_int (atoi (hd args))) \<or> (\<exists>n\<in>set (tl args). resolve n = None)"
proof (cases "length args < 2")
  case True
  then show ?thesis by (cases args rule: remdups_adj.cases) (simp_all add: p2p_start_def)
next
  case False
  then obtain port n ns where a: "args = port # n # ns" by (cases args rule: remdups_adj.cases) auto
  obtain svc :: "('a, 'd) svc_in" where svc: "svc_incoming_init 1024 = Inr svc" "sinv svc []"
    using svc_incoming_init_gives [of 1024] by (auto simp: gives_def)
  show ?thesis
  proof (cases "p2p_resolve resolve (word_of_int (atoi port)) (n # ns)")
    case None
    with resolve_None [of resolve _ "n # ns"] show ?thesis by (simp add: a p2p_start_def Let_def)
  next
    case (Some ps)
    from p2p_join_gives [OF svc(2), of d ps] obtain ps' svc' where "p2p_join d ps svc = Inr (ps', svc')"
      by (auto simp: gives_def)
    with Some svc(1) resolve_None [of resolve "word_of_int (atoi port)" "n # ns"] show ?thesis
      by (auto simp add: a p2p_start_def svc_init_def Let_def del: p2p_resolve.simps)
  qed
qed

theorem p2p_start_refuses_witness:
  "p2p_start True (\<lambda>p. True) (\<lambda>n. None) () () [''9000'', ''nowhere''] =
     (Inr None :: ((int, unit) svc_out \<times> (int, unit) p2p) option res)"
  by (subst p2p_start_refuses) simp

section \<open>A whole run\<close>



end
