(* ===== verification/ServerMain.thy ===== *)
theory ServerMain
  imports Protocol
begin

text \<open>
  The main program of the server (\<open>main\<close> of \<open>src/network/svcenet/server/main.c\<close>): the
  configuration the scripts leave, the loop of events and logic, and the end.

  The interpreter has variables of its own, so what it does with a script is given with
  every single evaluation.
\<close>

section \<open>The configuration and the clock\<close>

text \<open>\<open>getvar\<close> is \<open>Jim_GetGlobalVariableStr\<close>; the \<open>long\<close> is returned as an \<open>int\<close>.\<close>

definition jim_get_int :: "(string \<Rightarrow> 'o option) \<Rightarrow> ('o \<Rightarrow> int option) \<Rightarrow> string \<Rightarrow> int \<Rightarrow> int" where
  "jim_get_int getvar getlong name default_value =
     (case getvar name of None \<Rightarrow> default_value
      | Some obj \<Rightarrow> (case getlong obj of None \<Rightarrow> default_value
         | Some val \<Rightarrow> sint (word_of_int val :: u32)))"

definition jim_get_str :: "(string \<Rightarrow> 'o option) \<Rightarrow> ('o \<Rightarrow> string option) \<Rightarrow> string \<Rightarrow> string \<Rightarrow> string" where
  "jim_get_str getvar getstring name default_value =
     (case getvar name of None \<Rightarrow> default_value
      | Some obj \<Rightarrow> (case getstring obj of None \<Rightarrow> default_value | Some val \<Rightarrow> val))"

text \<open>The time of day, in seconds and microseconds.\<close>

type_synonym timeval = "nat \<times> nat"

definition milliseconds :: "timeval \<Rightarrow> u64" where
  "milliseconds tv = (case tv of (sec, usec) \<Rightarrow> of_nat sec * 1000 + of_nat usec div 1000)"

definition cmd_millitime :: "timeval \<Rightarrow> string list \<Rightarrow> jim" where
  "cmd_millitime tv argv =
     (if length argv \<noteq> 1 then JIM_ERR ''millitime doesn't accept any arguments''
      else case tv of (sec, usec) \<Rightarrow>
        JIM_OK (dec_int (sint (of_nat sec * 1000 + of_nat usec div 1000 :: u64))))"

section \<open>The loop\<close>

type_synonym ('t, 'p) eval = "'t \<Rightarrow> 'p server \<Rightarrow> 'p server \<times> int option option"

text \<open>
  One turn of the loop: the events that \<open>enet_host_service\<close> has, each with what the
  interpreter does for it, then the logic with its time.
\<close>

record 'p round =
  rd_events :: "((string, 'p) eval \<times> (string list, 'p) eval \<times> 'p Server.event) list"
  rd_logic :: "(string, 'p) eval"
  rd_now :: timeval

definition server_round :: "u64 \<Rightarrow> 'p round \<Rightarrow> 'p server \<Rightarrow> 'p server res" where
  "server_round last_logic_time r s =
     bindR (foldR (\<lambda>(jim, jimv, ev). handle_event jim jimv ev) (rd_events r) s)
       (logic_turn (rd_logic r) (milliseconds (rd_now r) - last_logic_time))"

text \<open>The scripts named by the arguments, up to the first that raises an error.\<close>

fun run_scripts ::
  "(nat \<Rightarrow> string \<Rightarrow> 'p server \<Rightarrow> 'p server \<times> bool) \<Rightarrow> nat \<Rightarrow> string list \<Rightarrow> 'p server \<Rightarrow> 'p server \<times> bool" where
  "run_scripts evalfile i [] s = (s, True)"
| "run_scripts evalfile i (f # fs) s =
     (case evalfile i f s of (s, ok) \<Rightarrow> if ok then run_scripts evalfile (Suc i) fs s else (s, False))"

text \<open>
  The program on its arguments, with the turns up to the \<open>SIGINT\<close> that ends it: its status
  and the server it leaves.  \<open>enet\<close> tells whether ENet starts, \<open>set_host\<close> resolves a name
  and \<open>create\<close> makes the host for an address, a port and a number of peers.
\<close>

definition server_main ::
  "bool \<Rightarrow> (nat \<Rightarrow> string \<Rightarrow> 'p server \<Rightarrow> 'p server \<times> bool) \<Rightarrow> (string \<Rightarrow> 'o option) \<Rightarrow>
   ('o \<Rightarrow> int option) \<Rightarrow> ('o \<Rightarrow> string option) \<Rightarrow> (string \<Rightarrow> 'h option) \<Rightarrow> ('h \<Rightarrow> u16 \<Rightarrow> int \<Rightarrow> bool) \<Rightarrow>
   timeval \<Rightarrow> 'p round list \<Rightarrow> string list \<Rightarrow> (int \<times> 'p server) res" where
  "server_main enet evalfile getvar getlong getstring set_host create start rounds args =
     (if args \<noteq> [] \<and> hd args = ''-h'' then Inr (0, server_init)
      else if \<not> enet then Inr (1, server_init)
      else case run_scripts evalfile 1 args server_init of (s, ok) \<Rightarrow>
        if \<not> ok then Inr (1, s)
        else case set_host (jim_get_str getvar getstring ''SERVER_HOST'' ''0.0.0.0'') of
          None \<Rightarrow> Inr (0, s)
        | Some addr \<Rightarrow>
            let port = word_of_int (jim_get_int getvar getlong ''SERVER_PORT'' 49001) in
            if \<not> create addr port (jim_get_int getvar getlong ''MAX_PEERS'' 256) then Inr (0, s)
            else
              bindR (foldR (server_round (milliseconds start)) rounds s) (\<lambda>s.
              bindR (free_peers s) (\<lambda>s.
              bindR (dd_free (sv_data s)) (\<lambda>_. Inr (0, s)))))"

section \<open>Every handler keeps the server in a good state\<close>

definition serving :: "'p server \<Rightarrow> bool" where
  "serving s \<longleftrightarrow> (\<exists>sd ps. srep s sd ps \<and> good sd ps)"

lemma servingI: "srep s sd ps \<Longrightarrow> good sd ps \<Longrightarrow> serving s"
  by (auto simp: serving_def)

text \<open>
  What ENet may report in a state: a connection while a place is free, the disconnection of a
  peer in the table, commands that the lexer accepts.
\<close>

definition expected :: "'p server \<Rightarrow> 'p Server.event \<Rightarrow> bool" where
  "expected s ev \<longleftrightarrow> (case ev of
     Connect e \<Rightarrow> sv_size s = 0 \<or> sv_count s < int (sv_size s)
   | Disconnected e i \<Rightarrow> i < length (sv_peers s) \<and> \<not> pr_empty (sv_peers s ! i)
   | Receive i ch data \<Rightarrow> i < length (sv_peers s) \<and>
       (ch = 0 \<longrightarrow> lex_fits data \<and> length data < dmax \<and> snd (lex data) \<noteq> None))"

lemma good_without: "good sd ps \<Longrightarrow> good sd (ps[i := None])"
  by (cases "i < length ps") (simp_all add: good_remove list_update_beyond)

lemma script_serving: "script_ok jim tame \<Longrightarrow> serving s \<Longrightarrow> serving (fst (jim t s))"
  unfolding serving_def by (metis script_good fst_conv)

lemma event_serving:
  assumes s: "serving s" and jim: "script_ok jim tame" "script_ok jimv tame" and ev: "expected s ev"
  shows "gives (handle_event jim jimv ev s) serving"
proof -
  from s obtain sd ps where sp: "srep s sd ps" "good sd ps" by (auto simp: serving_def)
  show ?thesis
  proof (cases ev)
    case (Connect e)
    have "ps = [] \<or> None \<in> set ps"
      using ev Connect sp(1) peers_of_full [of ps] by (auto simp: expected_def srep_def)
    then obtain k where "free_at ps k" using free_at_ex by blast
    from connect_good [OF jim(1) sp this, of e] obtain s' where
      "handle_peer_connect jim e s = Inr (s', k)" "serving s'"
      unfolding gives_def by (auto split: if_splits intro: servingI dest: good_without [where i = k])
    then show ?thesis by (simp add: Connect handle_event_def)
  next
    case (Disconnected e i)
    then have i: "i < length ps" "\<not> pr_empty (sv_peers s ! i)"
      using ev sp(1) by (simp_all add: expected_def srep_def)
    then have "peer_rep i (sv_peers s ! i) (ps ! i)" using sp(1) by (simp add: srep_def)
    with i have i: "i < length ps" "ps ! i \<noteq> None" by (simp_all add: peer_rep_empty)
    from disconnect_good [OF jim(1) sp i, of e] show ?thesis
      unfolding Disconnected handle_event_def Server.event.case by (rule gives_mono) (blast intro: servingI)
  next
    case (Receive i ch data)
    then have i: "i < length (sv_peers s)"
      and c: "ch = 0 \<longrightarrow> lex_fits data \<and> length data < dmax \<and> snd (lex data) \<noteq> None"
      using ev by (simp_all add: expected_def)
    have audio: "serving (s\<lparr>sv_audio := x\<rparr>) = serving s" for s x by (simp add: serving_def)
    from i obtain p where "get_slot i s = Inr p" by (simp add: get_slot_def)
    then show ?thesis
      using i c s jim input_command_lexed [OF i, of data jimv]
      by (auto simp: Receive handle_event_def handle_packet_input_audio_def audio script_serving Let_def
          split: option.splits)
  qed
qed

lemma logic_serving:
  assumes s: "serving s" and jim: "script_ok jim tame"
  shows "gives (logic_turn jim d s) serving"
proof -
  from s obtain sd ps where sp: "srep s sd ps" "good sd ps" by (auto simp: serving_def)
  obtain s1 sd1 ps1 r where s1: "jim (''on_logic '' @ dec_nat (unat d)) s = (s1, r)" "srep s1 sd1 ps1" "good sd1 ps1"
    by (rule script_good [OF jim sp]) blast
  then have k: "kvs_ok sd1" "table_ok ps1" "load sd1 ps1 < 2 ^ 24" by (simp_all add: good_def)
  have "gives (send_modified_data s1) (\<lambda>s'. srep s' (clear sd1) (map clean ps1) \<and>
      sv_log s' = sv_log s1 @ bcast None (delta sd1 ps1) ps1 (length ps1))"
    by (rule send_modified_data_gives [OF s1(2) kvs_ok_ents [OF k(1,2)]
        delta_length [OF k(1,2) table_small [OF s1(2)] k(3)]])
  then show ?thesis unfolding logic_turn_def s1(1) fst_conv
    by (rule gives_mono) (use good_clean [OF s1(3)] in \<open>auto intro: servingI\<close>)
qed

section \<open>Fair runs\<close>

text \<open>A run in which every event is one that ENet may report in the state it finds.\<close>

fun fair_events ::
  "((string, 'p) eval \<times> (string list, 'p) eval \<times> 'p Server.event) list \<Rightarrow> 'p server \<Rightarrow> bool" where
  "fair_events [] s \<longleftrightarrow> True"
| "fair_events ((jim, jimv, ev) # evs) s \<longleftrightarrow>
     script_ok jim tame \<and> script_ok jimv tame \<and> expected s ev \<and>
     (\<forall>s'. handle_event jim jimv ev s = Inr s' \<longrightarrow> fair_events evs s')"

fun fair_rounds :: "u64 \<Rightarrow> 'p round list \<Rightarrow> 'p server \<Rightarrow> bool" where
  "fair_rounds t [] s \<longleftrightarrow> True"
| "fair_rounds t (r # rs) s \<longleftrightarrow> fair_events (rd_events r) s \<and> script_ok (rd_logic r) tame \<and>
     (\<forall>s'. server_round t r s = Inr s' \<longrightarrow> fair_rounds t rs s')"

lemma events_serving:
  "serving s \<Longrightarrow> fair_events evs s \<Longrightarrow> gives (foldR (\<lambda>(jim, jimv, ev). handle_event jim jimv ev) evs s) serving"
proof (induction evs arbitrary: s)
  case (Cons x evs)
  obtain jim jimv ev where x: "x = (jim, jimv, ev)" by (cases x)
  with Cons.prems have "gives (handle_event jim jimv ev s) serving" by (auto intro: event_serving)
  then show ?case using Cons x by (auto simp: gives_def)
qed simp

lemma rounds_serving:
  "serving s \<Longrightarrow> fair_rounds t rs s \<Longrightarrow> gives (foldR (server_round t) rs s) serving"
proof (induction rs arbitrary: s)
  case (Cons r rs)
  have "gives (server_round t r s) serving"
    unfolding server_round_def
    by (rule gives_bind [OF events_serving logic_serving]) (use Cons.prems in auto)
  then show ?case using Cons by (auto simp: gives_def)
qed simp

lemma scripts_serving:
  assumes "\<And>i. script_ok (\<lambda>f s. (fst (evalfile i f s), None)) tame" "\<And>i f s. snd (evalfile i f s)"
  shows "serving s \<Longrightarrow> serving (fst (run_scripts evalfile i fs s)) \<and> snd (run_scripts evalfile i fs s)"
proof (induction fs arbitrary: i s)
  case (Cons f fs)
  obtain s1 where s1: "evalfile i f s = (s1, True)" using assms(2) by (metis prod.collapse)
  from script_serving [OF assms(1) Cons.prems, of i f] s1 have "serving s1" by simp
  with Cons.IH s1 show ?case by simp
qed simp

section \<open>The end\<close>

definition present :: "'p apeer option list \<Rightarrow> 'p list" where
  "present ps = concat (map (\<lambda>a. case a of None \<Rightarrow> [] | Some x \<Rightarrow> [fst x]) ps)"

lemma free_upto:
  assumes s: "srep s sd ps"
  shows "n \<le> length ps \<Longrightarrow> gives (foldR (\<lambda>i s. bindR (get_slot i s) (\<lambda>p.
       if pr_empty p then Inr s
       else case pr_peer p of None \<Rightarrow> Inl NullDeref
         | Some e \<Rightarrow>
             bindR (dict_of (pr_priv p)) (\<lambda>d. bindR (dd_free d) (\<lambda>_.
             bindR (dict_of (pr_pub p)) (\<lambda>d. bindR (dd_free d) (\<lambda>_.
             Server.put_slot i (p\<lparr>pr_priv := None, pr_pub := None\<rparr>)
               (s\<lparr>sv_log := sv_log s @ [Disconnect e]\<rparr>))))))) [0..<n] s)
     (\<lambda>s'. length (sv_peers s') = length (sv_peers s) \<and> sv_data s' = sv_data s \<and>
        (\<forall>i. n \<le> i \<longrightarrow> sv_peers s' ! i = sv_peers s ! i) \<and>
        sv_log s' = sv_log s @ map Disconnect (present (take n ps)))"
proof (induction n)
  case 0
  then show ?case by (simp add: present_def)
next
  case (Suc n)
  then have n: "n < length ps" by simp
  obtain p where p: "get_slot n s = Inr p" "peer_rep n p (ps ! n)" "n < length (sv_peers s)"
    using s n by (elim get_slot_full)
  have pres: "present (take (Suc n) ps) = present (take n ps) @
      (case ps ! n of None \<Rightarrow> [] | Some x \<Rightarrow> [fst x])"
    using n by (simp add: take_Suc_conv_app_nth present_def)
  show ?case
  proof (cases "ps ! n")
    case None
    with Suc p pres show ?thesis
      by (auto simp: gives_def get_slot_def peer_rep_def split: if_splits)
  next
    case (Some a)
    then obtain e pub priv where a: "ps ! n = Some (e, pub, priv)" by (cases a) auto
    with p(2) obtain d d' where d: "pr_empty p = False" "pr_peer p = Some e" "pr_pub p = Some d"
      "ddrep d pub" "pr_priv p = Some d'" "ddrep d' priv" by (auto elim: peer_rep_Some)
    obtain x y where "dd_free d = Inr x" "dd_free d' = Inr y"
      using dd_freed [OF d(4)] dd_freed [OF d(6)] by (auto simp: gives_def)
    with Suc p d pres a show ?thesis
      by (auto simp: gives_def get_slot_def Server.put_slot_def dict_of_def split: if_splits)
  qed
qed

lemma free_peers_gives:
  assumes s: "srep s sd ps"
  shows "gives (free_peers s) (\<lambda>s'. sv_data s' = sv_data s \<and>
    sv_log s' = sv_log s @ map Disconnect (present ps))"
proof (cases "sv_peers s = []")
  case True
  with s show ?thesis by (simp add: free_peers_def srep_def present_def)
next
  case False
  with free_upto [OF s, of "length ps"] srep_size [OF s] show ?thesis
    by (auto simp: free_peers_def gives_def)
qed

lemma server_main_gives:
  assumes sc: "\<And>i. script_ok (\<lambda>f s. (fst (evalfile i f s), None)) tame" "\<And>i f s. snd (evalfile i f s)"
    and args: "args = [] \<or> hd args \<noteq> ''-h''" and enet: "enet"
    and host: "set_host (jim_get_str getvar getstring ''SERVER_HOST'' ''0.0.0.0'') = Some addr"
      "create addr (word_of_int (jim_get_int getvar getlong ''SERVER_PORT'' 49001))
         (jim_get_int getvar getlong ''MAX_PEERS'' 256)"
    and fair: "fair_rounds (milliseconds start) rounds (fst (run_scripts evalfile 1 args server_init))"
  shows "\<exists>s1 sd ps s2.
     foldR (server_round (milliseconds start)) rounds (fst (run_scripts evalfile 1 args server_init)) = Inr s1 \<and>
     srep s1 sd ps \<and> good sd ps \<and>
     server_main enet evalfile getvar getlong getstring set_host create start rounds args = Inr (0, s2) \<and>
     sv_log s2 = sv_log s1 @ map Disconnect (present ps)"
proof -
  have "serving server_init" by (rule servingI [OF srep_init]) (simp add: good_def kvs_ok_def table_ok_def peer_at_def load_def)
  with scripts_serving [where evalfile = evalfile and i = 1 and fs = args, OF sc, of server_init] obtain s0 where
    s0: "run_scripts evalfile 1 args server_init = (s0, True)" "serving s0" by (metis prod.collapse)
  from rounds_serving [OF s0(2), of "milliseconds start" rounds] fair s0(1) obtain s1 sd ps where
    s1: "foldR (server_round (milliseconds start)) rounds s0 = Inr s1" "srep s1 sd ps" "good sd ps"
    by (auto simp: gives_def serving_def)
  from free_peers_gives [OF s1(2)] obtain s2 where
    s2: "free_peers s1 = Inr s2" "sv_data s2 = sv_data s1" "sv_log s2 = sv_log s1 @ map Disconnect (present ps)"
    by (auto simp: gives_def)
  have "gives (dd_free (sv_data s2)) (\<lambda>_. True)" using s1(2) s2(2) by (auto simp: srep_def intro: dd_freed)
  then have "server_main enet evalfile getvar getlong getstring set_host create start rounds args = Inr (0, s2)"
    using args enet host s0(1) s1(1) s2(1) by (auto simp: server_main_def Let_def gives_def)
  then show ?thesis using s0(1) s1 s2(3) by auto
qed

end
