(* ===== verification/ClientMain.thy ===== *)
theory ClientMain
  imports ClientLife
begin

text \<open>
  The main program of the client (\<open>main\<close> and \<open>input_thread\<close> of
  \<open>src/network/svcenet/client/main.c\<close>): the thread that reads the standard input into a
  queue of lines, the loop that serves the network and the queue, and the end.
\<close>

section \<open>The input thread\<close>

definition input_buffer_size :: nat where "input_buffer_size = 1024 * 1024"

text \<open>\<open>fgets\<close>: the characters it stores and what is left of the stream.\<close>

definition fgets :: "nat \<Rightarrow> string \<Rightarrow> (string \<times> string) option" where
  "fgets size_s stream =
     (if stream = [] then None
      else
        let w = takeWhile (\<lambda>c. c \<noteq> newline) stream;
            l = (if length w < length stream then w @ [newline] else w);
            k = min (size_s - 1) (length l) in
        Some (take k stream, drop k stream))"

text \<open>\<open>dlist_addmem(client.input_queue, s, len)\<close>\<close>

definition queue_line :: "string \<Rightarrow> dstrlist \<Rightarrow> dstrlist res" where
  "queue_line l q = dlist_addmem q (map Some l @ [Some nul]) 0 (of_nat (length l))"

text \<open>One turn of the thread on what is left of its stream; \<open>None\<close>: there is no more.\<close>

definition input_turn :: "string \<Rightarrow> dstrlist \<Rightarrow> (dstrlist \<times> string) option res" where
  "input_turn stream q =
     (case fgets input_buffer_size stream of
        None \<Rightarrow> Inr None
      | Some (buffer, stream) \<Rightarrow>
          let s = cstr buffer in
          if s = [] then Inr (Some (q, stream))
          else bindR (queue_line (if last s = newline then butlast s else s) q) (\<lambda>q.
            Inr (Some (q, stream))))"

lemma fgets_shorter: "fgets input_buffer_size stream = Some (b, rest) \<Longrightarrow> length rest < length stream"
  by (cases stream) (auto simp: fgets_def input_buffer_size_def Let_def split: if_splits)

lemma input_turn_shorter: "input_turn stream q = Inr (Some (q', rest)) \<Longrightarrow> length rest < length stream"
  by (auto simp: input_turn_def Let_def bindR_eq_Inr dest: fgets_shorter split: option.splits if_splits)

text \<open>The thread up to the end of its stream: the queue it leaves.\<close>

function input_thread :: "string \<Rightarrow> dstrlist \<Rightarrow> dstrlist res" where
  "input_thread stream q =
     (case input_turn stream q of
        Inl f \<Rightarrow> Inl f
      | Inr None \<Rightarrow> Inr q
      | Inr (Some (q, rest)) \<Rightarrow> input_thread rest q)"
  by pat_completeness auto

termination
  by (relation "measure (\<lambda>(stream, q). length stream)") (auto dest: input_turn_shorter)

declare input_thread.simps [simp del]

section \<open>The main loop\<close>

text \<open>\<open>cm_done\<close> is \<open>main_done\<close>, which the handler of \<open>SIGINT\<close> sets.\<close>

record ('a, 'd) cmain =
  cm_client :: "('a, 'd) client"
  cm_queue :: dstrlist
  cm_error :: bool
  cm_done :: bool
  cm_input :: dstring

text \<open>
  A look of the loop at its queue: the lines that the thread has added since the look before,
  whether a \<open>SIGINT\<close> has come since, and what the network will make of an attempt to
  connect.
\<close>

record look =
  lk_lines :: "string list"
  lk_sigint :: bool
  lk_net :: "string \<Rightarrow> 16 word \<Rightarrow> attempt"

text \<open>
  A turn of the loop: the events that ENet has, whether a \<open>SIGINT\<close> comes before the queue is
  looked at, the looks, the lines that the thread has added since the last look, and whether it
  has come to the end of its stream.
\<close>

record turn =
  tn_events :: "Client.event list"
  tn_sigint :: bool
  tn_looks :: "look list"
  tn_rest :: "string list"
  tn_eof :: bool

definition poll_network ::
  "'d \<Rightarrow> ('d \<Rightarrow> string \<Rightarrow> 'a option list \<Rightarrow> 'd \<times> 'a option list) \<Rightarrow> Client.event list \<Rightarrow>
   ('a, 'd) client \<Rightarrow> ('a, 'd) client res" where
  "poll_network d0 dec evs cl =
     (case cl_state cl of
        CONNECTED \<Rightarrow> bindR (use (cl_host cl)) (\<lambda>_. foldR (handle_connected d0 dec) evs cl)
      | CONNECTING \<Rightarrow> bindR (use (cl_host cl)) (\<lambda>_.
          case evs of [] \<Rightarrow> Inr cl | ev # _ \<Rightarrow> handle_connecting ev cl)
      | DISCONNECTED \<Rightarrow> Inr cl)"

text \<open>The line at the front of the queue is copied and taken off.\<close>

definition take_line :: "('a, 'd) cmain \<Rightarrow> ('a, 'd) cmain res" where
  "take_line st =
     bindR (follow (lfront (cm_queue st))) (\<lambda>a. bindR (cell (cm_queue st) a) (\<lambda>n.
     bindR (dcpy (cm_input st) (nval n)) (\<lambda>s. bindR (dlist_erase (cm_queue st) a) (\<lambda>q.
       Inr (st\<lparr>cm_input := s, cm_queue := q\<rparr>)))))"

text \<open>
  The loop over the queue.  The result of a command goes into \<open>main_done\<close> too, whatever was
  there.
\<close>

fun input_loop :: "look list \<Rightarrow> ('a, 'd) cmain \<Rightarrow> ('a, 'd) cmain res" where
  "input_loop [] st = Inl Diverge"
| "input_loop (lk # lks) st =
     bindR (foldR queue_line (lk_lines lk) (cm_queue st)) (\<lambda>q.
     let st = st\<lparr>cm_queue := q, cm_done := cm_done st \<or> lk_sigint lk\<rparr> in
     if lsize q = 0 then Inr st
     else bindR (take_line st) (\<lambda>st.
       bindR (handle_input_command (lk_net lk) (cm_input st) (cm_client st)) (\<lambda>(cl, r).
       let st = st\<lparr>cm_client := cl, cm_done := r \<noteq> 0\<rparr> in
       if r \<noteq> 0 then Inr st else input_loop lks st)))"

definition main_turn ::
  "'d \<Rightarrow> ('d \<Rightarrow> string \<Rightarrow> 'a option list \<Rightarrow> 'd \<times> 'a option list) \<Rightarrow> turn \<Rightarrow> ('a, 'd) cmain \<Rightarrow>
   ('a, 'd) cmain res" where
  "main_turn d0 dec t st =
     bindR (poll_network d0 dec (tn_events t) (cm_client st)) (\<lambda>cl.
     let st = st\<lparr>cm_client := cl, cm_done := cm_done st \<or> tn_sigint t\<rparr> in
     bindR (if cm_done st then Inr st else input_loop (tn_looks t) st) (\<lambda>st.
     bindR (foldR queue_line (tn_rest t) (cm_queue st)) (\<lambda>q.
     let st = st\<lparr>cm_queue := q, cm_error := cm_error st \<or> tn_eof t\<rparr> in
     Inr (if cm_error st then st\<lparr>cm_done := True\<rparr> else st))))"

fun main_loop ::
  "'d \<Rightarrow> ('d \<Rightarrow> string \<Rightarrow> 'a option list \<Rightarrow> 'd \<times> 'a option list) \<Rightarrow> turn list \<Rightarrow> ('a, 'd) cmain \<Rightarrow>
   ('a, 'd) cmain res" where
  "main_loop d0 dec [] st = Inr st"
| "main_loop d0 dec (t # ts) st =
     (if cm_done st then Inr st else bindR (main_turn d0 dec t st) (main_loop d0 dec ts))"

section \<open>The program\<close>

text \<open>
  \<open>svc_close\<close>, of which the incoming side is modelled, then \<open>quit_client_state\<close>, which frees
  the queue besides what the client holds.
\<close>

definition client_exit :: "('a, 'd) cmain \<Rightarrow> ('a, 'd) client res" where
  "client_exit st =
     (let cl = print_line '':STATE exiting'' (cm_client st) in
      bindR (svc_incoming_close (cl_svc cl)) (\<lambda>svc.
      bindR (dlist_free (cm_queue st)) (\<lambda>_. quit_client_state (cl\<lparr>cl_svc := svc\<rparr>))))"

datatype ('a, 'd) outcome = Running "('a, 'd) cmain" | Exited int "('a, 'd) client option"

definition cmain_init :: "('a, 'd) svc_in \<Rightarrow> ('a, 'd) cmain" where
  "cmain_init svc =
     \<lparr>cm_client = init_client_state svc, cm_queue = dlist_new, cm_error = False, cm_done = False,
      cm_input = dnew\<rparr>"

definition client_main ::
  "bool \<Rightarrow> 'e \<Rightarrow> 'd \<Rightarrow> ('d \<Rightarrow> string \<Rightarrow> 'a option list \<Rightarrow> 'd \<times> 'a option list) \<Rightarrow> turn list \<Rightarrow>
   string list \<Rightarrow> ('a::zero, 'd) outcome res" where
  "client_main enet e d0 dec turns args =
     (if args \<noteq> [] \<or> \<not> enet then Inr (Exited 1 None)
      else case svc_init e :: ('a, 'e) svc_out \<times> ('a, 'd) svc_in res of (so, si) \<Rightarrow>
        bindR si (\<lambda>svc.
        bindR (main_loop d0 dec turns (cmain_init svc)) (\<lambda>st.
        if cm_done st then bindR (client_exit st) (\<lambda>cl. Inr (Exited 0 (Some cl)))
        else Inr (Running st))))"

end
