(* ===== verification/ClientRun.thy ===== *)
theory ClientRun
  imports ClientMain
begin

text \<open>
  The client's whole run: whatever the user types, a server that speaks the protocol sends and
  the network reports, every turn of the main loop is handled without a fault.
\<close>

section \<open>The invariant\<close>

definition readable :: "('a, 'd) client \<Rightarrow> bool" where
  "readable cl \<longleftrightarrow> (\<exists>h. read_cs (ddata (cl_name cl)) = Inr h) \<and> (\<exists>a. read_cs (ddata (cl_addr cl)) = Inr a)"

definition calm :: "('a::zero, 'd) client \<Rightarrow> bool" where
  "calm cl \<longleftrightarrow> conn_ok cl \<and> cl_host cl \<noteq> HFreed \<and> cl_client cl \<noteq> HFreed \<and>
     length (ddata (cl_name cl)) = dcap (cl_name cl) \<and> length (ddata (cl_addr cl)) = dcap (cl_addr cl) \<and>
     (cl_state cl \<noteq> DISCONNECTED \<longrightarrow> readable cl) \<and>
     (if cl_state cl = CONNECTED then \<exists>a. crep cl a
      else cl_info cl = Inl NullDeref \<and> fresh_client (cl\<lparr>cl_info := Inr dsdict_new\<rparr>))"

lemma readable_simps [simp]:
  "readable (cl\<lparr>cl_out := t\<rparr>) = readable cl" "readable (cl\<lparr>cl_sent := u\<rparr>) = readable cl"
  "readable (cl\<lparr>cl_state := s\<rparr>) = readable cl" "readable (cl\<lparr>cl_info := i\<rparr>) = readable cl"
  "readable (cl\<lparr>cl_host := h\<rparr>) = readable cl" "readable (cl\<lparr>cl_client := h\<rparr>) = readable cl"
  by (simp_all add: readable_def)

lemma crep_simps [simp]:
  "crep (cl\<lparr>cl_out := t\<rparr>) = crep cl" "crep (cl\<lparr>cl_sent := u\<rparr>) = crep cl"
  "crep (cl\<lparr>cl_muted := m\<rparr>) = crep cl" "crep (cl\<lparr>cl_deafen := m\<rparr>) = crep cl"
  "crep (cl\<lparr>cl_state := s\<rparr>) = crep cl"
  by (simp_all add: crep_def fun_eq_iff)

lemma calm_simps [simp]:
  "calm (cl\<lparr>cl_out := t\<rparr>) = calm cl" "calm (cl\<lparr>cl_sent := u\<rparr>) = calm cl"
  "calm (cl\<lparr>cl_muted := m\<rparr>) = calm cl" "calm (cl\<lparr>cl_deafen := m\<rparr>) = calm cl"
  by (simp_all add: calm_def conn_ok_def readable_def fresh_client_def)

lemma calm_frame:
  "calm cl \<Longrightarrow> frame cl cl' \<Longrightarrow> cl_state cl = CONNECTED \<Longrightarrow> crep cl' a \<Longrightarrow> conn_ok cl' \<Longrightarrow> calm cl'"
  by (auto simp: calm_def frame_def readable_def)

lemma msg_state_gives:
  assumes "cl_state cl \<noteq> DISCONNECTED \<longrightarrow> readable cl"
  shows "\<exists>t. msg_state cl = Inr (cl\<lparr>cl_out := t\<rparr>)"
proof (cases "cl_state cl = DISCONNECTED")
  case True
  then show ?thesis by (intro exI [of _ "cl_out cl @ ['':STATE disconnected'']"])
      (simp add: msg_state_def print_line_def)
next
  case False
  with assms obtain l where "msg_server cl = Inr (cl\<lparr>cl_out := cl_out cl @ [l]\<rparr>)"
    by (auto simp: msg_server_def readable_def print_line_def)
  with False have "msg_state cl = Inr (cl\<lparr>cl_out := (cl_out cl @ [l]) @
      [if cl_state cl = CONNECTED then '':STATE connected'' else '':STATE connecting'']\<rparr>)"
    by (cases "cl_state cl") (simp_all add: msg_state_def print_line_def)
  then show ?thesis by blast
qed

lemma init_calm: "sinv svc as \<Longrightarrow> calm (init_client_state svc)"
  by (auto simp: calm_def conn_ok_def init_client_state_def fresh_client_def dnew_def)

section \<open>The network\<close>

text \<open>
  What the network may bring: packets of commands that the abstract client understands, audio
  of a peer that the client has a voice for, or of one it has no place for.
\<close>

definition fair_event :: "('a::zero, 'd) client \<Rightarrow> Client.event \<Rightarrow> bool" where
  "fair_event cl ev \<longleftrightarrow> (case ev of
     EvReceive ch data \<Rightarrow>
       (ch = 0 \<longrightarrow> length data + 1 < dmax \<and> (\<forall>l\<in>set (lines data). lex_fits l) \<and>
          (\<forall>a. crep cl a \<longrightarrow> alines (lines data) a \<noteq> None)) \<and>
       (ch = 1 \<longrightarrow> cl_deafen cl \<noteq> 0 \<or> (\<exists>i p. data = wire i p \<and> length (np_data p) + 2 < 2 ^ 32 \<and>
          unat (np_time p) \<le> MAX_TIME \<and> (cl_size cl \<le> i \<or>
            (\<exists>q. get_cpeer (unat i) cl = Inr q \<and> cp_connected q \<and> cp_peer q \<noteq> None))))
   | _ \<Rightarrow> True)"

fun fair_network ::
  "'d \<Rightarrow> ('d \<Rightarrow> string \<Rightarrow> 'a option list \<Rightarrow> 'd \<times> 'a option list) \<Rightarrow> Client.event list \<Rightarrow>
   ('a::zero, 'd) client \<Rightarrow> bool" where
  "fair_network d0 dec [] cl \<longleftrightarrow> True"
| "fair_network d0 dec (ev # evs) cl \<longleftrightarrow> fair_event cl ev \<and> (ev = EvDisconnect \<longrightarrow> evs = []) \<and>
     (\<forall>cl'. handle_connected d0 dec ev cl = Inr cl' \<longrightarrow> fair_network d0 dec evs cl')"

lemma audio_gives:
  assumes c: "crep cl a" and dec: "decoder_writes dec" and ev: "fair_event cl (EvReceive 1 data)"
  shows "gives (handle_server_audio dec data cl) (\<lambda>cl'. crep cl' a)"
proof (cases "cl_deafen cl = 0")
  case True
  with ev obtain i p where p: "data = wire i p" "length (np_data p) + 2 < 2 ^ 32" "unat (np_time p) \<le> MAX_TIME"
    and i: "cl_size cl \<le> i \<or> (\<exists>q. get_cpeer (unat i) cl = Inr q \<and> cp_connected q \<and> cp_peer q \<noteq> None)"
    by (auto simp: fair_event_def)
  show ?thesis
  proof (cases "cl_size cl \<le> i")
    case True
    then show ?thesis using c p(1) by (simp add: handle_server_audio_def read32_def wire_fields)
  next
    case False
    with i obtain q where q: "get_cpeer (unat i) cl = Inr q" "cp_connected q" "cp_peer q \<noteq> None" by blast
    have il: "unat i < length (ac_peers a)" using crep_size [OF c, of i] False by simp
    note g = crep_get [OF c il]
    from g(1) q(1) have "q = cl_peers cl ! unat i" by simp
    with g(2) q obtain kvs where "peer_at (ac_peers a) (unat i) = Some (kvs, True)"
      using il by (auto simp: cp_rep_def peer_at_def split: option.splits)
    from audio_delivered [OF c True this dec p(2,3)] p(1) show ?thesis
      by (auto elim: gives_mono)
  qed
qed (use c in \<open>simp add: handle_server_audio_def\<close>)

lemma event_gives:
  assumes cl: "calm cl" "cl_state cl = CONNECTED" and dec: "decoder_writes dec" and ev: "fair_event cl ev"
  shows "gives (handle_connected d0 dec ev cl) (\<lambda>cl'. calm cl' \<and> (ev \<noteq> EvDisconnect \<longrightarrow> cl_state cl' = CONNECTED))"
proof -
  from cl obtain a where a: "crep cl a" and co: "conn_ok cl" by (auto simp: calm_def)
  show ?thesis
  proof (cases ev)
    case EvConnect
    then show ?thesis using cl by (simp add: handle_connected_def)
  next
    case EvDisconnect
    have a': "crep (cl\<lparr>cl_state := DISCONNECTED\<rparr>) a" using a by simp
    from this obtain as where as: "sinv (cl_svc (cl\<lparr>cl_state := DISCONNECTED\<rparr>)) as"
      "set (voices (cl_peers (cl\<lparr>cl_state := DISCONNECTED\<rparr>))) \<subseteq> set as" by (elim crepE) blast
    from free_server_info_gives [OF a' as] obtain cl1 bs where
      cl1: "free_server_info (cl\<lparr>cl_state := DISCONNECTED\<rparr>) = Inr cl1" "cl_my_id cl1 = no_id"
        "cl_info cl1 = Inl NullDeref" "cl_peers cl1 = []" "cl_size cl1 = 0"
        "frame (cl\<lparr>cl_state := DISCONNECTED\<rparr>) cl1" "sinv (cl_svc cl1) bs"
      by (auto simp: gives_def simp del: voices_simps)
    then have "calm cl1" using cl by (auto simp: calm_def conn_ok_def frame_def fresh_client_def)
    moreover obtain t where "msg_state cl1 = Inr (cl1\<lparr>cl_out := t\<rparr>)"
      using msg_state_gives [of cl1] cl1(6) by (auto simp: frame_def)
    ultimately show ?thesis using cl1(1) by (simp add: EvDisconnect handle_connected_def)
  next
    case (EvReceive ch data)
    have "gives (handle_connected d0 dec ev cl) (\<lambda>cl'. \<exists>a. crep cl' a)"
    proof -
      consider "ch = 0" | "ch = 1" | "ch \<noteq> 0" "ch \<noteq> 1" by blast
      then show ?thesis
      proof cases
        case 1
        with ev EvReceive a obtain a' where "length data + 1 < dmax" "\<forall>l\<in>set (lines data). lex_fits l"
          "alines (lines data) a = Some a'" by (auto simp: fair_event_def)
        from handle_server_msg_gives [OF a this, of d0] 1 EvReceive show ?thesis
          by (auto simp: handle_connected_def elim: gives_mono)
      next
        case 2
        with ev EvReceive have "gives (handle_server_audio dec data cl) (\<lambda>cl'. crep cl' a)"
          by (intro audio_gives [OF a dec]) simp
        then have "gives (handle_server_audio dec data cl) (\<lambda>cl'. \<exists>a. crep cl' a)" by (rule gives_mono) blast
        with 2 EvReceive show ?thesis by (simp add: handle_connected_def)
      qed (use a EvReceive in \<open>auto simp: handle_connected_def\<close>)
    qed
    then obtain cl' a' where h: "handle_connected d0 dec ev cl = Inr cl'" "crep cl' a'" by (auto simp: gives_def)
    have "frame cl cl'" using h(1) EvReceive
      by (auto simp: handle_connected_def dest: msg_frame audio_frame split: if_splits)
    with calm_frame [OF cl(1) this cl(2) h(2) connected_ok [OF co cl(2) h(1)]] h(1) EvReceive cl(2)
    show ?thesis by (simp add: frame_def)
  qed
qed

lemma network_gives:
  "calm cl \<Longrightarrow> cl_state cl = CONNECTED \<Longrightarrow> decoder_writes dec \<Longrightarrow> fair_network d0 dec evs cl \<Longrightarrow>
   gives (foldR (handle_connected d0 dec) evs cl) calm"
proof (induction evs arbitrary: cl)
  case (Cons ev evs)
  from event_gives [OF Cons.prems(1,2,3), of ev d0] Cons.prems(4) obtain cl' where
    "handle_connected d0 dec ev cl = Inr cl'" "calm cl'" "ev \<noteq> EvDisconnect \<longrightarrow> cl_state cl' = CONNECTED"
    by (auto simp: gives_def)
  with Cons show ?case by (cases "ev = EvDisconnect") auto
qed simp

lemma connecting_gives:
  assumes cl: "calm cl" "cl_state cl = CONNECTING"
  shows "gives (handle_connecting ev cl) calm"
proof -
  have live: "cl_host cl = HLive" "cl_client cl = HLive" "cl_my_id cl = no_id" "readable cl"
    "fresh_client (cl\<lparr>cl_info := Inr dsdict_new\<rparr>)" "cl_info cl = Inl NullDeref"
    using cl by (auto simp: calm_def conn_ok_def)
  show ?thesis
  proof (cases "ev = EvConnect")
    case True
    let ?cl = "cl\<lparr>cl_state := CONNECTED, cl_info := Inr dsdict_new\<rparr>"
    obtain t where t: "msg_state ?cl = Inr (?cl\<lparr>cl_out := t\<rparr>)" using msg_state_gives [of ?cl] live(4) by auto
    have "fresh_client ?cl" using live(5) by (simp add: fresh_client_def)
    from fresh_crep [OF this] have "calm ?cl"
      using cl live by (auto simp: calm_def conn_ok_def readable_def)
    then show ?thesis using True t by (simp add: handle_connecting_def)
  next
    case False
    let ?cl = "cl\<lparr>cl_client := HNull, cl_host := HNull, cl_state := DISCONNECTED\<rparr>"
    obtain t where t: "msg_state ?cl = Inr (?cl\<lparr>cl_out := t\<rparr>)" using msg_state_gives [of ?cl] by auto
    have "calm ?cl" using cl live by (auto simp: calm_def conn_ok_def fresh_client_def)
    then show ?thesis using False t live by (simp add: handle_connecting_def drop_connection_def use_def)
  qed
qed

lemma poll_gives:
  assumes cl: "calm cl" and dec: "decoder_writes dec"
    and evs: "cl_state cl = CONNECTED \<longrightarrow> fair_network d0 dec evs cl"
  shows "gives (poll_network d0 dec evs cl) calm"
proof (cases "cl_state cl")
  case CONNECTED
  moreover have "cl_host cl = HLive" using cl CONNECTED by (simp add: calm_def conn_ok_def)
  ultimately show ?thesis using network_gives [OF cl _ dec] evs by (simp add: poll_network_def use_def)
next
  case CONNECTING
  moreover have "cl_host cl = HLive" using cl CONNECTING by (simp add: calm_def conn_ok_def)
  ultimately show ?thesis using connecting_gives [OF cl] cl
    by (simp add: poll_network_def use_def split: list.split)
qed (use cl in \<open>simp add: poll_network_def\<close>)

section \<open>The commands of the user\<close>

text \<open>A name may not resolve, and the host may not be made; what is made is kept.\<close>

definition net_fine :: "(string \<Rightarrow> 16 word \<Rightarrow> attempt) \<Rightarrow> bool" where
  "net_fine net \<longleftrightarrow> (\<forall>h p. case net h p of Unresolved \<Rightarrow> True | NoHost ip \<Rightarrow> length ip + 1 < dmax
     | NoPeer ip \<Rightarrow> False | Started ip \<Rightarrow> length ip + 1 < dmax)"

lemma drep_cap: "drep s xs \<Longrightarrow> length (ddata s) = dcap s"
  by (simp add: drep_def)

lemma connect_calm:
  assumes cl: "calm cl" and v: "vrep True v ws" and small: "\<forall>w\<in>set ws. length w + 1 < dmax" "length ws < 2 ^ 32"
    and net: "net_fine net"
  shows "gives (cmd_connect net (of_nat (length ws)) v cl) calm"
proof (cases "cl_state cl = DISCONNECTED \<and> length ws = 3")
  case True
  obtain a1 where a1: "arg v 1 = Inr a1" "dholds (ws ! 1) a1" by (rule arg_gives [OF v, of 1]) (use True in auto)
  obtain a2 where a2: "arg v 2 = Inr a2" "dholds (ws ! 2) a2" by (rule arg_gives [OF v, of 2]) (use True in auto)
  have w1: "length (ws ! 1) + 1 < dmax" using True small(1) by simp
  have cap: "length (ddata (cl_name cl)) = dcap (cl_name cl)" "length (ddata (cl_addr cl)) = dcap (cl_addr cl)"
    and f: "fresh_client (cl\<lparr>cl_info := Inr dsdict_new\<rparr>)" "cl_info cl = Inl NullDeref" "cl_my_id cl = no_id"
    using cl True by (auto simp: calm_def conn_ok_def)
  obtain nm where nm: "dcpy (cl_name cl) a1 = Inr nm" "dholds (ws ! 1) nm"
    using dcpy_gives [of "cl_name cl" a1 "ws ! 1"] cap(1) a1(2) w1 by (auto simp: gives_def dholds_def)
  let ?h = "cstr (ws ! 1)" and ?p = "word_of_int (atoi (cstr (ws ! 2))) :: 16 word"
  have ip: "\<exists>ad. dcpycs (cl_addr cl) ip = Inr ad \<and> dholds (cstr ip) ad" if "length ip + 1 < dmax" for ip
    using dcpycs_gives [OF cap(2) that] by (auto simp: gives_def)
  have found: "calm (cl\<lparr>cl_name := nm, cl_addr := ad, cl_port := p, cl_host := HNull\<rparr>)"
    "\<exists>t. msg_state (cl\<lparr>cl_name := nm, cl_addr := ad, cl_port := p, cl_host := HLive, cl_client := HLive,
        cl_state := CONNECTING\<rparr>) = Inr (cl\<lparr>cl_name := nm, cl_addr := ad, cl_port := p, cl_host := HLive,
        cl_client := HLive, cl_state := CONNECTING, cl_out := t\<rparr>)"
    "calm (cl\<lparr>cl_name := nm, cl_addr := ad, cl_port := p, cl_host := HLive, cl_client := HLive,
        cl_state := CONNECTING, cl_out := t\<rparr>)" if "dholds x ad" for x ad p t
  proof -
    have d: "length (ddata nm) = dcap nm" "length (ddata ad) = dcap ad"
      using nm(2) that by (auto simp: dholds_def intro: drep_cap)
    have r: "readable (cl\<lparr>cl_name := nm, cl_addr := ad, cl_port := p\<rparr>)"
      using read_cs_holds [OF nm(2)] read_cs_holds [OF that] by (simp add: readable_def)
    show "calm (cl\<lparr>cl_name := nm, cl_addr := ad, cl_port := p, cl_host := HNull\<rparr>)"
      using cl True d f by (simp add: calm_def conn_ok_def fresh_client_def)
    show "\<exists>t. msg_state (cl\<lparr>cl_name := nm, cl_addr := ad, cl_port := p, cl_host := HLive, cl_client := HLive,
        cl_state := CONNECTING\<rparr>) = Inr (cl\<lparr>cl_name := nm, cl_addr := ad, cl_port := p, cl_host := HLive,
        cl_client := HLive, cl_state := CONNECTING, cl_out := t\<rparr>)"
      using msg_state_gives [of "cl\<lparr>cl_name := nm, cl_addr := ad, cl_port := p, cl_host := HLive,
        cl_client := HLive, cl_state := CONNECTING\<rparr>"] r by simp
    show "calm (cl\<lparr>cl_name := nm, cl_addr := ad, cl_port := p, cl_host := HLive, cl_client := HLive,
        cl_state := CONNECTING, cl_out := t\<rparr>)"
      using cl True d f r by (simp add: calm_def conn_ok_def fresh_client_def)
  qed
  have fine: "case net ?h ?p of Unresolved \<Rightarrow> True | NoHost ip \<Rightarrow> length ip + 1 < dmax | NoPeer ip \<Rightarrow> False
      | Started ip \<Rightarrow> length ip + 1 < dmax" using net by (simp add: net_fine_def)
  note run = cmd_connect_def read_cs_holds [OF a1(2)] read_cs_holds [OF a2(2)] Let_def
  show ?thesis
  proof (cases "net ?h ?p")
    case Unresolved
    then show ?thesis using True a1(1) a2(1) cl by (simp add: run)
  next
    case (NoHost i)
    with fine ip obtain ad where "dcpycs (cl_addr cl) i = Inr ad" "dholds (cstr i) ad" by auto
    then show ?thesis using NoHost True a1(1) a2(1) nm(1) found(1) by (simp add: run)
  next
    case (NoPeer i)
    then show ?thesis using fine by simp
  next
    case (Started i)
    with fine ip obtain ad where ad: "dcpycs (cl_addr cl) i = Inr ad" "dholds (cstr i) ad" by auto
    from found(2) [OF ad(2), of "ucast ?p"] obtain t where
      "msg_state (cl\<lparr>cl_name := nm, cl_addr := ad, cl_port := ucast ?p, cl_host := HLive, cl_client := HLive,
        cl_state := CONNECTING\<rparr>) = Inr (cl\<lparr>cl_name := nm, cl_addr := ad, cl_port := ucast ?p, cl_host := HLive,
        cl_client := HLive, cl_state := CONNECTING, cl_out := t\<rparr>)" by blast
    then show ?thesis using Started True a1(1) a2(1) nm(1) ad(1) found(3) [OF ad(2)] by (simp add: run)
  qed
next
  case False
  then show ?thesis using cl of_nat_eq_small [OF small(2), of 3] by (auto simp: cmd_connect_def)
qed

lemma drop_calm:
  assumes "cl_host cl = HLive" "cl_client cl = HLive" "calm (cl\<lparr>cl_client := HNull, cl_host := HNull, cl_state := DISCONNECTED\<rparr>)"
  shows "gives (drop_connection cl) calm"
proof -
  let ?cl = "cl\<lparr>cl_client := HNull, cl_host := HNull, cl_state := DISCONNECTED\<rparr>"
  obtain t where "msg_state ?cl = Inr (?cl\<lparr>cl_out := t\<rparr>)" using msg_state_gives [of ?cl] by auto
  then show ?thesis using assms by (simp add: drop_connection_def use_def)
qed

lemma disconnect_calm:
  assumes cl: "calm cl"
  shows "gives (cmd_disconnect cl) calm"
proof (cases "cl_state cl")
  case CONNECTED
  then obtain a where a: "crep cl a" and live: "cl_host cl = HLive" "cl_client cl = HLive"
    using cl by (auto simp: calm_def conn_ok_def)
  from a obtain as where as: "sinv (cl_svc cl) as" "set (voices (cl_peers cl)) \<subseteq> set as" by (elim crepE) blast
  from free_server_info_gives [OF a as] obtain cl1 bs where
    cl1: "free_server_info cl = Inr cl1" "cl_my_id cl1 = no_id"
      "cl_info cl1 = Inl NullDeref" "cl_peers cl1 = []" "cl_size cl1 = 0" "frame cl cl1" "sinv (cl_svc cl1) bs"
    by (auto simp: gives_def simp del: voices_simps)
  have "gives (drop_connection cl1) calm"
    by (rule drop_calm) (use cl1 live cl in \<open>auto simp: frame_def calm_def conn_ok_def fresh_client_def\<close>)
  then show ?thesis using CONNECTED cl1(1) by (simp add: cmd_disconnect_def)
next
  case CONNECTING
  have "gives (drop_connection cl) calm"
    by (rule drop_calm) (use CONNECTING cl in \<open>auto simp: calm_def conn_ok_def fresh_client_def\<close>)
  then show ?thesis using CONNECTING by (simp add: cmd_disconnect_def)
qed (use cl in \<open>simp add: cmd_disconnect_def\<close>)

lemma flags_calm:
  assumes cl: "calm cl" and v: "vrep True v ws" and n: "length ws < 2 ^ 32"
  shows "gives (cmd_mute (of_nat (length ws)) v cl) calm" "gives (cmd_deafen (of_nat (length ws)) v cl) calm"
proof -
  have flag: "\<exists>f. flag_of v = Inr f" if two: "length ws = 2"
  proof -
    obtain a where "arg v 1 = Inr a" "dholds (ws ! 1) a" by (rule arg_gives [OF v, of 1]) (use two in auto)
    then show ?thesis by (simp add: flag_of_def read_cs_holds)
  qed
  show "gives (cmd_mute (of_nat (length ws)) v cl) calm" "gives (cmd_deafen (of_nat (length ws)) v cl) calm"
    using cl flag of_nat_eq_small [OF n, of 2]
    by (cases "length ws = 2"; auto simp: cmd_mute_def cmd_deafen_def print_line_def)+
qed

text \<open>A command begins with a slash, so its first word is not empty.\<close>

lemma lex_slash:
  assumes "snd (lex (CHR ''/'' # xs)) = Some ws"
  shows "ws \<noteq> []" "hd ws \<noteq> []"
proof -
  define good_st where "good_st = (\<lambda>st :: lexst. case st of (e, q, w, ws) \<Rightarrow> if ws = [] then w \<noteq> [] else hd ws \<noteq> [])"
  have step: "good_st st \<Longrightarrow> good_st (lstep st c)" for st c
    by (induction st c rule: lstep.induct) (auto simp: good_st_def hd_append split: if_splits)
  have "good_st st \<Longrightarrow> good_st (foldl lstep st xs)" for st xs
    by (induction xs arbitrary: st) (simp_all add: step del: split_paired_All)
  moreover have "good_st (lstep (False, False, [], []) (CHR ''/''))" by (simp add: good_st_def)
  ultimately have "good_st (foldl lstep (False, False, [], []) (CHR ''/'' # xs))" by simp
  then show "ws \<noteq> []" "hd ws \<noteq> []"
    using assms by (cases "foldl lstep (False, False, [], []) (CHR ''/'' # xs)",
        auto simp: lex_def lfinish_def good_st_def split: if_splits)+
qed

definition line_fits :: "string \<Rightarrow> bool" where
  "line_fits l \<longleftrightarrow> length l + 1 < dmax \<and> lex_fits l"

lemma command_calm:
  assumes cl: "calm cl" and l: "dholds l str" "line_fits l" and net: "net_fine net"
  shows "gives (handle_input_command net str cl) (\<lambda>(cl', r). calm cl')"
proof (cases l)
  case Nil
  then have "dlen str = 0" using l(1) by (simp add: dholds_def drep_def unat_eq_0)
  then show ?thesis using cl by (simp add: handle_input_command_def)
next
  case (Cons c xs)
  have d: "drep str l" using l(1) by (simp add: dholds_def)
  then have n: "dlen str \<noteq> 0" "peek (ddata str) 0 = Inr c" "peeks (ddata str) 0 (unat (dlen str)) = Inr l"
    using Cons peeks_drep [OF d, of 0 "length l"] drep_len [OF d] peek_drep [OF d, of 0]
    by (auto simp: unat_gt_0)
  show ?thesis
  proof (cases "c = CHR ''/''")
    case False
    then show ?thesis using n cl
      by (simp add: handle_input_command_def enet_send_def calm_def conn_ok_def)
  next
    case True
    have fits: "length l + 1 < dmax" "lex_fits l" using l(2) by (simp_all add: line_fits_def)
    show ?thesis
    proof (cases "snd (lex l)")
      case None
      from dstrlex_parse_gives [OF d fits(2)] None obtain code where
        "dstrlex_parse str = Inr (code, None)" by (auto simp: gives_def lex_result_def)
      then show ?thesis using n True cl read_cs_holds [OF l(1)] by (simp add: handle_input_command_def)
    next
      case (Some ws)
      with lex_slash [of xs ws] Cons True have ws: "ws \<noteq> []" "hd ws \<noteq> []" by auto
      obtain code li l' argv a where p: "dstrlex_parse str = Inr (code, Some li)"
        "(ucast (lsize li) :: u32) = of_nat (length ws)" "dlist_tovector li = Inr argv" "vrep True argv ws"
        "dlist_free li = Inr l'" "arg argv 0 = Inr a" "dholds (hd ws) a"
        "\<forall>w\<in>set ws. length w + 1 < dmax" "length ws < 2 ^ 32"
        by (rule lexed_argv [OF d fits Some ws])
      have sel: "select_cmd a [''/connect'', ''/disconnect'', ''/quit'', ''/mute'', ''/deafen''] =
          Inr (if hd ws \<in> set [''/connect'', ''/disconnect'', ''/quit'', ''/mute'', ''/deafen''] then Some (hd ws) else None)"
        by (rule select_cmd_drep) (use p(7) in \<open>simp_all add: dholds_def cstr_def\<close>)
      obtain cl1 cl2 cl3 cl4 where r: "cmd_connect net (of_nat (length ws)) argv cl = Inr cl1" "calm cl1"
        "cmd_disconnect cl = Inr cl2" "calm cl2" "cmd_mute (of_nat (length ws)) argv cl = Inr cl3" "calm cl3"
        "cmd_deafen (of_nat (length ws)) argv cl = Inr cl4" "calm cl4"
        using connect_calm [OF cl p(4,8,9) net] disconnect_calm [OF cl] flags_calm [OF cl p(4,9)]
        by (auto simp: gives_def)
      show ?thesis using n True p(1-3,5,6) r cl read_cs_holds [OF p(7)]
        by (simp add: handle_input_command_def Let_def sel del: select_cmd.simps)
    qed
  qed
qed

section \<open>The queue\<close>

lemma queue_line_gives:
  assumes q: "dlrep True q qs" and l: "length l + 1 < dmax"
  shows "gives (queue_line l q) (\<lambda>q'. dlrep True q' (qs @ [l]))"
proof -
  have "gives (dfrommem (map Some l @ [Some nul]) 0 (of_nat (length l)))
      (\<lambda>s. dholds l s \<and> dcap s = (length l div 64 + 1) * 64)"
    by (rule dfrommem_gives) (use l in \<open>auto simp: unat_of_nat take_bit_nat_eq_self\<close>)
  then obtain s where s: "dfrommem (map Some l @ [Some nul]) 0 (of_nat (length l)) = Inr s" "drept True s l"
    by (auto simp: gives_def dholds_def drept_def)
  with dlrep_push [OF q s(2)] show ?thesis by (simp add: queue_line_def dlist_addmem_def)
qed

lemma queue_lines_gives:
  "dlrep True q qs \<Longrightarrow> \<forall>l\<in>set ls. length l + 1 < dmax \<Longrightarrow>
   gives (foldR queue_line ls q) (\<lambda>q'. dlrep True q' (qs @ ls))"
proof (induction ls arbitrary: q qs)
  case (Cons l ls)
  then obtain q1 where "queue_line l q = Inr q1" "dlrep True q1 (qs @ [l])"
    using queue_line_gives [of q qs l] by (auto simp: gives_def)
  with Cons.IH [of q1 "qs @ [l]"] Cons.prems show ?case by simp
qed simp

lemma take_line_gives:
  assumes q: "dlrep True (cm_queue st) (x # xs)" and x: "length x + 1 < dmax"
    and inp: "length (ddata (cm_input st)) = dcap (cm_input st)"
  shows "gives (take_line st) (\<lambda>st'. dholds x (cm_input st') \<and> dlrep True (cm_queue st') xs \<and>
    cm_client st' = cm_client st \<and> cm_done st' = cm_done st \<and> cm_error st' = cm_error st)"
proof -
  let ?q = "cm_queue st"
  from q obtain s ss where ss: "lrep ?q (s # ss)" "drept True s x" "list_all2 (drept True) ss xs"
    by (auto simp: dlrep_def list_all2_Cons2)
  then obtain a as where as: "linv ?q (a # as)" "vals ?q (a # as) = s # ss"
    by (auto simp: lrep_def vals_def)
  then obtain n where n: "lfront ?q = Some a" "lcells ?q a = Some n" "nval n = s"
    using linv_cell [OF as(1), of a] by (auto simp: linv_def vals_def)
  from dlist_erase_linv [of ?q "[]" a as] as obtain q' where
    q': "dlist_erase ?q a = Inr q'" "linv q' as" "vals q' as = ss"
    by (auto simp: gives_def vals_def)
  then have "dlrep True q' xs" using ss(3) by (auto simp: dlrep_def lrep_def)
  moreover obtain i where "dcpy (cm_input st) s = Inr i" "dholds x i"
    using dcpy_gives [OF inp, of s x] ss(2) x by (auto simp: gives_def drept_def dholds_def)
  ultimately show ?thesis using n q'(1) by (simp add: take_line_def)
qed

section \<open>The loop\<close>

definition look_ok :: "look \<Rightarrow> bool" where
  "look_ok lk \<longleftrightarrow> (\<forall>l\<in>set (lk_lines lk). line_fits l) \<and> net_fine (lk_net lk)"

definition arrivals :: "look list \<Rightarrow> nat" where
  "arrivals lks = (\<Sum>lk\<leftarrow>lks. length (lk_lines lk))"

text \<open>Between two turns the queue is empty, unless the loop is to end.\<close>

definition main_ok :: "('a::zero, 'd) cmain \<Rightarrow> string list \<Rightarrow> bool" where
  "main_ok st qs \<longleftrightarrow> calm (cm_client st) \<and> dlrep True (cm_queue st) qs \<and> (\<forall>l\<in>set qs. line_fits l) \<and>
     length (ddata (cm_input st)) = dcap (cm_input st)"

lemma input_loop_gives:
  "main_ok st qs \<Longrightarrow> \<forall>lk\<in>set lks. look_ok lk \<Longrightarrow> length qs + arrivals lks < length lks \<Longrightarrow>
   length lks < 2 ^ 64 \<Longrightarrow>
   gives (input_loop lks st) (\<lambda>st'. \<exists>qs'. main_ok st' qs' \<and> (cm_done st' \<or> qs' = []) \<and> cm_error st' = cm_error st)"
proof (induction lks arbitrary: st qs)
  case (Cons lk lks)
  let ?ls = "lk_lines lk"
  have lines: "\<forall>l\<in>set ?ls. line_fits l" and net: "net_fine (lk_net lk)"
    using Cons.prems(2) by (simp_all add: look_ok_def)
  from Cons.prems(1) have st: "calm (cm_client st)" "dlrep True (cm_queue st) qs" "\<forall>l\<in>set qs. line_fits l"
    "length (ddata (cm_input st)) = dcap (cm_input st)" by (simp_all add: main_ok_def)
  obtain q where q: "foldR queue_line ?ls (cm_queue st) = Inr q" "dlrep True q (qs @ ?ls)"
    using queue_lines_gives [OF st(2), of ?ls] lines by (auto simp: gives_def line_fits_def)
  define st1 where "st1 = st\<lparr>cm_queue := q, cm_done := cm_done st \<or> lk_sigint lk\<rparr>"
  have st1: "calm (cm_client st1)" "dlrep True (cm_queue st1) (qs @ ?ls)"
    "length (ddata (cm_input st1)) = dcap (cm_input st1)" "cm_error st1 = cm_error st"
    using st q(2) by (simp_all add: st1_def)
  have n: "length (qs @ ?ls) < 2 ^ 64" using Cons.prems(3,4) by (simp add: arrivals_def)
  have sz: "lsize q = of_nat (length (qs @ ?ls))" by (rule dlrep_size [OF q(2)])
  have "unat (lsize q) = length (qs @ ?ls)" unfolding sz
    using n by (simp add: unat_of_nat take_bit_nat_eq_self del: length_append of_nat_add)
  then have e: "lsize q = 0 \<longleftrightarrow> qs @ ?ls = []"
    by (metis length_0_conv unat_eq_0)
  show ?case
  proof (cases "qs @ ?ls")
    case Nil
    then have "main_ok st1 []" using st1 by (simp add: main_ok_def)
    moreover have "input_loop (lk # lks) st = Inr st1" using q(1) e Nil by (simp add: st1_def Let_def)
    ultimately show ?thesis using st1(4) by auto
  next
    case (Cons x xs)
    have xs: "line_fits x" "\<forall>l\<in>set xs. line_fits l"
      using st(3) lines arg_cong [OF Cons, of set] by auto
    obtain st2 where st2: "take_line st1 = Inr st2" "dholds x (cm_input st2)" "dlrep True (cm_queue st2) xs"
      "cm_client st2 = cm_client st1" "cm_error st2 = cm_error st1"
      using take_line_gives [of st1 x xs] st1(2,3) Cons xs(1) by (auto simp: gives_def line_fits_def)
    obtain cl r where r: "handle_input_command (lk_net lk) (cm_input st2) (cm_client st2) = Inr (cl, r)" "calm cl"
      using command_calm [of "cm_client st2", OF _ st2(2) xs(1) net] st1(1) st2(4) by (auto simp: gives_def)
    define st3 where "st3 = st2\<lparr>cm_client := cl, cm_done := r \<noteq> 0\<rparr>"
    have st3: "main_ok st3 xs" "cm_error st3 = cm_error st"
      using r(2) st2(2,3,5) xs(2) st1(4) by (auto simp: st3_def main_ok_def dholds_def intro: drep_cap)
    have run: "input_loop (lk # lks) st = (if r \<noteq> 0 then Inr st3 else input_loop lks st3)"
      using q(1) e Cons st2(1) r(1) by (simp add: st1_def [symmetric] st3_def Let_def)
    show ?thesis
    proof (cases "r = 0")
      case True
      have "length xs + arrivals lks < length lks"
        using Cons.prems(3) arg_cong [OF Cons, of length] by (simp add: arrivals_def)
      with Cons.IH [OF st3(1)] Cons.prems(2,4) True st3(2) show ?thesis unfolding run by simp
    next
      case False
      then show ?thesis unfolding run using st3 by (auto simp: st3_def)
    qed
  qed
qed simp

definition looks_ok :: "look list \<Rightarrow> bool" where
  "looks_ok lks \<longleftrightarrow> (\<forall>lk\<in>set lks. look_ok lk) \<and> arrivals lks < length lks \<and> length lks < 2 ^ 64"

definition rest_ok :: "turn \<Rightarrow> bool" where
  "rest_ok t \<longleftrightarrow> (\<forall>l\<in>set (tn_rest t). line_fits l) \<and> (tn_rest t = [] \<or> tn_eof t)"

text \<open>
  The turns: what the network brings is fair to the client as it then is, and the loop over the
  queue has a look for every line and one more.  A line that comes after the last look is one of
  the next turn, unless the stream has ended.
\<close>

fun fair_turns ::
  "'d \<Rightarrow> ('d \<Rightarrow> string \<Rightarrow> 'a option list \<Rightarrow> 'd \<times> 'a option list) \<Rightarrow> turn list \<Rightarrow>
   ('a::zero, 'd) cmain \<Rightarrow> bool" where
  "fair_turns d0 dec [] st \<longleftrightarrow> True"
| "fair_turns d0 dec (t # ts) st \<longleftrightarrow> cm_done st \<or>
     (cl_state (cm_client st) = CONNECTED \<longrightarrow> fair_network d0 dec (tn_events t) (cm_client st)) \<and>
     looks_ok (tn_looks t) \<and> rest_ok t \<and> (\<forall>st'. main_turn d0 dec t st = Inr st' \<longrightarrow> fair_turns d0 dec ts st')"

lemma main_ok_simps [simp]:
  "main_ok (st\<lparr>cm_done := b\<rparr>) qs = main_ok st qs" "main_ok (st\<lparr>cm_error := b\<rparr>) qs = main_ok st qs"
  by (simp_all add: main_ok_def)

lemma main_turn_gives:
  assumes st: "main_ok st []" and dec: "decoder_writes dec"
    and net: "cl_state (cm_client st) = CONNECTED \<longrightarrow> fair_network d0 dec (tn_events t) (cm_client st)"
    and looks: "looks_ok (tn_looks t)" and rest: "rest_ok t"
  shows "gives (main_turn d0 dec t st) (\<lambda>st'. \<exists>qs. main_ok st' qs \<and> (cm_done st' \<or> qs = []))"
proof -
  have "calm (cm_client st)" using st by (simp add: main_ok_def)
  from poll_gives [OF this dec net] obtain cl where
    cl: "poll_network d0 dec (tn_events t) (cm_client st) = Inr cl" "calm cl" by (auto simp: gives_def)
  define st1 where "st1 = st\<lparr>cm_client := cl, cm_done := cm_done st \<or> tn_sigint t\<rparr>"
  have st1: "main_ok st1 []" using st cl(2) by (simp add: main_ok_def st1_def)
  have "gives (if cm_done st1 then Inr st1 else input_loop (tn_looks t) st1)
      (\<lambda>st'. \<exists>qs. main_ok st' qs \<and> (cm_done st' \<or> qs = []))"
    using input_loop_gives [OF st1, of "tn_looks t"] looks st1
    by (auto simp: looks_ok_def elim: gives_mono)
  then obtain st2 qs where st2: "(if cm_done st1 then Inr st1 else input_loop (tn_looks t) st1) = Inr st2"
    "main_ok st2 qs" "cm_done st2 \<or> qs = []" by (auto simp: gives_def)
  have "dlrep True (cm_queue st2) qs" using st2(2) by (simp add: main_ok_def)
  from queue_lines_gives [OF this, of "tn_rest t"] rest obtain q where
    q: "foldR queue_line (tn_rest t) (cm_queue st2) = Inr q" "dlrep True q (qs @ tn_rest t)"
    by (auto simp: gives_def rest_ok_def line_fits_def)
  define st3 where "st3 = st2\<lparr>cm_queue := q, cm_error := cm_error st2 \<or> tn_eof t\<rparr>"
  have "main_turn d0 dec t st = Inr (if cm_error st3 then st3\<lparr>cm_done := True\<rparr> else st3)"
    by (simp only: main_turn_def cl(1) bindR_simps Let_def st1_def [symmetric] st2(1) q(1) st3_def [symmetric])
  moreover have "main_ok st3 (qs @ tn_rest t)"
    using st2(2) q(2) rest by (auto simp: main_ok_def rest_ok_def st3_def)
  moreover have "cm_error st3 \<or> cm_done st3 \<or> qs @ tn_rest t = []"
    using st2(3) rest by (auto simp: st3_def rest_ok_def)
  ultimately show ?thesis by auto
qed

lemma main_loop_gives:
  "main_ok st qs \<Longrightarrow> cm_done st \<or> qs = [] \<Longrightarrow> decoder_writes dec \<Longrightarrow> fair_turns d0 dec ts st \<Longrightarrow>
   gives (main_loop d0 dec ts st) (\<lambda>st'. \<exists>qs. main_ok st' qs)"
proof (induction ts arbitrary: st qs)
  case (Cons t ts)
  show ?case
  proof (cases "cm_done st")
    case False
    with Cons.prems main_turn_gives [of st dec d0 t] obtain st' qs' where
      "main_turn d0 dec t st = Inr st'" "main_ok st' qs'" "cm_done st' \<or> qs' = []"
      by (auto simp: gives_def)
    with False Cons show ?thesis by auto
  qed (use Cons.prems in auto)
qed auto

section \<open>The end\<close>

text \<open>A voice that has left: its decoder and its cage are gone, its links are still there.\<close>

definition emptied :: "('a, 'd) svc_in \<Rightarrow> nat \<Rightarrow> bool" where
  "emptied st a \<longleftrightarrow> (\<exists>n. lcells st a = Some n \<and> sp_decoder (nval n) = None \<and> nprev n = None \<and>
     (\<forall>b. nnext n = Some b \<longrightarrow> lcells st b \<noteq> None))"

lemma leave_first:
  assumes inv: "sinv st (a # as)" and l: "svc_peer_leave a st = Inr (st', freed)"
  shows "emptied st' a" "emptied st b \<Longrightarrow> emptied st' b"
proof -
  from inv obtain n where n: "lcells st a = Some n" "nprev n = None" "nnext n = first_ptr as None"
    by (auto simp: sinv_def)
  have "nnext n = Some c \<Longrightarrow> lcells st c \<noteq> None \<and> c \<noteq> a" for c
    using inv n by (cases as) (auto simp: sinv_def)
  then show "emptied st' a" "emptied st b \<Longrightarrow> emptied st' b"
    using n(1,2) l
    by (auto simp: svc_peer_leave_def Let_def cell_def set_prev_def set_val_def emptied_def owned_def
        bindR_eq_Inr split: if_splits option.splits)
qed

lemma leave_all_empties:
  "sinv st as \<Longrightarrow> leave_all k st = Inr st' \<Longrightarrow> a \<in> set as \<or> emptied st a \<Longrightarrow> emptied st' a"
proof (induction as arbitrary: st k)
  case Nil
  then show ?case by (simp add: leave_all.simps [of k st] sinv_def)
next
  case (Cons b as)
  from svc_peer_leave_gives [of st "[]" b as] Cons.prems(1) obtain st1 freed where
    l: "svc_peer_leave b st = Inr (st1, freed)" "sinv st1 as" by (auto simp: gives_def)
  have "si_list st = Some b" using Cons.prems(1) by (simp add: sinv_def)
  with Cons.prems(2) l(1) obtain k' where "leave_all k' st1 = Inr st'"
    by (auto simp: leave_all.simps [of k st] split: nat.splits)
  with Cons.IH [OF l(2)] leave_first [OF Cons.prems(1) l(1)] Cons.prems(3) show ?case by auto
qed

lemma leave_emptied: "emptied st a \<Longrightarrow> svc_peer_leave a st = Inl Dangling"
  by (auto simp: emptied_def svc_peer_leave_def Let_def cell_def set_prev_def owned_def split: if_splits)

text \<open>The loop that frees the peers goes up to the first one whose voice has left.\<close>

lemma free_cpeers_fault:
  assumes c: "crep cl a" and gone: "\<And>v. v \<in> set (voices (cl_peers cl)) \<Longrightarrow> emptied svc v"
  shows "\<forall>i\<in>set is. i < length (cl_peers cl) \<Longrightarrow> \<exists>i\<in>set is. voices [cl_peers cl ! i] \<noteq> [] \<Longrightarrow>
    foldR (free_cpeer cl) is svc = Inl Dangling"
proof (induction "is")
  case (Cons i "is")
  let ?p = "cl_peers cl ! i"
  have i: "i < length (cl_peers cl)" "i < length (ac_peers a)" using Cons.prems(1) c by (auto elim: crepE)
  note g = crep_get [OF c i(2)]
  show ?case
  proof (cases "voices [?p]")
    case (Cons v vs)
    then have p: "cp_connected ?p" "cp_peer ?p = Some v" by (auto split: if_splits option.splits)
    with g(2) obtain d kvs where d: "cp_data ?p = Inr d" "dsrep True d kvs"
      by (auto simp: cp_rep_def split: option.splits)
    obtain d' where "dsdict_free d = Inr d'" by (rule givesE [OF dsdict_free_gives [OF d(2)]])
    moreover have "v \<in> set (voices (cl_peers cl))"
      using voices_split(1) [OF i(1)] p by simp
    ultimately show ?thesis using g(1) p d(1) leave_emptied [OF gone] by (simp add: free_cpeer_def)
  next
    case Nil
    have "free_cpeer cl i svc = Inr svc"
    proof (cases "cp_connected ?p")
      case True
      with g(2) obtain d kvs where d: "cp_data ?p = Inr d" "dsrep True d kvs"
        by (auto simp: cp_rep_def split: option.splits)
      obtain d' where "dsdict_free d = Inr d'" by (rule givesE [OF dsdict_free_gives [OF d(2)]])
      then show ?thesis using True g(1) d(1) Nil by (auto simp: free_cpeer_def split: option.splits)
    qed (use g(1) in \<open>simp add: free_cpeer_def\<close>)
    moreover have "\<exists>i\<in>set is. voices [cl_peers cl ! i] \<noteq> []" using Cons.prems(2) Nil by auto
    ultimately show ?thesis using Cons.IH Cons.prems(1) by simp
  qed
qed simp

lemma voices_some: "voices ps \<noteq> [] \<Longrightarrow> \<exists>i<length ps. voices [ps ! i] \<noteq> []"
  by (induction ps rule: rev_induct) (fastforce simp: nth_append less_Suc_eq)+

lemma exit_frame: "free_cpeer (cl\<lparr>cl_out := t, cl_svc := svc, cl_info := x\<rparr>) = free_cpeer cl"
  by (simp add: free_cpeer_def get_cpeer_def fun_eq_iff)

lemma client_exit_faults:
  assumes st: "main_ok st qs" and conn: "cl_state (cm_client st) = CONNECTED"
    and v: "voices (cl_peers (cm_client st)) \<noteq> []"
  shows "client_exit st = Inl Dangling"
proof -
  let ?cl = "cm_client st"
  from st conn obtain a where a: "crep ?cl a" and live: "cl_host ?cl = HLive" "cl_client ?cl = HLive"
    by (auto simp: main_ok_def calm_def conn_ok_def)
  from a obtain as d where as: "sinv (cl_svc ?cl) as" "set (voices (cl_peers ?cl)) \<subseteq> set as"
    and d: "cl_info ?cl = Inr d" "dsrep True d (ac_info a)" "unat (cl_size ?cl) = length (cl_peers ?cl)"
    by (elim crepE) simp
  obtain svc where svc: "svc_incoming_close (cl_svc ?cl) = Inr svc"
    using svc_incoming_close_gives [OF as(1)] by (auto simp: gives_def)
  then have "emptied svc v" if "v \<in> set (voices (cl_peers ?cl))" for v
    using leave_all_empties [OF as(1), of _ svc v] that as(2) by (auto simp: svc_incoming_close_def)
  moreover obtain i where i: "i < length (cl_peers ?cl)" "voices [cl_peers ?cl ! i] \<noteq> []"
    using voices_some [OF v] by blast
  have "\<exists>i\<in>set [0..<length (cl_peers ?cl)]. voices [cl_peers ?cl ! i] \<noteq> []"
    by (rule bexI [where x = i]) (use i in simp_all)
  ultimately have "foldR (free_cpeer ?cl) [0..<length (cl_peers ?cl)] svc = Inl Dangling"
    by (intro free_cpeers_fault [OF a]) simp_all
  moreover have "dlrep True (cm_queue st) qs" using st by (simp add: main_ok_def)
  from givesE [OF dlist_free_gives [OF this]] obtain q where "dlist_free (cm_queue st) = Inr q" by blast
  moreover obtain d' where "dsdict_free d = Inr d'" by (rule givesE [OF dsdict_free_gives [OF d(2)]])
  moreover have "cl_peers ?cl \<noteq> []" using v by auto
  ultimately show ?thesis using svc live d(1,3)
    by (simp add: client_exit_def Let_def print_line_def quit_client_state_def use_def free_server_info_def
        free_info_def exit_frame)
qed

lemma client_exit_gives:
  assumes st: "main_ok st qs" and v: "voices (cl_peers (cm_client st)) = []"
  shows "gives (client_exit st) (\<lambda>cl. cl_peers cl = [] \<and> sinv (cl_svc cl) [])"
proof -
  let ?cl = "cm_client st"
  have cl: "calm ?cl" using st by (simp add: main_ok_def)
  then have hosts: "cl_host ?cl \<noteq> HFreed" "cl_client ?cl \<noteq> HFreed" by (simp_all add: calm_def)
  have "dlrep True (cm_queue st) qs" using st by (simp add: main_ok_def)
  from givesE [OF dlist_free_gives [OF this]] obtain q where q: "dlist_free (cm_queue st) = Inr q" by blast
  obtain as where "sinv (cl_svc ?cl) as"
    using cl by (auto simp: calm_def fresh_client_def crep_def split: if_splits)
  from svc_incoming_close_gives [OF this] obtain svc where
    svc: "svc_incoming_close (cl_svc ?cl) = Inr svc" "sinv svc []" by (auto simp: gives_def)
  define cl1 where "cl1 = print_line '':STATE exiting'' ?cl\<lparr>cl_svc := svc\<rparr>"
  have "gives (free_server_info cl1) (\<lambda>cl. cl_peers cl = [] \<and> sinv (cl_svc cl) [])"
  proof (cases "cl_state ?cl = CONNECTED")
    case True
    then obtain a where "crep ?cl a" using cl by (auto simp: calm_def)
    with v svc(2) have "crep cl1 a" by (auto simp: crep_def cl1_def print_line_def)
    moreover have "sinv (cl_svc cl1) []" "set (voices (cl_peers cl1)) \<subseteq> set []"
      using svc(2) v by (simp_all add: cl1_def print_line_def)
    ultimately show ?thesis using free_server_info_gives [of cl1 a "[]"] by (auto elim: gives_mono)
  next
    case False
    with cl svc(2) show ?thesis
      by (auto simp: calm_def fresh_client_def free_server_info_def free_info_def cl1_def print_line_def)
  qed
  moreover have "client_exit st = free_server_info cl1"
    using svc(1) q hosts
    by (cases "cl_host ?cl"; cases "cl_client ?cl")
      (simp_all add: client_exit_def Let_def cl1_def quit_client_state_def use_def print_line_def)
  ultimately show ?thesis by simp
qed

lemma init_main_ok: "sinv svc as \<Longrightarrow> main_ok (cmain_init svc) []"
  using init_calm [of svc as]
  by (simp add: main_ok_def cmain_init_def dnew_def)

text \<open>
  The whole program: its turns are handled, and the end is clean unless the client is still
  connected and has a voice.
\<close>

lemma client_main_gives:
  assumes dec: "decoder_writes dec"
    and svc: "svc_init e = (so, Inr svc)" and fair: "fair_turns d0 dec turns (cmain_init svc)"
  shows "\<exists>st qs. main_loop d0 dec turns (cmain_init svc) = Inr st \<and> main_ok st qs \<and>
    (if \<not> cm_done st then client_main True e d0 dec turns [] = Inr (Running st)
     else if voices (cl_peers (cm_client st)) = []
     then \<exists>cl. client_main True e d0 dec turns [] = Inr (Exited 0 (Some cl))
     else client_main True e d0 dec turns [] = Inl Dangling)"
proof -
  have i: "svc_incoming_init 1024 = Inr svc" using svc by (simp add: svc_init_def)
  have "gives (Inr svc) (\<lambda>st. sinv st [] \<and> si_frame st = 1024)"
    unfolding i [symmetric] by (rule svc_incoming_init_gives)
  then have "sinv svc []" by simp
  from main_loop_gives [OF init_main_ok [OF this] _ dec fair] obtain st qs where
    st: "main_loop d0 dec turns (cmain_init svc) = Inr st" "main_ok st qs" by (auto simp: gives_def)
  have run: "client_main True e d0 dec turns [] =
      (if cm_done st then bindR (client_exit st) (\<lambda>cl. Inr (Exited 0 (Some cl))) else Inr (Running st))"
    by (simp add: client_main_def svc st(1))
  have "client_exit st = Inl Dangling" if v: "voices (cl_peers (cm_client st)) \<noteq> []"
  proof -
    have "cl_state (cm_client st) = CONNECTED"
      using st(2) v by (auto simp: main_ok_def calm_def fresh_client_def split: if_splits)
    from client_exit_faults [OF st(2) this v] show ?thesis .
  qed
  moreover have "\<exists>cl. client_exit st = Inr cl" if "voices (cl_peers (cm_client st)) = []"
    using client_exit_gives [OF st(2) that] by (auto simp: gives_def)
  ultimately have "if \<not> cm_done st then client_main True e d0 dec turns [] = Inr (Running st)
     else if voices (cl_peers (cm_client st)) = []
     then \<exists>cl. client_main True e d0 dec turns [] = Inr (Exited 0 (Some cl))
     else client_main True e d0 dec turns [] = Inl Dangling"
    unfolding run by auto
  with st show ?thesis by blast
qed

section \<open>A signal\<close>

text \<open>A line that is no command never ends the loop, so it takes back a \<open>SIGINT\<close>.\<close>

lemma plain_line:
  assumes cl: "calm cl" and l: "dholds l str" and plain: "l = [] \<or> hd l \<noteq> CHR ''/''"
  shows "gives (handle_input_command net str cl) (\<lambda>(cl', r). calm cl' \<and> r = 0)"
proof (cases l)
  case Nil
  then have "dlen str = 0" using l by (simp add: dholds_def drep_def unat_eq_0)
  then show ?thesis using cl by (simp add: handle_input_command_def)
next
  case (Cons c xs)
  have d: "drep str l" using l by (simp add: dholds_def)
  then have "dlen str \<noteq> 0" "peek (ddata str) 0 = Inr c" "peeks (ddata str) 0 (unat (dlen str)) = Inr l"
    using Cons peeks_drep [OF d, of 0 "length l"] drep_len [OF d] peek_drep [OF d, of 0]
    by (auto simp: unat_gt_0)
  then show ?thesis using cl plain Cons
    by (simp add: handle_input_command_def enet_send_def calm_def conn_ok_def)
qed

lemma sigint_taken_back:
  assumes st: "main_ok st []" and l: "line_fits l" "l = [] \<or> hd l \<noteq> CHR ''/''"
  shows "gives (input_loop [\<lparr>lk_lines = [l], lk_sigint = True, lk_net = net\<rparr>,
      \<lparr>lk_lines = [], lk_sigint = False, lk_net = net'\<rparr>] st) (\<lambda>st'. main_ok st' [] \<and> \<not> cm_done st')"
proof -
  from st have q0: "dlrep True (cm_queue st) []" by (simp add: main_ok_def)
  obtain q where q: "queue_line l (cm_queue st) = Inr q" "dlrep True q [l]"
    using queue_line_gives [OF q0, of l] l(1) by (auto simp: gives_def line_fits_def)
  have n: "lsize q \<noteq> 0" using dlrep_size [OF q(2)] by simp
  define st1 where "st1 = st\<lparr>cm_queue := q, cm_done := True\<rparr>"
  have st1: "calm (cm_client st1)" "dlrep True (cm_queue st1) [l]" "length (ddata (cm_input st1)) = dcap (cm_input st1)"
    using st q(2) by (simp_all add: st1_def main_ok_def)
  obtain st2 where st2: "take_line st1 = Inr st2" "dholds l (cm_input st2)" "dlrep True (cm_queue st2) []"
    "cm_client st2 = cm_client st1"
    using take_line_gives [OF st1(2) _ st1(3)] l(1) by (auto simp: gives_def line_fits_def)
  obtain cl where cl: "handle_input_command net (cm_input st2) (cm_client st2) = Inr (cl, 0)" "calm cl"
    using plain_line [of "cm_client st2", OF _ st2(2) l(2), of net] st1(1) st2(4) by (auto simp: gives_def)
  have z: "lsize (cm_queue st2) = 0" using dlrep_size [OF st2(3)] by simp
  have "input_loop [\<lparr>lk_lines = [l], lk_sigint = True, lk_net = net\<rparr>,
      \<lparr>lk_lines = [], lk_sigint = False, lk_net = net'\<rparr>] st = Inr (st2\<lparr>cm_client := cl, cm_done := False\<rparr>)"
    using q(1) n st2(1) cl(1) z by (simp add: st1_def [symmetric] Let_def)
  moreover have "main_ok (st2\<lparr>cm_client := cl, cm_done := False\<rparr>) []"
    using cl(2) st2(2,3) by (auto simp: main_ok_def dholds_def intro: drep_cap)
  ultimately show ?thesis by simp
qed

section \<open>The lines of the standard input\<close>

definition thread_line :: "string \<Rightarrow> bool" where
  "thread_line l \<longleftrightarrow> newline \<notin> set l \<and> nul \<notin> set l \<and> length l + 2 \<le> input_buffer_size"

lemma cstr_whole: "nul \<notin> set l \<Longrightarrow> cstr l = l"
  by (auto simp: cstr_def takeWhile_eq_all_conv)

lemma fgets_line:
  assumes "newline \<notin> set l" "length l + 2 \<le> n"
  shows "fgets n (l @ newline # rest) = Some (l @ [newline], rest)"
proof -
  have t: "takeWhile (\<lambda>c. c \<noteq> newline) (l @ newline # rest) = l"
    using assms(1) by (subst takeWhile_append2) auto
  have "min (n - 1) (Suc (length l)) = Suc (length l)" using assms(2) by arith
  then show ?thesis by (simp add: fgets_def t Let_def)
qed

lemma fgets_last:
  assumes "newline \<notin> set l" "length l + 2 \<le> n" "l \<noteq> []"
  shows "fgets n l = Some (l, [])"
proof -
  have t: "takeWhile (\<lambda>c. c \<noteq> newline) l = l"
    using assms(1) by (auto simp: takeWhile_eq_all_conv)
  have "min (n - 1) (length l) = length l" using assms(2) by arith
  then show ?thesis using assms(3) by (simp add: fgets_def t)
qed

lemma thread_queues:
  assumes q: "dlrep True q qs" and l: "thread_line l"
  obtains q' where "queue_line l q = Inr q'" "dlrep True q' (qs @ [l])"
proof -
  have "length l + 1 < dmax" using l by (simp add: thread_line_def input_buffer_size_def)
  from queue_line_gives [OF q this] that show thesis by (auto simp: gives_def)
qed

lemma input_thread_gives:
  assumes "dlrep True q qs" "\<forall>l\<in>set ls. thread_line l" "thread_line rest"
  shows "gives (input_thread (concat (map (\<lambda>l. l @ [newline]) ls) @ rest) q)
    (\<lambda>q'. dlrep True q' (qs @ ls @ (if rest = [] then [] else [rest])))"
  using assms
proof (induction ls arbitrary: q qs)
  case Nil
  show ?case
  proof (cases "rest = []")
    case True
    then show ?thesis using Nil(1) by (simp add: input_thread.simps [of "[]"] input_turn_def fgets_def)
  next
    case False
    obtain q' where q': "queue_line rest q = Inr q'" "dlrep True q' (qs @ [rest])"
      by (rule thread_queues [OF Nil(1,3)])
    have "cstr rest = rest" "last rest \<noteq> newline"
      using Nil(3) last_in_set [OF False] by (auto simp: thread_line_def cstr_whole)
    then show ?thesis using False q' fgets_last [OF _ _ False, of input_buffer_size] Nil(3)
      by (simp add: thread_line_def input_thread.simps [of rest] input_thread.simps [of "[]"] input_turn_def fgets_def [of _ "[]"])
  qed
next
  case (Cons l ls)
  let ?s = "concat (map (\<lambda>l. l @ [newline]) ls) @ rest"
  obtain q' where q': "queue_line l q = Inr q'" "dlrep True q' (qs @ [l])"
    by (rule thread_queues [OF Cons.prems(1)]) (use Cons.prems(2) in auto)
  have l: "thread_line l" using Cons.prems(2) by simp
  then have "cstr (l @ [newline]) = l @ [newline]"
    by (intro cstr_whole) (simp add: thread_line_def)
  then have "input_turn (l @ newline # ?s) q = Inr (Some (q', ?s))"
    using fgets_line [of l input_buffer_size ?s] l q'(1) by (simp add: thread_line_def input_turn_def Let_def)
  then have "input_thread (l @ newline # ?s) q = input_thread ?s q'"
    by (simp add: input_thread.simps [of "l @ newline # ?s"])
  with Cons.IH [OF q'(2)] Cons.prems(2,3) show ?case by simp
qed

end
