(* ===== verification/MainProps.thy ===== *)
theory MainProps
  imports GuiProps ServerMain ClientRun
begin

text \<open>
  The properties of the main programs of the server and of the client.
\<close>

section \<open>The server\<close>


definition first_round :: "nat round" where
  "first_round = \<lparr>rd_events = [(welcoming, welcoming, Connect 7)], rd_logic = welcoming, rd_now = (5, 0)\<rparr>"


section \<open>The client\<close>


definition quitting :: turn where
  "quitting = \<lparr>tn_events = [], tn_sigint = False,
     tn_looks = [\<lparr>lk_lines = [''/mute 1''], lk_sigint = False, lk_net = nowhere\<rparr>,
       \<lparr>lk_lines = [''/quit''], lk_sigint = False, lk_net = nowhere\<rparr>,
       \<lparr>lk_lines = [], lk_sigint = False, lk_net = nowhere\<rparr>],
     tn_rest = [], tn_eof = False\<rparr>"

lemma quitting_ok: "looks_ok (tn_looks quitting)" "rest_ok quitting"
  by (simp_all add: quitting_def rest_ok_def looks_ok_def look_ok_def line_fits_def arrivals_def net_fine_def nowhere_def
      lex_fits_short)

lemma deaf_writes: "decoder_writes deaf"
  by (auto simp: decoder_writes_def deaf_def)


text \<open>C10: a client that ends while it is connected and has the voice of another peer hands the
  voice to \<open>svc_peer_leave\<close> a second time: \<open>svc_close\<close> has already destroyed its decoder.\<close>

theorem exit_with_voices:
  assumes "main_ok st qs" and "cl_state (cm_client st) = CONNECTED"
    and "crep (cm_client st) a" and "peer_at (ac_peers a) i = Some (kvs, True)"
  shows "client_exit st = Inl Dangling"
proof -
  have i: "i < length (ac_peers a)" "ac_peers a ! i = Some (kvs, True)"
    using assms(4) by (auto simp: peer_at_def split: if_splits)
  note g = crep_get [OF assms(3) i(1)]
  have "voices [cl_peers (cm_client st) ! i] \<noteq> []" using g(2) i(2) by (auto simp: cp_rep_def)
  then have "voices (cl_peers (cm_client st)) \<noteq> []" using voices_split(1) [OF g(3)] by simp
  from client_exit_faults [OF assms(1,2) this] show ?thesis .
qed

theorem exit_with_voices_witness:
  "\<exists>cl :: (int, unit) client. handle_server_msg () (peer_line ''PADD '' 2) client_h = Inr cl \<and>
     client_exit \<lparr>cm_client = cl, cm_queue = dlist_new, cm_error = False, cm_done = True, cm_input = dnew\<rparr> =
       Inl Dangling"
proof -
  have "crep client_h \<lparr>ac_id = no_id, ac_info = [], ac_peers = []\<rparr>"
    using crep0 by (simp add: crep_def client_h_def)
  from givesE [OF third_joins [OF this, of "()"]] obtain cl where
    cl: "handle_server_msg () (peer_line ''PADD '' 2) client_h = Inr cl" "crep cl third_peer" by blast
  let ?st = "\<lparr>cm_client = cl, cm_queue = dlist_new, cm_error = False, cm_done = True, cm_input = dnew\<rparr>"
  have f: "frame client_h cl" using cl(1) by (rule msg_frame)
  then have s: "cl_state cl = CONNECTED" by (simp add: frame_def client_h_def client0_def)
  have "calm cl"
    using f s cl(2) by (auto simp: calm_def conn_ok_def frame_def readable_def client_h_def client0_def
        name_h_def dnew_def)
  then have "main_ok ?st []" by (simp add: main_ok_def dnew_def)
  from exit_with_voices [OF this, of third_peer 2 "[]"] cl s
  have "client_exit ?st = Inl Dangling" by (simp add: third_peer_def peer_at_def)
  with cl(1) show ?thesis by blast
qed

text \<open>C39: the input thread ends with its stream and has put every line of it into the queue, in
  order, the last one too when no newline ends it.\<close>

theorem input_thread_lines:
  "dlrep True q qs \<Longrightarrow> \<forall>l\<in>set ls. thread_line l \<Longrightarrow> thread_line rest \<Longrightarrow>
   gives (input_thread (concat (map (\<lambda>l. l @ [newline]) ls) @ rest) q)
     (\<lambda>q'. dlrep True q' (qs @ ls @ (if rest = [] then [] else [rest])))"
  by (rule input_thread_gives)

theorem input_thread_lines_witness:
  "gives (input_thread (''/mute 1'' @ newline # newline # ''bye'') dlist_new)
     (\<lambda>q'. dlrep True q' [''/mute 1'', [], ''bye''])"
  using input_thread_lines [of dlist_new "[]" "[''/mute 1'', []]" "''bye''"]
  by (simp add: thread_line_def input_buffer_size_def)

end
