(* ===== verification/World.thy ===== *)
theory World
  imports ServerMain ClientLife
begin

text \<open>
  The server together with all its clients: every client that is connected has its place in
  the server's table, the packets on their way to it, and its own state.  Each of them is in a
  session of its own (\<open>Protocol\<close>), whatever the others do, and so all of them come to
  hold the same data; a voice packet goes from one client through the server to another.
\<close>

section \<open>The server's data is what its state says\<close>

lemma dinv_unique: "dinv d as \<Longrightarrow> dinv d bs \<Longrightarrow> as = bs"
  by (auto simp: dinv_def intro: linv_unique_aux)

lemma ddentry_unique: "ddentry x a \<Longrightarrow> ddentry x b \<Longrightarrow> a = b"
  by (cases a; cases b) (auto simp: ddentry_def dest: drep_unique)

lemma entries_unique: "list_all2 ddentry xs as \<Longrightarrow> list_all2 ddentry xs bs \<Longrightarrow> as = bs"
proof (induction xs arbitrary: as bs)
  case (Cons x xs)
  then show ?case by (auto simp: list_all2_Cons1 dest: ddentry_unique)
qed simp

lemma ddrep_unique: "ddrep d kvs \<Longrightarrow> ddrep d kvs' \<Longrightarrow> kvs = kvs'"
  by (metis ddrep_def dinv_unique entries_unique)

lemma peer_rep_unique: "peer_rep i p a \<Longrightarrow> peer_rep i p b \<Longrightarrow> a = b"
  by (cases a; cases b) (auto simp: peer_rep_def dest: ddrep_unique)

lemma srep_unique:
  assumes "srep s sd ps" "srep s sd' ps'"
  shows "sd = sd'" "ps = ps'"
proof -
  from assms show "sd = sd'" by (auto simp: srep_def dest: ddrep_unique)
  have l: "length ps = length ps'" using assms by (simp add: srep_def)
  show "ps = ps'"
  proof (rule nth_equalityI [OF l])
    fix i assume "i < length ps"
    with assms l show "ps ! i = ps' ! i"
      using peer_rep_unique [of i "sv_peers s ! i" "ps ! i" "ps' ! i"] by (simp add: srep_def)
  qed
qed

section \<open>The steps\<close>

text \<open>A client that is connected: its place, the packets on their way to it, its state.\<close>

type_synonym ('p, 'a, 'd) clients = "'p \<Rightarrow> (nat \<times> string list \<times> ('a, 'd) client) option"

text \<open>What the server sends goes on its way to every client it is for.\<close>

definition reach :: "'p action list \<Rightarrow> ('p, 'a, 'd) clients \<Rightarrow> ('p, 'a, 'd) clients" where
  "reach acts W = (\<lambda>e. map_option (\<lambda>(i, ms, cl). (i, ms @ inbox e acts, cl)) (W e))"

lemma reach_simps [simp]:
  "reach acts W e = None \<longleftrightarrow> W e = None"
  "reach acts W e = Some (i, ns, cl) \<longleftrightarrow> (\<exists>ms. W e = Some (i, ms, cl) \<and> ns = ms @ inbox e acts)"
  by (auto simp: reach_def)

text \<open>
  The states the server and its clients go through from an empty table on.  A client joins
  unless the script rejects it; it reads its packets in the order they were sent, each at a
  time of its own.
\<close>

inductive world :: "'d \<Rightarrow> 'p server \<Rightarrow> ('p, 'a::zero, 'd) clients \<Rightarrow> bool" for d0 where
  boot: "serving s \<Longrightarrow> sv_peers s = [] \<Longrightarrow> world d0 s (\<lambda>_. None)"
| joins: "world d0 s W \<Longrightarrow> W e = None \<Longrightarrow> fresh_client cl \<Longrightarrow> script_ok jim tame \<Longrightarrow>
    handle_peer_connect jim e s = Inr (s', i) \<Longrightarrow> Disconnect e \<notin> set (sent_since s s') \<Longrightarrow>
    world d0 s' ((reach (sent_since s s') W)(e \<mapsto> (i, inbox e (sent_since s s'), cl)))"
| rejected: "world d0 s W \<Longrightarrow> W e = None \<Longrightarrow> script_ok jim tame \<Longrightarrow>
    handle_peer_connect jim e s = Inr (s', i) \<Longrightarrow> Disconnect e \<in> set (sent_since s s') \<Longrightarrow>
    world d0 s' (reach (sent_since s s') W)"
| leaves: "world d0 s W \<Longrightarrow> W e = Some (i, ms, cl) \<Longrightarrow> script_ok jim tame \<Longrightarrow>
    handle_peer_disconnect jim e i s = Inr s' \<Longrightarrow> world d0 s' ((reach (sent_since s s') W)(e := None))"
| sends: "world d0 s W \<Longrightarrow> W e = Some (i, ms, cl) \<Longrightarrow> script_ok jim tame \<Longrightarrow> script_ok jimv tame \<Longrightarrow>
    handle_event jim jimv (Receive i ch data) s = Inr s' \<Longrightarrow> world d0 s' (reach (sent_since s s') W)"
| logic: "world d0 s W \<Longrightarrow> script_ok jim tame \<Longrightarrow> logic_turn jim dt s = Inr s' \<Longrightarrow>
    world d0 s' (reach (sent_since s s') W)"
| reads: "world d0 s W \<Longrightarrow> W e = Some (i, m # ms, cl) \<Longrightarrow> handle_server_msg d0 m cl = Inr cl' \<Longrightarrow>
    world d0 s (W(e \<mapsto> (i, ms, cl')))"

section \<open>Every client is in a session\<close>

definition everyone :: "'d \<Rightarrow> 'p server \<Rightarrow> ('p, 'a::zero, 'd) clients \<Rightarrow> bool" where
  "everyone d0 s W \<longleftrightarrow> (\<forall>e i ms cl. W e = Some (i, ms, cl) \<longrightarrow> session d0 i e s ms cl)"

definition place :: "('p, 'a, 'd) clients \<Rightarrow> 'p \<Rightarrow> nat option" where
  "place W e = map_option fst (W e)"

definition seat :: "'p apeer option list \<Rightarrow> nat \<Rightarrow> 'p option" where
  "seat ps j = map_option fst (peer_at ps j)"

text \<open>The table's places are those of the clients.\<close>

definition seated :: "('p, 'a, 'd) clients \<Rightarrow> 'p apeer option list \<Rightarrow> bool" where
  "seated W ps \<longleftrightarrow> (\<forall>e j. seat ps j = Some e \<longleftrightarrow> place W e = Some j)"

lemma everyoneD: "everyone d0 s W \<Longrightarrow> W e = Some (i, ms, cl) \<Longrightarrow> session d0 i e s ms cl"
  by (simp add: everyone_def)

lemma seated_only_at: "seated W ps \<Longrightarrow> only_at e (place W e) ps"
  by (simp add: seated_def only_at_def seat_def)

lemma place_simps [simp]:
  "place (reach acts W) e = place W e"
  "place (W(e := r)) e' = (if e' = e then map_option fst r else place W e')"
  by (auto simp: place_def reach_def option.map_comp comp_def case_prod_beta)

lemma placeI: "W e = Some (i, x) \<Longrightarrow> place W e = Some i" "W e = None \<Longrightarrow> place W e = None"
  by (simp_all add: place_def)

lemma seat_update: "i < length ps \<Longrightarrow> seat (ps[i := x]) j = (if j = i then map_option fst x else seat ps j)"
  by (simp add: seat_def peer_at_update)

lemma seated_reach [simp]: "seated (reach acts W) ps = seated W ps"
  by (simp add: seated_def)

lemma seated_endpoints: "endpoints ps' = endpoints ps \<Longrightarrow> seated W ps' = seated W ps"
  using endpoints_at [of ps' ps] by (simp add: seated_def seat_def)

text \<open>Two clients have two places.\<close>

lemma seated_apart: "seated W ps \<Longrightarrow> place W e = Some i \<Longrightarrow> place W e' = Some i \<Longrightarrow> e = e'"
  unfolding seated_def by (metis option.inject)

lemma seat_table: "seat (table ps) j = seat ps j"
  by (simp add: seat_def table_def peer_at_def)

lemma seated_joined:
  assumes "seated W ps" "place W e = None" "free_at ps k"
  shows "seated (W(e \<mapsto> (k, x))) (joined e k ps)"
proof -
  have k: "k < length (table ps)" "table ps ! k = None" using assms(3) by (simp_all add: free_at_def)
  have "seat (table ps) k = None" using k by (simp add: seat_def peer_at_def)
  then have "seat ps k = None" by (simp only: seat_table)
  moreover have "(seat (joined e k ps) j = Some e') = (if j = k then e' = e else seat ps j = Some e')" for j e'
    using k(1) by (auto simp: joined_def seat_update seat_table)
  moreover have "place W e' \<noteq> Some k" for e' using assms(1) \<open>seat ps k = None\<close> unfolding seated_def by force
  ultimately show ?thesis using assms(1,2) unfolding seated_def by auto
qed

lemma seated_left:
  assumes "seated W ps" "place W e = Some i" "i < length ps"
  shows "seated (W(e := None)) (ps[i := None])"
  unfolding seated_def
proof (intro allI)
  fix e' j
  show "(seat (ps[i := None]) j = Some e') = (place (W(e := None)) e' = Some j)"
  proof (cases "j = i")
    case True
    then show ?thesis using seated_apart [OF assms(1,2), of e'] assms(3) by (auto simp: seat_update)
  next
    case False
    then show ?thesis using assms unfolding seated_def by (simp add: seat_update)
  qed
qed

section \<open>What a step does to the others\<close>

lemma idle_ok: "script_ok (\<lambda>t s. (s, None)) tame"
  by (auto simp: script_ok_def tame_def intro: a_none)

lemma everyone_event:
  assumes "everyone d0 s W" "script_ok jim tame" "script_ok jimv tame" "handle_event jim jimv ev s = Inr s'"
    and "\<And>e i ms cl. W e = Some (i, ms, cl) \<Longrightarrow> spares i e ev"
  shows "everyone d0 s' (reach (sent_since s s') W)"
  unfolding everyone_def
proof (intro allI impI)
  fix e i ns cl
  assume "reach (sent_since s s') W e = Some (i, ns, cl)"
  then obtain ms where ms: "W e = Some (i, ms, cl)" "ns = ms @ inbox e (sent_since s s')" by auto
  from session.event [OF everyoneD [OF assms(1) ms(1)] assms(5) [OF ms(1)] assms(2-4)] ms(2)
  show "session d0 i e s' ns cl" by simp
qed

lemma everyone_logic:
  assumes "everyone d0 s W" "script_ok jim tame" "logic_turn jim dt s = Inr s'"
  shows "everyone d0 s' (reach (sent_since s s') W)"
  using assms by (auto simp: everyone_def intro: session.logic)

lemma everyone_connect:
  assumes "everyone d0 s W" "W e = None" "script_ok jim tame" "handle_peer_connect jim e s = Inr (s', i)"
  shows "everyone d0 s' (reach (sent_since s s') W)"
proof (rule everyone_event [OF assms(1,3) idle_ok])
  show "handle_event jim (\<lambda>t s. (s, None)) (Connect e) s = Inr s'" using assms(4) by (simp add: handle_event_def)
qed (use assms(2) in \<open>auto simp: spares_def\<close>)

lemma everyone_update:
  assumes "everyone d0 s W" "\<And>i ms cl. r = Some (i, ms, cl) \<Longrightarrow> session d0 i e s ms cl"
  shows "everyone d0 s (W(e := r))"
  using assms by (auto simp: everyone_def)

text \<open>The departure of one client is an event for the others.\<close>

lemma everyone_left:
  assumes "everyone d0 s W" "seated W ps" "place W e = Some i" "script_ok jim tame"
    and "handle_peer_disconnect jim e i s = Inr s'"
  shows "everyone d0 s' ((reach (sent_since s s') W)(e := None))"
proof -
  have "everyone d0 s (W(e := None))" using assms(1) by (rule everyone_update) simp
  then have "everyone d0 s' (reach (sent_since s s') (W(e := None)))"
  proof (rule everyone_event [OF _ assms(4) idle_ok])
    show "handle_event jim (\<lambda>t s. (s, None)) (Disconnected e i) s = Inr s'" using assms(5) by (simp add: handle_event_def)
    fix e' j ms cl
    assume "(W(e := None)) e' = Some (j, ms, cl)"
    then show "spares j e' (Disconnected e i)"
      using seated_apart [OF assms(2,3), of e'] by (auto simp: spares_def place_def split: if_splits)
  qed
  moreover have "reach (sent_since s s') (W(e := None)) = (reach (sent_since s s') W)(e := None)"
    by (auto simp: reach_def)
  ultimately show ?thesis by simp
qed

section \<open>The invariant\<close>

definition world_ok :: "'d \<Rightarrow> 'p server \<Rightarrow> ('p, 'a::zero, 'd) clients \<Rightarrow> bool" where
  "world_ok d0 s W \<longleftrightarrow> (\<exists>sd ps. srep s sd ps \<and> good sd ps \<and> seated W ps) \<and> everyone d0 s W"

lemma world_okI: "srep s sd ps \<Longrightarrow> good sd ps \<Longrightarrow> seated W ps \<Longrightarrow> everyone d0 s W \<Longrightarrow> world_ok d0 s W"
  by (auto simp: world_ok_def)

lemma connect_free:
  assumes "srep s sd ps" "handle_peer_connect jim e s = Inr r"
  obtains k where "free_at ps k"
proof -
  have "ps = [] \<or> None \<in> set ps"
    using get_new_peer_full [OF assms(1)] assms(2) by (fastforce simp: handle_peer_connect_def)
  then show thesis using free_at_ex that by blast
qed

lemma acts_send: "acts_on ok sd ps sd' ps' acts \<Longrightarrow> Disconnect e \<notin> set acts"
  by (induction rule: acts_on.induct) auto

lemma world_connect:
  assumes s: "srep s sd ps" "good sd ps" "seated W ps" and e: "W e = None" and jim: "script_ok jim tame"
    and s': "handle_peer_connect jim e s = Inr (s', i)"
  obtains sd' ps' where "srep s' sd' ps'" "good sd' ps'" "only_at e None ps"
    "Disconnect e \<notin> set (sent_since s s') \<Longrightarrow> seated (W(e \<mapsto> (i, x))) ps'"
    "Disconnect e \<in> set (sent_since s s') \<Longrightarrow> seated W ps'"
proof -
  obtain k where k: "free_at ps k" using connect_free [OF s(1) s'] .
  then have kl: "k < length (table ps)" by (simp add: free_at_def)
  have o: "only_at e None ps" using seated_only_at [OF s(3), of e] e by (simp add: placeI)
  have j: "seated (W(e \<mapsto> (k, x))) (joined e k ps)" by (rule seated_joined [OF s(3) _ k]) (simp add: placeI e)
  from connect_good [OF jim s(1,2) k, of e] s' obtain sd1 ps1 acts r where
    s1: "i = k" "acts_on harmless sd (joined e k ps) sd1 ps1 acts" "good sd1 ps1"
    "endpoints ps1 = endpoints (joined e k ps)"
    "if accepted r then srep s' sd1 ps1 \<and> sv_log s' = sv_log s @ acts @ greet_log k e sd1 ps1
     else srep s' sd1 (ps1[k := None]) \<and> sv_log s' = sv_log s @ acts @ [Disconnect e]"
    unfolding gives_def by auto
  have k1: "k < length ps1" using endpoints_nth(1) [OF s1(4)] kl by (simp add: joined_def)
  have j1: "seated (W(e \<mapsto> (k, x))) ps1" using j by (simp add: seated_endpoints [OF s1(4)])
  from seated_left [OF this _ k1, of e] e have l1: "seated W (ps1[k := None])" by (simp add: fun_upd_idem)
  show thesis
  proof (cases "accepted r")
    case True
    have "Disconnect e \<notin> set (greet_log k e sd1 ps1)" by (auto simp: greet_log_def bcast_def split: option.splits if_splits)
    moreover have "Disconnect e \<notin> set acts" by (rule acts_send [OF s1(2)])
    ultimately have "Disconnect e \<notin> set (sent_since s s')" using s1(5) True by (simp add: sent_since_def)
    with that [of sd1 ps1] True s1(1,3,5) o j1 show thesis by simp
  next
    case False
    then have "Disconnect e \<in> set (sent_since s s')" using s1(5) by (simp add: sent_since_def)
    with that [of sd1 "ps1[k := None]"] False s1(5) o l1 good_remove [OF s1(3) k1] show thesis by simp
  qed
qed

text \<open>The server's part of the steps that change nobody's place.\<close>

lemma script_seated:
  assumes "script_ok jim tame" "srep s sd ps" "good sd ps" "seated W ps"
  obtains sd' ps' where "srep (fst (jim t s)) sd' ps'" "good sd' ps'" "seated W ps'"
proof (rule script_good [OF assms(1-3), of t])
  fix s' sd' ps' acts r
  assume s': "jim t s = (s', r)" "srep s' sd' ps'" "good sd' ps'" and e: "endpoints ps' = endpoints ps"
  have "seated W ps'" using assms(4) seated_endpoints [OF e, of W] by simp
  with that [of sd' ps'] s' show thesis by simp
qed

lemma receive_seated:
  assumes jim: "script_ok jim tame" "script_ok jimv tame" and s: "srep s sd ps" "good sd ps" "seated W ps"
    and s': "handle_event jim jimv (Receive i ch data) s = Inr s'"
  obtains sd' ps' where "srep s' sd' ps'" "good sd' ps'" "seated W ps'"
proof -
  have "\<exists>sd' ps'. srep (fst (jim t (s\<lparr>sv_audio := x\<rparr>))) sd' ps' \<and> good sd' ps' \<and> seated W ps'" for t x
  proof (rule script_seated [OF jim(1) _ s(2,3), of "s\<lparr>sv_audio := x\<rparr>" t])
    show "srep (s\<lparr>sv_audio := x\<rparr>) sd ps" using s(1) by simp
  qed blast
  moreover have "\<exists>sd' ps'. srep (fst (jimv ws s)) sd' ps' \<and> good sd' ps' \<and> seated W ps'" for ws
    by (rule script_seated [OF jim(2) s, of ws]) blast
  moreover consider "s' = s" | ws where "s' = fst (jimv ws s)"
    | t x where "s' = (fst (jim t (s\<lparr>sv_audio := Some x\<rparr>)))\<lparr>sv_audio := None\<rparr>"
    using s' by (auto simp: handle_event_def handle_packet_input_audio_def handle_packet_input_command_def Let_def
        bindR_eq_Inr split: sum.splits option.splits if_splits)
  ultimately show thesis using that s by cases (metis srep_audio)+
qed

lemma seated_clean: "seated W (map clean ps) = seated W ps"
  by (simp add: seated_def seat_def peer_at_clean clean_def option.map_comp comp_def case_prod_beta)

lemma logic_seated:
  assumes jim: "script_ok jim tame" and s: "srep s sd ps" "good sd ps" "seated W ps"
    and s': "logic_turn jim dt s = Inr s'"
  obtains sd' ps' where "srep s' sd' ps'" "good sd' ps'" "seated W ps'"
proof (rule script_seated [OF jim s, of "''on_logic '' @ dec_nat (unat dt)"])
  let ?s = "fst (jim (''on_logic '' @ dec_nat (unat dt)) s)"
  fix sd1 ps1
  assume s1: "srep ?s sd1 ps1" "good sd1 ps1" "seated W ps1"
  then have k: "kvs_ok sd1" "table_ok ps1" "load sd1 ps1 < 2 ^ 24" by (simp_all add: good_def)
  have "gives (send_modified_data ?s) (\<lambda>s'. srep s' (clear sd1) (map clean ps1) \<and>
      sv_log s' = sv_log ?s @ bcast None (delta sd1 ps1) ps1 (length ps1))"
    by (rule send_modified_data_gives [OF s1(1) kvs_ok_ents [OF k(1,2)]
        delta_length [OF k(1,2) table_small [OF s1(1)] k(3)]])
  with s' have "srep s' (clear sd1) (map clean ps1)" by (simp add: logic_turn_def gives_def)
  with that [of "clear sd1" "map clean ps1"] good_clean [OF s1(2)] s1(3) show thesis by (simp add: seated_clean)
qed

lemma world_inv: "world d0 s W \<Longrightarrow> world_ok d0 s W"
proof (induction rule: world.induct)
  case (boot s)
  from boot(1) obtain sd ps where "srep s sd ps" "good sd ps" by (auto simp: serving_def)
  with boot(2) have "srep s sd []" "good sd (take 0 ps)" by (simp_all add: srep_def)
  then show ?case
    by (auto simp: everyone_def seated_def seat_def place_def peer_at_def intro!: world_okI [of s sd "[]"])
next
  case (joins s W e cl jim s' i)
  let ?l = "sent_since s s'"
  from joins.IH obtain sd ps where s: "srep s sd ps" "good sd ps" "seated W ps" and v: "everyone d0 s W"
    by (auto simp: world_ok_def)
  obtain sd' ps' where s': "srep s' sd' ps'" "good sd' ps'" "only_at e None ps"
    "seated ((reach ?l W)(e \<mapsto> (i, inbox e ?l, cl))) ps'"
    using world_connect [where W = "reach ?l W" and x = "(inbox e ?l, cl)", OF s(1,2) _ _ joins.hyps(4,5)]
      s(3) joins.hyps(2,6) by auto
  have "session d0 i e s' (inbox e ?l) cl"
    by (rule session.started [OF s(1,2) s'(3) joins.hyps(3-6)])
  then have "everyone d0 s' ((reach ?l W)(e \<mapsto> (i, inbox e ?l, cl)))"
    by (intro everyone_update everyone_connect [OF v joins.hyps(2,4,5)]) simp
  with s' show ?case by (intro world_okI)
next
  case (rejected s W e jim s' i)
  let ?l = "sent_since s s'"
  from rejected.IH obtain sd ps where s: "srep s sd ps" "good sd ps" "seated W ps" and v: "everyone d0 s W"
    by (auto simp: world_ok_def)
  obtain sd' ps' where "srep s' sd' ps'" "good sd' ps'" "seated (reach ?l W) ps'"
    by (rule world_connect [OF s rejected.hyps(2-4)]) (use rejected.hyps(5) that in simp)
  with everyone_connect [OF v rejected.hyps(2-4)] show ?case by (intro world_okI)
next
  case (leaves s W e i ms cl jim s')
  let ?l = "sent_since s s'"
  from leaves.IH obtain sd ps where s: "srep s sd ps" "good sd ps" "seated W ps" and v: "everyone d0 s W"
    by (auto simp: world_ok_def)
  have pl: "place W e = Some i" using leaves.hyps(2) by (simp add: place_def)
  have "only_at e (Some i) ps" using seated_only_at [OF s(3), of e] pl by simp
  then obtain x where i: "i < length ps" "ps ! i = Some (e, x)" by (rule only_at_Some)
  from disconnect_good [OF leaves.hyps(3) s(1,2) i(1), of e] i(2) leaves.hyps(4) obtain sd1 ps1 where
    s1: "good sd1 (ps1[i := None])" "endpoints ps1 = endpoints ps" "srep s' sd1 (ps1[i := None])"
    by (auto simp: gives_def)
  have "seated ((reach ?l W)(e := None)) (ps1[i := None])"
    using s(3) pl endpoints_nth(1) [OF s1(2)] i(1) seated_endpoints [OF s1(2), of W]
    by (intro seated_left) simp_all
  with s1 everyone_left [OF v s(3) pl leaves.hyps(3,4)] show ?case by (intro world_okI)
next
  case (sends s W e i ms cl jim jimv ch data s')
  from sends.IH have v: "everyone d0 s W" by (simp add: world_ok_def)
  from sends.IH obtain sd ps where s: "srep s sd ps" "good sd ps" "seated W ps"
    by (auto simp: world_ok_def)
  have "everyone d0 s' (reach (sent_since s s') W)"
    by (rule everyone_event [OF v sends.hyps(3-5)]) (simp add: spares_def)
  moreover obtain sd' ps' where "srep s' sd' ps'" "good sd' ps'" "seated W ps'"
    by (rule receive_seated [OF sends.hyps(3,4) s sends.hyps(5)])
  ultimately show ?case by (intro world_okI) simp_all
next
  case (logic s W jim dt s')
  from logic.IH obtain sd ps where s: "srep s sd ps" "good sd ps" "seated W ps" and v: "everyone d0 s W"
    by (auto simp: world_ok_def)
  obtain sd' ps' where "srep s' sd' ps'" "good sd' ps'" "seated W ps'"
    by (rule logic_seated [OF logic.hyps(2) s logic.hyps(3)])
  with everyone_logic [OF v logic.hyps(2,3)] show ?case by (intro world_okI) simp_all
next
  case (reads s W e i m ms cl cl')
  from reads.IH obtain sd ps where s: "srep s sd ps" "good sd ps" "seated W ps" and v: "everyone d0 s W"
    by (auto simp: world_ok_def)
  have "session d0 i e s ms cl'" by (rule session.deliver [OF everyoneD [OF v reads.hyps(2)] reads.hyps(3)])
  then have "everyone d0 s (W(e \<mapsto> (i, ms, cl')))" by (intro everyone_update [OF v]) simp
  moreover have "seated (W(e \<mapsto> (i, ms, cl'))) ps"
    using s(3) reads.hyps(2) by (auto simp: seated_def place_def)
  ultimately show ?case using s by (intro world_okI)
qed

text \<open>In every state every client is in a session, and two clients have two places.\<close>

lemma world_session: "world d0 s W \<Longrightarrow> W e = Some (i, ms, cl) \<Longrightarrow> session d0 i e s ms cl"
  using world_inv [of d0 s W] by (auto simp: world_ok_def dest: everyoneD)

section \<open>All clients hold the server's data\<close>

lemma world_synced:
  assumes w: "world d0 s W" and jim: "script_ok jim tame"
  shows "gives (logic_turn jim dt s) (\<lambda>s'. \<exists>sd ps. srep s' sd ps \<and>
    (\<forall>e i ms cl. W e = Some (i, ms, cl) \<longrightarrow>
       gives (foldR (handle_server_msg d0) (ms @ inbox e (sent_since s s')) cl)
         (\<lambda>cl'. \<exists>a. crep cl' a \<and> ac_id a = of_nat i \<and> mirrors a sd ps)))"
proof -
  from world_inv [OF w] obtain sd ps where s: "srep s sd ps" "good sd ps" "seated W ps"
    by (auto simp: world_ok_def)
  then have "serving s" by (auto intro: servingI)
  from logic_serving [OF this jim, of dt] obtain s' where s': "logic_turn jim dt s = Inr s'"
    by (auto simp: gives_def)
  from logic_seated [OF jim s s'] obtain sd' ps' where s1: "srep s' sd' ps'" by blast
  have "gives (foldR (handle_server_msg d0) (ms @ inbox e (sent_since s s')) cl)
      (\<lambda>cl'. \<exists>a. crep cl' a \<and> ac_id a = of_nat i \<and> mirrors a sd' ps')"
    if "W e = Some (i, ms, cl)" for e i ms cl
  proof -
    have "follows i e s ms cl" using that w by (intro session_inv [where ?d0.0 = d0] world_session)
    from logic_turn_synced [OF jim this, of dt] s' have "synced mirrors i e s' (ms @ inbox e (sent_since s s')) cl"
      by (auto simp: gives_def sent_since_def)
    from synced_read [OF this, of d0] obtain sd ps where "srep s' sd ps"
      "gives (foldR (handle_server_msg d0) (ms @ inbox e (sent_since s s')) cl)
        (\<lambda>cl'. \<exists>a. crep cl' a \<and> ac_id a = of_nat i \<and> mirrors a sd ps)" by blast
    then show ?thesis using srep_unique [OF s1] by simp
  qed
  with s' s1 show ?thesis by (auto simp: gives_def)
qed

text \<open>A client may read all its packets.\<close>

lemma world_read:
  "world d0 s W \<Longrightarrow> W e = Some (i, ms, cl) \<Longrightarrow> \<exists>cl'. foldR (handle_server_msg d0) ms cl = Inr cl' \<and>
     frame cl cl' \<and> world d0 s (W(e \<mapsto> (i, [], cl')))"
proof (induction ms arbitrary: W cl)
  case Nil
  then have "W(e \<mapsto> (i, [], cl)) = W" by (simp add: fun_upd_idem)
  with Nil(1) show ?case by (simp del: fun_upd_apply)
next
  case (Cons m ms)
  from session_inv [OF world_session [OF Cons.prems]] have "follows i e s (m # ms) cl" .
  from synced_deliver [OF this, of d0] obtain cl1 where cl1: "handle_server_msg d0 m cl = Inr cl1"
    by (auto simp: gives_def)
  have "world d0 s (W(e \<mapsto> (i, ms, cl1)))" by (rule world.reads [OF Cons.prems cl1])
  from Cons.IH [OF this, of cl1] obtain cl' where "foldR (handle_server_msg d0) ms cl1 = Inr cl'" "frame cl1 cl'"
    "world d0 s (W(e \<mapsto> (i, [], cl')))" by (auto simp del: fun_upd_apply simp: fun_upd_same)
  with cl1 frame_trans [OF msg_frame [OF cl1]] show ?case by (auto simp del: fun_upd_apply)
qed

end
