(* ===== verification/SampleScript.thy ===== *)
theory SampleScript
  imports Protocol
begin

text \<open>
  The sample logic of the server (\<open>src/network/svcenet/server/main.tcl\<close>), over the commands
  the server gives its scripts: whom a voice packet is passed on to, and when a peer is marked
  as speaking.

  The interpreter's reading of a text as a number and as a truth value, its comparison of two
  values and its sum are parameters.
\<close>

section \<open>Evaluation\<close>

record interp =
  ip_long :: "string \<Rightarrow> int option"
  ip_truth :: "string \<Rightarrow> bool option"
  ip_eq :: "string \<Rightarrow> string \<Rightarrow> bool"
  ip_less :: "string \<Rightarrow> string \<Rightarrow> bool"
  ip_sum :: "string \<Rightarrow> string \<Rightarrow> string"

text \<open>A piece of a procedure: the server it leaves, and the error it raised or its value.\<close>

type_synonym ('p, 'x) tcl = "'p server \<Rightarrow> ('p server \<times> (string + 'x)) res"

definition retT :: "'x \<Rightarrow> ('p, 'x) tcl" where
  "retT x s = Inr (s, Inr x)"

definition bindT :: "('p, 'x) tcl \<Rightarrow> ('x \<Rightarrow> ('p, 'y) tcl) \<Rightarrow> ('p, 'y) tcl" where
  "bindT m k s = bindR (m s) (\<lambda>(s, r). case r of Inl err \<Rightarrow> Inr (s, Inl err) | Inr x \<Rightarrow> k x s)"

fun eachT :: "string list \<Rightarrow> (string \<Rightarrow> ('p, unit) tcl) \<Rightarrow> ('p, unit) tcl" where
  "eachT [] f = retT ()"
| "eachT (x # xs) f = bindT (f x) (\<lambda>_. eachT xs f)"

fun pickT :: "string list \<Rightarrow> (string \<Rightarrow> ('p, bool) tcl) \<Rightarrow> ('p, string list) tcl" where
  "pickT [] f = retT []"
| "pickT (x # xs) f = bindT (f x) (\<lambda>b. bindT (pickT xs f) (\<lambda>ys. retT (if b then x # ys else ys)))"

definition condT :: "interp \<Rightarrow> string \<Rightarrow> ('p, bool) tcl" where
  "condT I v s = Inr (s, case ip_truth I v of None \<Rightarrow> Inl ''expected a boolean'' | Some b \<Rightarrow> Inr b)"

definition of_jim :: "jim \<Rightarrow> string + string" where
  "of_jim r = (case r of JIM_OK v \<Rightarrow> Inr v | JIM_ERR err \<Rightarrow> Inl err)"

definition peerget :: "interp \<Rightarrow> string \<Rightarrow> string \<Rightarrow> string \<Rightarrow> ('p, string) tcl" where
  "peerget I sc peer key s =
     bindR (cmd_peerget (ip_long I) [''peerget'', sc, peer, key] s) (\<lambda>r. Inr (s, of_jim r))"

definition peerset :: "interp \<Rightarrow> string \<Rightarrow> string \<Rightarrow> string \<Rightarrow> string \<Rightarrow> ('p, string) tcl" where
  "peerset I sc peer key val s =
     bindR (cmd_peerset (ip_long I) [''peerset'', sc, peer, key, val] s) (\<lambda>(s, r). Inr (s, of_jim r))"

definition sendaudio :: "interp \<Rightarrow> string \<Rightarrow> ('p, string) tcl" where
  "sendaudio I peer s =
     bindR (cmd_sendaudio (ip_long I) [''sendaudio'', peer] s) (\<lambda>(s, r). Inr (s, of_jim r))"

definition peers_list :: "('p, string list) tcl" where
  "peers_list s = bindR (cmd_peers_list [''peers_list''] s) (\<lambda>ids. Inr (s, Inr (map dec_nat ids)))"

section \<open>The procedures\<close>

definition channel_peers :: "interp \<Rightarrow> string \<Rightarrow> ('p, string list) tcl" where
  "channel_peers I channel =
     bindT peers_list (\<lambda>peers. pickT peers (\<lambda>peer.
       bindT (peerget I ''pub'' peer ''CHANNEL'') (\<lambda>c. retT (ip_eq I c channel))))"

definition on_peer_connect :: "interp \<Rightarrow> string \<Rightarrow> string \<Rightarrow> ('p, string) tcl" where
  "on_peer_connect I default_channel peer =
     (let nick = ''Unknown'' @ peer in
      bindT (peerset I ''pub'' peer ''NICK'' nick) (\<lambda>_.
      bindT (peerset I ''pub'' peer ''CHANNEL'' default_channel) (\<lambda>_.
      bindT (peerset I ''pub'' peer ''MUTED'' ''0'') (\<lambda>_.
      bindT (peerset I ''pub'' peer ''DEAFEN'' ''0'') (\<lambda>_.
      bindT (peerset I ''pub'' peer ''SPEAKING'' ''0'') (\<lambda>_.
      bindT (peerset I ''pub'' peer ''ADMIN'' ''0'') (\<lambda>_. retT ''1'')))))))"

text \<open>\<open>now\<close> is the result of \<open>millitime\<close>.\<close>

definition on_audio_packet :: "interp \<Rightarrow> string \<Rightarrow> string \<Rightarrow> string \<Rightarrow> ('p, unit) tcl" where
  "on_audio_packet I speak_time now peer =
     bindT (bindT (peerget I ''pub'' peer ''MUTED'') (condT I)) (\<lambda>muted.
     if muted then retT ()
     else
       bindT (peerget I ''pub'' peer ''CHANNEL'') (\<lambda>c. bindT (channel_peers I c) (\<lambda>peers.
       bindT (peerset I ''priv'' peer ''SPEAKING_TIMEOUT'' (ip_sum I now speak_time)) (\<lambda>_.
       bindT (bindT (peerget I ''pub'' peer ''SPEAKING'') (condT I)) (\<lambda>speaking.
       bindT (if speaking then retT [] else peerset I ''pub'' peer ''SPEAKING'' ''1'') (\<lambda>_.
       eachT peers (\<lambda>p.
         if ip_eq I peer p then retT ()
         else bindT (bindT (peerget I ''pub'' p ''DEAFEN'') (condT I)) (\<lambda>deaf.
           if deaf then retT () else bindT (sendaudio I p) (\<lambda>_. retT ())))))))))"

definition on_logic :: "interp \<Rightarrow> string \<Rightarrow> ('p, unit) tcl" where
  "on_logic I now =
     bindT peers_list (\<lambda>peers. eachT peers (\<lambda>p.
       bindT (bindT (peerget I ''pub'' p ''SPEAKING'') (condT I)) (\<lambda>speaking.
       bindT (if speaking
              then bindT (peerget I ''priv'' p ''SPEAKING_TIMEOUT'') (\<lambda>t. retT (ip_less I t now))
              else retT False) (\<lambda>over.
       if over then bindT (peerset I ''pub'' p ''SPEAKING'' ''0'') (\<lambda>_. retT ()) else retT ()))))"

text \<open>The name is read to be printed.\<close>

definition on_peer_disconnect :: "interp \<Rightarrow> string \<Rightarrow> ('p, unit) tcl" where
  "on_peer_disconnect I peer = bindT (peerget I ''pub'' peer ''NICK'') (\<lambda>_. retT ())"

text \<open>
  \<open>cmds\<close> is the dictionary \<open>COMMANDS\<close>, empty in this file.  The command is the first word of
  the text \<open>args\<close>, not of the variable, and no variable is named \<open>peer\<close>: the parameter's name ends in a comma.
\<close>

definition on_command :: "(string \<Rightarrow> (string list \<Rightarrow> ('p, string) tcl) option) \<Rightarrow> string \<Rightarrow> string list \<Rightarrow> ('p, string) tcl" where
  "on_command cmds peer args =
     (let command = ''args'' in
      case cmds command of Some f \<Rightarrow> f args
      | None \<Rightarrow> (\<lambda>s. Inr (s, Inl ''can't read \"peer\": no such variable'')))"

section \<open>What the interpreter is relied on for\<close>

text \<open>Numbers are read back as they were written, and two of them are equal as numbers.\<close>

definition interp_ok :: "interp \<Rightarrow> bool" where
  "interp_ok I \<longleftrightarrow> (\<forall>n. ip_long I (dec_nat n) = Some (int n)) \<and>
     (\<forall>m n. ip_eq I (dec_nat m) (dec_nat n) = (m = n)) \<and>
     ip_truth I ''0'' = Some False \<and> ip_truth I ''1'' = Some True"

lemma bindT_simps [simp]:
  "m s = Inr (s', Inr x) \<Longrightarrow> bindT m k s = k x s'"
  "retT x s = Inr (s, Inr x)"
  by (simp_all add: bindT_def retT_def)

lemma stepT: "m s = Inr (s', Inr x) \<Longrightarrow> gives (k x s') P \<Longrightarrow> gives (bindT m k s) P"
  by simp

lemma scopes [simp]: "parse_scope ''pub'' = Some False" "parse_scope ''priv'' = Some True"
  by (simp_all add: parse_scope_def cstr_def)

lemma live_peer: "peer_at ps i = Some a \<Longrightarrow> live_at ps (int i) = Some a"
  by (simp add: live_at_def peer_at_def split: if_splits)

lemma peerget_gives:
  assumes "interp_ok I" "srep s sd ps" "peer_at ps i = Some a" "parse_scope sc = Some priv" "length k < dmax"
  shows "peerget I sc (dec_nat i) k s = Inr (s, Inr (read_kv k (scoped priv a)))"
proof -
  have "ip_long I (dec_nat i) = Some (int i)" using assms(1) by (simp add: interp_ok_def)
  from cmd_peerget_gives [OF assms(2,4), where getlong = "ip_long I", OF this live_peer [OF assms(3)] assms(5)]
  show ?thesis by (simp add: peerget_def of_jim_def)
qed

lemma cmd_peerset_audio: "cmd_peerset getlong argv s = Inr (s', r) \<Longrightarrow> sv_audio s' = sv_audio s"
  by (auto simp: cmd_peerset_def bindR_eq_Inr Server.put_slot_def split: if_splits option.splits)

lemma peerset_gives:
  assumes "interp_ok I" "srep s sd ps" "peer_at ps i = Some a" "parse_scope sc = Some priv" "kv_small k v"
  obtains s' where "peerset I sc (dec_nat i) k v s = Inr (s', Inr [])" "sv_log s' = sv_log s"
    "sv_audio s' = sv_audio s"
    "srep s' sd (ps[i := Some (set_scoped priv (put_kv k v (scoped priv a)) a)])"
proof -
  have "ip_long I (dec_nat i) = Some (int i)" using assms(1) by (simp add: interp_ok_def)
  from cmd_peerset_gives [OF assms(2,4), where getlong = "ip_long I", OF this live_peer [OF assms(3)] assms(5)]
  obtain s' where s': "cmd_peerset (ip_long I) [''peerset'', sc, dec_nat i, k, v] s = Inr (s', JIM_OK [])"
    "srep s' sd (ps[i := Some (set_scoped priv (put_kv k v (scoped priv a)) a)])" "sv_log s' = sv_log s"
    by (auto simp: gives_def)
  with that [of s'] cmd_peerset_audio [OF s'(1)] show thesis by (simp add: peerset_def of_jim_def)
qed

lemma peers_list_gives:
  assumes "srep s sd ps"
  shows "peers_list s = Inr (s, Inr (map dec_nat (filter (\<lambda>i. ps ! i \<noteq> None) [0..<length ps])))"
  using cmd_peers_list_gives [OF assms] by (simp add: peers_list_def)

lemma sendaudio_gives:
  assumes "interp_ok I" "srep s sd ps" "peer_at ps i = Some (e, x)" "sv_audio s = Some data"
  shows "sendaudio I (dec_nat i) s = Inr (s\<lparr>sv_log := sv_log s @ [Send e 1 data]\<rparr>, Inr [])"
proof -
  have "ip_long I (dec_nat i) = Some (int i)" using assms(1) by (simp add: interp_ok_def)
  from cmd_sendaudio_gives [OF assms(2), where getlong = "ip_long I", OF this live_peer [OF assms(3)]] assms(4)
  show ?thesis by (simp add: sendaudio_def of_jim_def)
qed

section \<open>Whom a voice packet is passed on to\<close>

lemma pickT_pure:
  "(\<And>x. x \<in> set xs \<Longrightarrow> f x s = Inr (s, Inr (P x))) \<Longrightarrow> pickT xs f s = Inr (s, Inr (filter P xs))"
  by (induction xs) simp_all

definition channel_of :: "'p apeer option list \<Rightarrow> nat \<Rightarrow> string" where
  "channel_of ps j = (case peer_at ps j of None \<Rightarrow> [] | Some (e, pub, priv) \<Rightarrow> read_kv ''CHANNEL'' pub)"

text \<open>The packets a voice of the peer \<open>i\<close>, on the channel \<open>c\<close>, gives: one for every other
  peer of the channel that is not deaf, in the order of the table.\<close>

definition relayed :: "interp \<Rightarrow> 'p apeer option list \<Rightarrow> nat \<Rightarrow> string \<Rightarrow> string \<Rightarrow> nat \<Rightarrow> 'p action list" where
  "relayed I ps i c data j = (case peer_at ps j of None \<Rightarrow> []
   | Some (e, pub, priv) \<Rightarrow>
       if j \<noteq> i \<and> ip_eq I (read_kv ''CHANNEL'' pub) c \<and> ip_truth I (read_kv ''DEAFEN'' pub) = Some False
       then [Send e 1 data] else [])"

text \<open>Whether the others of the channel are deaf can be read off their data.\<close>

definition deaf_known :: "interp \<Rightarrow> 'p apeer option list \<Rightarrow> nat \<Rightarrow> string \<Rightarrow> bool" where
  "deaf_known I ps i c \<longleftrightarrow> (\<forall>j\<in>set [0..<length ps]. j \<noteq> i \<longrightarrow> (case ps ! j of None \<Rightarrow> True
   | Some (e, pub, priv) \<Rightarrow> ip_eq I (read_kv ''CHANNEL'' pub) c \<longrightarrow> ip_truth I (read_kv ''DEAFEN'' pub) \<noteq> None))"

lemma channel_peers_gives:
  assumes I: "interp_ok I" and s: "srep s sd ps"
  shows "channel_peers I c s = Inr (s, Inr (map dec_nat
    (filter (\<lambda>j. ps ! j \<noteq> None \<and> ip_eq I (channel_of ps j) c) [0..<length ps])))"
proof -
  let ?js = "filter (\<lambda>j. ps ! j \<noteq> None) [0..<length ps]"
  let ?P = "\<lambda>t. \<exists>j. t = dec_nat j \<and> ip_eq I (channel_of ps j) c"
  have inj: "dec_nat m = dec_nat n \<longleftrightarrow> m = n" for m n
    using I unfolding interp_ok_def by (metis of_nat_eq_iff option.inject)
  have "pickT (map dec_nat ?js) (\<lambda>peer. bindT (peerget I ''pub'' peer ''CHANNEL'') (\<lambda>x. retT (ip_eq I x c))) s =
      Inr (s, Inr (filter ?P (map dec_nat ?js)))"
  proof (rule pickT_pure)
    fix t assume "t \<in> set (map dec_nat ?js)"
    then obtain j a where j: "t = dec_nat j" "peer_at ps j = Some a" by (auto simp: peer_at_def)
    obtain e pub priv where a: "a = (e, pub, priv)" by (cases a)
    from peerget_gives [OF I s j(2) scopes(1), of "''CHANNEL''"]
    show "bindT (peerget I ''pub'' t ''CHANNEL'') (\<lambda>x. retT (ip_eq I x c)) s = Inr (s, Inr (?P t))"
      using inj by (auto simp: j a channel_of_def scoped_def)
  qed
  moreover have "filter ?P (map dec_nat ?js) =
      map dec_nat (filter (\<lambda>j. ps ! j \<noteq> None \<and> ip_eq I (channel_of ps j) c) [0..<length ps])"
    by (auto simp: filter_map comp_def inj conj_commute intro!: arg_cong [where f = "map dec_nat"] filter_cong)
  ultimately show ?thesis using peers_list_gives [OF s] by (simp add: channel_peers_def)
qed

lemma read_short [simp]: "length ''DEAFEN'' < dmax" "length ''CHANNEL'' < dmax" "length ''MUTED'' < dmax"
  "length ''SPEAKING'' < dmax" "length ''SPEAKING_TIMEOUT'' < dmax"
  by simp_all

text \<open>The loop over the peers of the channel; the table \<open>qs\<close> differs from \<open>ps\<close> at \<open>i\<close> only.\<close>

lemma relay_loop:
  assumes I: "interp_ok I" and s: "srep s sd qs" "sv_audio s = Some data"
    and same: "length qs = length ps" "\<And>j. j \<noteq> i \<Longrightarrow> qs ! j = ps ! j" and deaf: "deaf_known I ps i c"
  shows "n \<le> length ps \<Longrightarrow>
    eachT (map dec_nat (filter (\<lambda>j. ps ! j \<noteq> None \<and> ip_eq I (channel_of ps j) c) [n..<length ps])) (\<lambda>p.
      if ip_eq I (dec_nat i) p then retT ()
      else bindT (bindT (peerget I ''pub'' p ''DEAFEN'') (condT I)) (\<lambda>d.
        if d then retT () else bindT (sendaudio I p) (\<lambda>_. retT ()))) s =
    Inr (s\<lparr>sv_log := sv_log s @ concat (map (relayed I ps i c data) [n..<length ps])\<rparr>, Inr ())"
  using s
proof (induction "length ps - n" arbitrary: n s)
  case 0
  then show ?case by (simp add: retT_def)
next
  case (Suc m)
  then have n: "n < length ps" and up: "[n..<length ps] = n # [Suc n..<length ps]" by (simp_all add: upt_conv_Cons)
  have m: "m = length ps - Suc n" "Suc n \<le> length ps" using Suc.hyps(2) by simp_all
  show ?case
  proof (cases "ps ! n \<noteq> None \<and> ip_eq I (channel_of ps n) c")
    case False
    then have "relayed I ps i c data n = []"
      using n by (auto simp: relayed_def channel_of_def peer_at_def split: option.splits prod.splits)
    with False Suc.hyps(1) [OF m Suc.prems(2,3)] up show ?thesis by auto
  next
    case True
    then obtain e pub priv where a: "ps ! n = Some (e, pub, priv)" by auto
    with True n have c: "ip_eq I (read_kv ''CHANNEL'' pub) c" by (simp add: channel_of_def peer_at_def)
    have eq: "ip_eq I (dec_nat i) (dec_nat n) = (i = n)" using I by (simp add: interp_ok_def)
    show ?thesis
    proof (cases "n = i")
      case True
      then have "relayed I ps i c data n = []" by (simp add: relayed_def split: option.split)
      then show ?thesis using Suc.hyps(1) [OF m Suc.prems(2,3)] up True \<open>_ \<and> _\<close> eq by simp
    next
      case False
      have q: "peer_at qs n = Some (e, pub, priv)" using a same n False by (simp add: peer_at_def)
      have "n \<in> set [0..<length ps]" using n by simp
      then obtain b where b: "ip_truth I (read_kv ''DEAFEN'' pub) = Some b"
        using deaf False a c unfolding deaf_known_def by fastforce
      have d: "bindT (peerget I ''pub'' (dec_nat n) ''DEAFEN'') (condT I) s = Inr (s, Inr b)"
        using peerget_gives [OF I Suc.prems(2) q scopes(1), of "''DEAFEN''"] b by (simp add: scoped_def condT_def)
      let ?s = "s\<lparr>sv_log := sv_log s @ [Send e 1 data]\<rparr>"
      have snd: "bindT (sendaudio I (dec_nat n)) (\<lambda>_. retT ()) s = Inr (?s, Inr ())"
        using sendaudio_gives [OF I Suc.prems(2) q Suc.prems(3)] by (simp add: retT_def)
      have r: "relayed I ps i c data n = (if b then [] else [Send e 1 data])"
        using n a c b False by (simp add: relayed_def peer_at_def)
      show ?thesis
      proof (cases b)
        case True
        then show ?thesis using Suc.hyps(1) [OF m Suc.prems(2,3)] up \<open>_ \<and> _\<close> eq False d r by simp
      next
        case b: False
        have "srep ?s sd qs" "sv_audio ?s = Some data" using Suc.prems by simp_all
        from Suc.hyps(1) [OF m this] up \<open>_ \<and> _\<close> eq False d r b snd show ?thesis by simp
      qed
    qed
  qed
qed

text \<open>What the procedure leaves of the speaker's data: it speaks, until the time \<open>t\<close>.\<close>

definition spoken :: "bool \<Rightarrow> string \<Rightarrow> 'p apeer \<Rightarrow> 'p apeer" where
  "spoken speaking t a = (case a of (e, pub, priv) \<Rightarrow>
     (e, if speaking then pub else put_kv ''SPEAKING'' ''1'' pub, put_kv ''SPEAKING_TIMEOUT'' t priv))"

lemma on_audio_packet_gives:
  assumes I: "interp_ok I" and s: "srep s sd ps" "sv_audio s = Some data"
    and i: "peer_at ps i = Some a" "a = (e, pub, priv)"
    and m: "ip_truth I (read_kv ''MUTED'' pub) = Some False" "ip_truth I (read_kv ''SPEAKING'' pub) = Some sp"
    and deaf: "deaf_known I ps i (read_kv ''CHANNEL'' pub)"
    and t: "length (ip_sum I now speak_time) + 1 < dmax"
  shows "gives (on_audio_packet I speak_time now (dec_nat i) s) (\<lambda>(s', r). r = Inr () \<and>
    sv_log s' = sv_log s @ concat (map (relayed I ps i (read_kv ''CHANNEL'' pub) data) [0..<length ps]) \<and>
    srep s' sd (ps[i := Some (spoken sp (ip_sum I now speak_time) a)]))"
proof -
  let ?t = "ip_sum I now speak_time" and ?c = "read_kv ''CHANNEL'' pub"
  have il: "i < length ps" using i(1) by (simp add: peer_at_def split: if_splits)
  have pub: "bindT (peerget I ''pub'' (dec_nat i) k) (condT I) s0 = Inr (s0, Inr b)"
    if "srep s0 sd0 ps0" "peer_at ps0 i = Some (e, pub, priv0)" "ip_truth I (read_kv k pub) = Some b" "length k < dmax"
    for s0 sd0 ps0 priv0 k b
    using peerget_gives [OF I that(1,2) scopes(1) that(4)] that(3) by (simp add: scoped_def condT_def)
  have chan: "peerget I ''pub'' (dec_nat i) ''CHANNEL'' s = Inr (s, Inr ?c)"
    using peerget_gives [OF I s(1) i(1) scopes(1), of "''CHANNEL''"] i(2) by (simp add: scoped_def)
  have sm: "kv_small ''SPEAKING_TIMEOUT'' ?t" "kv_small ''SPEAKING'' ''1''" using t by (simp_all add: kv_small_def)
  let ?ps1 = "ps[i := Some (e, pub, put_kv ''SPEAKING_TIMEOUT'' ?t priv)]"
  obtain s1 where s1: "peerset I ''priv'' (dec_nat i) ''SPEAKING_TIMEOUT'' ?t s = Inr (s1, Inr [])"
    "sv_log s1 = sv_log s" "sv_audio s1 = sv_audio s" "srep s1 sd ?ps1"
    using peerset_gives [OF I s(1) i(1) scopes(2) sm(1)] i(2) by (auto simp: scoped_def set_scoped_def)
  have p1: "peer_at ?ps1 i = Some (e, pub, put_kv ''SPEAKING_TIMEOUT'' ?t priv)" using il by (simp add: peer_at_update)
  let ?ps2 = "ps[i := Some (spoken sp ?t a)]"
  obtain s2 x where s2: "(if sp then retT [] else peerset I ''pub'' (dec_nat i) ''SPEAKING'' ''1'') s1 = Inr (s2, Inr x)"
    "sv_log s2 = sv_log s" "sv_audio s2 = sv_audio s" "srep s2 sd ?ps2"
  proof (cases sp)
    case True
    with that [of s1 "[]"] s1 i(2) show thesis by (simp add: retT_def spoken_def)
  next
    case False
    with peerset_gives [OF I s1(4) p1 scopes(1) sm(2)] that s1(2,3) i(2) show thesis
      by (auto simp: spoken_def scoped_def set_scoped_def)
  qed
  have "srep s2 sd ?ps2" "sv_audio s2 = Some data" using s2(3,4) s(2) by simp_all
  note loop = relay_loop [OF I this _ _ deaf, where n = 0, simplified]
  have muted: "bindT (peerget I ''pub'' (dec_nat i) ''MUTED'') (condT I) s = Inr (s, Inr False)"
    by (rule pub [OF s(1) i(1) [unfolded i(2)] m(1)]) simp
  have speaking: "bindT (peerget I ''pub'' (dec_nat i) ''SPEAKING'') (condT I) s1 = Inr (s1, Inr sp)"
    by (rule pub [OF s1(4) p1 m(2)]) simp
  note chans = channel_peers_gives [OF I s(1), of ?c, simplified]
  show ?thesis
    unfolding on_audio_packet_def
    by (rule stepT, rule muted, simp only: if_False, rule stepT, rule chan, rule stepT, rule chans, rule stepT, rule s1(1),
        rule stepT, rule speaking, rule stepT, rule s2(1), simp only: loop) (simp add: s2(2,4))
qed

lemma on_audio_packet_muted:
  assumes I: "interp_ok I" and s: "srep s sd ps" and i: "peer_at ps i = Some (e, pub, priv)"
    and m: "ip_truth I (read_kv ''MUTED'' pub) = Some True"
  shows "on_audio_packet I speak_time now (dec_nat i) s = Inr (s, Inr ())"
proof -
  have "bindT (peerget I ''pub'' (dec_nat i) ''MUTED'') (condT I) s = Inr (s, Inr True)"
    using peerget_gives [OF I s i scopes(1), of "''MUTED''"] m by (simp add: scoped_def condT_def)
  then show ?thesis by (simp add: on_audio_packet_def retT_def)
qed

section \<open>A new peer\<close>

definition greeted :: "string \<Rightarrow> nat \<Rightarrow> kvs \<Rightarrow> kvs" where
  "greeted ch i pub = put_kv ''ADMIN'' ''0'' (put_kv ''SPEAKING'' ''0'' (put_kv ''DEAFEN'' ''0''
     (put_kv ''MUTED'' ''0'' (put_kv ''CHANNEL'' ch (put_kv ''NICK'' (''Unknown'' @ dec_nat i) pub)))))"

lemma peerset_pub:
  assumes I: "interp_ok I" and s: "srep s sd (ps[i := Some (e, pub, priv)])" "i < length ps"
    and kv: "length k < dmax" "length v + 1 < dmax"
    and k: "\<And>s'. srep s' sd (ps[i := Some (e, put_kv k v pub, priv)]) \<Longrightarrow> sv_log s' = sv_log s \<Longrightarrow> gives (c s') P"
  shows "gives (bindT (peerset I ''pub'' (dec_nat i) k v) (\<lambda>_. c) s) P"
proof -
  have "peer_at (ps[i := Some (e, pub, priv)]) i = Some (e, pub, priv)" using s(2) by (simp add: peer_at_update)
  moreover have "kv_small k v" using kv by (simp add: kv_small_def)
  ultimately obtain s' where s': "peerset I ''pub'' (dec_nat i) k v s = Inr (s', Inr [])" "sv_log s' = sv_log s"
    "srep s' sd (ps[i := Some (e, put_kv k v pub, priv)])"
    by (rule peerset_gives [OF I s(1) _ scopes(1)]) (use that in \<open>simp add: scoped_def set_scoped_def\<close>)
  show ?thesis by (rule stepT, rule s'(1)) (rule k [OF s'(3,2)])
qed

lemma on_peer_connect_gives:
  assumes I: "interp_ok I" and s: "srep s sd ps" and i: "peer_at ps i = Some (e, pub, priv)" "i < 10"
    and ch: "length ch + 1 < dmax"
  shows "gives (on_peer_connect I ch (dec_nat i) s) (\<lambda>(s', r). r = Inr ''1'' \<and> sv_log s' = sv_log s \<and>
    srep s' sd (ps[i := Some (e, greeted ch i pub, priv)]))"
proof -
  have il: "i < length ps" "ps ! i = Some (e, pub, priv)" using i(1) by (simp_all add: peer_at_def split: if_splits)
  have s0: "srep s sd (ps[i := Some (e, pub, priv)])" using s il(2) by (metis list_update_id)
  have nick: "length (''Unknown'' @ dec_nat i) + 1 < dmax" using dec_nat_length [of i 1] i(2) by simp
  show ?thesis
    unfolding on_peer_connect_def Let_def
    by (rule peerset_pub [OF I s0 il(1)], simp, rule nick, rule peerset_pub [OF I _ il(1)], assumption, simp, rule ch,
        rule peerset_pub [OF I _ il(1)], assumption, simp, simp, rule peerset_pub [OF I _ il(1)], assumption, simp, simp,
        rule peerset_pub [OF I _ il(1)], assumption, simp, simp, rule peerset_pub [OF I _ il(1)], assumption, simp, simp) (simp add: retT_def greeted_def)
qed

section \<open>The end of speaking\<close>

definition quiet :: "interp \<Rightarrow> string \<Rightarrow> 'p apeer \<Rightarrow> 'p apeer" where
  "quiet I now a = (case a of (e, pub, priv) \<Rightarrow>
     if ip_truth I (read_kv ''SPEAKING'' pub) = Some True \<and> ip_less I (read_kv ''SPEAKING_TIMEOUT'' priv) now
     then (e, put_kv ''SPEAKING'' ''0'' pub, priv) else a)"

definition speaking_known :: "interp \<Rightarrow> 'p apeer option list \<Rightarrow> bool" where
  "speaking_known I ps \<longleftrightarrow> (\<forall>a\<in>set ps. case a of None \<Rightarrow> True
   | Some (e, pub, priv) \<Rightarrow> ip_truth I (read_kv ''SPEAKING'' pub) \<noteq> None)"

abbreviation quieten :: "interp \<Rightarrow> string \<Rightarrow> string \<Rightarrow> ('p, unit) tcl" where
  "quieten I now p \<equiv> bindT (bindT (peerget I ''pub'' p ''SPEAKING'') (condT I)) (\<lambda>speaking.
     bindT (if speaking
            then bindT (peerget I ''priv'' p ''SPEAKING_TIMEOUT'') (\<lambda>t. retT (ip_less I t now))
            else retT False) (\<lambda>over.
     if over then bindT (peerset I ''pub'' p ''SPEAKING'' ''0'') (\<lambda>_. retT ()) else retT ()))"

lemma quieten_gives:
  assumes I: "interp_ok I" and s: "srep s sd ps" and i: "peer_at ps i = Some a"
    and b: "ip_truth I (read_kv ''SPEAKING'' (fst (snd a))) = Some b"
  obtains s' where "quieten I now (dec_nat i) s = Inr (s', Inr ())" "sv_log s' = sv_log s"
    "srep s' sd (ps[i := Some (quiet I now a)])"
proof -
  obtain e pub priv where a: "a = (e, pub, priv)" by (cases a)
  have ia: "i < length ps" "ps ! i = Some (e, pub, priv)" using i a by (simp_all add: peer_at_def split: if_splits)
  have sp: "bindT (peerget I ''pub'' (dec_nat i) ''SPEAKING'') (condT I) s = Inr (s, Inr b)"
    using peerget_gives [OF I s i scopes(1), of "''SPEAKING''"] b by (simp add: scoped_def condT_def)
  have t: "peerget I ''priv'' (dec_nat i) ''SPEAKING_TIMEOUT'' s = Inr (s, Inr (read_kv ''SPEAKING_TIMEOUT'' priv))"
    using peerget_gives [OF I s i scopes(2), of "''SPEAKING_TIMEOUT''"] by (simp add: scoped_def a)
  have sm: "kv_small ''SPEAKING'' ''0''" by (simp add: kv_small_def)
  let ?over = "b \<and> ip_less I (read_kv ''SPEAKING_TIMEOUT'' priv) now"
  have over: "(if b then bindT (peerget I ''priv'' (dec_nat i) ''SPEAKING_TIMEOUT'') (\<lambda>t. retT (ip_less I t now))
      else retT False) s = Inr (s, Inr ?over)"
    using t by (simp add: bindT_def retT_def)
  show thesis
  proof (cases ?over)
    case True
    obtain s' where s': "peerset I ''pub'' (dec_nat i) ''SPEAKING'' ''0'' s = Inr (s', Inr [])" "sv_log s' = sv_log s"
      "srep s' sd (ps[i := Some (set_scoped False (put_kv ''SPEAKING'' ''0'' (scoped False a)) a)])"
      by (rule peerset_gives [OF I s i scopes(1) sm])
    have "gives (quieten I now (dec_nat i) s) (\<lambda>x. x = (s', Inr ()))"
      by (rule stepT, rule sp, rule stepT, rule over, simp only: True if_True simp_thms, rule stepT, rule s'(1)) (simp add: retT_def)
    with that s' True b show thesis by (simp add: gives_def quiet_def a scoped_def set_scoped_def)
  next
    case False
    have "gives (quieten I now (dec_nat i) s) (\<lambda>x. x = (s, Inr ()))"
      by (rule stepT, rule sp, rule stepT, rule over, simp only: False if_False) (simp add: retT_def)
    moreover have "quiet I now a = a" using False b by (auto simp: quiet_def a)
    moreover have "ps[i := Some a] = ps" using ia a by (metis list_update_id)
    ultimately show thesis using that [of s] s by (simp add: gives_def)
  qed
qed

lemma quieten_loop:
  assumes I: "interp_ok I" and known: "speaking_known I ps"
  shows "n \<le> length ps \<Longrightarrow> srep s sd (map (map_option (quiet I now)) (take n ps) @ drop n ps) \<Longrightarrow>
    gives (eachT (map dec_nat (filter (\<lambda>j. ps ! j \<noteq> None) [n..<length ps])) (quieten I now) s) (\<lambda>(s', r).
      r = Inr () \<and> sv_log s' = sv_log s \<and> srep s' sd (map (map_option (quiet I now)) ps))"
proof (induction "length ps - n" arbitrary: n s)
  case 0
  then show ?case by (simp add: retT_def)
next
  case (Suc m)
  let ?qs = "map (map_option (quiet I now)) (take n ps) @ drop n ps"
  have n: "n < length ps" and up: "[n..<length ps] = n # [Suc n..<length ps]"
    and m: "m = length ps - Suc n" "Suc n \<le> length ps" using Suc.hyps(2) by (simp_all add: upt_conv_Cons)
  have nxt: "map (map_option (quiet I now)) (take (Suc n) ps) @ drop (Suc n) ps = ?qs[n := map_option (quiet I now) (ps ! n)]"
    using n by (simp add: take_Suc_conv_app_nth list_update_append Cons_nth_drop_Suc [symmetric])
  show ?case
  proof (cases "ps ! n")
    case None
    have "?qs[n := None] = ?qs" using n None by (intro list_update_same_conv [THEN iffD2]) (simp_all add: nth_append)
    with Suc.hyps(1) [OF m] Suc.prems(2) up None nxt show ?thesis by simp
  next
    case (Some a)
    then have q: "peer_at ?qs n = Some a" using n by (simp add: peer_at_def nth_append)
    have "ps ! n \<in> set ps" using n by simp
    then obtain b where "ip_truth I (read_kv ''SPEAKING'' (fst (snd a))) = Some b"
      using known Some unfolding speaking_known_def by (cases a) force
    from quieten_gives [OF I Suc.prems(2) q this] obtain s1 where
      s1: "quieten I now (dec_nat n) s = Inr (s1, Inr ())" "sv_log s1 = sv_log s"
      "srep s1 sd (?qs[n := Some (quiet I now a)])" by blast
    have "srep s1 sd (map (map_option (quiet I now)) (take (Suc n) ps) @ drop (Suc n) ps)"
      using s1(3) nxt Some by simp
    note IH = Suc.hyps(1) [OF m this]
    have "gives (eachT (dec_nat n # map dec_nat (filter (\<lambda>j. ps ! j \<noteq> None) [Suc n..<length ps])) (quieten I now) s)
        (\<lambda>(s', r). r = Inr () \<and> sv_log s' = sv_log s \<and> srep s' sd (map (map_option (quiet I now)) ps))"
      unfolding eachT.simps by (rule stepT, rule s1(1)) (use IH s1(2) in simp)
    then show ?thesis using up Some by (cases a) simp
  qed
qed

lemma on_logic_gives:
  assumes I: "interp_ok I" and s: "srep s sd ps" and known: "speaking_known I ps"
  shows "gives (on_logic I now s) (\<lambda>(s', r). r = Inr () \<and> sv_log s' = sv_log s \<and>
    srep s' sd (map (map_option (quiet I now)) ps))"
proof -
  note loop = quieten_loop [OF I known, where n = 0, simplified, OF s]
  show ?thesis unfolding on_logic_def
    by (rule stepT, rule peers_list_gives [OF s]) (use loop in simp)
qed

text \<open>No command is ever found, whatever its name: the procedure ends with an error.\<close>

lemma on_command_blind: "cmds ''args'' = None \<Longrightarrow> on_command cmds peer args = on_command Map.empty peer' args'"
  by (simp add: on_command_def Let_def)

text \<open>A peer that leaves changes nothing.\<close>

lemma on_peer_disconnect_gives:
  "interp_ok I \<Longrightarrow> srep s sd ps \<Longrightarrow> peer_at ps i = Some (e, pub, priv) \<Longrightarrow>
   on_peer_disconnect I (dec_nat i) s = Inr (s, Inr ())"
proof -
  assume a: "interp_ok I" "srep s sd ps" "peer_at ps i = Some (e, pub, priv)"
  have "length ''NICK'' < dmax" by simp
  from peerget_gives [OF a scopes(1) this] show ?thesis by (simp add: on_peer_disconnect_def)
qed

end
