(* ===== verification/WorldProps.thy ===== *)
theory WorldProps
  imports World SampleScript NetProps
begin

text \<open>
  The properties of the server with all its clients: they come to hold the same data, and a
  voice packet crosses from one to the other.
\<close>

section \<open>Everybody holds the same data\<close>


text \<open>A server with two clients, 7 and 8.\<close>

lemma serving_init: "serving server_init"
  by (rule servingI [OF srep_init good_empty])

lemma alone: "world () server1 ((\<lambda>_. None)(7 \<mapsto> (0, [packet1], client0)))"
proof -
  have "world () server_init (\<lambda>_ :: nat. None :: (nat \<times> string list \<times> (int, unit) client) option)"
    by (rule world.boot [OF serving_init]) (simp add: server_init_def)
  from world.joins [OF this _ fresh0 welcoming_ok server1(1)]
  show ?thesis by (simp add: sent1 reach_def)
qed

definition server2 :: "nat server" where
  "server2 = (case handle_peer_connect welcoming 8 server1 of Inr (s, i) \<Rightarrow> s)"

definition table2 :: "nat apeer option list" where
  "table2 = joined 8 1 (joined 7 0 [])"

lemma free_second: "free_at (joined (7 :: nat) 0 []) 1"
  by (simp add: free_at_def joined_def table_def nth_Cons')

lemma table2: "table2 = [Some (7, [], []), Some (8, [], []), None, None, None, None, None, None, None, None]"
  by (simp add: table2_def joined_def table_def eval_nat_numeral)

lemma good2: "good [] table2"
  unfolding table2_def by (rule good_joined [OF good1 free_second])

lemma server2:
  "handle_peer_connect welcoming 8 server1 = Inr (server2, 1)" "srep server2 [] table2"
  "sent_since server1 server2 = greet_log 1 8 [] table2"
proof -
  have "gives (handle_peer_connect welcoming 8 server1) (\<lambda>(s', j). j = 1 \<and> (\<exists>sd' ps' acts r.
    (sd', ps', acts, r) = ([], table2, [], Some (Some 1)) \<and> endpoints ps' = endpoints table2 \<and>
    (if accepted r then srep s' sd' ps' \<and> sv_log s' = sv_log server1 @ acts @ greet_log 1 8 sd' ps'
     else srep s' sd' (ps'[1 := None]) \<and> sv_log s' = sv_log server1 @ acts @ [Disconnect 8])))"
    unfolding table2_def
  proof (rule connect_gives [OF welcoming_exact server1(2) free_second])
    fix sd' :: kvs and ps' and acts :: "nat action list" and r :: "int option option"
    assume "(sd', ps', acts, r) = ([], joined 8 1 (joined (7 :: nat) 0 []), [], Some (Some 1))"
    then show "ents_ok sd' ps' \<and> length (greeting 1 sd' ps') + 1 < dmax"
      using greeting_length [of "[]" table2 1] kvs_ok_ents [of "[]" table2] good2
      by (simp add: good_def table2_def) (simp add: joined_def table_def)
  qed
  then show "handle_peer_connect welcoming 8 server1 = Inr (server2, 1)" "srep server2 [] table2"
    "sent_since server1 server2 = greet_log 1 8 [] table2"
    by (auto simp: gives_def server2_def accepted_def sent_since_def)
qed

text \<open>What is on its way to them.\<close>

definition waiting :: "nat \<Rightarrow> string list" where
  "waiting e = (if e = 7 then [packet1, peer_line ''PADD '' 1] else [greeting 1 [] table2])"

lemma log2: "greet_log 1 8 [] table2 = [Send 8 0 (greeting 1 [] table2), Send 7 0 (peer_line ''PADD '' 1)]"
  by (simp add: greet_log_def bcast_def table2 eval_nat_numeral)

lemma stays2: "Disconnect 8 \<notin> set (sent_since server1 server2)"
  unfolding server2(3) log2 by simp

definition pair :: "(nat, int, unit) clients" where
  "pair = (\<lambda>_. None)(7 \<mapsto> (0, waiting 7, client0), 8 \<mapsto> (1, waiting 8, client0))"

lemma together: "world () server2 pair"
proof -
  have "world () server2 ((reach (greet_log 1 8 [] table2) ((\<lambda>_. None)(7 \<mapsto> (0, [packet1], client0))))
      (8 \<mapsto> (1, inbox 8 (greet_log 1 8 [] table2), client0)))"
    using world.joins [OF alone _ fresh0 welcoming_ok server2(1) stays2] unfolding server2(3) by simp
  also have "(reach (greet_log 1 8 [] table2) ((\<lambda>_. None)(7 \<mapsto> (0, [packet1], client0))))
      (8 \<mapsto> (1, inbox 8 (greet_log 1 8 [] table2), client0)) = pair"
    unfolding log2 by (rule ext) (simp add: pair_def waiting_def reach_def)
  finally show ?thesis .
qed


section \<open>A voice crosses\<close>

lemma send_callback_wire:
  "cl_my_id cl \<noteq> no_id \<Longrightarrow> cl_muted cl = 0 \<Longrightarrow> cl_client cl = HLive \<Longrightarrow>
   send_callback p cl = Inr (cl\<lparr>cl_sent := cl_sent cl @ [(1, wire (cl_my_id cl) p)]\<rparr>)"
  by (simp add: send_callback_def enet_send_def wire_def)

lemma decode_wire: "length (np_data p) + 2 < 2 ^ 32 \<Longrightarrow> decode_audio_packet i (wire i p) = Some (wire i p)"
  by (simp add: decode_audio_packet_def wire_fields wire_length)

lemma small_id: "i < 10 \<Longrightarrow> (of_nat i :: u32) \<noteq> no_id \<and> unat (of_nat i :: u32) = i \<and> fmt_i (of_nat i :: u32) = dec_nat i"
proof -
  assume i: "i < 10"
  then have u: "unat (of_nat i :: u32) = i" using unat_of_nat32 [of i] by simp
  moreover have "unat no_id = 2 ^ 32 - 1" by (simp add: no_id_def unsigned_minus_1_eq_mask mask_eq_exp_minus_1)
  ultimately have "(of_nat i :: u32) \<noteq> no_id" using i by auto
  with u i fmt_i_small [of "of_nat i"] show ?thesis by simp
qed

text \<open>The server's part: the packet is passed on.\<close>

lemma relayed_member:
  assumes "j < length ps" "ps ! j = Some (e', pub', priv')" "j \<noteq> i" "ip_eq I (read_kv ''CHANNEL'' pub') c"
    "ip_truth I (read_kv ''DEAFEN'' pub') = Some False"
  shows "Send e' 1 data \<in> set (concat (map (relayed I ps i c data) [0..<length ps]))"
  using assms by (auto simp: relayed_def peer_at_def intro!: bexI [of _ j])

lemma voice_relayed:
  assumes s: "srep s sd ps" and i: "i < length ps" "ps ! i = Some (e, pub, priv)" and p: "length (np_data p) + 2 < 2 ^ 32"
    and I: "interp_ok I" "ip_truth I (read_kv ''MUTED'' pub) = Some False" "ip_truth I (read_kv ''SPEAKING'' pub) = Some b"
      "deaf_known I ps i (read_kv ''CHANNEL'' pub)" "length (ip_sum I now speak_time) + 1 < dmax"
    and jim: "\<And>s0 s1. on_audio_packet I speak_time now (dec_nat i) s0 = Inr (s1, Inr ()) \<Longrightarrow>
      fst (jim (''on_audio_packet '' @ dec_nat i) s0) = s1"
  shows "gives (handle_event jim jimv (Receive i 1 (wire (of_nat i) p)) s) (\<lambda>s'.
    sent_since s s' = concat (map (relayed I ps i (read_kv ''CHANNEL'' pub) (wire (of_nat i) p)) [0..<length ps]))"
proof -
  let ?w = "wire (of_nat i) p" and ?s = "s\<lparr>sv_audio := Some (wire (of_nat i) p)\<rparr>"
  have i10: "i < 10" using i(1) table_small [OF s] by simp
  obtain q where q: "get_slot i s = Inr q" "peer_rep i q (ps ! i)" using s i(1) by (elim get_slot_full)
  then have id: "pr_id q = of_nat i" by (simp add: peer_rep_def)
  have "srep ?s sd ps" "sv_audio ?s = Some ?w" using s by simp_all
  moreover have "peer_at ps i = Some (e, pub, priv)" using i by (simp add: peer_at_def)
  ultimately have "gives (on_audio_packet I speak_time now (dec_nat i) ?s) (\<lambda>(s', r). r = Inr () \<and>
    sv_log s' = sv_log ?s @ concat (map (relayed I ps i (read_kv ''CHANNEL'' pub) ?w) [0..<length ps]) \<and>
    srep s' sd (ps[i := Some (spoken b (ip_sum I now speak_time) (e, pub, priv))]))"
    by (intro on_audio_packet_gives [OF I(1)]) (use I in auto)
  then obtain s1 where s1: "on_audio_packet I speak_time now (dec_nat i) ?s = Inr (s1, Inr ())"
    "sv_log s1 = sv_log s @ concat (map (relayed I ps i (read_kv ''CHANNEL'' pub) ?w) [0..<length ps])"
    by (auto simp: gives_def)
  have "fst (jim (''on_audio_packet '' @ dec_nat i) ?s) = s1" by (rule jim [OF s1(1)])
  with s1(2) q(1) show ?thesis
    by (simp add: handle_event_def handle_packet_input_audio_def id decode_wire [OF p] small_id [OF i10]
        sent_since_def Let_def)
qed

text \<open>The whole way.\<close>

lemma voice_path:
  fixes cl cl' :: "('a::zero, 'd) client"
  assumes w: "world d0 s W" "W e = Some (i, [], cl)" "W e' = Some (j, ms, cl')" "e' \<noteq> e"
    and cl: "cl_muted cl = 0" "cl_client cl = HLive" "cl_deafen cl' = 0"
    and p: "length (np_data p) + 2 < 2 ^ 32" "unat (np_time p) \<le> MAX_TIME"
    and I: "interp_ok I" and s: "srep s sd ps" and i: "ps ! i = Some (e, pub, priv)" and j: "ps ! j = Some (e', pub', priv')"
    and fl: "ip_truth I (read_kv ''MUTED'' pub) = Some False" "ip_truth I (read_kv ''SPEAKING'' pub) = Some b"
      "deaf_known I ps i (read_kv ''CHANNEL'' pub)"
    and hears: "ip_truth I (read_kv ''DEAFEN'' pub') = Some False"
      "ip_eq I (read_kv ''CHANNEL'' pub') (read_kv ''CHANNEL'' pub)"
    and t: "length (ip_sum I now speak_time) + 1 < dmax"
    and jim: "\<And>s0 s1. on_audio_packet I speak_time now (dec_nat i) s0 = Inr (s1, Inr ()) \<Longrightarrow>
      fst (jim (''on_audio_packet '' @ dec_nat i) s0) = s1"
    and dec: "decoder_writes dec"
  shows "send_callback p cl = Inr (cl\<lparr>cl_sent := cl_sent cl @ [(1, wire (of_nat i) p)]\<rparr>) \<and>
   gives (handle_event jim jimv (Receive i 1 (wire (of_nat i) p)) s) (\<lambda>s'.
     Send e' 1 (wire (of_nat i) p) \<in> set (sent_since s s')) \<and>
   gives (foldR (handle_server_msg d0) ms cl') (\<lambda>c.
     gives (handle_server_audio dec (wire (of_nat i) p) c) (\<lambda>c'. \<exists>v. cp_peer (cl_peers c ! i) = Some v \<and>
       svc_packet_recieve dec p v (cl_svc c) = Inr (cl_svc c')))"
proof -
  from world_inv [OF w(1)] obtain sd0 ps0 where "srep s sd0 ps0" "seated W ps0" by (auto simp: world_ok_def)
  then have W: "seated W ps" using srep_unique [OF s] by simp
  have pl: "place W e = Some i" "place W e' = Some j" using w(2,3) by (simp_all add: place_def)
  have at: "only_at e (Some i) ps" "only_at e' (Some j) ps"
    using seated_only_at [OF W, of e] seated_only_at [OF W, of e'] pl by simp_all
  have il: "i < length ps" and jl: "j < length ps" using at by (auto elim: only_at_Some)
  have ij: "i \<noteq> j" using i j w(4) by auto
  have i10: "i < 10" and j10: "j < 10" using il jl table_small [OF s] by simp_all
  note ids = small_id [OF i10] small_id [OF j10]
  have "follows i e s [] cl" using w(1,2) by (intro session_inv [where ?d0.0 = d0] world_session)
  then have "cl_my_id cl = of_nat i" by (rule syncedE) (auto simp: crep_def)
  with cl ids(1) have snd: "send_callback p cl = Inr (cl\<lparr>cl_sent := cl_sent cl @ [(1, wire (of_nat i) p)]\<rparr>)"
    by (simp add: send_callback_wire)
  have rel: "gives (handle_event jim jimv (Receive i 1 (wire (of_nat i) p)) s) (\<lambda>s'.
      Send e' 1 (wire (of_nat i) p) \<in> set (sent_since s s'))"
    by (rule gives_mono [OF voice_relayed [where jim = jim, OF s il i p(1) I fl t jim]])
      (use relayed_member [OF jl j ij [symmetric] hears(2,1)] in simp_all)
  have fol: "follows j e' s ms cl'" using w(1,3) by (intro session_inv [where ?d0.0 = d0] world_session)
  from world_read [OF w(1,3)] obtain c1 where c1: "foldR (handle_server_msg d0) ms cl' = Inr c1" "cl_deafen c1 = 0"
    using cl(3) by (auto simp: frame_def)
  from synced_read [OF fol, of d0] obtain sd1 ps1 where "srep s sd1 ps1" "gives (foldR (handle_server_msg d0) ms cl')
      (\<lambda>c. \<exists>a. crep c a \<and> ac_id a = of_nat j \<and> tracks a sd1 ps1)" by blast
  then obtain a where a: "crep c1 a" "ac_id a = of_nat j" "tracks a sd ps" using srep_unique [OF s] c1(1) by auto
  have "peer_at ps i = Some (e, pub, priv)" using i il by (simp add: peer_at_def)
  with a(3) obtain kvs where "peer_at (ac_peers a) i = Some (kvs, of_nat i \<noteq> ac_id a)" unfolding tracks_def by blast
  moreover have "(of_nat i :: u32) \<noteq> of_nat j" using ids ij by metis
  ultimately have "peer_at (ac_peers a) (unat (of_nat i :: u32)) = Some (kvs, True)" using a(2) ids(1) by simp
  from audio_delivered [OF a(1) c1(2) this dec p] ids(1)
  have "gives (handle_server_audio dec (wire (of_nat i) p) c1) (\<lambda>c'. \<exists>v. cp_peer (cl_peers c1 ! i) = Some v \<and>
     svc_packet_recieve dec p v (cl_svc c1) = Inr (cl_svc c'))" by (auto elim!: gives_mono)
  with snd rel c1(1) show ?thesis by simp
qed

text \<open>C3: when a client that is not muted speaks, the packet of its sound card goes to the server
  under its number, the server's sample script passes it on to every other peer of the channel
  that is not deaf, and such a peer, once it has read what the server sent it before, hands the
  very same packet to the voice it has for the speaker.\<close>

theorem voice_crosses:
  "world d0 s W \<Longrightarrow> W e = Some (i, [], cl) \<Longrightarrow> W e' = Some (j, ms, cl') \<Longrightarrow> e' \<noteq> e \<Longrightarrow>
   cl_muted cl = 0 \<Longrightarrow> cl_client cl = HLive \<Longrightarrow> cl_deafen cl' = 0 \<Longrightarrow> length (np_data p) + 2 < 2 ^ 32 \<Longrightarrow> unat (np_time p) \<le> MAX_TIME \<Longrightarrow>
   interp_ok I \<Longrightarrow> srep s sd ps \<Longrightarrow> ps ! i = Some (e, pub, priv) \<Longrightarrow> ps ! j = Some (e', pub', priv') \<Longrightarrow>
   ip_truth I (read_kv ''MUTED'' pub) = Some False \<Longrightarrow> ip_truth I (read_kv ''SPEAKING'' pub) = Some b \<Longrightarrow>
   deaf_known I ps i (read_kv ''CHANNEL'' pub) \<Longrightarrow> ip_truth I (read_kv ''DEAFEN'' pub') = Some False \<Longrightarrow>
   ip_eq I (read_kv ''CHANNEL'' pub') (read_kv ''CHANNEL'' pub) \<Longrightarrow> length (ip_sum I now speak_time) + 1 < dmax \<Longrightarrow>
   (\<And>s0 s1. on_audio_packet I speak_time now (dec_nat i) s0 = Inr (s1, Inr ()) \<Longrightarrow>
      fst (jim (''on_audio_packet '' @ dec_nat i) s0) = s1) \<Longrightarrow> decoder_writes dec \<Longrightarrow>
   send_callback p cl = Inr (cl\<lparr>cl_sent := cl_sent cl @ [(1, wire (of_nat i) p)]\<rparr>) \<and>
   gives (handle_event jim jimv (Receive i 1 (wire (of_nat i) p)) s) (\<lambda>s'.
     Send e' 1 (wire (of_nat i) p) \<in> set (sent_since s s')) \<and>
   gives (foldR (handle_server_msg d0) ms cl') (\<lambda>c.
     gives (handle_server_audio dec (wire (of_nat i) p) c) (\<lambda>c'. \<exists>v. cp_peer (cl_peers c ! i) = Some v \<and>
       svc_packet_recieve dec p v (cl_svc c) = Inr (cl_svc c')))"
  by (rule voice_path)

text \<open>An interpreter that reads numbers in decimal and takes a missing value for no.\<close>

definition interp0 :: interp where
  "interp0 = \<lparr>ip_long = \<lambda>t. Some (atoi t),
     ip_truth = \<lambda>t. if t = ''1'' then Some True else if t = ''0'' \<or> t = [] then Some False else None,
     ip_eq = (=), ip_less = \<lambda>x y. atoi x < atoi y, ip_sum = \<lambda>x y. dec_int (atoi x + atoi y)\<rparr>"

lemma interp0: "interp_ok interp0"
  by (auto simp: interp_ok_def interp0_def atoi_dec_nat dest: arg_cong [where f = atoi])

lemma sum0: "length (ip_sum interp0 ''5'' ''100'') + 1 < dmax"
proof -
  have "dec_nat 5 = ''5''" "dec_nat 100 = ''100''" by code_simp+
  then have "atoi ''5'' = 5" "atoi ''100'' = 100" using atoi_dec_nat [of 5] atoi_dec_nat [of 100] by simp_all
  then show ?thesis using dec_nat_length [of 105 3] by (simp add: interp0_def dec_int_def)
qed

lemma read_nil [simp]: "read_kv k [] = []"
  by (simp add: read_kv_def)

definition sample_jim :: "string \<Rightarrow> nat server \<Rightarrow> nat server \<times> int option option" where
  "sample_jim t s = (case on_audio_packet interp0 ''100'' ''5'' (drop 16 t) s of
     Inr (s', Inr _) \<Rightarrow> (s', Some (Some 0)) | _ \<Rightarrow> (s, None))"

theorem voice_crosses_witness:
  "gives (handle_event sample_jim welcoming (Receive 0 1 (wire 0 sound)) server2) (\<lambda>s'.
     Send 8 1 (wire 0 sound) \<in> set (sent_since server2 s')) \<and>
   gives (foldR (handle_server_msg ()) (waiting 8) client0) (\<lambda>c.
     gives (handle_server_audio (\<lambda>d b pcm. (d, replicate (length pcm) (Some 1))) (wire 0 sound) c) (\<lambda>c'.
       \<exists>v. cp_peer (cl_peers c ! 0) = Some v \<and>
         svc_packet_recieve (\<lambda>d b pcm. (d, replicate (length pcm) (Some 1))) sound v (cl_svc c) = Inr (cl_svc c')))"
proof -
  have "pair 7 = Some (0, waiting 7, client0)" by (simp add: pair_def)
  from world_read [OF together this] obtain cl where cl: "frame client0 cl" "world () server2 (pair(7 \<mapsto> (0, [], cl)))"
    by blast
  have c0: "cl_muted client0 = 0" "cl_client client0 = HLive" "cl_deafen client0 = 0"
    by (simp_all add: client0_def init_client_state_def)
  have other: "(pair(7 \<mapsto> (0, [], cl))) 8 = Some (1, waiting 8, client0)" by (simp add: pair_def)
  have dec: "decoder_writes (\<lambda>d b pcm. (d :: unit, replicate (length pcm) (Some (1 :: int))))"
    by (auto simp: decoder_writes_def)
  have "send_callback sound cl = Inr (cl\<lparr>cl_sent := cl_sent cl @ [(1, wire (of_nat 0) sound)]\<rparr>) \<and>
   gives (handle_event sample_jim welcoming (Receive 0 1 (wire (of_nat 0) sound)) server2) (\<lambda>s'.
     Send 8 1 (wire (of_nat 0) sound) \<in> set (sent_since server2 s')) \<and>
   gives (foldR (handle_server_msg ()) (waiting 8) client0) (\<lambda>c.
     gives (handle_server_audio (\<lambda>d b pcm. (d, replicate (length pcm) (Some 1))) (wire (of_nat 0) sound) c) (\<lambda>c'.
       \<exists>v. cp_peer (cl_peers c ! 0) = Some v \<and>
         svc_packet_recieve (\<lambda>d b pcm. (d, replicate (length pcm) (Some 1))) sound v (cl_svc c) = Inr (cl_svc c')))"
  proof (rule voice_crosses [where jim = sample_jim and b = False and pub = "[]" and pub' = "[]" and
      priv = "[]" and priv' = "[]" and I = interp0 and speak_time = "''100''" and now = "''5''",
      OF cl(2) _ other _ _ _ _ _ _ interp0 server2(2) _ _ _ _ _ _ _ _ _ dec])
    show "length (ip_sum interp0 ''5'' ''100'') + 1 < dmax" by (rule sum0)
    show "fst (sample_jim (''on_audio_packet '' @ dec_nat 0) s0) = s1"
      if "on_audio_packet interp0 ''100'' ''5'' (dec_nat 0) s0 = Inr (s1, Inr ())" for s0 s1
      using that by (simp add: sample_jim_def)
    show "deaf_known interp0 table2 0 (read_kv ''CHANNEL'' [])"
      by (auto simp: deaf_known_def table2 interp0_def nth_Cons' split: option.splits)
  qed (use cl c0 in \<open>simp_all add: frame_def table2 sound_def MAX_TIME_def interp0_def\<close>)
  then show ?thesis by simp
qed

text \<open>C16: the sample script passes a voice packet on to exactly the peers of the speaker's channel
  that are not deaf, the speaker itself left out, each once and in the order of the table; the
  speaker is then marked as speaking until the time limit, and nothing else changes.\<close>

theorem sample_relays:
  "interp_ok I \<Longrightarrow> srep s sd ps \<Longrightarrow> sv_audio s = Some data \<Longrightarrow> peer_at ps i = Some (e, pub, priv) \<Longrightarrow>
   ip_truth I (read_kv ''MUTED'' pub) = Some False \<Longrightarrow> ip_truth I (read_kv ''SPEAKING'' pub) = Some b \<Longrightarrow>
   deaf_known I ps i (read_kv ''CHANNEL'' pub) \<Longrightarrow> length (ip_sum I now speak_time) + 1 < dmax \<Longrightarrow>
   gives (on_audio_packet I speak_time now (dec_nat i) s) (\<lambda>(s', r). r = Inr () \<and>
     sv_log s' = sv_log s @ concat (map (relayed I ps i (read_kv ''CHANNEL'' pub) data) [0..<length ps]) \<and>
     srep s' sd (ps[i := Some (spoken b (ip_sum I now speak_time) (e, pub, priv))]))"
  by (rule on_audio_packet_gives) simp_all

theorem sample_relays_witness:
  "gives (on_audio_packet interp0 ''100'' ''5'' (dec_nat 0) (server2\<lparr>sv_audio := Some ''abc''\<rparr>)) (\<lambda>(s', r).
     r = Inr () \<and> sv_log s' = sv_log server2 @ [Send 8 1 ''abc''])"
proof -
  let ?s = "server2\<lparr>sv_audio := Some ''abc''\<rparr>"
  have d: "deaf_known interp0 table2 0 (read_kv ''CHANNEL'' [])"
    by (auto simp: deaf_known_def table2 interp0_def nth_Cons' split: option.splits)
  have "gives (on_audio_packet interp0 ''100'' ''5'' (dec_nat 0) ?s) (\<lambda>(s', r). r = Inr () \<and>
     sv_log s' = sv_log ?s @ concat (map (relayed interp0 table2 0 (read_kv ''CHANNEL'' []) ''abc'') [0..<length table2]) \<and>
     srep s' [] (table2[0 := Some (spoken False (ip_sum interp0 ''5'' ''100'') (7, [], []))]))"
    by (rule sample_relays [where e = 7, OF interp0 _ _ _ _ _ d sum0])
      (use server2(2) in \<open>simp_all add: table2 peer_at_def interp0_def\<close>)
  moreover have "concat (map (relayed interp0 table2 0 (read_kv ''CHANNEL'' []) ''abc'') [0..<length table2]) =
      [Send 8 1 ''abc'']"
    by (simp add: table2 relayed_def peer_at_def interp0_def upt_rec [of _ 10] nth_Cons')
  ultimately show ?thesis by (auto elim: gives_mono)
qed

end
