(* ===== verification/BaseDir.thy ===== *)
theory BaseDir
  imports Prelude
begin

text \<open>
  The base directories of the user and of the system (\<open>src/common/basedir.c\<close>): the cache
  of the directories the environment names, the search for a file in them, and the creation
  of a path.

  A string or an array obtained from \<open>malloc\<close> is its address and its contents; the memory
  keeps the addresses that are live, so that a block freed twice and a block that is read
  after it was freed are faults.  Whether an allocation succeeds is part of the memory too:
  this file tests every one of them.  The environment, \<open>fopen\<close> and \<open>mkdir\<close> are parameters.
  The target is POSIX: \<open>NO_ESCAPES_IN_PATHS\<close> is defined, the separators are \<open>/\<close> and \<open>:\<close>.
\<close>

section \<open>Memory\<close>

record xmem =
  xm_live :: "nat set"
  xm_brk :: nat
  xm_answers :: "bool list"  \<comment> \<open>of the next calls of \<open>malloc\<close>; after the last, it succeeds\<close>

type_synonym 'x xm = "xmem \<Rightarrow> ('x \<times> xmem) res"

definition retX :: "'x \<Rightarrow> 'x xm" where
  "retX x m = Inr (x, m)"

definition bindX :: "'x xm \<Rightarrow> ('x \<Rightarrow> 'y xm) \<Rightarrow> 'y xm" where
  "bindX c k m = bindR (c m) (\<lambda>(x, m). k x m)"

definition liftX :: "'x res \<Rightarrow> 'x xm" where
  "liftX r m = bindR r (\<lambda>x. Inr (x, m))"

definition xmalloc :: "nat option xm" where
  "xmalloc m = (case xm_answers m of
     False # as \<Rightarrow> Inr (None, m\<lparr>xm_answers := as\<rparr>)
   | as \<Rightarrow> Inr (Some (xm_brk m),
       m\<lparr>xm_live := insert (xm_brk m) (xm_live m), xm_brk := Suc (xm_brk m), xm_answers := tl as\<rparr>))"

definition xfree :: "nat \<Rightarrow> unit xm" where
  "xfree a m = (if a \<in> xm_live m then Inr ((), m\<lparr>xm_live := xm_live m - {a}\<rparr>) else Inl Dangling)"

definition xread :: "nat \<Rightarrow> unit xm" where
  "xread a m = (if a \<in> xm_live m then Inr ((), m) else Inl Dangling)"

text \<open>A string, and an array of strings up to its null pointer.\<close>

type_synonym xstr = "nat \<times> string"
type_synonym xlist = "nat \<times> xstr list"

definition xfree_opt :: "xstr option \<Rightarrow> unit xm" where
  "xfree_opt p = (case p of None \<Rightarrow> retX () | Some (a, t) \<Rightarrow> xfree a)"

text \<open>\<open>malloc(n)\<close>, then the string \<open>t\<close> with its zero byte is written there.\<close>

definition xput :: "nat \<Rightarrow> string \<Rightarrow> xstr option xm" where
  "xput n t = bindX xmalloc (\<lambda>p. case p of None \<Rightarrow> retX None
     | Some a \<Rightarrow> bindX (liftX (memcpy (malloc n) 0 (cmem t) 0 (Suc (length t)))) (\<lambda>_. retX (Some (a, t))))"

definition btext :: "block \<Rightarrow> string" where
  "btext b = map the (takeWhile (\<lambda>c. c \<noteq> Some nul) b)"

definition strdup :: "string \<Rightarrow> xstr option xm" where
  "strdup t = xput (Suc (length t)) t"

section \<open>The environment\<close>

type_synonym env = "string \<Rightarrow> string option"

definition xdgGetEnv :: "env \<Rightarrow> string \<Rightarrow> string option" where
  "xdgGetEnv env name = (case env name of None \<Rightarrow> None | Some v \<Rightarrow> if v = [] then None else Some v)"

text \<open>What \<open>xdgEnvDup\<close> returns, with the \<open>errno\<close> of a null pointer.\<close>

datatype dup = Dup xstr | EINVAL | ENOMEM

definition dup_str :: "dup \<Rightarrow> xstr option" where
  "dup_str d = (case d of Dup s \<Rightarrow> Some s | _ \<Rightarrow> None)"

definition xdgEnvDup :: "env \<Rightarrow> string \<Rightarrow> dup xm" where
  "xdgEnvDup env name = (case xdgGetEnv env name of None \<Rightarrow> retX EINVAL
     | Some v \<Rightarrow> bindX (strdup v) (\<lambda>r. retX (case r of None \<Rightarrow> ENOMEM | Some s \<Rightarrow> Dup s)))"

section \<open>Lists of strings\<close>

fun free_items :: "xstr list \<Rightarrow> unit xm" where
  "free_items [] = retX ()"
| "free_items ((a, t) # items) = bindX (xfree a) (\<lambda>_. free_items items)"

definition xdgFreeStringList :: "xlist option \<Rightarrow> unit xm" where
  "xdgFreeStringList list = (case list of None \<Rightarrow> retX ()
     | Some (l, items) \<Rightarrow> bindX (xread l) (\<lambda>_. bindX (free_items items) (\<lambda>_. xfree l)))"

text \<open>
  \<open>xdgSplitPath\<close>: the array has one place more than separators, and one for the null
  pointer; \<open>split_items\<close> is the loop, with the pieces made so far.
\<close>

abbreviation pathsep :: char where "pathsep \<equiv> CHR '':''"
abbreviation dirsep :: char where "dirsep \<equiv> CHR ''/''"

function split_items :: "nat \<Rightarrow> nat \<Rightarrow> xstr list \<Rightarrow> string \<Rightarrow> xlist option xm" where
  "split_items n l items s =
     (if s = [] then retX (Some (l, items))
      else let w = takeWhile (\<lambda>c. c \<noteq> pathsep) s in
        if n \<le> length items then (\<lambda>m. Inl OutOfBounds)
        else bindX (xput (Suc (length w)) w) (\<lambda>r. case r of
          None \<Rightarrow> bindX (xdgFreeStringList (Some (l, items))) (\<lambda>_. retX None)
        | Some item \<Rightarrow> split_items n l (items @ [item]) (drop (Suc (length w)) s)))"
  by pat_completeness auto
termination by (relation "measure (\<lambda>(n, l, items, s). length s)") auto

declare split_items.simps [simp del]

definition xdgSplitPath :: "string \<Rightarrow> xlist option xm" where
  "xdgSplitPath s = bindX xmalloc (\<lambda>p. case p of None \<Rightarrow> retX None
     | Some l \<Rightarrow> split_items (2 + length (filter (\<lambda>c. c = pathsep) s)) l [] s)"

fun copy_defaults :: "nat \<Rightarrow> xstr list \<Rightarrow> string list \<Rightarrow> xlist option xm" where
  "copy_defaults l items [] = retX (Some (l, items))"
| "copy_defaults l items (d # ds) = bindX (xput (Suc (length d)) d) (\<lambda>r. case r of
     None \<Rightarrow> bindX (xdgFreeStringList (Some (l, items))) (\<lambda>_. retX None)
   | Some item \<Rightarrow> copy_defaults l (items @ [item]) ds)"

definition xdgGetPathListEnv :: "env \<Rightarrow> string \<Rightarrow> string list \<Rightarrow> xlist option xm" where
  "xdgGetPathListEnv env name defaults = (case xdgGetEnv env name of
     Some v \<Rightarrow> bindX (xput (Suc (length v)) v) (\<lambda>r. case r of None \<Rightarrow> retX None
       | Some item \<Rightarrow> bindX (xdgSplitPath (snd item)) (\<lambda>list. bindX (xfree (fst item)) (\<lambda>_. retX list)))
   | None \<Rightarrow> bindX xmalloc (\<lambda>p. case p of None \<Rightarrow> retX None | Some l \<Rightarrow> copy_defaults l [] defaults))"

section \<open>The cache\<close>

record xdgCachedData =
  dataHome :: "xstr option"
  configHome :: "xstr option"
  cacheHome :: "xstr option"
  searchableDataDirectories :: "xlist option"
  searchableConfigDirectories :: "xlist option"

definition zero_cache :: xdgCachedData where
  "zero_cache = \<lparr>dataHome = None, configHome = None, cacheHome = None,
     searchableDataDirectories = None, searchableConfigDirectories = None\<rparr>"

definition DefaultRelativeDataHome :: string where "DefaultRelativeDataHome = ''/.local/share''"
definition DefaultRelativeConfigHome :: string where "DefaultRelativeConfigHome = ''/.config''"
definition DefaultRelativeCacheHome :: string where "DefaultRelativeCacheHome = ''/.cache''"
definition DefaultDataDirectoriesList :: "string list" where
  "DefaultDataDirectoriesList = [''/usr/local/share'', ''/usr/share'']"
definition DefaultConfigDirectoriesList :: "string list" where
  "DefaultConfigDirectoriesList = [''/etc/xdg'']"

text \<open>
  The null statements after the first two tests make their bodies unconditional: a home is
  freed when there is a list that does not begin with it, and not when there is no list.
\<close>

definition free_home :: "xlist option \<Rightarrow> xstr option \<Rightarrow> unit xm" where
  "free_home list home = (case list of None \<Rightarrow> retX ()
     | Some (l, items) \<Rightarrow> bindX (xread l) (\<lambda>_.
         if map_option fst home \<noteq> (case items of [] \<Rightarrow> None | item # _ \<Rightarrow> Some (fst item))
         then xfree_opt home else retX ()))"

definition xdgFreeData :: "xdgCachedData \<Rightarrow> xdgCachedData xm" where
  "xdgFreeData cache =
     bindX (free_home (searchableDataDirectories cache) (dataHome cache)) (\<lambda>_.
     bindX (free_home (searchableConfigDirectories cache) (configHome cache)) (\<lambda>_.
     bindX (xfree_opt (cacheHome cache)) (\<lambda>_.
     bindX (xdgFreeStringList (searchableDataDirectories cache)) (\<lambda>_.
     bindX (xdgFreeStringList (searchableConfigDirectories cache)) (\<lambda>_. retX zero_cache)))))"

text \<open>
  \<open>value\<close> has room for the home and the longest of the relative paths; each that is needed
  is written after the home and copied from there.
\<close>

definition extralen :: nat where
  "extralen = max (max (Suc (length DefaultRelativeDataHome)) (Suc (length DefaultRelativeConfigHome)))
     (Suc (length DefaultRelativeCacheHome))"

definition default_home :: "nat \<Rightarrow> string \<Rightarrow> xstr option \<Rightarrow> block \<Rightarrow> (xstr option \<times> block) xm" where
  "default_home homelen rel home value = (case home of Some h \<Rightarrow> retX (home, value)
     | None \<Rightarrow> bindX (liftX (memcpy value homelen (cmem rel) 0 (Suc (length rel)))) (\<lambda>value.
         bindX (strdup (btext value)) (\<lambda>h. retX (h, value))))"

definition make_default_homes :: "env \<Rightarrow> xdgCachedData \<Rightarrow> (bool \<times> xdgCachedData) xm" where
  "make_default_homes env cache = (case xdgGetEnv env ''HOME'' of None \<Rightarrow> retX (False, cache)
     | Some home \<Rightarrow> bindX xmalloc (\<lambda>p. case p of None \<Rightarrow> retX (False, cache)
       | Some a \<Rightarrow>
          bindX (liftX (memcpy (malloc (length home + extralen)) 0 (cmem home) 0 (Suc (length home)))) (\<lambda>value.
          bindX (default_home (length home) DefaultRelativeDataHome (dataHome cache) value) (\<lambda>(h1, value).
          bindX (default_home (length home) DefaultRelativeConfigHome (configHome cache) value) (\<lambda>(h2, value).
          bindX (default_home (length home) DefaultRelativeCacheHome (cacheHome cache) value) (\<lambda>(h3, value).
          bindX (xfree a) (\<lambda>_.
          retX (h1 \<noteq> None \<and> h2 \<noteq> None \<and> h3 \<noteq> None,
            cache\<lparr>dataHome := h1, configHome := h2, cacheHome := h3\<rparr>))))))))"

definition xdgUpdateHomeDirectories :: "env \<Rightarrow> xdgCachedData \<Rightarrow> (bool \<times> xdgCachedData) xm" where
  "xdgUpdateHomeDirectories env cache =
     bindX (xdgEnvDup env ''XDG_DATA_HOME'') (\<lambda>d. let cache = cache\<lparr>dataHome := dup_str d\<rparr> in
     if d = ENOMEM then retX (False, cache) else
     bindX (xdgEnvDup env ''XDG_CONFIG_HOME'') (\<lambda>d. let cache = cache\<lparr>configHome := dup_str d\<rparr> in
     if d = ENOMEM then retX (False, cache) else
     bindX (xdgEnvDup env ''XDG_CACHE_HOME'') (\<lambda>d. let cache = cache\<lparr>cacheHome := dup_str d\<rparr> in
     if d = ENOMEM then retX (False, cache) else
     if dataHome cache \<noteq> None \<and> configHome cache \<noteq> None \<and> cacheHome cache \<noteq> None then retX (True, cache)
     else make_default_homes env cache)))"

definition xdgGetDirectoryLists :: "env \<Rightarrow> string \<Rightarrow> xstr option \<Rightarrow> string list \<Rightarrow> xlist option xm" where
  "xdgGetDirectoryLists env envname homedir defaults =
     bindX (xdgGetPathListEnv env envname defaults) (\<lambda>r. case r of None \<Rightarrow> retX None
     | Some (l, items) \<Rightarrow> bindX xmalloc (\<lambda>p. case p of
         None \<Rightarrow> bindX (xdgFreeStringList (Some (l, items))) (\<lambda>_. retX None)
       | Some d \<Rightarrow> bindX (xfree l) (\<lambda>_.
           retX (Some (d, (case homedir of None \<Rightarrow> [] | Some h \<Rightarrow> [h]) @ items)))))"

definition xdgUpdateDirectoryLists :: "env \<Rightarrow> xdgCachedData \<Rightarrow> (bool \<times> xdgCachedData) xm" where
  "xdgUpdateDirectoryLists env cache =
     bindX (xdgGetDirectoryLists env ''XDG_DATA_DIRS'' (dataHome cache) DefaultDataDirectoriesList) (\<lambda>r.
     let cache = cache\<lparr>searchableDataDirectories := r\<rparr> in
     if r = None then retX (False, cache)
     else bindX (xdgGetDirectoryLists env ''XDG_CONFIG_DIRS'' (configHome cache) DefaultConfigDirectoriesList) (\<lambda>r.
       retX (r \<noteq> None, cache\<lparr>searchableConfigDirectories := r\<rparr>)))"

section \<open>The handle\<close>

text \<open>
  \<open>reserved\<close> is the cache with the address of its block; it is a null pointer in a handle that
  has none.  \<open>xdgInitHandle\<close> is given a handle (for a null pointer it returns one).
\<close>

type_synonym xdgHandle = "(nat \<times> xdgCachedData) option"

definition xdgUpdateData :: "env \<Rightarrow> xdgHandle \<Rightarrow> (bool \<times> xdgHandle) xm" where
  "xdgUpdateData env handle = bindX xmalloc (\<lambda>p. case p of None \<Rightarrow> retX (False, handle)
     | Some a \<Rightarrow>
        bindX (bindX (xdgUpdateHomeDirectories env zero_cache) (\<lambda>(ok, cache).
          if ok then xdgUpdateDirectoryLists env cache else retX (False, cache))) (\<lambda>(ok, cache).
        if ok then
          bindX (case handle of None \<Rightarrow> retX ()
            | Some (b, oldCache) \<Rightarrow> bindX (xread b) (\<lambda>_. bindX (xdgFreeData oldCache) (\<lambda>_. xfree b))) (\<lambda>_.
          retX (True, Some (a, cache)))
        else bindX (xdgFreeData cache) (\<lambda>_. bindX (xfree a) (\<lambda>_. retX (False, handle)))))"

definition xdgInitHandle :: "env \<Rightarrow> xdgHandle option xm" where
  "xdgInitHandle env = bindX (xdgUpdateData env None) (\<lambda>(ok, handle). retX (if ok then Some handle else None))"

definition xdgWipeHandle :: "xdgHandle \<Rightarrow> unit xm" where
  "xdgWipeHandle handle = (case handle of None \<Rightarrow> (\<lambda>m. Inl NullDeref)
     | Some (a, cache) \<Rightarrow> bindX (xread a) (\<lambda>_. bindX (xdgFreeData cache) (\<lambda>_. xfree a)))"

section \<open>The queries\<close>

text \<open>A handle is a pointer: \<open>None\<close> asks the environment anew.\<close>

definition xdgGetCache :: "xdgHandle \<Rightarrow> xdgCachedData xm" where
  "xdgGetCache handle = (case handle of None \<Rightarrow> (\<lambda>m. Inl NullDeref)
     | Some (a, cache) \<Rightarrow> bindX (xread a) (\<lambda>_. retX cache))"

definition xdgGetRelativeHome :: "env \<Rightarrow> string \<Rightarrow> string \<Rightarrow> nat \<Rightarrow> xstr option xm" where
  "xdgGetRelativeHome env envname relativefallback fallbacklength =
     bindX (xdgEnvDup env envname) (\<lambda>d. case d of Dup s \<Rightarrow> retX (Some s) | ENOMEM \<Rightarrow> retX None
     | EINVAL \<Rightarrow> (case xdgGetEnv env ''HOME'' of None \<Rightarrow> retX None
       | Some home \<Rightarrow> bindX xmalloc (\<lambda>p. case p of None \<Rightarrow> retX None
         | Some a \<Rightarrow>
            bindX (liftX (bindR (memcpy (malloc (length home + fallbacklength)) 0 (cmem home) 0 (length home)) (\<lambda>b.
              memcpy b (length home) (cmem relativefallback) 0 (fallbacklength + 1)))) (\<lambda>b.
            retX (Some (a, btext b))))))"

definition home_query :: "env \<Rightarrow> string \<Rightarrow> string \<Rightarrow> (xdgCachedData \<Rightarrow> xstr option) \<Rightarrow> xdgHandle option \<Rightarrow>
  xstr option xm" where
  "home_query env envname rel field handle = (case handle of
     Some h \<Rightarrow> bindX (xdgGetCache h) (\<lambda>c. retX (field c))
   | None \<Rightarrow> xdgGetRelativeHome env envname rel (length rel))"

definition xdgDataHome :: "env \<Rightarrow> xdgHandle option \<Rightarrow> xstr option xm" where
  "xdgDataHome env = home_query env ''XDG_DATA_HOME'' DefaultRelativeDataHome dataHome"

definition xdgConfigHome :: "env \<Rightarrow> xdgHandle option \<Rightarrow> xstr option xm" where
  "xdgConfigHome env = home_query env ''XDG_CONFIG_HOME'' DefaultRelativeConfigHome configHome"

definition xdgCacheHome :: "env \<Rightarrow> xdgHandle option \<Rightarrow> xstr option xm" where
  "xdgCacheHome env = home_query env ''XDG_CACHE_HOME'' DefaultRelativeCacheHome cacheHome"

text \<open>The list from its second place on; a list that is empty has none.\<close>

definition dirs_query :: "env \<Rightarrow> string \<Rightarrow> string list \<Rightarrow> (xdgCachedData \<Rightarrow> xlist option) \<Rightarrow> xdgHandle option \<Rightarrow>
  xlist option xm" where
  "dirs_query env envname defaults field handle = (case handle of
     Some h \<Rightarrow> bindX (xdgGetCache h) (\<lambda>c. case field c of None \<Rightarrow> (\<lambda>m. Inl NullDeref)
       | Some (l, []) \<Rightarrow> (\<lambda>m. Inl OutOfBounds) | Some (l, item # items) \<Rightarrow> retX (Some (l, items)))
   | None \<Rightarrow> xdgGetDirectoryLists env envname None defaults)"

definition xdgDataDirectories :: "env \<Rightarrow> xdgHandle option \<Rightarrow> xlist option xm" where
  "xdgDataDirectories env = dirs_query env ''XDG_DATA_DIRS'' DefaultDataDirectoriesList searchableDataDirectories"

definition xdgConfigDirectories :: "env \<Rightarrow> xdgHandle option \<Rightarrow> xlist option xm" where
  "xdgConfigDirectories env =
     dirs_query env ''XDG_CONFIG_DIRS'' DefaultConfigDirectoriesList searchableConfigDirectories"

definition search_query :: "env \<Rightarrow> string \<Rightarrow> string list \<Rightarrow> (xdgCachedData \<Rightarrow> xlist option) \<Rightarrow>
  xstr option xm \<Rightarrow> xdgHandle option \<Rightarrow> xlist option xm" where
  "search_query env envname defaults field home handle = (case handle of
     Some h \<Rightarrow> bindX (xdgGetCache h) (\<lambda>c. retX (field c))
   | None \<Rightarrow> bindX home (\<lambda>r. case r of None \<Rightarrow> retX None
      | Some h \<Rightarrow> bindX (xdgGetDirectoryLists env envname (Some h) defaults) (\<lambda>dirs.
          if dirs = None then bindX (xfree (fst h)) (\<lambda>_. retX None) else retX dirs)))"

definition xdgSearchableDataDirectories :: "env \<Rightarrow> xdgHandle option \<Rightarrow> xlist option xm" where
  "xdgSearchableDataDirectories env =
     search_query env ''XDG_DATA_DIRS'' DefaultDataDirectoriesList searchableDataDirectories (xdgDataHome env None)"

definition xdgSearchableConfigDirectories :: "env \<Rightarrow> xdgHandle option \<Rightarrow> xlist option xm" where
  "xdgSearchableConfigDirectories env =
     search_query env ''XDG_CONFIG_DIRS'' DefaultConfigDirectoriesList searchableConfigDirectories (xdgConfigHome env None)"

section \<open>Files\<close>

text \<open>The last byte of the directory is looked at, also when it has none.\<close>

definition full_path :: "xstr \<Rightarrow> string \<Rightarrow> xstr option xm" where
  "full_path item rel = bindX (xread (fst item)) (\<lambda>_.
     bindX (xput (length (snd item) + length rel + 2) (snd item)) (\<lambda>r. case r of None \<Rightarrow> retX None
     | Some (a, t) \<Rightarrow>
         if t = [] then (\<lambda>m. Inl OutOfBounds)
         else let t = (if last t \<noteq> dirsep then t @ [dirsep] else t) @ rel in
           bindX (liftX (memcpy (malloc (length (snd item) + length rel + 2)) 0 (cmem t) 0 (Suc (length t)))) (\<lambda>_.
           retX (Some (a, t)))))"

definition xrealloc :: "(nat \<times> block) option \<Rightarrow> nat \<Rightarrow> (nat \<times> block) option xm" where
  "xrealloc p n = bindX xmalloc (\<lambda>r. case r of None \<Rightarrow> retX None
     | Some a \<Rightarrow> (case p of None \<Rightarrow> retX (Some (a, malloc n))
        | Some (b, old) \<Rightarrow> bindX (xfree b) (\<lambda>_. retX (Some (a, take n (old @ malloc (n - length old)))))))"

definition free_block :: "(nat \<times> block) option \<Rightarrow> unit xm" where
  "free_block p = (case p of None \<Rightarrow> retX () | Some (a, b) \<Rightarrow> xfree a)"

text \<open>The loop: the paths found so far, one after the other, and their length; \<open>None\<close> when
  an allocation failed.\<close>

fun find_items :: "(string \<Rightarrow> bool) \<Rightarrow> string \<Rightarrow> xstr list \<Rightarrow> (nat \<times> block) option \<Rightarrow> nat \<Rightarrow>
  ((nat \<times> block) option \<times> nat) option xm" where
  "find_items opens rel [] returnString strLen = retX (Some (returnString, strLen))"
| "find_items opens rel (item # items) returnString strLen =
     bindX (full_path item rel) (\<lambda>r. case r of
       None \<Rightarrow> bindX (free_block returnString) (\<lambda>_. retX None)
     | Some (f, t) \<Rightarrow>
         if opens t then
           bindX (xrealloc returnString (strLen + length t + 2)) (\<lambda>q. case q of
             None \<Rightarrow> bindX (free_block returnString) (\<lambda>_. bindX (xfree f) (\<lambda>_. retX None))
           | Some (a, b) \<Rightarrow>
               bindX (liftX (memcpy b strLen (cmem t) 0 (Suc (length t)))) (\<lambda>b.
               bindX (xfree f) (\<lambda>_. find_items opens rel items (Some (a, b)) (strLen + length t + 1))))
         else bindX (xfree f) (\<lambda>_. find_items opens rel items returnString strLen))"

definition xdgFindExisting :: "(string \<Rightarrow> bool) \<Rightarrow> string \<Rightarrow> xlist option \<Rightarrow> (nat \<times> block) option xm" where
  "xdgFindExisting opens rel dirList = (case dirList of None \<Rightarrow> (\<lambda>m. Inl NullDeref)
     | Some (l, items) \<Rightarrow> bindX (xread l) (\<lambda>_. bindX (find_items opens rel items None 0) (\<lambda>r. case r of
         None \<Rightarrow> retX None
       | Some (Some (a, b), strLen) \<Rightarrow> bindX (liftX (poke b strLen nul)) (\<lambda>b. retX (Some (a, b)))
       | Some (None, strLen) \<Rightarrow> bindX xmalloc (\<lambda>p. case p of None \<Rightarrow> retX None
           | Some a \<Rightarrow> bindX (liftX (memcpy (malloc 2) 0 (cmem []) 0 1)) (\<lambda>b. retX (Some (a, b)))))))"

text \<open>The path that was opened.\<close>

fun open_items :: "(string \<Rightarrow> bool) \<Rightarrow> string \<Rightarrow> xstr list \<Rightarrow> string option xm" where
  "open_items opens rel [] = retX None"
| "open_items opens rel (item # items) = bindX (full_path item rel) (\<lambda>r. case r of None \<Rightarrow> retX None
     | Some (f, t) \<Rightarrow> bindX (xfree f) (\<lambda>_. if opens t then retX (Some t) else open_items opens rel items))"

definition xdgFileOpen :: "(string \<Rightarrow> bool) \<Rightarrow> string \<Rightarrow> xlist option \<Rightarrow> string option xm" where
  "xdgFileOpen opens rel dirList = (case dirList of None \<Rightarrow> (\<lambda>m. Inl NullDeref)
     | Some (l, items) \<Rightarrow> bindX (xread l) (\<lambda>_. open_items opens rel items))"

definition with_dirs :: "(xdgHandle option \<Rightarrow> xlist option xm) \<Rightarrow> (xlist option \<Rightarrow> 'x xm) \<Rightarrow> xdgHandle option \<Rightarrow> 'x xm" where
  "with_dirs query search handle = bindX (query handle) (\<lambda>dirs. bindX (search dirs) (\<lambda>result.
     bindX (if handle = None then xdgFreeStringList dirs else retX ()) (\<lambda>_. retX result)))"

definition xdgDataFind :: "env \<Rightarrow> (string \<Rightarrow> bool) \<Rightarrow> string \<Rightarrow> xdgHandle option \<Rightarrow> (nat \<times> block) option xm" where
  "xdgDataFind env opens rel = with_dirs (xdgSearchableDataDirectories env) (xdgFindExisting opens rel)"

definition xdgConfigFind :: "env \<Rightarrow> (string \<Rightarrow> bool) \<Rightarrow> string \<Rightarrow> xdgHandle option \<Rightarrow> (nat \<times> block) option xm" where
  "xdgConfigFind env opens rel = with_dirs (xdgSearchableConfigDirectories env) (xdgFindExisting opens rel)"

definition xdgDataOpen :: "env \<Rightarrow> (string \<Rightarrow> bool) \<Rightarrow> string \<Rightarrow> xdgHandle option \<Rightarrow> string option xm" where
  "xdgDataOpen env opens rel = with_dirs (xdgSearchableDataDirectories env) (xdgFileOpen opens rel)"

definition xdgConfigOpen :: "env \<Rightarrow> (string \<Rightarrow> bool) \<Rightarrow> string \<Rightarrow> xdgHandle option \<Rightarrow> string option xm" where
  "xdgConfigOpen env opens rel = with_dirs (xdgSearchableConfigDirectories env) (xdgFileOpen opens rel)"

text \<open>\<open>mkdir\<close> made the directory, found it there, or failed in another way.\<close>

datatype mkres = MkDone | MkExists | MkFails

fun mk_prefixes :: "(string \<Rightarrow> 'f \<Rightarrow> 'f \<times> mkres) \<Rightarrow> string \<Rightarrow> nat list \<Rightarrow> 'f \<Rightarrow> 'f \<times> bool" where
  "mk_prefixes mkdir path [] fs = (fs, True)"
| "mk_prefixes mkdir path (k # ks) fs =
     (if path ! k = dirsep then
        case mkdir (take k path) fs of (fs, r) \<Rightarrow>
          if r = MkFails then (fs, False) else mk_prefixes mkdir path ks fs
      else mk_prefixes mkdir path ks fs)"

definition xdgMakePath :: "(string \<Rightarrow> 'f \<Rightarrow> 'f \<times> mkres) \<Rightarrow> string \<Rightarrow> 'f \<Rightarrow> ('f \<times> int) xm" where
  "xdgMakePath mkdir path fs =
     (if path = [] \<or> path = [dirsep] then retX (fs, 0)
      else bindX (xput (Suc (length path)) path) (\<lambda>r. case r of None \<Rightarrow> retX (fs, - 1)
        | Some (a, t) \<Rightarrow>
           let t = (if last t = dirsep then butlast t else t) in
           case mk_prefixes mkdir t [1..<length t] fs of (fs, ok) \<Rightarrow>
             if \<not> ok then bindX (xfree a) (\<lambda>_. retX (fs, - 1))
             else (case mkdir t fs of (fs, r) \<Rightarrow>
               bindX (xfree a) (\<lambda>_. retX (fs, if r = MkDone then 0 else - 1)))))"

end
