(* ===== verification/BaseSpec.thy ===== *)
theory BaseSpec
  imports BaseDir
begin

text \<open>
  The base directories against the environment: what a list or a home holds, that every block
  is freed once, and what happens when an allocation fails.
\<close>

section \<open>Reasoning about the memory\<close>

definition xgives :: "'x xm \<Rightarrow> xmem \<Rightarrow> ('x \<Rightarrow> xmem \<Rightarrow> bool) \<Rightarrow> bool" where
  "xgives c m P \<longleftrightarrow> gives (c m) (\<lambda>(x, m'). P x m')"

lemma xgives_ret [simp]: "xgives (retX x) m P = P x m"
  by (simp add: xgives_def retX_def)

lemma xgives_bind [simp]: "xgives (bindX c k) m P = xgives c m (\<lambda>x m'. xgives (k x) m' P)"
  by (auto simp: xgives_def bindX_def gives_def bindR_eq_Inr)

lemma xgives_lift [simp]: "xgives (liftX r) m P = gives r (\<lambda>x. P x m)"
  by (auto simp: xgives_def liftX_def gives_def bindR_eq_Inr)

lemma xgives_free [simp]: "xgives (xfree a) m P = (a \<in> xm_live m \<and> P () (m\<lparr>xm_live := xm_live m - {a}\<rparr>))"
  by (simp add: xgives_def xfree_def)

lemma xgives_read [simp]: "xgives (xread a) m P = (a \<in> xm_live m \<and> P () m)"
  by (simp add: xgives_def xread_def)

lemma xbindI: "xgives c m (\<lambda>x m'. xgives (k x) m' P) \<Longrightarrow> xgives (bindX c k) m P"
  by simp

lemma xgives_mono: "xgives c m P \<Longrightarrow> (\<And>x m'. P x m' \<Longrightarrow> Q x m') \<Longrightarrow> xgives c m Q"
  unfolding xgives_def by (erule gives_mono) auto

lemma xmalloc_gives:
  assumes "\<And>as. xm_answers m \<noteq> [] \<Longrightarrow> P None (m\<lparr>xm_answers := as\<rparr>)"
    and "\<And>as. (xm_answers m = [] \<longrightarrow> as = []) \<Longrightarrow> P (Some (xm_brk m)) (m\<lparr>xm_live := insert (xm_brk m) (xm_live m), xm_brk := Suc (xm_brk m), xm_answers := as\<rparr>)"
  shows "xgives xmalloc m P"
  using assms by (simp add: xgives_def xmalloc_def split: list.split bool.split)

text \<open>\<open>grows m A m'\<close>: the blocks \<open>A\<close> were allocated, and the blocks of \<open>m\<close> are as they were;
  a memory in which nothing fails stays so.\<close>

definition grows :: "xmem \<Rightarrow> nat set \<Rightarrow> xmem \<Rightarrow> bool" where
  "grows m A m' \<longleftrightarrow> xm_live m' = xm_live m \<union> A \<and> xm_brk m \<le> xm_brk m' \<and> A \<subseteq> {xm_brk m..<xm_brk m'} \<and>
     (xm_answers m = [] \<longrightarrow> xm_answers m' = [])"

definition wfm :: "xmem \<Rightarrow> bool" where
  "wfm m \<longleftrightarrow> xm_live m \<subseteq> {..<xm_brk m}"

lemma grows_refl [simp]: "grows m {} m"
  by (simp add: grows_def)

lemma grows_answers: "grows m A m' \<Longrightarrow> xm_answers m' \<noteq> [] \<Longrightarrow> grows m A (m'\<lparr>xm_answers := as\<rparr>) \<and> xm_answers m \<noteq> []"
  by (auto simp: grows_def)

lemma grows_wfm: "wfm m \<Longrightarrow> grows m A m' \<Longrightarrow> wfm m'"
  by (fastforce simp: wfm_def grows_def)

lemma grows_trans: "grows m A m1 \<Longrightarrow> grows m1 B m2 \<Longrightarrow> grows m (A \<union> B) m2"
  by (fastforce simp: grows_def)

lemma grows_new: "grows m A m1 \<Longrightarrow> (xm_answers m1 = [] \<longrightarrow> as = []) \<Longrightarrow> grows m (insert (xm_brk m1) A)
    (m1\<lparr>xm_live := insert (xm_brk m1) (xm_live m1), xm_brk := Suc (xm_brk m1), xm_answers := as\<rparr>)"
  by (auto simp: grows_def)

lemma grows_live: "grows m A m1 \<Longrightarrow> a \<in> A \<Longrightarrow> a \<in> xm_live m1"
  by (auto simp: grows_def)

lemma grows_brk: "grows m A m1 \<Longrightarrow> xm_brk m1 \<notin> A"
  by (auto simp: grows_def)

lemma grows_fresh: "wfm m \<Longrightarrow> grows m A m1 \<Longrightarrow> a \<in> A \<Longrightarrow> a \<notin> xm_live m"
  by (fastforce simp: grows_def wfm_def)

lemma grows_free:
  assumes "wfm m" "grows m A m1" "B \<subseteq> A"
  shows "grows m (A - B) (m1\<lparr>xm_live := xm_live m1 - B\<rparr>)"
  using assms by (fastforce simp: grows_def wfm_def)

text \<open>What a call of \<open>malloc\<close> does, when the rest of the memory grew before.\<close>

lemma xmalloc_grows:
  assumes "grows m A m1"
    and "\<And>m'. grows m A m' \<Longrightarrow> xm_answers m \<noteq> [] \<Longrightarrow> P None m'"
    and "\<And>a m'. a \<notin> A \<Longrightarrow> grows m (insert a A) m' \<Longrightarrow> P (Some a) m'"
  shows "xgives xmalloc m1 P"
  by (rule xmalloc_gives) (use assms grows_new grows_brk grows_answers in auto)

lemma xput_grows:
  assumes "grows m A m1" "length t < n"
    and "\<And>m'. grows m A m' \<Longrightarrow> xm_answers m \<noteq> [] \<Longrightarrow> P None m'"
    and "\<And>a m'. a \<notin> A \<Longrightarrow> grows m (insert a A) m' \<Longrightarrow> P (Some (a, t)) m'"
  shows "xgives (xput n t) m1 P"
  unfolding xput_def
  by (rule xbindI, rule xmalloc_grows [OF assms(1)]) (use assms in \<open>auto simp: memcpy_def\<close>)

lemma strdup_grows:
  assumes "grows m A m1" "\<And>m'. grows m A m' \<Longrightarrow> xm_answers m \<noteq> [] \<Longrightarrow> P None m'"
    "\<And>a m'. a \<notin> A \<Longrightarrow> grows m (insert a A) m' \<Longrightarrow> P (Some (a, t)) m'"
  shows "xgives (strdup t) m1 P"
  unfolding strdup_def by (rule xput_grows) (use assms in auto)

section \<open>Lists\<close>

definition own :: "xlist \<Rightarrow> nat set" where
  "own L = insert (fst L) (fst ` set (snd L))"

definition okl :: "xlist \<Rightarrow> bool" where
  "okl L \<longleftrightarrow> distinct (fst L # map fst (snd L))"

definition texts :: "xlist \<Rightarrow> string list" where
  "texts L = map snd (snd L)"

lemma free_items_gives:
  "distinct (map fst items) \<Longrightarrow> fst ` set items \<subseteq> xm_live m \<Longrightarrow>
   P () (m\<lparr>xm_live := xm_live m - fst ` set items\<rparr>) \<Longrightarrow> xgives (free_items items) m P"
proof (induction items arbitrary: m)
  case (Cons x items)
  obtain a t where x: "x = (a, t)" by (cases x)
  let ?m = "m\<lparr>xm_live := xm_live m - {a}\<rparr>"
  have "xm_live m - {a} - fst ` set items = xm_live m - fst ` set (x # items)" by (auto simp: x)
  then have "?m\<lparr>xm_live := xm_live ?m - fst ` set items\<rparr> = m\<lparr>xm_live := xm_live m - fst ` set (x # items)\<rparr>"
    by simp
  then have "xgives (free_items items) ?m P" using Cons.prems x by (intro Cons.IH) (auto simp: x)
  then show ?case using Cons.prems x by simp
qed simp

lemma free_list_gives:
  assumes "okl L" "own L \<subseteq> xm_live m" "P () (m\<lparr>xm_live := xm_live m - own L\<rparr>)"
  shows "xgives (xdgFreeStringList (Some L)) m P"
proof -
  obtain l items where L: "L = (l, items)" by (cases L)
  have "xm_live m - fst ` set items - {l} = xm_live m - own L" by (auto simp: own_def L)
  then show ?thesis using assms
    by (auto simp: xdgFreeStringList_def L okl_def own_def intro!: free_items_gives)
qed

lemma free_list_grows:
  assumes "wfm m" "grows m A m1" "okl L" "own L \<subseteq> A" "\<And>m'. grows m (A - own L) m' \<Longrightarrow> P () m'"
  shows "xgives (xdgFreeStringList (Some L)) m1 P"
  using assms grows_free [OF assms(1,2,4)] by (intro free_list_gives) (auto dest: grows_live)

text \<open>A list with the strings \<open>ts\<close> was made beside the blocks \<open>A\<close>, or nothing is left of it.\<close>

definition made :: "xmem \<Rightarrow> nat set \<Rightarrow> string list \<Rightarrow> xlist option \<Rightarrow> xmem \<Rightarrow> bool" where
  "made m A ts r m' = (case r of None \<Rightarrow> grows m A m' \<and> xm_answers m \<noteq> []
     | Some L \<Rightarrow> okl L \<and> own L \<inter> A = {} \<and> texts L = ts \<and> grows m (A \<union> own L) m')"

lemma list_snoc:
  assumes "okl (l, items)" "own (l, items) \<inter> A = {}" "a \<notin> A \<union> own (l, items)"
  shows "okl (l, items @ [(a, t)])" "own (l, items @ [(a, t)]) \<inter> A = {}"
    "A \<union> own (l, items @ [(a, t)]) = insert a (A \<union> own (l, items))"
  using assms by (auto simp: okl_def own_def)

lemma unmade_gives:
  assumes "wfm m" "grows m (A \<union> own L) m1" "okl L" "own L \<inter> A = {}" "xm_answers m \<noteq> []"
  shows "xgives (bindX (xdgFreeStringList (Some L)) (\<lambda>_. retX None)) m1 (made m A ts)"
proof -
  have "A \<union> own L - own L = A" using assms(4) by auto
  then show ?thesis
    by (simp, intro free_list_grows [OF assms(1,2,3)]) (simp_all add: made_def assms(5))
qed

section \<open>The pieces of a path\<close>

fun pieces :: "string \<Rightarrow> string list" where
  "pieces [] = []"
| "pieces (c # s) = (let w = takeWhile (\<lambda>c. c \<noteq> pathsep) (c # s) in w # pieces (drop (length w) s))"

abbreviation seps :: "string \<Rightarrow> nat" where
  "seps s \<equiv> length (filter (\<lambda>c. c = pathsep) s)"

lemma path_pieces_ne: "s \<noteq> [] \<Longrightarrow> pieces s =
    (let w = takeWhile (\<lambda>c. c \<noteq> pathsep) s in w # pieces (drop (Suc (length w)) s))"
  by (cases s) (simp_all add: Let_def)

declare pieces.simps(2) [simp del]

lemma pieces_whole: "pathsep \<notin> set w \<Longrightarrow> w \<noteq> [] \<Longrightarrow> pieces w = [w]"
proof -
  assume w: "pathsep \<notin> set w" "w \<noteq> []"
  then have tw: "takeWhile (\<lambda>c. c \<noteq> pathsep) w = w" by (subst takeWhile_eq_all_conv) auto
  show ?thesis using w(2) by (simp add: path_pieces_ne Let_def tw)
qed

lemma pieces_sep: "pathsep \<notin> set w \<Longrightarrow> pieces (w @ pathsep # d) = w # pieces d"
proof -
  assume w: "pathsep \<notin> set w"
  have "takeWhile (\<lambda>c. c \<noteq> pathsep) (w @ pathsep # d) = w @ takeWhile (\<lambda>c. c \<noteq> pathsep) (pathsep # d)"
    using w by (intro takeWhile_append2) auto
  then show ?thesis by (simp add: path_pieces_ne [of "w @ pathsep # d"])
qed

lemma path_induct [case_names empty whole sep]:
  assumes "P []" "\<And>w. pathsep \<notin> set w \<Longrightarrow> w \<noteq> [] \<Longrightarrow> P w" "\<And>w d. pathsep \<notin> set w \<Longrightarrow> P d \<Longrightarrow> P (w @ pathsep # d)"
  shows "P s"
proof (induction "length s" arbitrary: s rule: less_induct)
  case less
  show ?case
  proof (cases "pathsep \<in> set s")
    case True
    then obtain w d where s: "s = w @ pathsep # d" "pathsep \<notin> set w" by (metis split_list_first)
    have "P d" using s(1) by (intro less.hyps) simp
    then show ?thesis unfolding s(1) by (rule assms(3) [OF s(2)])
  next
    case False
    then show ?thesis using assms(1,2) by (cases "s = []") simp_all
  qed
qed

lemma pieces_length: "length (pieces s) \<le> Suc (seps s)"
  by (induction s rule: path_induct) (simp_all add: pieces_whole pieces_sep)

lemma pieces_join: "concat (map (\<lambda>w. w @ [pathsep]) (pieces s)) =
    s @ (if s = [] \<or> last s = pathsep then [] else [pathsep])"
proof (induction s rule: path_induct)
  case (whole w)
  then have "last w \<noteq> pathsep" by (metis last_in_set)
  with whole show ?case by (simp add: pieces_whole)
qed (simp_all add: pieces_sep)

lemma pieces_clean: "w \<in> set (pieces s) \<Longrightarrow> pathsep \<notin> set w"
  by (induction s rule: path_induct) (auto simp: pieces_whole pieces_sep)

lemma split_items_gives:
  assumes "wfm m"
  shows "grows m (A \<union> own (l, items)) m1 \<Longrightarrow> okl (l, items) \<Longrightarrow> own (l, items) \<inter> A = {} \<Longrightarrow>
    length items + length (pieces s) < n \<Longrightarrow>
    xgives (split_items n l items s) m1 (made m A (map snd items @ pieces s))"
proof (induction "length s" arbitrary: s items m1 rule: less_induct)
  case less
  show ?case
  proof (cases "s = []")
    case True
    then show ?thesis using less.prems by (simp add: split_items.simps made_def texts_def)
  next
    case False
    let ?w = "takeWhile (\<lambda>c. c \<noteq> pathsep) s" and ?d = "drop (Suc (length (takeWhile (\<lambda>c. c \<noteq> pathsep) s))) s"
    have p: "pieces s = ?w # pieces ?d" using False by (simp add: path_pieces_ne Let_def)
    have n: "\<not> n \<le> length items" using less.prems(4) p by simp
    have rec: "xgives (split_items n l (items @ [(a, ?w)]) ?d) m' (made m A (map snd items @ pieces s))"
      if "a \<notin> A \<union> own (l, items)" "grows m (insert a (A \<union> own (l, items))) m'" for a m'
    proof -
      note sn = list_snoc [OF less.prems(2,3) that(1), of ?w]
      have "xgives (split_items n l (items @ [(a, ?w)]) ?d) m' (made m A (map snd (items @ [(a, ?w)]) @ pieces ?d))"
      proof (rule less.hyps [OF _ _ sn(1,2)])
        show "length ?d < length s" using False by simp
        show "grows m (A \<union> own (l, items @ [(a, ?w)])) m'" unfolding sn(3) by (rule that(2))
        show "length (items @ [(a, ?w)]) + length (pieces ?d) < n" using less.prems(4) p by simp
      qed
      then show ?thesis by (simp add: p)
    qed
    show ?thesis
      by (subst split_items.simps, simp only: False if_False Let_def n)
        (rule xbindI, rule xput_grows [OF less.prems(1)],
          auto intro!: rec intro: unmade_gives [OF assms _ less.prems(2,3), simplified])
  qed
qed

lemma split_path_gives:
  assumes "wfm m" "grows m A m1"
  shows "xgives (xdgSplitPath s) m1 (made m A (pieces s))"
  unfolding xdgSplitPath_def
proof (rule xbindI, rule xmalloc_grows [OF assms(2)])
  fix a m' assume "a \<notin> A" "grows m (insert a A) m'"
  then have "xgives (split_items (2 + seps s) a [] s) m' (made m A (pieces s))"
    using pieces_length [of s] split_items_gives [OF assms(1), where items = "[]" and l = a and A = A]
    by (simp add: own_def okl_def)
  then show "xgives (case Some a of None \<Rightarrow> retX None | Some l \<Rightarrow> split_items (2 + seps s) l [] s) m' (made m A (pieces s))"
    by simp
qed (simp add: made_def)

lemma copy_defaults_gives:
  assumes "wfm m"
  shows "grows m (A \<union> own (l, items)) m1 \<Longrightarrow> okl (l, items) \<Longrightarrow> own (l, items) \<inter> A = {} \<Longrightarrow>
    xgives (copy_defaults l items ds) m1 (made m A (map snd items @ ds))"
proof (induction ds arbitrary: items m1)
  case Nil
  then show ?case by (simp add: made_def texts_def)
next
  case (Cons d ds)
  have rec: "xgives (copy_defaults l (items @ [(a, d)]) ds) m' (made m A (map snd items @ d # ds))"
    if "a \<notin> A \<union> own (l, items)" "grows m (insert a (A \<union> own (l, items))) m'" for a m'
    using Cons.IH [of "items @ [(a, d)]" m'] list_snoc [OF Cons.prems(2,3) that(1), of d] that(2) by simp
  show ?case
    by (simp only: copy_defaults.simps)
      (rule xbindI, rule xput_grows [OF Cons.prems(1)],
        auto intro!: rec intro: unmade_gives [OF assms _ Cons.prems(2,3), simplified])
qed

section \<open>What the environment says\<close>

definition dirs_of :: "env \<Rightarrow> string \<Rightarrow> string list \<Rightarrow> string list" where
  "dirs_of env name defaults = (case xdgGetEnv env name of None \<Rightarrow> defaults | Some v \<Rightarrow> pieces v)"

definition home_of :: "env \<Rightarrow> string \<Rightarrow> string \<Rightarrow> string option" where
  "home_of env name rel = (case xdgGetEnv env name of
     None \<Rightarrow> map_option (\<lambda>home. home @ rel) (xdgGetEnv env ''HOME'') | Some v \<Rightarrow> Some v)"

lemma path_list_gives:
  assumes "wfm m" "grows m A m1"
  shows "xgives (xdgGetPathListEnv env name defaults) m1 (made m A (dirs_of env name defaults))"
proof (cases "xdgGetEnv env name")
  case None
  have "xgives (copy_defaults a [] defaults) m' (made m A defaults)"
    if "a \<notin> A" "grows m (insert a A) m'" for a m'
    using that copy_defaults_gives [OF assms(1), where items = "[]" and l = a and A = A]
    by (simp add: own_def okl_def)
  then show ?thesis unfolding xdgGetPathListEnv_def None
    by (simp add: dirs_of_def None, intro xmalloc_grows [OF assms(2)]) (simp_all add: made_def)
next
  case (Some v)
  have item: "xgives (xdgSplitPath v) m' (\<lambda>r m''. a \<in> xm_live m'' \<and>
      made m A (pieces v) r (m''\<lparr>xm_live := xm_live m'' - {a}\<rparr>))"
    if a: "a \<notin> A" "grows m (insert a A) m'" for a m'
  proof (rule xgives_mono [OF split_path_gives [OF assms(1) a(2), of v]])
    fix r m'' assume r: "made m (insert a A) (pieces v) r m''"
    show "a \<in> xm_live m'' \<and> made m A (pieces v) r (m''\<lparr>xm_live := xm_live m'' - {a}\<rparr>)"
    proof (cases r)
      case None
      then have g: "grows m (insert a A) m''" "xm_answers m \<noteq> []" using r by (simp_all add: made_def)
      have "insert a A - {a} = A" using a(1) by auto
      with grows_free [OF assms(1) g(1), of "{a}"] grows_live [OF g(1), of a] g(2) None show ?thesis by (simp add: made_def)
    next
      case (Some L)
      then have g: "grows m (insert a A \<union> own L) m''" and L: "okl L" "own L \<inter> insert a A = {}" "texts L = pieces v"
        using r by (simp_all add: made_def)
      have "insert a A \<union> own L - {a} = A \<union> own L" using a(1) L(2) by auto
      with grows_free [OF assms(1) g, of "{a}"] grows_live [OF g, of a] Some L show ?thesis by (auto simp: made_def)
    qed
  qed
  show ?thesis unfolding xdgGetPathListEnv_def Some
    by (simp add: dirs_of_def Some, intro xput_grows [OF assms(2)]) (auto simp: made_def intro: item [unfolded made_def])
qed

text \<open>A list with the home in front, which the list does not own.\<close>

definition headed :: "xstr option \<Rightarrow> xlist \<Rightarrow> xlist" where
  "headed homedir L = (fst L, (case homedir of None \<Rightarrow> [] | Some h \<Rightarrow> [h]) @ snd L)"

definition made_headed :: "xmem \<Rightarrow> nat set \<Rightarrow> xstr option \<Rightarrow> string list \<Rightarrow> xlist option \<Rightarrow> xmem \<Rightarrow> bool" where
  "made_headed m A h ts r m' = (case r of None \<Rightarrow> grows m A m' \<and> xm_answers m \<noteq> []
     | Some L \<Rightarrow> \<exists>L'. L = headed h L' \<and> made m A ts (Some L') m')"

lemma directory_lists_gives:
  assumes "wfm m" "grows m A m1"
  shows "xgives (xdgGetDirectoryLists env name h defaults) m1 (made_headed m A h (dirs_of env name defaults))"
  unfolding xdgGetDirectoryLists_def
proof (rule xbindI, rule xgives_mono [OF path_list_gives [OF assms, of env name defaults]])
  fix r m' assume r: "made m A (dirs_of env name defaults) r m'"
  let ?goal = "xgives (case r of None \<Rightarrow> retX None | Some (l, items) \<Rightarrow> bindX xmalloc (\<lambda>p. case p of
         None \<Rightarrow> bindX (xdgFreeStringList (Some (l, items))) (\<lambda>_. retX None)
       | Some d \<Rightarrow> bindX (xfree l) (\<lambda>_. retX (Some (d, (case h of None \<Rightarrow> [] | Some h \<Rightarrow> [h]) @ items))))) m'
     (made_headed m A h (dirs_of env name defaults))"
  show ?goal
  proof (cases r)
    case None
    with r show ?thesis by (simp add: made_def made_headed_def)
  next
    case (Some L)
    obtain l items where L: "L = (l, items)" by (cases L)
    from r Some L have g: "grows m (A \<union> own (l, items)) m'" and ok: "okl (l, items)" "own (l, items) \<inter> A = {}"
      "texts (l, items) = dirs_of env name defaults" by (simp_all add: made_def)
    have "xgives (bindX xmalloc (\<lambda>p. case p of
         None \<Rightarrow> bindX (xdgFreeStringList (Some (l, items))) (\<lambda>_. retX None)
       | Some d \<Rightarrow> bindX (xfree l) (\<lambda>_. retX (Some (d, (case h of None \<Rightarrow> [] | Some h \<Rightarrow> [h]) @ items))))) m'
      (made_headed m A h (dirs_of env name defaults))"
    proof (rule xbindI, rule xmalloc_grows [OF g])
      fix m2 assume "grows m (A \<union> own (l, items)) m2" "xm_answers m \<noteq> []"
      from unmade_gives [OF assms(1) this(1) ok(1,2) this(2), of "dirs_of env name defaults"]
      show "xgives (case None of None \<Rightarrow> bindX (xdgFreeStringList (Some (l, items))) (\<lambda>_. retX None)
          | Some d \<Rightarrow> bindX (xfree l) (\<lambda>_. retX (Some (d, (case h of None \<Rightarrow> [] | Some h \<Rightarrow> [h]) @ items)))) m2
        (made_headed m A h (dirs_of env name defaults))"
        by (simp add: made_def made_headed_def)
    next
      fix d m2 assume d: "d \<notin> A \<union> own (l, items)" "grows m (insert d (A \<union> own (l, items))) m2"
      have s: "insert d (A \<union> own (l, items)) - {l} = A \<union> own (d, items)"
        using ok d(1) by (auto simp: own_def okl_def)
      have "made m A (dirs_of env name defaults) (Some (d, items)) (m2\<lparr>xm_live := xm_live m2 - {l}\<rparr>)"
        using grows_free [OF assms(1) d(2), of "{l}"] ok d(1) unfolding s
        by (auto simp: made_def own_def okl_def texts_def)
      moreover have "l \<in> xm_live m2" using grows_live [OF d(2), of l] by (simp add: own_def)
      ultimately show "xgives (case Some d of None \<Rightarrow> bindX (xdgFreeStringList (Some (l, items))) (\<lambda>_. retX None)
          | Some d \<Rightarrow> bindX (xfree l) (\<lambda>_. retX (Some (d, (case h of None \<Rightarrow> [] | Some h \<Rightarrow> [h]) @ items)))) m2
        (made_headed m A h (dirs_of env name defaults))"
        by (auto simp: made_headed_def headed_def intro!: exI [of _ d] exI [of _ items])
    qed
    then show ?thesis by (simp add: Some L)
  qed
qed

section \<open>The homes\<close>

definition addrs :: "xstr option \<Rightarrow> nat list" where
  "addrs p = (case p of None \<Rightarrow> [] | Some s \<Rightarrow> [fst s])"

lemma addrs_simps [simp]: "addrs None = []" "addrs (Some s) = [fst s]"
  by (simp_all add: addrs_def)

text \<open>Environments hold C strings.\<close>

definition env_ok :: "env \<Rightarrow> bool" where
  "env_ok env \<longleftrightarrow> (\<forall>name v. env name = Some v \<longrightarrow> nul \<notin> set v)"

lemma env_ok_get: "env_ok env \<Longrightarrow> xdgGetEnv env name = Some v \<Longrightarrow> nul \<notin> set v \<and> v \<noteq> []"
  by (auto simp: env_ok_def xdgGetEnv_def split: option.splits if_splits)

lemma btext_upto: "nul \<notin> set t \<Longrightarrow> btext (map Some t @ Some nul # rest) = t"
proof -
  assume "nul \<notin> set t"
  then have "takeWhile (\<lambda>c. c \<noteq> Some nul) (map Some t @ Some nul # rest) = map Some t"
    by (subst takeWhile_append2) auto
  then show ?thesis by (simp add: btext_def comp_def)
qed

lemma env_dup_gives:
  assumes "grows m A m1"
    and "\<And>m'. grows m A m' \<Longrightarrow> xm_answers m \<noteq> [] \<Longrightarrow> P ENOMEM m'"
    and "\<And>m'. grows m A m' \<Longrightarrow> xdgGetEnv env name = None \<Longrightarrow> P EINVAL m'"
    and "\<And>a t m'. a \<notin> A \<Longrightarrow> grows m (insert a A) m' \<Longrightarrow> xdgGetEnv env name = Some t \<Longrightarrow> P (Dup (a, t)) m'"
  shows "xgives (xdgEnvDup env name) m1 P"
  unfolding xdgEnvDup_def
  by (cases "xdgGetEnv env name") (use assms in \<open>auto intro!: strdup_grows [OF assms(1)]\<close>)

definition value_ok :: "string \<Rightarrow> block \<Rightarrow> bool" where
  "value_ok home value \<longleftrightarrow> length value = length home + extralen \<and> take (length home) value = map Some home"

lemma value_first: "value_ok home (cmem home @ drop (Suc (length home)) (malloc (length home + extralen)))"
  by (simp add: value_ok_def cmem_def extralen_def)

lemma default_home_gives:
  assumes "grows m A m1" "value_ok home value" "nul \<notin> set home" "nul \<notin> set rel" "Suc (length rel) \<le> extralen"
    and present: "\<And>v. h \<noteq> None \<Longrightarrow> grows m A m1 \<Longrightarrow> value_ok home v \<Longrightarrow> P (h, v) m1"
    and fail: "\<And>v m'. h = None \<Longrightarrow> grows m A m' \<Longrightarrow> xm_answers m \<noteq> [] \<Longrightarrow> value_ok home v \<Longrightarrow> P (None, v) m'"
    and dup: "\<And>a v m'. h = None \<Longrightarrow> a \<notin> A \<Longrightarrow> grows m (insert a A) m' \<Longrightarrow> value_ok home v \<Longrightarrow> P (Some (a, home @ rel), v) m'"
  shows "xgives (default_home (length home) rel h value) m1 P"
proof (cases h)
  case None
  let ?v = "take (length home) value @ cmem rel @ drop (length home + Suc (length rel)) value"
  have le: "length home + Suc (length rel) \<le> length value" using assms(2,5) by (simp add: value_ok_def)
  have ok: "value_ok home ?v" using assms(2) le by (simp add: value_ok_def)
  have "?v = map Some (home @ rel) @ Some nul # drop (length home + Suc (length rel)) value"
    using assms(2) by (simp add: value_ok_def cmem_def)
  then have t: "btext ?v = home @ rel" using assms(3,4) btext_upto [of "home @ rel"] by simp
  have "memcpy value (length home) (cmem rel) 0 (Suc (length rel)) = Inr ?v"
    using le by (simp add: memcpy_def)
  then show ?thesis
    by (simp add: default_home_def None t, intro strdup_grows [OF assms(1)])
      (use fail dup None ok t in auto)
qed (use present assms in \<open>simp add: default_home_def\<close>)

text \<open>One home read from its variable, beside the blocks \<open>B\<close>.\<close>

lemma dup_stage:
  assumes "grows m B m1" "\<And>m'. grows m B m' \<Longrightarrow> xm_answers m \<noteq> [] \<Longrightarrow> P ENOMEM m'"
    and "\<And>d m'. d \<noteq> ENOMEM \<Longrightarrow> map_option snd (dup_str d) = xdgGetEnv env name \<Longrightarrow>
      set (addrs (dup_str d)) \<inter> B = {} \<Longrightarrow> grows m (B \<union> set (addrs (dup_str d))) m' \<Longrightarrow> P d m'"
  shows "xgives (xdgEnvDup env name) m1 P"
  by (rule env_dup_gives [OF assms(1)]) (auto intro!: assms(2,3) simp: dup_str_def)

text \<open>One home that may be missing, made from the home of the user.\<close>

definition filled :: "xmem \<Rightarrow> string \<Rightarrow> string \<Rightarrow> xstr option \<Rightarrow> xstr option \<Rightarrow> bool" where
  "filled m home rel h h' \<longleftrightarrow> (case h of Some s \<Rightarrow> h' = h
     | None \<Rightarrow> if h' = None then xm_answers m \<noteq> [] else map_option snd h' = Some (home @ rel))"

lemma default_stage:
  assumes "grows m B m1" "value_ok home value" "nul \<notin> set home" "nul \<notin> set rel" "Suc (length rel) \<le> extralen"
    and "set (addrs h) \<subseteq> B"
    and "\<And>h' v m'. value_ok home v \<Longrightarrow> filled m home rel h h' \<Longrightarrow> (h = None \<longrightarrow> set (addrs h') \<inter> B = {}) \<Longrightarrow>
      grows m (B \<union> set (addrs h')) m' \<Longrightarrow> P (h', v) m'"
  shows "xgives (default_home (length home) rel h value) m1 P"
  by (rule default_home_gives [OF assms(1-5)])
    (use assms(1,6) in \<open>auto intro!: assms(7) simp: filled_def insert_absorb Un_absorb2\<close>)

definition home_addrs :: "xdgCachedData \<Rightarrow> nat list" where
  "home_addrs c = addrs (dataHome c) @ addrs (configHome c) @ addrs (cacheHome c)"

definition homes_named :: "env \<Rightarrow> bool" where
  "homes_named env \<longleftrightarrow> home_of env ''XDG_DATA_HOME'' DefaultRelativeDataHome \<noteq> None \<and>
     home_of env ''XDG_CONFIG_HOME'' DefaultRelativeConfigHome \<noteq> None \<and>
     home_of env ''XDG_CACHE_HOME'' DefaultRelativeCacheHome \<noteq> None"

definition homes_set :: "env \<Rightarrow> xdgCachedData \<Rightarrow> bool" where
  "homes_set env c \<longleftrightarrow> homes_named env \<and>
     map_option snd (dataHome c) = home_of env ''XDG_DATA_HOME'' DefaultRelativeDataHome \<and>
     map_option snd (configHome c) = home_of env ''XDG_CONFIG_HOME'' DefaultRelativeConfigHome \<and>
     map_option snd (cacheHome c) = home_of env ''XDG_CACHE_HOME'' DefaultRelativeCacheHome"

text \<open>The homes were made beside \<open>A\<close>; what is missing, is missing for a reason.\<close>

definition homes_made :: "xmem \<Rightarrow> nat set \<Rightarrow> env \<Rightarrow> bool \<Rightarrow> xdgCachedData \<Rightarrow> xmem \<Rightarrow> bool" where
  "homes_made m A env ok c m' \<longleftrightarrow>
     searchableDataDirectories c = None \<and> searchableConfigDirectories c = None \<and>
     distinct (home_addrs c) \<and> set (home_addrs c) \<inter> A = {} \<and> grows m (A \<union> set (home_addrs c)) m' \<and>
     (if ok then homes_set env c else xm_answers m \<noteq> [] \<or> \<not> homes_named env)"

lemma rel_nul: "nul \<notin> set DefaultRelativeDataHome" "nul \<notin> set DefaultRelativeConfigHome"
  "nul \<notin> set DefaultRelativeCacheHome"
  by (simp_all add: DefaultRelativeDataHome_def DefaultRelativeConfigHome_def DefaultRelativeCacheHome_def)

lemma rel_len: "Suc (length DefaultRelativeDataHome) \<le> extralen" "Suc (length DefaultRelativeConfigHome) \<le> extralen"
  "Suc (length DefaultRelativeCacheHome) \<le> extralen"
  by (simp_all add: extralen_def)

lemma filled_home:
  assumes "xdgGetEnv env ''HOME'' = Some home" "map_option snd h = xdgGetEnv env name" "filled m home rel h h'"
  shows "home_of env name rel \<noteq> None \<and> (h' = None \<longrightarrow> xm_answers m \<noteq> []) \<and>
    (h' \<noteq> None \<longrightarrow> map_option snd h' = home_of env name rel)"
  using assms by (cases h) (auto simp: filled_def home_of_def assms(2) [symmetric] split: if_splits)

lemma addrs_distinct: "distinct (addrs h)"
  by (simp add: addrs_def split: option.split)

lemma filled_addrs: "filled m home rel h h' \<Longrightarrow> h = None \<longrightarrow> set (addrs h') \<inter> B = {} \<Longrightarrow>
    addrs h' = addrs h \<or> addrs h = [] \<and> set (addrs h') \<inter> B = {}"
  by (cases h) (auto simp: filled_def)

lemma refill:
  assumes "n1 = o1 \<or> o1 = [] \<and> set n1 \<inter> B = {}" "n2 = o2 \<or> o2 = [] \<and> set n2 \<inter> (B \<union> set n1) = {}"
    "n3 = o3 \<or> o3 = [] \<and> set n3 \<inter> (B \<union> set n1 \<union> set n2) = {}"
    and "distinct (o1 @ o2 @ o3)" "set (o1 @ o2 @ o3) \<inter> A = {}" "a \<notin> A \<union> set (o1 @ o2 @ o3)"
    and B: "B = insert a (A \<union> set (o1 @ o2 @ o3))" and "distinct n1" "distinct n2" "distinct n3"
  shows "B \<union> set n1 \<union> set n2 \<union> set n3 - {a} = A \<union> set (n1 @ n2 @ n3)"
    "distinct (n1 @ n2 @ n3)" "set (n1 @ n2 @ n3) \<inter> A = {}"
  using assms(1-3) assms(4-6,8-10) unfolding B by (elim disjE; auto)+

text \<open>The second half: what the variables left open is filled.\<close>

lemma fill_homes:
  assumes wf: "wfm m" and env: "env_ok env" "xdgGetEnv env ''HOME'' = Some home"
    and g: "grows m (insert a (A \<union> set (home_addrs c))) m1" "a \<notin> A \<union> set (home_addrs c)"
    and c: "distinct (home_addrs c)" "set (home_addrs c) \<inter> A = {}"
      "searchableDataDirectories c = None" "searchableConfigDirectories c = None"
      "map_option snd (dataHome c) = xdgGetEnv env ''XDG_DATA_HOME''"
      "map_option snd (configHome c) = xdgGetEnv env ''XDG_CONFIG_HOME''"
      "map_option snd (cacheHome c) = xdgGetEnv env ''XDG_CACHE_HOME''"
    and v: "value_ok home value"
  shows "xgives (bindX (default_home (length home) DefaultRelativeDataHome (dataHome c) value) (\<lambda>(h1, value).
          bindX (default_home (length home) DefaultRelativeConfigHome (configHome c) value) (\<lambda>(h2, value).
          bindX (default_home (length home) DefaultRelativeCacheHome (cacheHome c) value) (\<lambda>(h3, value).
          bindX (xfree a) (\<lambda>_.
          retX (h1 \<noteq> None \<and> h2 \<noteq> None \<and> h3 \<noteq> None,
            c\<lparr>dataHome := h1, configHome := h2, cacheHome := h3\<rparr>)))))) m1
    (\<lambda>(ok, c) m'. homes_made m A env ok c m')"
proof -
  let ?B = "insert a (A \<union> set (home_addrs c))"
  have nul: "nul \<notin> set home" using env_ok_get [OF env] by simp
  note stage = default_stage [OF _ _ nul]
  have sub: "set (addrs (dataHome c)) \<subseteq> ?B" "set (addrs (configHome c)) \<subseteq> ?B" "set (addrs (cacheHome c)) \<subseteq> ?B"
    by (auto simp: home_addrs_def)
  show ?thesis
  proof (rule xbindI, rule stage [OF g(1) v rel_nul(1) rel_len(1) sub(1)], clarify, rule xbindI)
    fix h1 v1 m2
    let ?B1 = "?B \<union> set (addrs h1)"
    assume v1: "value_ok home v1" and f1: "filled m home DefaultRelativeDataHome (dataHome c) h1"
      "dataHome c = None \<longrightarrow> set (addrs h1) \<inter> ?B = {}" and g1: "grows m ?B1 m2"
    show "xgives (default_home (length home) DefaultRelativeConfigHome (configHome c) v1) m2 (\<lambda>x m'. xgives
       (case x of (h2, value) \<Rightarrow> bindX (default_home (length home) DefaultRelativeCacheHome (cacheHome c) value)
          (\<lambda>(h3, value). bindX (xfree a) (\<lambda>_. retX (h1 \<noteq> None \<and> h2 \<noteq> None \<and> h3 \<noteq> None,
            c\<lparr>dataHome := h1, configHome := h2, cacheHome := h3\<rparr>)))) m' (\<lambda>(ok, c) m'. homes_made m A env ok c m'))"
    proof (rule stage [OF g1 v1 rel_nul(2) rel_len(2)], use sub(2) in blast, clarify, rule xbindI)
      fix h2 v2 m3
      let ?B2 = "?B1 \<union> set (addrs h2)"
      assume v2: "value_ok home v2" and f2: "filled m home DefaultRelativeConfigHome (configHome c) h2"
        "configHome c = None \<longrightarrow> set (addrs h2) \<inter> ?B1 = {}" and g2: "grows m ?B2 m3"
      show "xgives (default_home (length home) DefaultRelativeCacheHome (cacheHome c) v2) m3 (\<lambda>x m'. xgives
         (case x of (h3, value) \<Rightarrow> bindX (xfree a) (\<lambda>_. retX (h1 \<noteq> None \<and> h2 \<noteq> None \<and> h3 \<noteq> None,
            c\<lparr>dataHome := h1, configHome := h2, cacheHome := h3\<rparr>))) m' (\<lambda>(ok, c) m'. homes_made m A env ok c m'))"
      proof (rule stage [OF g2 v2 rel_nul(3) rel_len(3)], use sub(3) in blast, clarify)
        fix h3 v3 m4
        assume f3: "filled m home DefaultRelativeCacheHome (cacheHome c) h3"
          "cacheHome c = None \<longrightarrow> set (addrs h3) \<inter> ?B2 = {}" and g3: "grows m (?B2 \<union> set (addrs h3)) m4"
        let ?c = "c\<lparr>dataHome := h1, configHome := h2, cacheHome := h3\<rparr>"
        have all: "?B2 \<union> set (addrs h3) - {a} = A \<union> set (home_addrs ?c)"
          "distinct (home_addrs ?c)" "set (home_addrs ?c) \<inter> A = {}"
          using refill [OF filled_addrs [OF f1] filled_addrs [OF f2] filled_addrs [OF f3] c(1,2)[unfolded home_addrs_def]
              g(2)[unfolded home_addrs_def] _ addrs_distinct addrs_distinct addrs_distinct]
          by (simp_all add: home_addrs_def Un_assoc)
        have "grows m (A \<union> set (home_addrs ?c)) (m4\<lparr>xm_live := xm_live m4 - {a}\<rparr>)"
          using grows_free [OF wf g3, of "{a}"] unfolding all by simp
        moreover have "a \<in> xm_live m4" using g3 by (rule grows_live) simp
        moreover have "if h1 \<noteq> None \<and> h2 \<noteq> None \<and> h3 \<noteq> None then homes_set env ?c
            else xm_answers m \<noteq> [] \<or> \<not> homes_named env"
          using filled_home [OF env(2) c(5) f1(1)] filled_home [OF env(2) c(6) f2(1)] filled_home [OF env(2) c(7) f3(1)]
          by (auto simp: homes_set_def homes_named_def)
        ultimately show "xgives (bindX (xfree a) (\<lambda>_. retX (h1 \<noteq> None \<and> h2 \<noteq> None \<and> h3 \<noteq> None, ?c))) m4
            (\<lambda>(ok, c) m'. homes_made m A env ok c m')"
          using all(2,3) c(3,4) by (simp add: homes_made_def)
      qed
    qed
  qed
qed

lemma homes_read:
  assumes wf: "wfm m" and env: "env_ok env" and g: "grows m (A \<union> set (home_addrs c)) m1"
    and c: "distinct (home_addrs c)" "set (home_addrs c) \<inter> A = {}"
      "searchableDataDirectories c = None" "searchableConfigDirectories c = None"
      "map_option snd (dataHome c) = xdgGetEnv env ''XDG_DATA_HOME''"
      "map_option snd (configHome c) = xdgGetEnv env ''XDG_CONFIG_HOME''"
      "map_option snd (cacheHome c) = xdgGetEnv env ''XDG_CACHE_HOME''"
  shows "xgives (if dataHome c \<noteq> None \<and> configHome c \<noteq> None \<and> cacheHome c \<noteq> None then retX (True, c)
     else make_default_homes env c) m1 (\<lambda>(ok, c) m'. homes_made m A env ok c m')"
proof (cases "dataHome c \<noteq> None \<and> configHome c \<noteq> None \<and> cacheHome c \<noteq> None")
  case True
  then have "homes_set env c"
    by (auto simp: homes_set_def homes_named_def home_of_def c(5-7) [symmetric])
  with True show ?thesis using g c(1-4) by (simp add: homes_made_def)
next
  case False
  have n: "home_of env name rel = None" if "xdgGetEnv env ''HOME'' = None" "map_option snd h = xdgGetEnv env name" "h = None"
    for h :: "xstr option" and name rel
    using that by (simp add: home_of_def split: option.split)
  have none: "\<not> homes_named env" if "xdgGetEnv env ''HOME'' = None"
    using False n [OF that c(5), of DefaultRelativeDataHome] n [OF that c(6), of DefaultRelativeConfigHome]
      n [OF that c(7), of DefaultRelativeCacheHome] unfolding homes_named_def by argo
  have "xgives (make_default_homes env c) m1 (\<lambda>(ok, c) m'. homes_made m A env ok c m')"
  proof (cases "xdgGetEnv env ''HOME''")
    case None
    then show ?thesis using none g c(1-4) by (simp add: make_default_homes_def homes_made_def)
  next
    case (Some home)
    let ?v = "cmem home @ drop (Suc (length home)) (malloc (length home + extralen))"
    have v: "memcpy (malloc (length home + extralen)) 0 (cmem home) 0 (Suc (length home)) = Inr ?v"
      by (simp add: memcpy_def extralen_def)
    show ?thesis unfolding make_default_homes_def Some option.case
    proof (rule xbindI, rule xmalloc_grows [OF g])
      fix m' assume "grows m (A \<union> set (home_addrs c)) m'" "xm_answers m \<noteq> []"
      then show "xgives (case None of None \<Rightarrow> retX (False, c) | Some a \<Rightarrow> k a) m' (\<lambda>(ok, c) m'. homes_made m A env ok c m')" for k
        using c(1-4) by (simp add: homes_made_def)
    next
      fix a m' assume a: "a \<notin> A \<union> set (home_addrs c)" "grows m (insert a (A \<union> set (home_addrs c))) m'"
      from fill_homes [OF wf env Some a(2,1) c value_first]
      show "xgives (case Some a of None \<Rightarrow> retX (False, c) | Some a \<Rightarrow>
          bindX (liftX (memcpy (malloc (length home + extralen)) 0 (cmem home) 0 (Suc (length home)))) (\<lambda>value.
          bindX (default_home (length home) DefaultRelativeDataHome (dataHome c) value) (\<lambda>(h1, value).
          bindX (default_home (length home) DefaultRelativeConfigHome (configHome c) value) (\<lambda>(h2, value).
          bindX (default_home (length home) DefaultRelativeCacheHome (cacheHome c) value) (\<lambda>(h3, value).
          bindX (xfree a) (\<lambda>_.
          retX (h1 \<noteq> None \<and> h2 \<noteq> None \<and> h3 \<noteq> None,
            c\<lparr>dataHome := h1, configHome := h2, cacheHome := h3\<rparr>))))))) m' (\<lambda>(ok, c) m'. homes_made m A env ok c m')"
        unfolding option.case v by (intro xbindI) (simp only: xgives_lift gives_simps)
    qed
  qed
  then show ?thesis using False by auto
qed

text \<open>A home that could not be copied ends the function.\<close>

lemma homes_stop:
  "grows m (A \<union> set (home_addrs c)) m' \<Longrightarrow> xm_answers m \<noteq> [] \<Longrightarrow> distinct (home_addrs c) \<Longrightarrow>
   set (home_addrs c) \<inter> A = {} \<Longrightarrow> searchableDataDirectories c = None \<Longrightarrow> searchableConfigDirectories c = None \<Longrightarrow>
   xgives (retX (False, c)) m' (\<lambda>(ok, c) m'. homes_made m A env ok c m')"
  by (simp add: homes_made_def)

lemma update_homes_gives:
  assumes wf: "wfm m" and env: "env_ok env" and g: "grows m A m1"
  shows "xgives (xdgUpdateHomeDirectories env zero_cache) m1 (\<lambda>(ok, c) m'. homes_made m A env ok c m')"
  unfolding xdgUpdateHomeDirectories_def Let_def
proof (rule xbindI, rule dup_stage [OF g], goal_cases)
  case (1 m1)
  then show ?case by (simp add: homes_made_def home_addrs_def zero_cache_def dup_str_def)
next
  case (2 d1 m1)
  let ?c1 = "zero_cache\<lparr>dataHome := dup_str d1\<rparr>"
  have "xgives (bindX (xdgEnvDup env ''XDG_CONFIG_HOME'') (\<lambda>d.
     if d = ENOMEM then retX (False, ?c1\<lparr>configHome := dup_str d\<rparr>) else
     bindX (xdgEnvDup env ''XDG_CACHE_HOME'') (\<lambda>d'. let c = ?c1\<lparr>configHome := dup_str d, cacheHome := dup_str d'\<rparr> in
     if d' = ENOMEM then retX (False, c) else
     if dataHome c \<noteq> None \<and> configHome c \<noteq> None \<and> cacheHome c \<noteq> None then retX (True, c)
     else make_default_homes env c))) m1 (\<lambda>(ok, c) m'. homes_made m A env ok c m')"
  proof (rule xbindI, rule dup_stage [OF 2(4)], goal_cases)
    case (1 m2)
    then show ?case using 2 by (simp add: homes_made_def home_addrs_def zero_cache_def dup_str_def addrs_distinct)
  next
    case b: (2 d2 m2)
    let ?c2 = "?c1\<lparr>configHome := dup_str d2\<rparr>"
    have "xgives (bindX (xdgEnvDup env ''XDG_CACHE_HOME'') (\<lambda>d'. let c = ?c2\<lparr>cacheHome := dup_str d'\<rparr> in
     if d' = ENOMEM then retX (False, c) else
     if dataHome c \<noteq> None \<and> configHome c \<noteq> None \<and> cacheHome c \<noteq> None then retX (True, c)
     else make_default_homes env c)) m2 (\<lambda>(ok, c) m'. homes_made m A env ok c m')"
    proof (rule xbindI, rule dup_stage [OF b(4)], goal_cases)
      case (1 m3)
      then show ?case using 2 b
        by (auto simp: homes_made_def home_addrs_def zero_cache_def dup_str_def addrs_distinct Un_assoc)
    next
      case e: (2 d3 m3)
      let ?c = "?c2\<lparr>cacheHome := dup_str d3\<rparr>"
      have "xgives (if dataHome ?c \<noteq> None \<and> configHome ?c \<noteq> None \<and> cacheHome ?c \<noteq> None then retX (True, ?c)
         else make_default_homes env ?c) m3 (\<lambda>(ok, c) m'. homes_made m A env ok c m')"
        by (rule homes_read [OF wf env])
          (use 2 b e in \<open>auto simp: home_addrs_def zero_cache_def addrs_distinct Un_assoc\<close>)
      then show ?case unfolding Let_def using e(1) by (simp only: if_False)
    qed
    then show ?case unfolding Let_def using b(1) by simp
  qed
  then show ?case unfolding Let_def using 2(1) by simp
qed

section \<open>The whole cache\<close>

definition list_addrs :: "xlist option \<Rightarrow> nat list" where
  "list_addrs r = (case r of None \<Rightarrow> [] | Some L \<Rightarrow> fst L # map fst (snd L))"

definition cache_addrs :: "xdgCachedData \<Rightarrow> nat list" where
  "cache_addrs c = addrs (cacheHome c) @ list_addrs (searchableDataDirectories c) @
     list_addrs (searchableConfigDirectories c)"

text \<open>A list, where there is one, begins with its home.\<close>

definition paired :: "xlist option \<Rightarrow> xstr option \<Rightarrow> bool" where
  "paired r h \<longleftrightarrow> (\<forall>L. r = Some L \<longrightarrow> (\<exists>x items. h = Some x \<and> snd L = x # items))"

lemma free_home_gives:
  "paired r h \<Longrightarrow> set (list_addrs r) \<subseteq> xm_live m \<Longrightarrow> P () m \<Longrightarrow> xgives (free_home r h) m P"
  by (cases r) (auto simp: free_home_def paired_def list_addrs_def)

lemma free_list_option:
  assumes "distinct (list_addrs r)" "set (list_addrs r) \<subseteq> xm_live m"
    "P () (m\<lparr>xm_live := xm_live m - set (list_addrs r)\<rparr>)"
  shows "xgives (xdgFreeStringList r) m P"
proof (cases r)
  case None
  then show ?thesis using assms by (simp add: xdgFreeStringList_def list_addrs_def)
next
  case (Some L)
  have "set (list_addrs r) = own L" by (auto simp: list_addrs_def own_def Some)
  then show ?thesis using assms unfolding Some
    by (intro free_list_gives) (auto simp: okl_def list_addrs_def)
qed

lemma free_opt_gives:
  "set (addrs h) \<subseteq> xm_live m \<Longrightarrow> P () (m\<lparr>xm_live := xm_live m - set (addrs h)\<rparr>) \<Longrightarrow> xgives (xfree_opt h) m P"
  by (cases h) (auto simp: xfree_opt_def)

lemma free_data_gives:
  assumes "paired (searchableDataDirectories c) (dataHome c)" "paired (searchableConfigDirectories c) (configHome c)"
    and d: "distinct (cache_addrs c)" and l: "set (cache_addrs c) \<subseteq> xm_live m"
    and P: "P zero_cache (m\<lparr>xm_live := xm_live m - set (cache_addrs c)\<rparr>)"
  shows "xgives (xdgFreeData c) m P"
proof -
  have e: "xm_live m - set (addrs (cacheHome c)) - set (list_addrs (searchableDataDirectories c)) -
      set (list_addrs (searchableConfigDirectories c)) = xm_live m - set (cache_addrs c)"
    by (auto simp: cache_addrs_def)
  show ?thesis
    unfolding xdgFreeData_def
    by (rule xbindI, rule free_home_gives [OF assms(1)], use l in \<open>simp add: cache_addrs_def\<close>,
        rule xbindI, rule free_home_gives [OF assms(2)], use l in \<open>simp add: cache_addrs_def\<close>,
        rule xbindI, rule free_opt_gives, use l in \<open>simp add: cache_addrs_def\<close>,
        rule xbindI, rule free_list_option, use d in \<open>simp add: cache_addrs_def\<close>,
        use d l in \<open>auto simp: cache_addrs_def\<close>,
        rule free_list_option, use d in \<open>simp add: cache_addrs_def\<close>,
        use d l in \<open>auto simp: cache_addrs_def\<close>, use P in \<open>simp add: e\<close>)
qed

text \<open>What the environment asks of a cache.\<close>

definition cache_ok :: "env \<Rightarrow> xdgCachedData \<Rightarrow> bool" where
  "cache_ok env c \<longleftrightarrow> homes_set env c \<and> distinct (cache_addrs c) \<and>
     (\<exists>L. searchableDataDirectories c = Some (headed (dataHome c) L) \<and>
        texts L = dirs_of env ''XDG_DATA_DIRS'' DefaultDataDirectoriesList) \<and>
     (\<exists>L. searchableConfigDirectories c = Some (headed (configHome c) L) \<and>
        texts L = dirs_of env ''XDG_CONFIG_DIRS'' DefaultConfigDirectoriesList)"

lemma homes_set_some: "homes_set env c \<Longrightarrow> dataHome c \<noteq> None \<and> configHome c \<noteq> None \<and> cacheHome c \<noteq> None"
  by (auto simp: homes_set_def homes_named_def)

lemma paired_headed: "h \<noteq> None \<Longrightarrow> paired (Some (headed h L)) h"
  by (auto simp: paired_def headed_def)

lemma cache_ok_paired:
  "cache_ok env c \<Longrightarrow> paired (searchableDataDirectories c) (dataHome c) \<and>
     paired (searchableConfigDirectories c) (configHome c)"
  using homes_set_some [of env c] paired_headed by (auto simp: cache_ok_def)

text \<open>The cache as the two functions leave it, beside the blocks \<open>A\<close>.\<close>

definition cache_made :: "xmem \<Rightarrow> nat set \<Rightarrow> env \<Rightarrow> bool \<Rightarrow> xdgCachedData \<Rightarrow> xmem \<Rightarrow> bool" where
  "cache_made m A env ok c m' \<longleftrightarrow> (\<exists>U. grows m (A \<union> U) m' \<and> U \<inter> A = {} \<and> set (cache_addrs c) \<subseteq> U \<and>
     distinct (cache_addrs c) \<and> paired (searchableDataDirectories c) (dataHome c) \<and>
     paired (searchableConfigDirectories c) (configHome c) \<and>
     (if ok then cache_ok env c \<and> U = set (cache_addrs c) else xm_answers m \<noteq> [] \<or> \<not> homes_named env))"

lemma home_addrs_some: "homes_set env c \<Longrightarrow> \<exists>x y z. dataHome c = Some x \<and> configHome c = Some y \<and> cacheHome c = Some z \<and>
    home_addrs c = [fst x, fst y, fst z]"
  using homes_set_some [of env c] by (auto simp: home_addrs_def)

lemma two_lists:
  "distinct [x, y, z] \<Longrightarrow> distinct (l1 # xs) \<Longrightarrow> insert l1 (set xs) \<inter> {x, y, z} = {} \<Longrightarrow> distinct (l2 # ys) \<Longrightarrow>
   insert l2 (set ys) \<inter> ({x, y, z} \<union> insert l1 (set xs)) = {} \<Longrightarrow> distinct ([z] @ (l1 # x # xs) @ (l2 # y # ys))"
  by auto

lemma update_lists_gives:
  assumes wf: "wfm m" and h: "homes_made m A env True c m1"
  shows "xgives (xdgUpdateDirectoryLists env c) m1 (\<lambda>(ok, c) m'. cache_made m A env ok c m')"
proof -
  from h have g: "grows m (A \<union> set (home_addrs c)) m1" and c: "distinct (home_addrs c)" "set (home_addrs c) \<inter> A = {}"
    "searchableDataDirectories c = None" "searchableConfigDirectories c = None" and set: "homes_set env c"
    by (simp_all add: homes_made_def)
  obtain x y z where xyz: "dataHome c = Some x" "configHome c = Some y" "cacheHome c = Some z"
    "home_addrs c = [fst x, fst y, fst z]" using home_addrs_some [OF set] by blast
  let ?A = "A \<union> set (home_addrs c)"
  show ?thesis
    unfolding xdgUpdateDirectoryLists_def
  proof (rule xbindI, rule xgives_mono [OF directory_lists_gives [OF wf g]])
    fix r m2
    assume r: "made_headed m ?A (dataHome c) (dirs_of env ''XDG_DATA_DIRS'' DefaultDataDirectoriesList) r m2"
    show "xgives (let cache = c\<lparr>searchableDataDirectories := r\<rparr> in if r = None then retX (False, cache)
       else bindX (xdgGetDirectoryLists env ''XDG_CONFIG_DIRS'' (configHome cache) DefaultConfigDirectoriesList) (\<lambda>r.
         retX (r \<noteq> None, cache\<lparr>searchableConfigDirectories := r\<rparr>))) m2 (\<lambda>(ok, c) m'. cache_made m A env ok c m')"
    proof (cases r)
      case None
      then show ?thesis using r c xyz
        by (auto simp: made_headed_def cache_made_def cache_addrs_def list_addrs_def paired_def
            intro!: exI [of _ "set (home_addrs c)"])
    next
      case (Some L)
      then obtain L1 where L1: "L = headed (Some x) L1" "okl L1" "own L1 \<inter> ?A = {}"
        "texts L1 = dirs_of env ''XDG_DATA_DIRS'' DefaultDataDirectoriesList" and g2: "grows m (?A \<union> own L1) m2"
        using r xyz(1) by (auto simp: made_headed_def made_def)
      let ?c = "c\<lparr>searchableDataDirectories := Some L\<rparr>"
      have "xgives (xdgGetDirectoryLists env ''XDG_CONFIG_DIRS'' (configHome c) DefaultConfigDirectoriesList) m2
        (\<lambda>r m'. cache_made m A env (r \<noteq> None) (?c\<lparr>searchableConfigDirectories := r\<rparr>) m')"
      proof (rule xgives_mono [OF directory_lists_gives [OF wf g2]])
        fix q m3
        assume q: "made_headed m (?A \<union> own L1) (configHome c) (dirs_of env ''XDG_CONFIG_DIRS'' DefaultConfigDirectoriesList) q m3"
        have p1: "paired (Some L) (dataHome c)" using L1(1) xyz(1) by (simp add: paired_headed)
        have la: "list_addrs (Some L) = fst L1 # fst x # map fst (snd L1)" by (simp add: list_addrs_def L1(1) headed_def)
        show "cache_made m A env (q \<noteq> None) (?c\<lparr>searchableConfigDirectories := q\<rparr>) m3"
        proof (cases q)
          case None
          have "distinct (cache_addrs ?c)" using c(1) xyz L1(2,3) c(4)
            by (auto simp: cache_addrs_def la okl_def own_def list_addrs_def [of None])
          moreover have "set (cache_addrs ?c) \<subseteq> set (home_addrs c) \<union> own L1"
            using xyz c(4) by (auto simp: cache_addrs_def la own_def list_addrs_def [of None])
          moreover have "(set (home_addrs c) \<union> own L1) \<inter> A = {}" using c(2) L1(3) by blast
          moreover have "grows m (A \<union> (set (home_addrs c) \<union> own L1)) m3" "xm_answers m \<noteq> []"
            using q None by (simp_all add: made_headed_def Un_assoc)
          moreover have "cache_addrs (?c\<lparr>searchableConfigDirectories := None\<rparr>) = cache_addrs ?c"
            using c(4) by (simp add: cache_addrs_def)
          moreover have "paired None (configHome c)" by (simp add: paired_def)
          ultimately show ?thesis using p1 None c(4)
            unfolding cache_made_def by (intro exI [of _ "set (home_addrs c) \<union> own L1"]) simp
        next
          case q': (Some K)
          then obtain L2 where L2: "K = headed (Some y) L2" "okl L2" "own L2 \<inter> (?A \<union> own L1) = {}"
            "texts L2 = dirs_of env ''XDG_CONFIG_DIRS'' DefaultConfigDirectoriesList"
            and g3: "grows m (?A \<union> own L1 \<union> own L2) m3"
            using q xyz(2) by (auto simp: made_headed_def made_def)
          let ?d = "?c\<lparr>searchableConfigDirectories := Some K\<rparr>"
          have ka: "list_addrs (Some K) = fst L2 # fst y # map fst (snd L2)"
            by (simp add: list_addrs_def L2(1) headed_def)
          have "cache_addrs ?d = [fst z] @ (fst L1 # fst x # map fst (snd L1)) @ (fst L2 # fst y # map fst (snd L2))"
            by (simp add: cache_addrs_def la ka xyz(3))
          moreover have "distinct ([fst z] @ (fst L1 # fst x # map fst (snd L1)) @ (fst L2 # fst y # map fst (snd L2)))"
          proof (rule two_lists)
            show "distinct [fst x, fst y, fst z]" using c(1) xyz(4) by simp
            show "distinct (fst L1 # map fst (snd L1))" "distinct (fst L2 # map fst (snd L2))"
              using L1(2) L2(2) by (simp_all add: okl_def)
            show "insert (fst L1) (set (map fst (snd L1))) \<inter> {fst x, fst y, fst z} = {}"
              using L1(3) xyz(4) by (simp add: own_def)
            have "own L2 \<inter> ({fst x, fst y, fst z} \<union> own L1) = {}" using L2(3) xyz(4) by auto
            then show "insert (fst L2) (set (map fst (snd L2))) \<inter>
                ({fst x, fst y, fst z} \<union> insert (fst L1) (set (map fst (snd L1)))) = {}" by (simp add: own_def)
          qed
          ultimately have dist: "distinct (cache_addrs ?d)" by simp
          have sets: "set (cache_addrs ?d) = set (home_addrs c) \<union> own L1 \<union> own L2"
            by (auto simp: cache_addrs_def la ka own_def xyz)
          have "homes_set env ?d" using set by (simp add: homes_set_def)
          then have "cache_ok env ?d" using dist L1(1,4) L2(1,4) xyz(1,2)
            unfolding cache_ok_def by (intro conjI exI [of _ L1] exI [of _ L2]) simp_all
          moreover have "(set (home_addrs c) \<union> own L1 \<union> own L2) \<inter> A = {}" using c(2) L1(3) L2(3) by blast
          ultimately show ?thesis using g3 dist sets cache_ok_paired [of env ?d] q'
            unfolding cache_made_def by (intro exI [of _ "set (cache_addrs ?d)"]) (simp add: Un_assoc)
        qed
      qed
      then show ?thesis by (simp add: Some)
    qed
  qed
qed

section \<open>The handle\<close>

definition handle_addrs :: "xdgHandle \<Rightarrow> nat list" where
  "handle_addrs h = (case h of None \<Rightarrow> [] | Some (a, c) \<Rightarrow> a # cache_addrs c)"

text \<open>A handle that is in use: its blocks are live, and it holds what some environment asked.\<close>

definition handle_ok :: "xdgHandle \<Rightarrow> xmem \<Rightarrow> bool" where
  "handle_ok h m \<longleftrightarrow> distinct (handle_addrs h) \<and> set (handle_addrs h) \<subseteq> xm_live m \<and>
     (\<forall>a c. h = Some (a, c) \<longrightarrow> (\<exists>env. cache_ok env c))"

lemma wipe_gives:
  assumes "handle_ok (Some (a, c)) m" "P () (m\<lparr>xm_live := xm_live m - set (handle_addrs (Some (a, c)))\<rparr>)"
  shows "xgives (bindX (xread a) (\<lambda>_. bindX (xdgFreeData c) (\<lambda>_. xfree a))) m P"
proof -
  from assms(1) obtain env where c: "cache_ok env c" and d: "a \<notin> set (cache_addrs c)" "distinct (cache_addrs c)"
    "a \<in> xm_live m" "set (cache_addrs c) \<subseteq> xm_live m" by (auto simp: handle_ok_def handle_addrs_def)
  have e: "xm_live m - set (cache_addrs c) - {a} = xm_live m - set (handle_addrs (Some (a, c)))"
    by (auto simp: handle_addrs_def)
  show ?thesis
    by (simp add: d(3), rule free_data_gives)
      (use cache_ok_paired [OF c] d assms(2) e in auto)
qed

definition updated :: "env \<Rightarrow> xdgHandle \<Rightarrow> xmem \<Rightarrow> bool \<Rightarrow> xdgHandle \<Rightarrow> xmem \<Rightarrow> bool" where
  "updated env h m ok h' m' \<longleftrightarrow> wfm m' \<and> handle_ok h' m' \<and>
     (if ok then \<exists>a c. h' = Some (a, c) \<and> cache_ok env c \<and> set (handle_addrs h') \<inter> xm_live m = {} \<and>
        xm_live m' = xm_live m - set (handle_addrs h) \<union> set (handle_addrs h')
      else h' = h \<and> xm_live m \<subseteq> xm_live m' \<and> (xm_answers m \<noteq> [] \<or> \<not> homes_named env))"

lemma grows_handle: "grows m A m' \<Longrightarrow> handle_ok h m \<Longrightarrow> handle_ok h m'"
  by (auto simp: handle_ok_def grows_def)

lemma update_commits:
  assumes wf: "wfm m" and h: "handle_ok h m" and c: "cache_made m {a} env True c m1"
  shows "xgives (bindX (case h of None \<Rightarrow> retX ()
       | Some (b, oldCache) \<Rightarrow> bindX (xread b) (\<lambda>_. bindX (xdgFreeData oldCache) (\<lambda>_. xfree b))) (\<lambda>_.
     retX (True, Some (a, c)))) m1 (\<lambda>(ok, h') m'. updated env h m ok h' m')"
proof -
  from c have g: "grows m ({a} \<union> set (cache_addrs c)) m1" and ok: "cache_ok env c" "a \<notin> set (cache_addrs c)"
    "distinct (cache_addrs c)" by (auto simp: cache_made_def)
  let ?h = "Some (a, c)"
  have n: "handle_addrs ?h = a # cache_addrs c" by (simp add: handle_addrs_def)
  have fr: "set (handle_addrs ?h) \<inter> xm_live m = {}" using grows_fresh [OF wf g] unfolding n by auto
  have l: "xm_live m1 = xm_live m \<union> set (handle_addrs ?h)" using g unfolding n by (simp add: grows_def)
  have hl: "set (handle_addrs h) \<subseteq> xm_live m" using h by (simp add: handle_ok_def)
  have m1: "wfm m1" by (rule grows_wfm [OF wf g])
  have "updated env h m True ?h (m1\<lparr>xm_live := xm_live m1 - set (handle_addrs h)\<rparr>)"
    using ok fr l hl m1 by (auto simp: updated_def handle_ok_def n wfm_def)
  moreover have "m1\<lparr>xm_live := xm_live m1\<rparr> = m1" by simp
  ultimately show ?thesis
  proof (cases h)
    case (Some x)
    obtain b old where x: "x = (b, old)" by (cases x)
    show ?thesis unfolding Some x option.case prod.case
      by (rule xbindI, rule wipe_gives)
        (use grows_handle [OF g h] \<open>updated env h m True ?h _\<close> Some x in auto)
  qed (simp add: handle_addrs_def)
qed

lemma update_backs_out:
  assumes wf: "wfm m" and h: "handle_ok h m" and c: "cache_made m {a} env False c m1"
  shows "xgives (bindX (xdgFreeData c) (\<lambda>_. bindX (xfree a) (\<lambda>_. retX (False, h)))) m1
    (\<lambda>(ok, h') m'. updated env h m ok h' m')"
proof -
  from c obtain U where g: "grows m ({a} \<union> U) m1" and u: "a \<notin> U" "set (cache_addrs c) \<subseteq> U" "distinct (cache_addrs c)"
    "paired (searchableDataDirectories c) (dataHome c)" "paired (searchableConfigDirectories c) (configHome c)"
    "xm_answers m \<noteq> [] \<or> \<not> homes_named env" by (auto simp: cache_made_def)
  let ?m = "m1\<lparr>xm_live := xm_live m1 - (set (cache_addrs c) \<union> {a})\<rparr>"
  have g': "grows m ({a} \<union> U - (set (cache_addrs c) \<union> {a})) ?m" by (rule grows_free [OF wf g]) (use u(2) in auto)
  have e: "xm_live m1 - set (cache_addrs c) - {a} = xm_live m1 - (set (cache_addrs c) \<union> {a})" by auto
  have "updated env h m False h ?m"
    using grows_handle [OF g' h] grows_wfm [OF wf g'] g' u(6) by (auto simp: updated_def grows_def)
  moreover have "a \<in> xm_live m1 - set (cache_addrs c)" "set (cache_addrs c) \<subseteq> xm_live m1"
    using grows_live [OF g] u(1,2) by auto
  ultimately show ?thesis
    by (intro xbindI free_data_gives [OF u(4,5,3)]) (simp_all add: e)
qed

lemma update_data_gives:
  assumes wf: "wfm m" and env: "env_ok env" and h: "handle_ok h m"
  shows "xgives (xdgUpdateData env h) m (\<lambda>(ok, h') m'. updated env h m ok h' m')"
  unfolding xdgUpdateData_def
proof (rule xbindI, rule xmalloc_grows [OF grows_refl])
  fix m1 assume g: "grows m {} m1" "xm_answers m \<noteq> []"
  then show "xgives (case None of None \<Rightarrow> retX (False, h) | Some a \<Rightarrow> k a) m1 (\<lambda>(ok, h') m'. updated env h m ok h' m')" for k
    using grows_handle [OF g(1) h] grows_wfm [OF wf g(1)] by (simp add: updated_def) (simp add: grows_def)
next
  fix a m1 assume "grows m {a} m1"
  note hm = update_homes_gives [OF wf env this]
  have made: "xgives (bindX (xdgUpdateHomeDirectories env zero_cache) (\<lambda>(ok, cache).
      if ok then xdgUpdateDirectoryLists env cache else retX (False, cache))) m1
      (\<lambda>(ok, c) m'. cache_made m {a} env ok c m')"
  proof (rule xbindI, rule xgives_mono [OF hm], clarify)
    fix ok c m2 assume h: "homes_made m {a} env ok c m2"
    show "xgives (if ok then xdgUpdateDirectoryLists env c else retX (False, c)) m2
        (\<lambda>(ok, c) m'. cache_made m {a} env ok c m')"
    proof (cases ok)
      case True
      then show ?thesis using update_lists_gives [OF wf] h by simp
    next
      case False
      then show ?thesis using h
        by (auto simp: homes_made_def cache_made_def cache_addrs_def list_addrs_def paired_def home_addrs_def
            intro!: exI [of _ "set (home_addrs c)"])
    qed
  qed
  show "xgives (case Some a of None \<Rightarrow> retX (False, h) | Some a \<Rightarrow>
        bindX (bindX (xdgUpdateHomeDirectories env zero_cache) (\<lambda>(ok, cache).
          if ok then xdgUpdateDirectoryLists env cache else retX (False, cache))) (\<lambda>(ok, cache).
        if ok then
          bindX (case h of None \<Rightarrow> retX ()
            | Some (b, oldCache) \<Rightarrow> bindX (xread b) (\<lambda>_. bindX (xdgFreeData oldCache) (\<lambda>_. xfree b))) (\<lambda>_.
          retX (True, Some (a, cache)))
        else bindX (xdgFreeData cache) (\<lambda>_. bindX (xfree a) (\<lambda>_. retX (False, h))))) m1
      (\<lambda>(ok, h') m'. updated env h m ok h' m')"
    unfolding option.case
  proof (rule xbindI, rule xgives_mono [OF made], clarify)
    fix ok c m2 assume "cache_made m {a} env ok c m2"
    then show "xgives (if ok then
          bindX (case h of None \<Rightarrow> retX ()
            | Some (b, oldCache) \<Rightarrow> bindX (xread b) (\<lambda>_. bindX (xdgFreeData oldCache) (\<lambda>_. xfree b))) (\<lambda>_.
          retX (True, Some (a, c)))
        else bindX (xdgFreeData c) (\<lambda>_. bindX (xfree a) (\<lambda>_. retX (False, h)))) m2
      (\<lambda>(ok, h') m'. updated env h m ok h' m')"
      using update_commits [OF wf h, of a env c m2] update_backs_out [OF wf h, of a env c m2]
      by (cases ok) (simp_all only: if_True if_False)
  qed
qed

end
