(* ===== verification/BaseFind.thy ===== *)
theory BaseFind
  imports BaseSpec
begin

text \<open>
  The queries of the base directories: the homes and lists asked of the environment, the
  search for a file, and the creation of a path.
\<close>

section \<open>The home without a handle\<close>

lemma fault_bind: "m s = Inl err \<Longrightarrow> bindX m k s = Inl err"
  by (simp add: bindX_def)

lemma malloc_works: "xm_answers m = [] \<Longrightarrow> xmalloc m =
    Inr (Some (xm_brk m), m\<lparr>xm_live := insert (xm_brk m) (xm_live m), xm_brk := Suc (xm_brk m), xm_answers := []\<rparr>)"
  by (simp add: xmalloc_def)

text \<open>The block has no place for the zero byte that is copied with the relative path.\<close>

lemma relative_home_faults:
  assumes "xdgGetEnv env name = None" "xdgGetEnv env ''HOME'' = Some home" "xm_answers m = []"
  shows "xdgGetRelativeHome env name rel (length rel) m = Inl OutOfBounds"
  using assms
  by (simp add: xdgGetRelativeHome_def xdgEnvDup_def bindX_def retX_def malloc_works liftX_def memcpy_def)

lemma search_faults:
  assumes "home m = Inl err"
  shows "search_query env name defaults field home None m = Inl err"
  using assms by (simp add: search_query_def bindX_def)

section \<open>Search\<close>

definition path_in :: "string \<Rightarrow> string \<Rightarrow> string" where
  "path_in rel dir = (if last dir \<noteq> dirsep then dir @ [dirsep] else dir) @ rel"

definition zeroed :: "string list \<Rightarrow> string" where
  "zeroed ts = concat (map (\<lambda>t. t @ [nul]) ts)"

lemma zeroed_simps [simp]: "zeroed [] = []" "zeroed (t # ts) = t @ [nul] @ zeroed ts"
  "zeroed (ts @ us) = zeroed ts @ zeroed us"
  by (simp_all add: zeroed_def)

lemma full_path_grows:
  assumes "grows m A m1" "fst item \<in> xm_live m" "snd item \<noteq> []"
    and "\<And>m'. grows m A m' \<Longrightarrow> xm_answers m \<noteq> [] \<Longrightarrow> P None m'"
    and "\<And>a m'. a \<notin> A \<Longrightarrow> grows m (insert a A) m' \<Longrightarrow> P (Some (a, path_in rel (snd item))) m'"
  shows "xgives (full_path item rel) m1 P"
proof -
  let ?n = "length (snd item) + length rel + 2"
  have live: "fst item \<in> xm_live m1" using assms(1,2) by (auto simp: grows_def)
  have len: "Suc (length (path_in rel (snd item))) \<le> ?n" by (simp add: path_in_def)
  then have cp: "memcpy (malloc ?n) 0 (cmem (path_in rel (snd item))) 0 (Suc (length (path_in rel (snd item)))) =
      Inr (cmem (path_in rel (snd item)) @ drop (Suc (length (path_in rel (snd item)))) (malloc ?n))"
    by (simp add: memcpy_def)
  show ?thesis
    unfolding full_path_def
    by (rule xbindI, simp only: xgives_read, rule conjI, rule live, rule xbindI, rule xput_grows [OF assms(1)])
      (use assms(3-5) cp in \<open>auto simp: path_in_def Let_def\<close>)
qed

text \<open>The state of the loop: what was found, beside the blocks of the caller.\<close>

definition found :: "string \<Rightarrow> (nat \<times> block) option \<Rightarrow> nat set \<Rightarrow> bool" where
  "found acc r A = (case r of None \<Rightarrow> acc = [] \<and> A = {}
     | Some (a, b) \<Rightarrow> A = {a} \<and> length b = Suc (length acc) \<and> take (length acc) b = map Some acc)"

lemma found_free:
  assumes "wfm m" "grows m (A \<union> B) m1" "found acc r A" "A \<inter> B = {}" "\<And>m'. grows m B m' \<Longrightarrow> P () m'"
  shows "xgives (free_block r) m1 P"
proof (cases r)
  case None
  then show ?thesis using assms by (simp add: free_block_def found_def)
next
  case (Some x)
  obtain a b where x: "x = (a, b)" by (cases x)
  then have A: "A = {a}" using assms(3) Some by (simp add: found_def)
  have e: "A \<union> B - {a} = B" using assms(4) A by auto
  have "grows m B (m1\<lparr>xm_live := xm_live m1 - {a}\<rparr>)"
    using grows_free [OF assms(1,2), of "{a}"] A unfolding e by simp
  then show ?thesis using assms(5) grows_live [OF assms(2), of a] A by (simp add: free_block_def Some x)
qed

lemma found_more:
  assumes wf: "wfm m" and g: "grows m (A \<union> B) m1" and f: "found acc r A" "A \<inter> B = {}"
    and none: "\<And>m'. grows m (A \<union> B) m' \<Longrightarrow> xm_answers m \<noteq> [] \<Longrightarrow> P None m'"
    and some: "\<And>a b m'. a \<notin> B \<Longrightarrow> grows m (insert a B) m' \<Longrightarrow> length b = length acc + length t + 2 \<Longrightarrow>
      take (length acc) b = map Some acc \<Longrightarrow> P (Some (a, b)) m'"
  shows "xgives (xrealloc r (length acc + length t + 2)) m1 P"
  unfolding xrealloc_def
proof (rule xbindI, rule xmalloc_grows [OF g])
  fix a m' assume a: "a \<notin> A \<union> B" "grows m (insert a (A \<union> B)) m'"
  show "xgives (case Some a of None \<Rightarrow> retX None | Some a \<Rightarrow> (case r of None \<Rightarrow> retX (Some (a, malloc (length acc + length t + 2)))
        | Some (b, old) \<Rightarrow> bindX (xfree b) (\<lambda>_. retX (Some (a, take (length acc + length t + 2)
            (old @ malloc (length acc + length t + 2 - length old))))))) m' P"
  proof (cases r)
    case None
    then show ?thesis using a f some [of a m'] by (simp add: found_def)
  next
    case (Some x)
    obtain c old where x: "x = (c, old)" by (cases x)
    with f Some have o: "A = {c}" "length old = Suc (length acc)" "take (length acc) old = map Some acc"
      by (simp_all add: found_def)
    have e: "insert a (A \<union> B) - {c} = insert a B" using a(1) f(2) o(1) by auto
    have "grows m (insert a B) (m'\<lparr>xm_live := xm_live m' - {c}\<rparr>)"
      using grows_free [OF wf a(2), of "{c}"] o(1) unfolding e by simp
    then show ?thesis using a(1) o grows_live [OF a(2), of c]
      by (simp add: Some x, intro some) (simp_all add: min_def)
  qed
qed (use none in simp)

definition hits :: "(string \<Rightarrow> bool) \<Rightarrow> string \<Rightarrow> xstr list \<Rightarrow> string list" where
  "hits opens rel items = filter opens (map (path_in rel) (map snd items))"

definition searched :: "xmem \<Rightarrow> string \<Rightarrow> bool \<Rightarrow> string list \<Rightarrow> ((nat \<times> block) option \<times> nat) option \<Rightarrow> xmem \<Rightarrow> bool" where
  "searched m acc fresh hs q m' = (case q of
      None \<Rightarrow> grows m {} m' \<and> xm_answers m \<noteq> []
    | Some (r, n) \<Rightarrow> n = length (acc @ zeroed hs) \<and> (\<exists>A. grows m A m' \<and> found (acc @ zeroed hs) r A) \<and>
        (r = None \<longleftrightarrow> fresh \<and> hs = []))"

lemma searched_more: "searched m (acc @ t @ [nul]) False hs q m' \<Longrightarrow> searched m acc fresh (t # hs) q m'"
  by (auto simp: searched_def split: option.splits)

lemma find_items_gives:
  assumes wf: "wfm m"
  shows "grows m A m1 \<Longrightarrow> found acc r A \<Longrightarrow> fst ` set items \<subseteq> xm_live m \<Longrightarrow> [] \<notin> snd ` set items \<Longrightarrow>
    xgives (find_items opens rel items r (length acc)) m1 (searched m acc (r = None) (hits opens rel items))"
proof (induction items arbitrary: m1 acc r A)
  case Nil
  then show ?case by (auto simp: hits_def searched_def)
next
  case (Cons item items)
  let ?t = "path_in rel (snd item)"
  let ?Q = "searched m acc (r = None) (hits opens rel (item # items))"
  have it: "fst item \<in> xm_live m" "snd item \<noteq> []" and its: "fst ` set items \<subseteq> xm_live m" "[] \<notin> snd ` set items"
    using Cons.prems(3,4) by auto
  show ?case unfolding find_items.simps
  proof (rule xbindI, rule full_path_grows [OF Cons.prems(1) it])
    fix m2 assume "grows m A m2" "xm_answers m \<noteq> []"
    then show "xgives (case None of None \<Rightarrow> bindX (free_block r) (\<lambda>_. retX None) | Some x \<Rightarrow> k x) m2 ?Q" for k
      using found_free [OF wf _ Cons.prems(2), of "{}" m2] by (simp add: searched_def)
  next
    fix f m2 assume f: "f \<notin> A" "grows m (insert f A) m2"
    have fl: "f \<in> xm_live m2" using f(2) by (rule grows_live) simp
    show "xgives (case Some (f, ?t) of None \<Rightarrow> bindX (free_block r) (\<lambda>_. retX None)
       | Some (f, t) \<Rightarrow>
         if opens t then
           bindX (xrealloc r (length acc + length t + 2)) (\<lambda>q. case q of
             None \<Rightarrow> bindX (free_block r) (\<lambda>_. bindX (xfree f) (\<lambda>_. retX None))
           | Some (a, b) \<Rightarrow>
               bindX (liftX (memcpy b (length acc) (cmem t) 0 (Suc (length t)))) (\<lambda>b.
               bindX (xfree f) (\<lambda>_. find_items opens rel items (Some (a, b)) (length acc + length t + 1))))
         else bindX (xfree f) (\<lambda>_. find_items opens rel items r (length acc))) m2 ?Q"
    proof (cases "opens ?t")
      case False
      have "insert f A - {f} = A" using f(1) by auto
      then have "grows m A (m2\<lparr>xm_live := xm_live m2 - {f}\<rparr>)" using grows_free [OF wf f(2), of "{f}"] by simp
      moreover have "hits opens rel (item # items) = hits opens rel items" using False by (simp add: hits_def)
      ultimately show ?thesis using Cons.IH [OF _ Cons.prems(2) its] False fl by simp
    next
      case True
      have af: "A \<inter> {f} = {}" "grows m (A \<union> {f}) m2" using f by auto
      have "xgives (xrealloc r (length acc + length ?t + 2)) m2 (\<lambda>q m'. xgives (case q of
             None \<Rightarrow> bindX (free_block r) (\<lambda>_. bindX (xfree f) (\<lambda>_. retX None))
           | Some (a, b) \<Rightarrow>
               bindX (liftX (memcpy b (length acc) (cmem ?t) 0 (Suc (length ?t)))) (\<lambda>b.
               bindX (xfree f) (\<lambda>_. find_items opens rel items (Some (a, b)) (length acc + length ?t + 1)))) m' ?Q)"
      proof (rule found_more [OF wf af(2) Cons.prems(2) af(1)])
        fix m3 assume m3: "grows m (A \<union> {f}) m3" "xm_answers m \<noteq> []"
        have "grows m {} (m4\<lparr>xm_live := xm_live m4 - {f}\<rparr>)" "f \<in> xm_live m4" if "grows m {f} m4" for m4
          using grows_free [OF wf that, of "{f}"] grows_live [OF that] by simp_all
        then show "xgives (case None of None \<Rightarrow> bindX (free_block r) (\<lambda>_. bindX (xfree f) (\<lambda>_. retX None)) | Some x \<Rightarrow> k x) m3 ?Q"
          for k using m3(2) by simp (rule found_free [OF wf m3(1) Cons.prems(2) af(1)], simp add: searched_def)
      next
        fix a b m3 assume b: "a \<notin> {f}" "grows m (insert a {f}) m3" "length b = length acc + length ?t + 2"
          "take (length acc) b = map Some acc"
        let ?b = "take (length acc) b @ cmem ?t @ drop (length acc + Suc (length ?t)) b"
        have cp: "memcpy b (length acc) (cmem ?t) 0 (Suc (length ?t)) = Inr ?b" using b(3) by (simp add: memcpy_def)
        have fd: "found (acc @ ?t @ [nul]) (Some (a, ?b)) {a}" using b(3,4) by (simp add: found_def cmem_def)
        have "insert a {f} - {f} = {a}" using b(1) by auto
        then have g: "grows m {a} (m3\<lparr>xm_live := xm_live m3 - {f}\<rparr>)" using grows_free [OF wf b(2), of "{f}"] by simp
        have f3: "f \<in> xm_live m3" using b(2) by (rule grows_live) simp
        from Cons.IH [OF g fd its] have "xgives (find_items opens rel items (Some (a, ?b)) (length acc + length ?t + 1))
            (m3\<lparr>xm_live := xm_live m3 - {f}\<rparr>) (searched m (acc @ ?t @ [nul]) False (hits opens rel items))" by simp
        then have "xgives (find_items opens rel items (Some (a, ?b)) (length acc + length ?t + 1))
            (m3\<lparr>xm_live := xm_live m3 - {f}\<rparr>) ?Q"
          by (rule xgives_mono) (use True searched_more [of m acc ?t] in \<open>auto simp: hits_def\<close>)
        then show "xgives (case Some (a, b) of None \<Rightarrow> bindX (free_block r) (\<lambda>_. bindX (xfree f) (\<lambda>_. retX None))
           | Some (a, b) \<Rightarrow> bindX (liftX (memcpy b (length acc) (cmem ?t) 0 (Suc (length ?t)))) (\<lambda>b.
               bindX (xfree f) (\<lambda>_. find_items opens rel items (Some (a, b)) (length acc + length ?t + 1)))) m3 ?Q"
          using f3 cp by simp
      qed
      with True show ?thesis by (simp only: option.case prod.case if_True xgives_bind)
    qed
  qed
qed

lemma find_existing_gives:
  assumes wf: "wfm m" and l: "l \<in> xm_live m" "fst ` set items \<subseteq> xm_live m" "[] \<notin> snd ` set items"
  shows "xgives (xdgFindExisting opens rel (Some (l, items))) m (\<lambda>r m'. case r of
      None \<Rightarrow> grows m {} m' \<and> xm_answers m \<noteq> []
    | Some (a, b) \<Rightarrow> grows m {a} m' \<and> b = (if hits opens rel items = [] then [Some nul, None]
        else map Some (zeroed (hits opens rel items)) @ [Some nul]))"
    (is "xgives _ m ?Q")
proof -
  have "found [] None {}" by (simp add: found_def)
  from find_items_gives [OF wf grows_refl this l(2,3)]
  have it: "xgives (find_items opens rel items None 0) m (searched m [] True (hits opens rel items))" by simp
  show ?thesis unfolding xdgFindExisting_def option.case prod.case
  proof (rule xbindI, simp only: xgives_read, rule conjI, rule l(1), rule xbindI, rule xgives_mono [OF it])
    fix q m1
    assume q: "searched m [] True (hits opens rel items) q m1"
    let ?k = "\<lambda>r. case r of None \<Rightarrow> retX None
       | Some (Some (a, b), strLen) \<Rightarrow> bindX (liftX (poke b strLen nul)) (\<lambda>b. retX (Some (a, b)))
       | Some (None, strLen) \<Rightarrow> bindX xmalloc (\<lambda>p. case p of None \<Rightarrow> retX None
           | Some a \<Rightarrow> bindX (liftX (memcpy (malloc 2) 0 (cmem []) 0 1)) (\<lambda>b. retX (Some (a, b))))"
    consider "q = None" | n where "q = Some (None, n)" | a b n where "q = Some (Some (a, b), n)"
      by (metis option.exhaust prod.exhaust)
    then show "xgives (?k q) m1 ?Q"
    proof cases
      case 1
      then show ?thesis using q by (simp add: searched_def)
    next
      case (2 n)
      then have g: "grows m {} m1" and h: "hits opens rel items = []" using q by (auto simp: found_def searched_def)
      have "xgives xmalloc m1 (\<lambda>p m'. xgives (case p of None \<Rightarrow> retX None
           | Some a \<Rightarrow> bindX (liftX (memcpy (malloc 2) 0 (cmem []) 0 1)) (\<lambda>b. retX (Some (a, b)))) m' ?Q)"
        by (rule xmalloc_grows [OF g]) (simp_all add: h memcpy_def cmem_def malloc_def numeral_2_eq_2)
      then show ?thesis by (simp only: 2 option.case prod.case xgives_bind)
    next
      case (3 a b n)
      then have g: "grows m {a} m1" and h: "hits opens rel items \<noteq> []" "n = length (zeroed (hits opens rel items))"
        and b: "length b = Suc n" "take n b = map Some (zeroed (hits opens rel items))"
        using q by (auto simp: found_def searched_def)
      have "b[n := Some nul] = take n b @ [Some nul]" using b(1) by (simp add: list_eq_iff_nth_eq nth_append less_Suc_eq)
      then show ?thesis using g h b by (simp add: 3 poke_def)
    qed
  qed
qed

lemma open_items_gives:
  assumes wf: "wfm m"
  shows "grows m {} m1 \<Longrightarrow> fst ` set items \<subseteq> xm_live m \<Longrightarrow> [] \<notin> snd ` set items \<Longrightarrow>
    xgives (open_items opens rel items) m1 (\<lambda>r m'. grows m {} m' \<and>
      (r = find opens (map (path_in rel) (map snd items)) \<or> r = None \<and> xm_answers m \<noteq> []))"
proof (induction items arbitrary: m1)
  case (Cons item items)
  let ?Q = "\<lambda>r m'. grows m {} m' \<and> (r = find opens (map (path_in rel) (map snd (item # items))) \<or> r = None \<and> xm_answers m \<noteq> [])"
  have it: "fst item \<in> xm_live m" "snd item \<noteq> []" and its: "fst ` set items \<subseteq> xm_live m" "[] \<notin> snd ` set items"
    using Cons.prems(2,3) by auto
  have "xgives (full_path item rel) m1 (\<lambda>r m'. xgives (case r of None \<Rightarrow> retX None
     | Some (f, t) \<Rightarrow> bindX (xfree f) (\<lambda>_. if opens t then retX (Some t) else open_items opens rel items)) m' ?Q)"
  proof (rule full_path_grows [OF Cons.prems(1) it])
    fix f m2 assume "f \<notin> {}" and f: "grows m (insert f {}) m2"
    then have g: "grows m {} (m2\<lparr>xm_live := xm_live m2 - {f}\<rparr>)" "f \<in> xm_live m2"
      using grows_free [OF wf f, of "{f}"] grows_live [OF f] by simp_all
    then show "xgives (case Some (f, path_in rel (snd item)) of None \<Rightarrow> retX None
       | Some (f, t) \<Rightarrow> bindX (xfree f) (\<lambda>_. if opens t then retX (Some t) else open_items opens rel items)) m2 ?Q"
      using Cons.IH [OF g(1) its] by simp
  qed simp
  then show ?case by simp
qed simp

text \<open>A directory without a name is looked at before its first byte.\<close>

lemma empty_item_faults:
  assumes "fst item \<in> xm_live m" "snd item = []" "xm_answers m = []"
  shows "find_items opens rel (item # items) r n m = Inl OutOfBounds"
    "open_items opens rel (item # items) m = Inl OutOfBounds"
proof -
  have "full_path item rel m = Inl OutOfBounds"
    using assms by (simp add: full_path_def xput_def bindX_def retX_def xread_def malloc_works liftX_def memcpy_def)
  then show "find_items opens rel (item # items) r n m = Inl OutOfBounds"
    "open_items opens rel (item # items) m = Inl OutOfBounds"
    by (simp_all add: bindX_def)
qed

section \<open>Search with a handle\<close>

definition data_path :: "env \<Rightarrow> string list" where
  "data_path env = the (home_of env ''XDG_DATA_HOME'' DefaultRelativeDataHome) #
     dirs_of env ''XDG_DATA_DIRS'' DefaultDataDirectoriesList"

definition config_path :: "env \<Rightarrow> string list" where
  "config_path env = the (home_of env ''XDG_CONFIG_HOME'' DefaultRelativeConfigHome) #
     dirs_of env ''XDG_CONFIG_DIRS'' DefaultConfigDirectoriesList"

lemma home_not_empty: "home_of env name rel = Some h \<Longrightarrow> rel \<noteq> [] \<Longrightarrow> h \<noteq> []"
  by (auto simp: home_of_def xdgGetEnv_def split: option.splits if_splits)

lemma rel_ne: "DefaultRelativeDataHome \<noteq> []" "DefaultRelativeConfigHome \<noteq> []"
  by (simp_all add: DefaultRelativeDataHome_def DefaultRelativeConfigHome_def)

text \<open>The lists of a cache, as the search sees them.\<close>

lemma cache_lists:
  assumes "cache_ok env c"
  obtains l items k kitems where "searchableDataDirectories c = Some (l, items)" "map snd items = data_path env"
    "searchableConfigDirectories c = Some (k, kitems)" "map snd kitems = config_path env"
    "hd (data_path env) \<noteq> []" "hd (config_path env) \<noteq> []"
proof -
  from assms obtain L K where L: "searchableDataDirectories c = Some (headed (dataHome c) L)"
    "texts L = dirs_of env ''XDG_DATA_DIRS'' DefaultDataDirectoriesList"
    and K: "searchableConfigDirectories c = Some (headed (configHome c) K)"
    "texts K = dirs_of env ''XDG_CONFIG_DIRS'' DefaultConfigDirectoriesList" and s: "homes_set env c"
    by (auto simp: cache_ok_def)
  obtain x y z where xyz: "dataHome c = Some x" "configHome c = Some y" "cacheHome c = Some z"
    using home_addrs_some [OF s] by blast
  have h: "home_of env ''XDG_DATA_HOME'' DefaultRelativeDataHome = Some (snd x)"
    "home_of env ''XDG_CONFIG_HOME'' DefaultRelativeConfigHome = Some (snd y)"
    using s xyz by (simp_all add: homes_set_def)
  show thesis
    by (rule that [of "fst L" "x # snd L" "fst K" "y # snd K"])
      (use L K xyz h home_not_empty [OF h(1)] home_not_empty [OF h(2)] rel_ne in
        \<open>simp_all add: headed_def data_path_def config_path_def texts_def\<close>)
qed

lemma handle_lists_live:
  assumes "handle_ok (Some (a, c)) m" "searchableDataDirectories c = Some (l, items)"
  shows "a \<in> xm_live m" "l \<in> xm_live m" "fst ` set items \<subseteq> xm_live m"
  using assms by (auto simp: handle_ok_def handle_addrs_def cache_addrs_def list_addrs_def)

definition find_result :: "(string \<Rightarrow> bool) \<Rightarrow> string \<Rightarrow> string list \<Rightarrow> block" where
  "find_result opens rel dirs = (let ts = filter opens (map (path_in rel) dirs) in
     if ts = [] then [Some nul, None] else map Some (zeroed ts) @ [Some nul])"

lemma data_search_gives:
  assumes wf: "wfm m" and h: "handle_ok (Some (a, c)) m" and c: "cache_ok env c"
    and dirs: "[] \<notin> set (dirs_of env ''XDG_DATA_DIRS'' DefaultDataDirectoriesList)" and ok: "xm_answers m = []"
  shows "xgives (xdgDataOpen env' opens rel (Some (Some (a, c)))) m (\<lambda>r m'. grows m {} m' \<and>
      r = find opens (map (path_in rel) (data_path env)))"
    "xgives (xdgDataFind env' opens rel (Some (Some (a, c)))) m (\<lambda>r m'. \<exists>p. grows m {p} m' \<and>
      r = Some (p, find_result opens rel (data_path env)))"
proof -
  obtain l items where l: "searchableDataDirectories c = Some (l, items)" "map snd items = data_path env"
    "hd (data_path env) \<noteq> []" by (rule cache_lists [OF c])
  note live = handle_lists_live [OF h l(1)]
  have "[] \<notin> set (data_path env)" using l(3) dirs by (auto simp: data_path_def)
  then have ne: "[] \<notin> snd ` set items" using l(2) by (metis list.set_map)
  have hits: "hits opens rel items = filter opens (map (path_in rel) (data_path env))" by (simp add: hits_def l(2))
  show "xgives (xdgDataOpen env' opens rel (Some (Some (a, c)))) m (\<lambda>r m'. grows m {} m' \<and>
      r = find opens (map (path_in rel) (data_path env)))"
    using live l(1) xgives_mono [OF open_items_gives [OF wf grows_refl live(3) ne, of opens rel]] ok
    by (simp add: xdgDataOpen_def with_dirs_def xdgSearchableDataDirectories_def search_query_def xdgGetCache_def
        xdgFileOpen_def l(2))
  show "xgives (xdgDataFind env' opens rel (Some (Some (a, c)))) m (\<lambda>r m'. \<exists>p. grows m {p} m' \<and>
      r = Some (p, find_result opens rel (data_path env)))"
    using live l(1)
    by (simp add: xdgDataFind_def with_dirs_def xdgSearchableDataDirectories_def search_query_def xdgGetCache_def)
      (rule xgives_mono [OF find_existing_gives [OF wf live(2,3) ne]],
        use ok in \<open>auto simp: find_result_def hits Let_def split: option.splits\<close>)
qed

section \<open>A path made\<close>

text \<open>Directories by their names: one is made in a directory that is there, in the current one
  or in the root.\<close>

definition parent :: "string \<Rightarrow> string" where
  "parent p = rev (drop 1 (dropWhile (\<lambda>c. c \<noteq> dirsep) (rev p)))"

definition tree_mkdir :: "string \<Rightarrow> string set \<Rightarrow> string set \<times> mkres" where
  "tree_mkdir p D = (if p \<in> D then (D, MkExists)
     else if parent p = [] \<or> parent p \<in> D then (insert p D, MkDone) else (D, MkFails))"

definition ways :: "string \<Rightarrow> nat \<Rightarrow> string set" where
  "ways t n = {take k t | k. 1 \<le> k \<and> k < n \<and> t ! k = dirsep}"

lemma parent_none: "dirsep \<notin> set p \<Longrightarrow> parent p = []"
proof -
  assume "dirsep \<notin> set p"
  then have "\<forall>c\<in>set (rev p). c \<noteq> dirsep" by auto
  then have dw: "dropWhile (\<lambda>c. c \<noteq> dirsep) (rev p) = []" by (simp only: dropWhile_eq_Nil_conv)
  show ?thesis by (simp add: parent_def dw)
qed

lemma parent_split: "dirsep \<notin> set q \<Longrightarrow> parent (p @ dirsep # q) = p"
proof -
  assume "dirsep \<notin> set q"
  then have "dropWhile (\<lambda>c. c \<noteq> dirsep) (rev q @ dirsep # rev p) = dirsep # rev p"
    by (subst dropWhile_append2) auto
  then show ?thesis by (simp add: parent_def)
qed

text \<open>The directory above a prefix is a shorter one, or none.\<close>

lemma parent_prefix:
  assumes "n \<le> length t"
  shows "parent (take n t) = [] \<or> parent (take n t) \<in> ways t n"
proof (cases "dirsep \<in> set (take n t)")
  case False
  then show ?thesis by (simp add: parent_none)
next
  case True
  then obtain p q where pq: "take n t = p @ dirsep # q" "dirsep \<notin> set q" by (metis split_list_last)
  have l: "length p < n" using arg_cong [OF pq(1), of length] assms by simp
  have p: "p = take (length p) t" using arg_cong [OF pq(1), of "take (length p)"] l by simp
  have "t ! length p = dirsep" using arg_cong [OF pq(1), of "\<lambda>x. x ! length p"] l assms by simp
  then show ?thesis unfolding pq(1) parent_split [OF pq(2)] ways_def using l p by (cases p) auto
qed

lemma tree_mkdir_gives:
  assumes "parent p = [] \<or> parent p \<in> D"
  shows "tree_mkdir p D = (insert p D, if p \<in> D then MkExists else MkDone)"
  using assms by (auto simp: tree_mkdir_def)

lemma ways_Suc: "1 \<le> n \<Longrightarrow> ways t (Suc n) = (if t ! n = dirsep then insert (take n t) (ways t n) else ways t n)"
  by (auto simp: ways_def less_Suc_eq)

lemma mk_prefixes_tree:
  "1 \<le> n \<Longrightarrow> n \<le> length t \<Longrightarrow> ways t n \<subseteq> D \<Longrightarrow> mk_prefixes tree_mkdir t [n..<length t] D = (D \<union> ways t (length t), True)"
proof (induction "length t - n" arbitrary: n D)
  case 0
  then show ?case by auto
next
  case (Suc m)
  then have up: "[n..<length t] = n # [Suc n..<length t]" and m: "m = length t - Suc n" "1 \<le> Suc n" "Suc n \<le> length t"
    by (simp_all add: upt_conv_Cons)
  have sub: "ways t n \<subseteq> ways t (length t)" using Suc.prems(2) by (auto simp: ways_def)
  show ?case
  proof (cases "t ! n = dirsep")
    case True
    have "parent (take n t) = [] \<or> parent (take n t) \<in> D" using parent_prefix [OF Suc.prems(2)] Suc.prems(3) by blast
    note mk = tree_mkdir_gives [OF this]
    have w: "ways t (Suc n) \<subseteq> insert (take n t) D" using Suc.prems(1,3) True by (auto simp: ways_Suc)
    have "take n t \<in> ways t (length t)" using Suc.prems(1) m(3) True by (auto simp: ways_def)
    then have "insert (take n t) D \<union> ways t (length t) = D \<union> ways t (length t)" by auto
    then show ?thesis using Suc.hyps(1) [OF m w] True mk by (simp add: up)
  next
    case False
    then have "ways t (Suc n) \<subseteq> D" using Suc.prems(1,3) by (simp add: ways_Suc)
    from Suc.hyps(1) [OF m this] False show ?thesis by (simp add: up)
  qed
qed

definition stripped :: "string \<Rightarrow> string" where
  "stripped path = (if last path = dirsep then butlast path else path)"

lemma make_path_gives:
  assumes wf: "wfm m" and path: "path \<noteq> []" "path \<noteq> [dirsep]" and a: "xm_answers m = []"
  shows "xgives (xdgMakePath tree_mkdir path D) m (\<lambda>(D', r) m'. grows m {} m' \<and>
    D' = insert (stripped path) (D \<union> ways (stripped path) (length (stripped path))) \<and>
    (r = 0 \<longleftrightarrow> stripped path \<notin> D))"
proof -
  let ?t = "stripped path"
  have ne: "?t \<noteq> []" using path by (cases path rule: rev_cases) (auto simp: stripped_def split: if_splits)
  let ?D = "D \<union> ways ?t (length ?t)"
  have pre: "mk_prefixes tree_mkdir ?t [1..<length ?t] D = (?D, True)"
    by (rule mk_prefixes_tree) (use ne in \<open>auto simp: ways_def Suc_le_eq\<close>)
  have "parent ?t = [] \<or> parent ?t \<in> ?D" using parent_prefix [of "length ?t" ?t] by auto
  note mk = tree_mkdir_gives [OF this]
  have "?t \<notin> ways ?t (length ?t)"
  proof
    assume "?t \<in> ways ?t (length ?t)"
    then obtain k where "?t = take k ?t" "k < length ?t" unfolding ways_def by blast
    then show False by (metis length_take less_imp_not_less min_less_iff_conj not_less_iff_gr_or_eq)
  qed
  then have new: "?t \<in> ?D \<longleftrightarrow> ?t \<in> D" by simp
  show ?thesis
    unfolding xdgMakePath_def using path
    apply simp
    apply (rule xput_grows [OF grows_refl])
      apply simp
     apply (simp add: a)
    subgoal for b m'
      using pre mk new grows_free [OF wf, of "{b}" m' "{b}"] grows_live [of m "{b}" m' b]
      by (simp add: Let_def stripped_def [symmetric])
    done
qed

end
