(* ===== verification/BaseProps.thy ===== *)
theory BaseProps
  imports BaseFind
begin

text \<open>
  The properties of the base directories.
\<close>

section \<open>Concrete states\<close>

definition mem0 :: xmem where
  "mem0 = \<lparr>xm_live = {}, xm_brk = 0, xm_answers = []\<rparr>"

lemma mem0: "wfm mem0" "xm_answers mem0 = []" "xm_live mem0 = {}" "handle_ok None mem0"
  by (simp_all add: mem0_def wfm_def handle_ok_def handle_addrs_def)

text \<open>A user with a home and nothing else.\<close>

definition ann :: env where
  "ann name = (if name = ''HOME'' then Some ''/home/ann'' else None)"

lemma ann: "env_ok ann" "homes_named ann" "xdgGetEnv ann ''HOME'' = Some ''/home/ann''"
  "xdgGetEnv ann ''XDG_DATA_HOME'' = None" "xdgGetEnv ann ''XDG_DATA_DIRS'' = None"
  by (simp_all add: env_ok_def ann_def homes_named_def home_of_def xdgGetEnv_def)

section \<open>The cache\<close>

text \<open>C20: bringing a handle up to date follows no bad pointer, whatever allocations fail.  When it
  succeeds the handle holds the homes and the lists the environment asks for, in blocks of their
  own, and the blocks of the cache before are freed, each once; when it fails the handle is as it
  was and none of its blocks is touched.  It fails only when an allocation does, or when a home is
  named nowhere.\<close>

theorem update_keeps_cache:
  "wfm m \<Longrightarrow> env_ok env \<Longrightarrow> handle_ok h m \<Longrightarrow>
   xgives (xdgUpdateData env h) m (\<lambda>(ok, h') m'. handle_ok h' m' \<and>
     (if ok then \<exists>a c. h' = Some (a, c) \<and> cache_ok env c \<and> set (handle_addrs h') \<inter> xm_live m = {} \<and>
        xm_live m' = xm_live m - set (handle_addrs h) \<union> set (handle_addrs h')
      else h' = h \<and> xm_live m \<subseteq> xm_live m' \<and> (xm_answers m \<noteq> [] \<or> \<not> homes_named env)))"
  by (rule xgives_mono [OF update_data_gives]) (auto simp: updated_def split: if_splits)

theorem update_keeps_cache_witness:
  "xgives (xdgUpdateData ann None) mem0 (\<lambda>(ok, h') m'. ok \<and> handle_ok h' m' \<and>
     (\<exists>a c. h' = Some (a, c) \<and> cache_ok ann c) \<and> xm_live m' = set (handle_addrs h'))"
  using mem0 ann(2)
  by (intro xgives_mono [OF update_keeps_cache [OF mem0(1) ann(1) mem0(4)]])
    (auto simp: handle_addrs_def [of None] split: if_splits)

text \<open>C21: a handle that was initialised and wiped leaves the memory as it was: every block it
  allocated is freed, once; and it is initialised when no allocation fails and all homes are named.\<close>

theorem handle_frees_all:
  "wfm m \<Longrightarrow> env_ok env \<Longrightarrow>
   xgives (bindX (xdgInitHandle env) (\<lambda>r. case r of None \<Rightarrow> retX False
     | Some h \<Rightarrow> bindX (xdgWipeHandle h) (\<lambda>_. retX True))) m
     (\<lambda>ok m'. (ok \<longrightarrow> xm_live m' = xm_live m) \<and> (xm_answers m = [] \<and> homes_named env \<longrightarrow> ok))"
proof -
  assume wf: "wfm m" and env: "env_ok env"
  have none: "handle_ok None m" by (simp add: handle_ok_def handle_addrs_def)
  show ?thesis unfolding xdgInitHandle_def
  proof (rule xbindI, rule xbindI, rule xgives_mono [OF update_data_gives [OF wf env none]], clarify)
    fix ok h' m' assume u: "updated env None m ok h' m'"
    show "xgives (retX (if ok then Some h' else None)) m' (\<lambda>x m'. xgives (case x of None \<Rightarrow> retX False
        | Some h \<Rightarrow> bindX (xdgWipeHandle h) (\<lambda>_. retX True)) m' (\<lambda>ok m'.
          (ok \<longrightarrow> xm_live m' = xm_live m) \<and> (xm_answers m = [] \<and> homes_named env \<longrightarrow> ok)))"
    proof (cases ok)
      case True
      then obtain a c where h: "h' = Some (a, c)" "handle_ok h' m'" "set (handle_addrs h') \<inter> xm_live m = {}"
        "xm_live m' = xm_live m \<union> set (handle_addrs h')"
        using u by (auto simp: updated_def handle_addrs_def [of None])
      have "xgives (bindX (xread a) (\<lambda>_. bindX (xdgFreeData c) (\<lambda>_. xfree a))) m' (\<lambda>_ m'. xm_live m' = xm_live m)"
        by (rule wipe_gives) (use h in auto)
      then show ?thesis by (simp add: True h(1) xdgWipeHandle_def)
    next
      case False
      then show ?thesis using u by (simp add: updated_def)
    qed
  qed
qed

theorem handle_frees_all_witness:
  "xgives (bindX (xdgInitHandle ann) (\<lambda>r. case r of None \<Rightarrow> retX False
     | Some h \<Rightarrow> bindX (xdgWipeHandle h) (\<lambda>_. retX True))) mem0 (\<lambda>ok m'. ok \<and> xm_live m' = {})"
  using mem0 ann(2) by (intro xgives_mono [OF handle_frees_all [OF mem0(1) ann(1)]]) auto

section \<open>The queries\<close>

text \<open>C23: asked without a handle for a home that has no variable of its own, the library writes
  one byte past the block it made for it; so does every search without a handle.\<close>

theorem home_without_handle:
  "xdgGetEnv env ''XDG_DATA_HOME'' = None \<Longrightarrow> xdgGetEnv env ''HOME'' = Some home \<Longrightarrow> xm_answers m = [] \<Longrightarrow>
   xdgDataHome env None m = Inl OutOfBounds \<and> xdgDataFind env opens rel None m = Inl OutOfBounds \<and>
   xdgDataOpen env opens rel None m = Inl OutOfBounds"
proof -
  assume "xdgGetEnv env ''XDG_DATA_HOME'' = None" "xdgGetEnv env ''HOME'' = Some home" "xm_answers m = []"
  then have h: "xdgDataHome env None m = Inl OutOfBounds"
    using relative_home_faults [of env "''XDG_DATA_HOME''" home m] by (simp add: xdgDataHome_def home_query_def)
  then have "xdgSearchableDataDirectories env None m = Inl OutOfBounds"
    by (simp add: xdgSearchableDataDirectories_def search_faults)
  with h show ?thesis by (simp add: xdgDataFind_def xdgDataOpen_def with_dirs_def fault_bind)
qed

theorem home_without_handle_witness:
  "xdgDataHome ann None mem0 = Inl OutOfBounds \<and> xdgDataFind ann (\<lambda>_. True) ''svc.conf'' None mem0 = Inl OutOfBounds \<and>
   xdgDataOpen ann (\<lambda>_. True) ''svc.conf'' None mem0 = Inl OutOfBounds"
  by (rule home_without_handle [OF ann(4,3) mem0(2)])

text \<open>C22: with a handle, opening a data file takes the first of the user's data home and the
  system's data directories, in that order, in which it can be opened, and the search for it
  returns all of them, each with a zero byte, and one zero byte more.\<close>

theorem data_search_in_order:
  "wfm m \<Longrightarrow> handle_ok (Some (a, c)) m \<Longrightarrow> cache_ok env c \<Longrightarrow>
   [] \<notin> set (dirs_of env ''XDG_DATA_DIRS'' DefaultDataDirectoriesList) \<Longrightarrow> xm_answers m = [] \<Longrightarrow>
   xgives (xdgDataOpen env' opens rel (Some (Some (a, c)))) m (\<lambda>r m'. grows m {} m' \<and>
      r = find opens (map (path_in rel) (data_path env))) \<and>
   xgives (xdgDataFind env' opens rel (Some (Some (a, c)))) m (\<lambda>r m'. \<exists>p. grows m {p} m' \<and>
      r = Some (p, find_result opens rel (data_path env)))"
  by (intro conjI data_search_gives)

text \<open>A handle of this user.\<close>

definition ann_cache :: xdgCachedData where
  "ann_cache = \<lparr>dataHome = Some (1, ''/home/ann/.local/share''), configHome = Some (2, ''/home/ann/.config''),
     cacheHome = Some (3, ''/home/ann/.cache''),
     searchableDataDirectories = Some (4, [(1, ''/home/ann/.local/share''), (5, ''/usr/local/share''), (6, ''/usr/share'')]),
     searchableConfigDirectories = Some (7, [(2, ''/home/ann/.config''), (8, ''/etc/xdg'')])\<rparr>"

definition ann_mem :: xmem where
  "ann_mem = \<lparr>xm_live = {..<9}, xm_brk = 9, xm_answers = []\<rparr>"

lemma ann_addrs: "cache_addrs ann_cache = [3, 4, 1, 5, 6, 7, 2, 8]"
  by (simp add: cache_addrs_def ann_cache_def list_addrs_def)

lemma ann_cache: "cache_ok ann ann_cache"
proof -
  have "\<exists>L. searchableDataDirectories ann_cache = Some (headed (dataHome ann_cache) L) \<and>
      texts L = dirs_of ann ''XDG_DATA_DIRS'' DefaultDataDirectoriesList"
    by (intro exI [of _ "(4, [(5, ''/usr/local/share''), (6, ''/usr/share'')])"])
      (simp add: ann_cache_def headed_def texts_def dirs_of_def ann(5) DefaultDataDirectoriesList_def)
  moreover have "\<exists>L. searchableConfigDirectories ann_cache = Some (headed (configHome ann_cache) L) \<and>
      texts L = dirs_of ann ''XDG_CONFIG_DIRS'' DefaultConfigDirectoriesList"
    by (intro exI [of _ "(7, [(8, ''/etc/xdg'')])"])
      (simp add: ann_cache_def headed_def texts_def dirs_of_def ann_def xdgGetEnv_def DefaultConfigDirectoriesList_def)
  moreover have "homes_set ann ann_cache" using ann(2)
    by (simp add: homes_set_def ann_cache_def home_of_def ann_def xdgGetEnv_def DefaultRelativeDataHome_def
        DefaultRelativeConfigHome_def DefaultRelativeCacheHome_def)
  ultimately show ?thesis by (simp add: cache_ok_def ann_addrs)
qed

theorem data_search_in_order_witness:
  "xgives (xdgDataOpen ann (\<lambda>p. p = ''/usr/share/svc.conf'') ''svc.conf'' (Some (Some (0, ann_cache)))) ann_mem
     (\<lambda>r m'. grows ann_mem {} m' \<and> r = Some ''/usr/share/svc.conf'')"
proof -
  have "handle_ok (Some (0, ann_cache)) ann_mem"
    using ann_cache by (auto simp: handle_ok_def handle_addrs_def ann_addrs ann_mem_def)
  moreover have "wfm ann_mem" "xm_answers ann_mem = []" by (simp_all add: wfm_def ann_mem_def)
  moreover have "[] \<notin> set (dirs_of ann ''XDG_DATA_DIRS'' DefaultDataDirectoriesList)"
    by (simp add: dirs_of_def ann(5) DefaultDataDirectoriesList_def)
  moreover have "data_path ann = [''/home/ann/.local/share'', ''/usr/local/share'', ''/usr/share'']"
    by (simp add: data_path_def home_of_def dirs_of_def ann(3,4,5) DefaultRelativeDataHome_def DefaultDataDirectoriesList_def)
  ultimately show ?thesis
    using data_search_in_order [OF _ _ ann_cache, of ann_mem 0 ann "\<lambda>p. p = ''/usr/share/svc.conf''" "''svc.conf''"]
    by (simp add: path_in_def)
qed

text \<open>A variable is taken apart at its colons: put together again with them, the pieces are the
  variable, less a colon at its end.\<close>

theorem path_pieces_roundtrip:
  "wfm m \<Longrightarrow> xgives (xdgSplitPath s) m (\<lambda>r m'. case r of None \<Rightarrow> grows m {} m' \<and> xm_answers m \<noteq> []
     | Some L \<Rightarrow> okl L \<and> grows m (own L) m' \<and> (\<forall>w\<in>set (texts L). pathsep \<notin> set w) \<and>
         concat (map (\<lambda>w. w @ [pathsep]) (texts L)) = s @ (if s = [] \<or> last s = pathsep then [] else [pathsep]))"
  by (rule xgives_mono [OF split_path_gives [OF _ grows_refl]])
    (auto simp: made_def pieces_join pieces_clean split: option.splits)

theorem path_pieces_roundtrip_witness:
  "xgives (xdgSplitPath ''/a::/b:'') mem0 (\<lambda>r m'. case r of None \<Rightarrow> False
     | Some L \<Rightarrow> concat (map (\<lambda>w. w @ [pathsep]) (texts L)) = ''/a::/b:'')"
  using mem0(2) by (intro xgives_mono [OF path_pieces_roundtrip [OF mem0(1)]]) (auto split: option.splits)

text \<open>A directory without a name in the list is looked at before its first byte.\<close>

theorem empty_directory_faults:
  "fst item \<in> xm_live m \<Longrightarrow> snd item = [] \<Longrightarrow> xm_answers m = [] \<Longrightarrow> l \<in> xm_live m \<Longrightarrow>
   xdgFindExisting opens rel (Some (l, item # items)) m = Inl OutOfBounds"
  by (simp add: xdgFindExisting_def bindX_def xread_def empty_item_faults del: find_items.simps)

text \<open>Making a path makes the directories on the way to it and the last one; it reports success
  exactly when the last one was not there before.\<close>

theorem path_made:
  "wfm m \<Longrightarrow> path \<noteq> [] \<Longrightarrow> path \<noteq> [dirsep] \<Longrightarrow> xm_answers m = [] \<Longrightarrow>
   xgives (xdgMakePath tree_mkdir path D) m (\<lambda>(D', r) m'. grows m {} m' \<and>
     D' = insert (stripped path) (D \<union> ways (stripped path) (length (stripped path))) \<and> (r = 0 \<longleftrightarrow> stripped path \<notin> D))"
  by (rule make_path_gives)

end
