(* ===== verification/SoundDevice.thy ===== *)
theory SoundDevice
  imports SoundCard
begin

text \<open>
  How the back ends of the sound card open, configure and close their devices:
  \<open>svc_init_audio\<close> and \<open>svc_close_audio\<close> of \<open>audio_api_alsa.c\<close>, \<open>audio_api_oss.c\<close>,
  \<open>audio_api_jack.c\<close> and \<open>audio_api_portaudio.c\<close>.  What the sound libraries answer is a
  parameter; what these files make of the answers, and which calls they go on to, is modelled.
\<close>

section \<open>Sequences of calls\<close>

text \<open>A call that is tested: the function goes on, with the state updated, or returns.\<close>

type_synonym 's call = "'s \<Rightarrow> bool \<times> 's"

definition tested :: "bool \<Rightarrow> ('s \<Rightarrow> 's) \<Rightarrow> 's call" where
  "tested ok upd s = (if ok then (True, upd s) else (False, s))"

fun calls :: "'s call list \<Rightarrow> 's call" where
  "calls [] s = (True, s)"
| "calls (c # cs) s = (case c s of (True, s) \<Rightarrow> calls cs s | (False, s) \<Rightarrow> (False, s))"

datatype pcm = PcmNull | PcmOpen | PcmClosed

section \<open>ALSA\<close>

datatype stream = Playback | Capture

text \<open>The calls of \<open>alsa_open\<close>; each is made once.\<close>

datatype snd_call =
    Snd_pcm_open stream string
  | Params_any stream
  | Set_access stream
  | Set_format stream
  | Set_rate_near stream u32
  | Set_channels stream nat
  | Hw_params stream

text \<open>A configuration: interleaved access, samples of type \<open>float\<close>, the rate, the channels.\<close>

record hw =
  hw_interleaved :: bool
  hw_float :: bool
  hw_rate :: "u32 option"
  hw_channels :: "nat option"

definition hw_any :: hw where
  "hw_any = \<lparr>hw_interleaved = False, hw_float = False, hw_rate = None, hw_channels = None\<rparr>"

record alsa =
  al_pcm :: "stream \<Rightarrow> pcm"
  al_hwparams :: "stream \<Rightarrow> hw option"  \<comment> \<open>the blocks a configuration is put together in\<close>
  al_device :: "stream \<Rightarrow> hw option"  \<comment> \<open>the configuration of the device\<close>
  al_running :: bool

definition alsa_idle :: alsa where
  "alsa_idle = \<lparr>al_pcm = (\<lambda>_. PcmNull), al_hwparams = (\<lambda>_. None), al_device = (\<lambda>_. None), al_running = False\<rparr>"

definition on_pcm :: "stream \<Rightarrow> alsa \<Rightarrow> alsa" where
  "on_pcm d s = s\<lparr>al_pcm := (al_pcm s)(d := PcmOpen)\<rparr>"

definition on_hw :: "stream \<Rightarrow> (hw \<Rightarrow> hw) \<Rightarrow> alsa \<Rightarrow> alsa" where
  "on_hw d f s = s\<lparr>al_hwparams := (al_hwparams s)(d := map_option f (al_hwparams s d))\<rparr>"

definition on_device :: "stream \<Rightarrow> alsa \<Rightarrow> alsa" where
  "on_device d s = s\<lparr>al_device := (al_device s)(d := al_hwparams s d)\<rparr>"

text \<open>
  \<open>ans\<close> is what a call returns, \<open>near\<close> the rate a device has that is nearest to one asked for.
  Of \<open>snd_pcm_hw_params_set_access\<close> every result but 0 is an error, of the others the negative ones.
\<close>

definition alsa_calls :: "(snd_call \<Rightarrow> int) \<Rightarrow> (stream \<Rightarrow> u32 \<Rightarrow> u32) \<Rightarrow> (string \<Rightarrow> string option) \<Rightarrow> u32 \<Rightarrow> alsa call list" where
  "alsa_calls ans near env rate =
     (let ok = (\<lambda>c. \<not> ans c < 0);
          device = (\<lambda>name. case env name of None \<Rightarrow> ''default'' | Some d \<Rightarrow> d) in
      [tested (ok (Snd_pcm_open Playback (device ''SVC_ALSA_PLAYBACK''))) (on_pcm Playback),
       tested (ok (Params_any Playback)) (on_hw Playback (\<lambda>_. hw_any)),
       tested (ok (Snd_pcm_open Capture (device ''SVC_ALSA_CAPTURE''))) (on_pcm Capture),
       tested (ok (Params_any Capture)) (on_hw Capture (\<lambda>_. hw_any)),
       tested (ans (Set_access Playback) = 0) (on_hw Playback (hw_interleaved_update (\<lambda>_. True))),
       tested (ans (Set_access Capture) = 0) (on_hw Capture (hw_interleaved_update (\<lambda>_. True))),
       tested (ok (Set_format Playback)) (on_hw Playback (hw_float_update (\<lambda>_. True))),
       tested (ok (Set_format Capture)) (on_hw Capture (hw_float_update (\<lambda>_. True))),
       tested (ok (Set_rate_near Playback rate)) (on_hw Playback (hw_rate_update (\<lambda>_. Some (near Playback rate)))),
       tested (ok (Set_rate_near Capture rate)) (on_hw Capture (hw_rate_update (\<lambda>_. Some (near Capture rate)))),
       tested (ok (Set_channels Playback 1)) (on_hw Playback (hw_channels_update (\<lambda>_. Some 1))),
       tested (ok (Set_channels Capture 1)) (on_hw Capture (hw_channels_update (\<lambda>_. Some 1))),
       tested (ok (Hw_params Playback)) (on_device Playback),
       tested (ok (Hw_params Capture)) (on_device Capture)])"

definition alsa_open :: "(snd_call \<Rightarrow> int) \<Rightarrow> (stream \<Rightarrow> u32 \<Rightarrow> u32) \<Rightarrow> (string \<Rightarrow> string option) \<Rightarrow> u32 \<Rightarrow> alsa \<Rightarrow> int \<times> alsa" where
  "alsa_open ans near env rate s =
     (case calls (alsa_calls ans near env rate) (s\<lparr>al_hwparams := (\<lambda>_. Some hw_any)\<rparr>) of
        (True, s) \<Rightarrow> (0, s\<lparr>al_hwparams := (\<lambda>_. None)\<rparr>)
      | (False, s) \<Rightarrow> (- 1, s))"

text \<open>What \<open>alsa_open\<close> returns is not looked at; \<open>created\<close> is the result of \<open>thread_create\<close>.\<close>

definition alsa_init :: "(snd_call \<Rightarrow> int) \<Rightarrow> (stream \<Rightarrow> u32 \<Rightarrow> u32) \<Rightarrow> (string \<Rightarrow> string option) \<Rightarrow> int \<Rightarrow> u32 \<Rightarrow> u32 \<Rightarrow>
  alsa \<Rightarrow> int \<times> alsa \<times> 'a audio \<times> 'a audio" where
  "alsa_init ans near env created rate frame_size s =
     (let a = \<lparr>asize = frame_size, adata = replicate (unat frame_size) None\<rparr>;
          s = (case alsa_open ans near env rate s of (_, s) \<Rightarrow> s)\<lparr>al_running := True\<rparr> in
      (if created > 0 then - 1 else 0, s, a, a))"

text \<open>A handle that a call of the library is given.\<close>

definition pcm_live :: "pcm \<Rightarrow> unit res" where
  "pcm_live p = (case p of PcmNull \<Rightarrow> Inl NullDeref | PcmClosed \<Rightarrow> Inl Dangling | PcmOpen \<Rightarrow> Inr ())"

text \<open>
  The thread: its two preparing calls, and the turns it makes until \<open>running\<close> is cleared, each
  with what the calls of its loops return; what the device got.
\<close>

definition alsa_step ::
  "('a audio \<Rightarrow> 'a audio \<Rightarrow> 'c \<Rightarrow> ('c \<times> 'a audio) res) \<Rightarrow> 'a list option list \<times> nat option list \<Rightarrow>
   'a list list \<times> 'a audio \<times> 'a audio \<times> 'c \<Rightarrow> ('a list list \<times> 'a audio \<times> 'a audio \<times> 'c) res" where
  "alsa_step callback t st =
     (case st of (devs, input, out, c) \<Rightarrow>
        bindR (alsa_turn callback (fst t) (snd t) input out c) (\<lambda>(dev, input, out, c).
        Inr (devs @ [dev], input, out, c)))"

definition alsa_reader ::
  "('a audio \<Rightarrow> 'a audio \<Rightarrow> 'c \<Rightarrow> ('c \<times> 'a audio) res) \<Rightarrow> ('a list option list \<times> nat option list) list \<Rightarrow> alsa \<Rightarrow>
   'a audio \<Rightarrow> 'a audio \<Rightarrow> 'c \<Rightarrow> ('a list list \<times> 'a audio \<times> 'a audio \<times> 'c) res" where
  "alsa_reader callback turns s input out c =
     bindR (pcm_live (al_pcm s Playback)) (\<lambda>_. bindR (pcm_live (al_pcm s Capture)) (\<lambda>_.
     foldR (alsa_step callback) turns ([], input, out, c)))"

definition alsa_close :: "alsa \<Rightarrow> (int \<times> alsa) res" where
  "alsa_close s =
     bindR (pcm_live (al_pcm s Playback)) (\<lambda>_. bindR (pcm_live (al_pcm s Capture)) (\<lambda>_.
     Inr (0, s\<lparr>al_running := False, al_pcm := (\<lambda>_. PcmClosed)\<rparr>)))"

section \<open>OSS\<close>

text \<open>\<open>error\<close> ends the program with a status; an assertion that does not hold aborts it.\<close>

datatype 'x ending = Returns 'x | Exits int | Aborts

datatype dsp_call = Dsp_channels u32 | Dsp_setfmt | Dsp_speed u32

record oss_device =
  od_fd :: int
  od_set :: "dsp_call list"
  od_running :: bool
  od_thread :: nat
  od_joinable :: bool
  od_bufs :: bool  \<comment> \<open>the two frames are allocated\<close>

definition oss_idle :: oss_device where
  "oss_idle = \<lparr>od_fd = 0, od_set = [], od_running = False, od_thread = 0, od_joinable = False, od_bufs = False\<rparr>"

fun oss_set_all :: "(dsp_call \<Rightarrow> int) \<Rightarrow> dsp_call list \<Rightarrow> oss_device \<Rightarrow> oss_device ending" where
  "oss_set_all ioctl [] s = Returns s"
| "oss_set_all ioctl (c # cs) s =
     (if ioctl c = - 1 then Exits 1 else oss_set_all ioctl cs (s\<lparr>od_set := od_set s @ [c]\<rparr>))"

definition oss_open :: "int \<Rightarrow> (dsp_call \<Rightarrow> int) \<Rightarrow> u32 \<Rightarrow> oss_device \<Rightarrow> oss_device ending" where
  "oss_open fd ioctl rate s =
     (if od_fd s \<noteq> 0 then Aborts
      else if fd = - 1 then Exits 1
      else oss_set_all ioctl [Dsp_channels 1, Dsp_setfmt, Dsp_speed rate] (s\<lparr>od_fd := fd\<rparr>))"

text \<open>\<open>thread\<close> is what \<open>thread_create\<close> writes to \<open>rt\<close>, if it does; its result is not looked at.\<close>

definition oss_init :: "int \<Rightarrow> (dsp_call \<Rightarrow> int) \<Rightarrow> nat option \<Rightarrow> u32 \<Rightarrow> oss_device \<Rightarrow> (int \<times> oss_device) ending" where
  "oss_init fd ioctl thread rate s =
     (case oss_open fd ioctl rate (s\<lparr>od_bufs := True\<rparr>) of
        Exits n \<Rightarrow> Exits n
      | Aborts \<Rightarrow> Aborts
      | Returns s \<Rightarrow>
          let rt = (case thread of None \<Rightarrow> od_thread s | Some t \<Rightarrow> t) in
          if rt > 0 then Returns (0, s\<lparr>od_running := True, od_thread := rt, od_joinable := False\<rparr>) else Aborts)"

text \<open>The second assertion assigns 0 to \<open>rt\<close>, and 0 is what it tests.\<close>

definition oss_close :: "oss_device \<Rightarrow> (int \<times> oss_device) ending" where
  "oss_close s =
     (let s = s\<lparr>od_running := False\<rparr> in
      if \<not> od_thread s \<noteq> 0 then Aborts
      else let s = s\<lparr>od_thread := 0\<rparr> in
        if \<not> od_thread s \<noteq> 0 then Aborts
        else Returns (0, s\<lparr>od_bufs := False\<rparr>))"

section \<open>PortAudio\<close>

datatype pa_call = Pa_Initialize | Pa_OpenDefaultStream u32 u32 | Pa_StartStream | Pa_StopStream | Pa_CloseStream | Pa_Terminate

record pa =
  pa_ready :: bool
  pa_stream :: pcm
  pa_started :: bool
  pa_size :: "u32 option"  \<comment> \<open>of the frames the callback is given\<close>

definition pa_idle :: pa where
  "pa_idle = \<lparr>pa_ready = False, pa_stream = PcmNull, pa_started = False, pa_size = None\<rparr>"

text \<open>The macro \<open>DO_PA_ERROR\<close> returns when the call before it failed.\<close>

definition pa_init :: "(pa_call \<Rightarrow> bool) \<Rightarrow> u32 \<Rightarrow> u32 \<Rightarrow> pa \<Rightarrow> int \<times> pa" where
  "pa_init noerror rate frame_size s =
     (case calls
        [tested (noerror Pa_Initialize) (\<lambda>s. s\<lparr>pa_ready := True, pa_size := Some frame_size\<rparr>),
         tested (noerror (Pa_OpenDefaultStream rate frame_size)) (\<lambda>s. s\<lparr>pa_stream := PcmOpen\<rparr>),
         tested (noerror Pa_StartStream) (\<lambda>s. s\<lparr>pa_started := True\<rparr>)] s of
        (ok, s) \<Rightarrow> (if ok then 0 else - 1, s))"

definition pa_close :: "(pa_call \<Rightarrow> bool) \<Rightarrow> pa \<Rightarrow> int \<times> pa" where
  "pa_close noerror s =
     (case calls
        [tested (noerror Pa_StopStream) (\<lambda>s. s\<lparr>pa_started := False\<rparr>),
         tested (noerror Pa_CloseStream) (\<lambda>s. s\<lparr>pa_stream := PcmClosed\<rparr>),
         tested (noerror Pa_Terminate) (\<lambda>s. s\<lparr>pa_ready := False\<rparr>)] s of
        (ok, s) \<Rightarrow> (if ok then 0 else - 1, s))"

section \<open>JACK\<close>

record jack =
  jk_client :: pcm
  jk_ports :: "string list"
  jk_active :: bool
  jk_links :: "(string \<times> string) list"

definition jack_idle :: jack where
  "jack_idle = \<lparr>jk_client = PcmNull, jk_ports = [], jk_active = False, jk_links = []\<rparr>"

text \<open>What the server answers: the ports of the card with sound for us and for sound of ours.\<close>

record jack_server =
  js_opens :: bool
  js_activates :: int
  js_captures :: "string list option"
  js_playbacks :: "string list option"
  js_connects :: "string \<Rightarrow> string \<Rightarrow> int"
  js_name :: "string \<Rightarrow> string"  \<comment> \<open>\<open>jack_port_name\<close>\<close>

text \<open>An array of words up to its null pointer.\<close>

fun until_null :: "string option option list \<Rightarrow> string list res" where
  "until_null [] = Inl OutOfBounds"
| "until_null (None # ts) = Inl Uninit"
| "until_null (Some None # ts) = Inr []"
| "until_null (Some (Some t) # ts) = bindR (until_null ts) (\<lambda>xs. Inr (t # xs))"

text \<open>The ports of an environment variable, or those of the server.\<close>

definition jack_ports :: "string option \<Rightarrow> string list option \<Rightarrow> string list option res" where
  "jack_ports v ports = bindR (getenv_array v) (\<lambda>r. case r of None \<Rightarrow> Inr ports
     | Some tokens \<Rightarrow> bindR (until_null tokens) (\<lambda>xs. Inr (Some xs)))"

text \<open>A connection that fails is only reported.\<close>

definition jack_links :: "jack_server \<Rightarrow> (string \<times> string) list \<Rightarrow> jack \<Rightarrow> jack" where
  "jack_links sv links s = s\<lparr>jk_links := jk_links s @ filter (\<lambda>(a, b). js_connects sv a b = 0) links\<rparr>"

definition jack_init :: "jack_server \<Rightarrow> (string \<Rightarrow> string option) \<Rightarrow> int \<Rightarrow> jack \<Rightarrow> (int \<times> jack) res" where
  "jack_init sv env pid s =
     bindR (jack_client_name pid) (\<lambda>name.
     if \<not> js_opens sv then Inr (- 1, s\<lparr>jk_client := PcmNull\<rparr>)
     else let s = s\<lparr>jk_client := PcmOpen, jk_ports := [''input'', ''output'']\<rparr> in
     if js_activates sv \<noteq> 0 then Inr (- 1, s)
     else let s = s\<lparr>jk_active := True\<rparr> in
     bindR (jack_ports (env ''SVC_JACK_INPUT'') (js_captures sv)) (\<lambda>ports. case ports of None \<Rightarrow> Inr (- 1, s)
     | Some xs \<Rightarrow> let s = jack_links sv (map (\<lambda>p. (p, js_name sv ''input'')) xs) s in
     bindR (jack_ports (env ''SVC_JACK_OUTPUT'') (js_playbacks sv)) (\<lambda>ports. case ports of None \<Rightarrow> Inr (- 1, s)
     | Some ys \<Rightarrow> Inr (0, jack_links sv (map (\<lambda>p. (js_name sv ''output'', p)) ys) s))))"

definition jack_close :: "jack \<Rightarrow> (int \<times> jack) res" where
  "jack_close s = bindR (pcm_live (jk_client s)) (\<lambda>_.
     Inr (0, s\<lparr>jk_client := PcmClosed, jk_ports := [], jk_active := False, jk_links := []\<rparr>))"

section \<open>What \<open>audio_api.h\<close> promises\<close>

text \<open>
  A card is opened and closed; both say whether they could.  A device that runs is one whose
  callback is called.  The library (\<open>svc_init\<close>, \<open>svc_close\<close>) relies on this, since it takes a
  card up again after it was closed.
\<close>

locale sound_card =
  fixes start :: "'s \<Rightarrow> (int \<times> 's) res" and stop :: "'s \<Rightarrow> (int \<times> 's) res" and runs :: "'s \<Rightarrow> bool"
  assumes started: "start s = Inr (0, s') \<Longrightarrow> runs s'"
    and stopped: "runs s \<Longrightarrow> gives (stop s) (\<lambda>(r, s'). r = 0 \<longrightarrow> \<not> runs s')"
begin

text \<open>Opened and closed any number of times, a card never faults in its closing, and is closed in the end
  unless one of the calls failed.\<close>

definition episode :: "unit \<Rightarrow> int \<times> 's \<Rightarrow> (int \<times> 's) res" where
  "episode u rs = (case rs of (r, s) \<Rightarrow>
     if r \<noteq> 0 then Inr (r, s)
     else bindR (start s) (\<lambda>(r, s). if r \<noteq> 0 then Inr (r, s) else stop s))"

lemma episode_gives:
  assumes "\<And>s. gives (start s) (\<lambda>_. True)" "\<not> runs s"
  shows "gives (episode u (0, s)) (\<lambda>(r, s'). r = 0 \<longrightarrow> \<not> runs s')"
proof -
  from assms(1) [of s] obtain r s1 where s1: "start s = Inr (r, s1)" by (auto simp: gives_def)
  show ?thesis
  proof (cases "r = 0")
    case True
    then show ?thesis using s1 stopped [OF started] by (simp add: episode_def)
  qed (simp add: episode_def s1)
qed

lemma episodes_give:
  assumes "\<And>s. gives (start s) (\<lambda>_. True)"
  shows "\<not> runs s \<Longrightarrow> gives (foldR episode us (0, s)) (\<lambda>(r, s'). r = 0 \<longrightarrow> \<not> runs s')"
proof (induction us arbitrary: s)
  case (Cons u us)
  from episode_gives [OF assms Cons.prems, of u] obtain r s1 where
    s1: "episode u (0, s) = Inr (r, s1)" "r = 0 \<Longrightarrow> \<not> runs s1" by (auto simp: gives_def)
  show ?case
  proof (cases "r = 0")
    case True
    with s1 Cons.IH [of s1] show ?thesis by simp
  next
    case False
    have "foldR episode vs (r, s1) = Inr (r, s1)" for vs using False by (induction vs) (simp_all add: episode_def)
    with False s1(1) show ?thesis by simp
  qed
qed simp

end

interpretation pa: sound_card "\<lambda>s. Inr (pa_init noerror rate n s)" "\<lambda>s. Inr (pa_close noerror s)"
  "\<lambda>s. pa_ready s \<and> pa_stream s = PcmOpen \<and> pa_started s" for noerror rate n
  by unfold_locales (auto simp: pa_init_def pa_close_def tested_def split: if_splits)

interpretation jack: sound_card "jack_init sv env pid" jack_close "\<lambda>s. jk_client s = PcmOpen \<and> jk_active s" for sv env pid
proof unfold_locales
  fix s s' assume "jack_init sv env pid s = Inr (0, s')"
  then show "jk_client s' = PcmOpen \<and> jk_active s'"
    by (auto simp: jack_init_def jack_links_def Let_def bindR_eq_Inr split: if_splits option.splits)
qed (simp add: jack_close_def pcm_live_def)

end
