(* ===== verification/Shutdown.thy ===== *)
theory Shutdown
  imports LibSvc
begin

text \<open>
  The end of the voice library, \<open>svc_close\<close> of \<open>src/libsvc/libsvc.c\<close>: it takes apart what the
  sending thread and the callback of the sound card use.  The callback ends with the sound
  card; the sending thread is detached, and goes on until it looks at \<open>svc_running\<close> again.
\<close>

section \<open>The three threads\<close>

datatype part = Encoder | Queue | Incoming | Options

text \<open>Where the sending thread is: before its loop, at its test, and at each call of its body.\<close>

datatype sender = SStart | SLoop | SPop | SEncode | SSend | SEnded

record closing =
  sd_running :: bool
  sd_card :: bool
  sd_live :: "part set"
  sd_items :: nat  \<comment> \<open>the frames in the queue\<close>
  sd_sender :: sender
  sd_closer :: nat  \<comment> \<open>the statements of \<open>svc_close\<close> that were executed\<close>

definition opened :: closing where
  "opened = \<lparr>sd_running = True, sd_card = True, sd_live = UNIV, sd_items = 0, sd_sender = SStart, sd_closer = 0\<rparr>"

definition destroy :: "part \<Rightarrow> closing \<Rightarrow> closing" where
  "destroy x s = s\<lparr>sd_live := sd_live s - {x}\<rparr>"

text \<open>The statements of \<open>svc_close\<close>; the second detaches the sending thread.\<close>

definition svc_close :: "(closing \<Rightarrow> closing) list" where
  "svc_close =
     [sd_running_update (\<lambda>_. False), id, sd_card_update (\<lambda>_. False),
      destroy Encoder, destroy Queue, destroy Incoming, destroy Options]"

text \<open>Who makes a step, and which parts it uses.\<close>

datatype actor = Closer | Card | Sender

inductive shstep :: "closing \<Rightarrow> actor \<Rightarrow> part set \<Rightarrow> closing \<Rightarrow> bool" where
  closer: "sd_closer s < length svc_close \<Longrightarrow>
    shstep s Closer {} ((svc_close ! sd_closer s) s\<lparr>sd_closer := Suc (sd_closer s)\<rparr>)"
| push: "sd_card s \<Longrightarrow> shstep s Card {Queue, Incoming} (s\<lparr>sd_items := Suc (sd_items s)\<rparr>)"
| full: "sd_card s \<Longrightarrow> shstep s Card {Queue, Incoming} s"
| start: "sd_sender s = SStart \<Longrightarrow> shstep s Sender {Options} (s\<lparr>sd_sender := SLoop\<rparr>)"
| loop: "sd_sender s = SLoop \<Longrightarrow> shstep s Sender {} (s\<lparr>sd_sender := (if sd_running s then SPop else SEnded)\<rparr>)"
| pop: "sd_sender s = SPop \<Longrightarrow> sd_items s = Suc n \<Longrightarrow>
    shstep s Sender {Queue} (s\<lparr>sd_items := n, sd_sender := SEncode\<rparr>)"
| encode: "sd_sender s = SEncode \<Longrightarrow> shstep s Sender {Encoder, Options} (s\<lparr>sd_sender := SSend\<rparr>)"
| send: "sd_sender s = SSend \<Longrightarrow> shstep s Sender {} (s\<lparr>sd_sender := SLoop\<rparr>)"

inductive_cases card_step: "shstep s Card U s'"
inductive_cases sender_step: "shstep s Sender U s'"

inductive shreach :: "closing \<Rightarrow> bool" where
  start: "shreach opened"
| step: "shreach s \<Longrightarrow> shstep s who U s' \<Longrightarrow> shreach s'"

section \<open>What is still there\<close>

text \<open>The statement that destroys a part.\<close>

fun undone :: "part \<Rightarrow> nat" where
  "undone Encoder = 3"
| "undone Queue = 4"
| "undone Incoming = 5"
| "undone Options = 6"

definition closing_ok :: "closing \<Rightarrow> bool" where
  "closing_ok s \<longleftrightarrow> sd_live s = {x. sd_closer s \<le> undone x} \<and> (sd_card s \<longleftrightarrow> sd_closer s \<le> 2) \<and>
     (sd_running s \<longleftrightarrow> sd_closer s = 0)"

lemma svc_close_length: "length svc_close = 7"
  by (simp add: svc_close_def)

lemma undone_bounds: "2 < undone x" "undone x < 7"
  by (cases x; simp)+

lemma undone_at [simp]: "{x. undone x = 3} = {Encoder}" "{x. undone x = 4} = {Queue}" "{x. undone x = 5} = {Incoming}"
  "{x. undone x = 6} = {Options}" "k \<le> 2 \<Longrightarrow> {x. undone x = k} = {}"
  using undone_bounds(1) by (auto elim: undone.elims simp: not_less [symmetric])

lemma close_fields:
  assumes "k < 7"
  shows "sd_sender ((svc_close ! k) s) = sd_sender s" "sd_items ((svc_close ! k) s) = sd_items s"
    "sd_live ((svc_close ! k) s) = sd_live s - {x. undone x = k}"
    "sd_card ((svc_close ! k) s) \<longleftrightarrow> sd_card s \<and> k \<noteq> 2" "sd_running ((svc_close ! k) s) \<longleftrightarrow> sd_running s \<and> k \<noteq> 0"
proof -
  from assms have "k = 0 \<or> k = 1 \<or> k = 2 \<or> k = 3 \<or> k = 4 \<or> k = 5 \<or> k = 6" by arith
  then show "sd_sender ((svc_close ! k) s) = sd_sender s" "sd_items ((svc_close ! k) s) = sd_items s"
    "sd_live ((svc_close ! k) s) = sd_live s - {x. undone x = k}"
    "sd_card ((svc_close ! k) s) \<longleftrightarrow> sd_card s \<and> k \<noteq> 2" "sd_running ((svc_close ! k) s) \<longleftrightarrow> sd_running s \<and> k \<noteq> 0"
    by (elim disjE; simp add: svc_close_def destroy_def)+
qed

lemma closer_ok: "closing_ok s \<Longrightarrow> sd_closer s < 7 \<Longrightarrow>
  closing_ok ((svc_close ! sd_closer s) s\<lparr>sd_closer := Suc (sd_closer s)\<rparr>)"
proof -
  have d: "{x. k \<le> undone x} - {x. undone x = k} = {x. Suc k \<le> undone x}" for k by auto
  assume "closing_ok s" "sd_closer s < 7"
  then show ?thesis unfolding closing_ok_def by (simp add: close_fields d) linarith
qed

lemma shreach_ok: "shreach s \<Longrightarrow> closing_ok s"
proof (induction rule: shreach.induct)
  case start
  then show ?case by (simp add: closing_ok_def opened_def)
next
  case (step s who U s')
  from step.hyps(2) show ?case
  proof cases
    case closer
    with step.IH closer_ok [of s] show ?thesis by (simp add: svc_close_length)
  qed (use step.IH in \<open>simp_all add: closing_ok_def\<close>)
qed

text \<open>The callback of the card uses nothing that was destroyed.\<close>

lemma card_safe: "shreach s \<Longrightarrow> shstep s Card U s' \<Longrightarrow> U \<subseteq> sd_live s"
  by (drule shreach_ok, erule card_step) (simp_all add: closing_ok_def)

text \<open>A sender that ended before the encoder was destroyed uses nothing that was; the same holds of one that
  waits at an empty queue.\<close>

lemma sender_safe: "shreach s \<Longrightarrow> shstep s Sender U s' \<Longrightarrow> sd_closer s \<le> 3 \<Longrightarrow> U \<subseteq> sd_live s"
  by (drule shreach_ok, erule sender_step) (simp_all add: closing_ok_def)

text \<open>The steps of \<open>svc_close\<close> in a row.\<close>

lemma closes_to: "shreach s \<Longrightarrow> sd_closer s = 0 \<Longrightarrow> k \<le> 7 \<Longrightarrow>
  \<exists>s'. shreach s' \<and> sd_closer s' = k \<and> sd_sender s' = sd_sender s \<and> sd_items s' = sd_items s"
proof (induction k)
  case (Suc k)
  then obtain s' where s': "shreach s'" "sd_closer s' = k" "sd_sender s' = sd_sender s" "sd_items s' = sd_items s"
    by auto
  have "shstep s' Closer {} ((svc_close ! k) s'\<lparr>sd_closer := Suc k\<rparr>)"
    using shstep.closer [of s'] s'(2) Suc.prems by (simp add: svc_close_length)
  from shreach.step [OF s'(1) this] show ?case
    using s'(3,4) Suc.prems close_fields [of k s']
    by (intro exI [of _ "(svc_close ! k) s'\<lparr>sd_closer := Suc k\<rparr>"]) simp
qed auto

text \<open>A sending thread that looked at \<open>svc_running\<close> before it was cleared, with a frame in the queue
  or in its hands, and all of \<open>svc_close\<close> at once.\<close>

lemma sender_waits: "\<exists>s. shreach s \<and> sd_closer s = 0 \<and> sd_sender s = SPop \<and> sd_items s = n"
proof (induction n)
  case 0
  have "shreach (opened\<lparr>sd_sender := SLoop\<rparr>)"
    by (rule shreach.step [OF shreach.start, OF shstep.start]) (simp add: opened_def)
  from shreach.step [OF this, OF shstep.loop] show ?case
    by (intro exI [of _ "opened\<lparr>sd_sender := SPop\<rparr>"]) (simp add: opened_def)
next
  case (Suc n)
  then obtain s where s: "shreach s" "sd_closer s = 0" "sd_sender s = SPop" "sd_items s = n" by auto
  have "sd_card s" using shreach_ok [OF s(1)] s(2) by (simp add: closing_ok_def)
  from shreach.step [OF s(1), OF shstep.push [OF this]] s show ?case by (intro exI) auto
qed

lemma sender_late: "\<exists>s s'. shreach s \<and> sd_closer s = 7 \<and> shstep s Sender {Queue} s'"
proof -
  obtain s where s: "shreach s" "sd_closer s = 0" "sd_sender s = SPop" "sd_items s = Suc 0" using sender_waits by blast
  from closes_to [OF s(1,2), of 7] s(3,4) obtain s' where "shreach s'" "sd_closer s' = 7" "sd_sender s' = SPop"
    "sd_items s' = Suc 0" by auto
  then show ?thesis using shstep.pop [of s' 0] by blast
qed

lemma encoder_late: "\<exists>s s'. shreach s \<and> sd_closer s = 7 \<and> shstep s Sender {Encoder, Options} s'"
proof -
  obtain s where s: "shreach s" "sd_closer s = 0" "sd_sender s = SPop" "sd_items s = Suc 0" using sender_waits by blast
  from shreach.step [OF s(1), OF shstep.pop [OF s(3,4)]] have "shreach (s\<lparr>sd_items := 0, sd_sender := SEncode\<rparr>)" .
  from closes_to [OF this, of 7] s(2) obtain s' where "shreach s'" "sd_closer s' = 7" "sd_sender s' = SEncode" by auto
  then show ?thesis using shstep.encode by blast
qed

lemma all_gone: "shreach s \<Longrightarrow> sd_closer s = 7 \<Longrightarrow> x \<notin> sd_live s"
  using shreach_ok [of s] undone_bounds(2) [of x] by (simp add: closing_ok_def)

end
