(* ===== verification/DeviceProps.thy ===== *)
theory DeviceProps
  imports SoundDevice Shutdown SoundProps
begin

text \<open>
  The properties of opening and closing the sound card, and of the end of the voice library.
\<close>

section \<open>ALSA\<close>

text \<open>The calls \<open>alsa_open\<close> makes, and which results it takes for success.\<close>

definition device_name :: "(string \<Rightarrow> string option) \<Rightarrow> stream \<Rightarrow> string" where
  "device_name env d = (case env (case d of Playback \<Rightarrow> ''SVC_ALSA_PLAYBACK'' | Capture \<Rightarrow> ''SVC_ALSA_CAPTURE'') of
     None \<Rightarrow> ''default'' | Some x \<Rightarrow> x)"

definition agrees :: "(snd_call \<Rightarrow> int) \<Rightarrow> (string \<Rightarrow> string option) \<Rightarrow> u32 \<Rightarrow> stream \<Rightarrow> bool" where
  "agrees ans env rate d \<longleftrightarrow> \<not> ans (Snd_pcm_open d (device_name env d)) < 0 \<and> \<not> ans (Params_any d) < 0 \<and>
     ans (Set_access d) = 0 \<and> \<not> ans (Set_format d) < 0 \<and> \<not> ans (Set_rate_near d rate) < 0 \<and>
     \<not> ans (Set_channels d 1) < 0 \<and> \<not> ans (Hw_params d) < 0"

text \<open>One channel of \<open>float\<close> samples at a rate the device has.\<close>

definition one_channel :: "u32 \<Rightarrow> hw" where
  "one_channel rate = \<lparr>hw_interleaved = True, hw_float = True, hw_rate = Some rate, hw_channels = Some 1\<rparr>"

lemma on_simps [simp]:
  "al_pcm (on_pcm d s) = (al_pcm s)(d := PcmOpen)" "al_hwparams (on_pcm d s) = al_hwparams s" "al_device (on_pcm d s) = al_device s"
  "al_pcm (on_hw d f s) = al_pcm s" "al_hwparams (on_hw d f s) = (al_hwparams s)(d := map_option f (al_hwparams s d))"
  "al_device (on_hw d f s) = al_device s"
  "al_pcm (on_device d s) = al_pcm s" "al_hwparams (on_device d s) = al_hwparams s"
  "al_device (on_device d s) = (al_device s)(d := al_hwparams s d)"
  by (simp_all add: on_pcm_def on_hw_def on_device_def)

lemma stream_fun: "f = (g :: stream \<Rightarrow> 'b) \<longleftrightarrow> f Playback = g Playback \<and> f Capture = g Capture"
  by (auto simp: fun_eq_iff intro: stream.exhaust) (metis stream.exhaust)

lemma all_streams: "(\<forall>d. P d) \<longleftrightarrow> P Playback \<and> P Capture"
  by (metis stream.exhaust)

text \<open>A tested call that fails ends the sequence.\<close>

lemma calls_tested: "calls (tested ok upd # cs) s = (if ok then calls cs (upd s) else (False, s))"
  by (simp add: tested_def)

lemma alsa_calls_ok: "(\<forall>d. agrees ans env rate d) \<Longrightarrow>
  \<exists>s'. calls (alsa_calls ans near env rate) s = (True, s') \<and> al_pcm s' = (\<lambda>_. PcmOpen) \<and>
    ((\<forall>d. al_hwparams s d \<noteq> None) \<longrightarrow> al_device s' = (\<lambda>d. Some (one_channel (near d rate))))"
  by (simp add: alsa_calls_def Let_def calls_tested all_streams agrees_def device_name_def stream_fun one_channel_def hw_any_def
      del: calls.simps(2))

lemma alsa_calls_fail: "fst (calls (alsa_calls ans near env rate) s) \<Longrightarrow> agrees ans env rate d"
  by (cases d) (simp_all add: alsa_calls_def Let_def calls_tested agrees_def device_name_def del: calls.simps(2) split: if_splits)

lemma calls_keep: "\<forall>c\<in>set cs. \<forall>s. P s \<longrightarrow> P (snd (c s)) \<Longrightarrow> P s \<Longrightarrow> P (snd (calls cs s))"
proof (induction cs arbitrary: s)
  case (Cons c cs)
  then have "P (snd (c s))" by simp
  with Cons show ?case by (auto split: prod.split bool.split)
qed simp

lemma alsa_calls_hw: "\<forall>d. al_hwparams s d \<noteq> None \<Longrightarrow> al_hwparams (snd (calls (alsa_calls ans near env rate) s)) d \<noteq> None"
  using calls_keep [of "alsa_calls ans near env rate" "\<lambda>s. \<forall>d. al_hwparams s d \<noteq> None" s]
  by (auto simp: alsa_calls_def Let_def tested_def)

lemma alsa_open_gives:
  "(\<forall>d. agrees ans env rate d) \<Longrightarrow> \<exists>s'. alsa_open ans near env rate s = (0, s') \<and> al_pcm s' = (\<lambda>_. PcmOpen) \<and>
     al_hwparams s' = (\<lambda>_. None) \<and> al_device s' = (\<lambda>d. Some (one_channel (near d rate)))"
  "\<not> (\<forall>d. agrees ans env rate d) \<Longrightarrow> \<exists>s'. alsa_open ans near env rate s = (- 1, s') \<and> (\<forall>d. al_hwparams s' d \<noteq> None)"
proof -
  let ?s = "s\<lparr>al_hwparams := (\<lambda>_. Some hw_any)\<rparr>"
  show "\<exists>s'. alsa_open ans near env rate s = (0, s') \<and> al_pcm s' = (\<lambda>_. PcmOpen) \<and>
     al_hwparams s' = (\<lambda>_. None) \<and> al_device s' = (\<lambda>d. Some (one_channel (near d rate)))" if "\<forall>d. agrees ans env rate d"
    using alsa_calls_ok [OF that, of near ?s] by (auto simp: alsa_open_def)
  show "\<exists>s'. alsa_open ans near env rate s = (- 1, s') \<and> (\<forall>d. al_hwparams s' d \<noteq> None)" if "\<not> (\<forall>d. agrees ans env rate d)"
    using that alsa_calls_fail [of ans near env rate ?s] alsa_calls_hw [of ?s ans near env rate]
    by (cases "calls (alsa_calls ans near env rate) ?s") (auto simp: alsa_open_def split: bool.split)
qed

text \<open>ALSA is opened exactly when every call that is made for both directions succeeds; then both devices have one
  channel of \<open>float\<close> samples, at the rate that they have nearest to the one asked for.  When it fails
  both blocks of parameters are lost.\<close>

theorem alsa_opens:
  "alsa_open ans near env rate s = (r, s') \<Longrightarrow>
   (r = 0 \<longleftrightarrow> (\<forall>d. agrees ans env rate d)) \<and>
   (if r = 0 then al_pcm s' = (\<lambda>_. PcmOpen) \<and> al_hwparams s' = (\<lambda>_. None) \<and>
      al_device s' = (\<lambda>d. Some (one_channel (near d rate)))
    else r = - 1 \<and> (\<forall>d. al_hwparams s' d \<noteq> None))"
  using alsa_open_gives [of ans env rate near s] by (cases "\<forall>d. agrees ans env rate d") auto

theorem alsa_opens_witness:
  "fst (alsa_open (\<lambda>c. if c = Set_access Capture then 1 else 0) (\<lambda>d r. r) (\<lambda>_. None) 48000 alsa_idle) = - 1"
  using alsa_opens [OF prod.collapse [symmetric], of "\<lambda>c. if c = Set_access Capture then 1 else 0" "\<lambda>d r. r" "\<lambda>_. None" 48000 alsa_idle]
  by (auto simp: agrees_def split: if_splits)

text \<open>A device that could not be opened is not noticed before the thread uses it.\<close>

lemma failed_open_null: "ans (Snd_pcm_open d (device_name env d)) < 0 \<Longrightarrow>
  al_pcm (snd (alsa_open ans near env rate alsa_idle)) d = PcmNull"
proof -
  assume "ans (Snd_pcm_open d (device_name env d)) < 0"
  then show ?thesis
    by (cases d) (simp_all add: alsa_open_def alsa_calls_def Let_def calls_tested agrees_def device_name_def alsa_idle_def
        del: calls.simps(2) split: if_splits option.split)
qed

lemma open_not_closed: "al_pcm (snd (alsa_open ans near env rate alsa_idle)) d \<noteq> PcmClosed"
proof -
  let ?s = "alsa_idle\<lparr>al_hwparams := (\<lambda>_. Some hw_any)\<rparr>"
  have "\<forall>d. al_pcm (snd (calls (alsa_calls ans near env rate) ?s)) d \<noteq> PcmClosed"
    by (rule calls_keep) (auto simp: alsa_calls_def Let_def tested_def alsa_idle_def)
  then show ?thesis by (auto simp: alsa_open_def split: prod.splits bool.splits)
qed

theorem alsa_init_blind:
  "created \<le> 0 \<Longrightarrow> ans (Snd_pcm_open d (device_name env d)) < 0 \<Longrightarrow>
   alsa_init ans near env created rate n alsa_idle = (r, s, input, out) \<Longrightarrow>
   r = 0 \<and> alsa_reader callback turns s input out c = Inl NullDeref"
proof -
  assume c: "created \<le> 0" and o: "ans (Snd_pcm_open d (device_name env d)) < 0"
    and i: "alsa_init ans near env created rate n alsa_idle = (r, s, input, out)"
  have s: "al_pcm s = al_pcm (snd (alsa_open ans near env rate alsa_idle))"
    using i by (auto simp: alsa_init_def Let_def split: prod.splits)
  have n: "al_pcm s d = PcmNull" using failed_open_null [of ans d env near rate] o s by simp
  have p: "al_pcm s Playback = PcmNull \<or> al_pcm s Playback = PcmOpen"
    using open_not_closed [of ans near env rate Playback] s by (cases "al_pcm s Playback") simp_all
  have "r = 0" using c i by (simp add: alsa_init_def Let_def)
  with n p show ?thesis by (cases d) (auto simp: alsa_reader_def pcm_live_def)
qed

text \<open>What the calls of a turn of the thread return: at last a whole frame is read and a whole frame written.\<close>

definition whole_turn :: "u32 \<Rightarrow> 'a list option list \<times> nat option list \<Rightarrow> bool" where
  "whole_turn n t \<longleftrightarrow> (\<exists>j xs rs k ws. fst t = replicate j None @ Some xs # rs \<and> length xs = unat n \<and>
     snd t = replicate k None @ Some (unat n) # ws)"

text \<open>A frame is what the voices of the peers sum up to.\<close>

definition voices_frame :: "u32 \<Rightarrow> nat list \<Rightarrow> 'a::{zero, plus} list \<Rightarrow> ('a, 'd) svc_in \<Rightarrow> bool" where
  "voices_frame n as dev si \<longleftrightarrow> sinv si as \<and> dev = mix (map (heard n) (vals si as)) (replicate (unat n) 0)"

lemma callback_frame: "voice_callback input out (so, si) = Inr ((so', si'), out') \<Longrightarrow> si_frame si' = si_frame si"
  by (auto simp: voice_callback_def audio_api_callback_def bindR_eq_Inr dest: request_frame split: prod.splits)

lemma alsa_step_gives:
  assumes q: "queue_ok n (so_queue so)" and si: "sinv si as" "length as \<le> MAX_PEERS" "si_frame si = n"
    and inp: "awf inp" "asize inp = n" and out: "awf outp" "asize outp = n" and t: "whole_turn n t"
  shows "gives (alsa_step voice_callback t (devs, inp, outp, so, si)) (\<lambda>(devs', inp', outp', so', si').
    (\<exists>dev. devs' = devs @ [dev] \<and> voices_frame n as dev si) \<and> queue_ok n (so_queue so') \<and> sinv si' as \<and>
    si_frame si' = n \<and> awf inp' \<and> asize inp' = n \<and> awf outp' \<and> asize outp' = n)"
proof -
  let ?ys = "mix (map (heard n) (vals si as)) (replicate (unat n) 0)"
  from t obtain j xs rs k ws where t: "fst t = replicate j None @ Some xs # rs" "length xs = unat n"
    "snd t = replicate k None @ Some (unat n) # ws" by (auto simp: whole_turn_def)
  let ?in = "inp\<lparr>adata := map Some xs\<rparr>"
  have r: "alsa_read (fst t) inp = Inr ?in" using t(1,2) inp by (simp add: alsa_read_again awf_def)
  have i: "awf ?in" "asize ?in = n" using t(2) inp by (simp_all add: awf_def)
  from callback_gives [OF q si i out] obtain so' si' out' where
    c: "voice_callback ?in outp (so, si) = Inr ((so', si'), out')" "queue_ok n (so_queue so')" "sinv si' as"
      "arep out' ?ys" "asize out' = n"
    by (auto simp: gives_def)
  have "alsa_write (snd t) out' = Inr ?ys"
    using c(4,5) t(3) by (auto simp: alsa_write_again arep_def take_map comp_def)
  then show ?thesis using r c i si(1) callback_frame [OF c(1)] si(3) arep_awf [OF c(4)]
    by (simp add: alsa_step_def alsa_turn_def voices_frame_def)
qed

lemma alsa_loop_gives:
  fixes si :: "('a::{zero, plus}, 'd) svc_in"
  assumes "queue_ok n (so_queue so)" "sinv si as" "length as \<le> MAX_PEERS" "si_frame si = n"
    "awf inp" "asize inp = n" "awf outp" "asize outp = n" "\<forall>t\<in>set turns. whole_turn n t"
  shows "gives (foldR (alsa_step voice_callback) turns (devs, inp, outp, so, si)) (\<lambda>(devs', inp', outp', so', si').
    (\<exists>ds (sis :: ('a, 'd) svc_in list). devs' = devs @ ds \<and> length ds = length turns \<and> list_all2 (voices_frame n as) ds sis) \<and>
    queue_ok n (so_queue so') \<and> sinv si' as)"
  using assms
proof (induction turns arbitrary: devs inp outp so si)
  case (Cons t turns)
  have t: "whole_turn n t" "\<forall>t\<in>set turns. whole_turn n t" using Cons.prems(9) by simp_all
  from alsa_step_gives [OF Cons.prems(1-8) t(1), of devs]
  obtain devs1 inp1 outp1 so1 si1 where s1: "alsa_step voice_callback t (devs, inp, outp, so, si) = Inr (devs1, inp1, outp1, so1, si1)"
    and dev: "\<exists>dev. devs1 = devs @ [dev] \<and> voices_frame n as dev si" and q1: "queue_ok n (so_queue so1)" "sinv si1 as"
    and i1: "si_frame si1 = n" "awf inp1" "asize inp1 = n" "awf outp1" "asize outp1 = n"
    by (rule givesE) (clarify, blast)
  from dev obtain dev where dev: "devs1 = devs @ [dev]" "voices_frame n as dev si" by blast
  from Cons.IH [OF q1 Cons.prems(3) i1 t(2), of devs1]
  obtain st where st: "foldR (alsa_step voice_callback) turns (devs1, inp1, outp1, so1, si1) = Inr st"
    "case st of (devs', inp', outp', so', si') \<Rightarrow> (\<exists>ds (sis :: ('a, 'd) svc_in list). devs' = devs1 @ ds \<and> length ds = length turns \<and>
      list_all2 (voices_frame n as) ds sis) \<and> queue_ok n (so_queue so') \<and> sinv si' as" by (rule givesE)
  obtain devs2 inp2 outp2 so2 si2 where st2: "st = (devs2, inp2, outp2, so2, si2)" by (cases st)
  from st(2) have ds: "\<exists>ds (sis :: ('a, 'd) svc_in list). devs2 = devs1 @ ds \<and> length ds = length turns \<and> list_all2 (voices_frame n as) ds sis"
    and q2: "queue_ok n (so_queue so2)" "sinv si2 as" unfolding st2 by simp_all
  from ds obtain ds and sis :: "('a, 'd) svc_in list" where ds: "devs2 = devs1 @ ds" "length ds = length turns" "list_all2 (voices_frame n as) ds sis" by blast
  have "list_all2 (voices_frame n as) (dev # ds) (si # sis)" using dev(2) ds(3) by simp
  then have "\<exists>ds (sis :: ('a, 'd) svc_in list). devs2 = devs @ ds \<and> length ds = length (t # turns) \<and> list_all2 (voices_frame n as) ds sis"
    using dev(1) ds(1,2) by (intro exI [of _ "dev # ds"] exI [of _ "si # sis"]) simp
  then show ?case using s1 st(1) q2 unfolding st2 by simp
qed (auto intro: exI [of _ "[]"])



section \<open>OSS\<close>

text \<open>A card that was opened can be neither closed nor opened again: closing it always meets the assertion that
  assigns, and its descriptor is kept.\<close>

lemma oss_set_all_fd: "oss_set_all ioctl cs s = Returns s' \<Longrightarrow> od_fd s' = od_fd s"
  by (induction cs arbitrary: s) (auto split: if_splits)

theorem oss_closes_never: "oss_close s = Aborts"
  by (simp add: oss_close_def Let_def)

theorem oss_opens_once:
  "fd \<noteq> 0 \<Longrightarrow> oss_init fd ioctl thread rate s = Returns (r, s') \<Longrightarrow> oss_init fd' ioctl' thread' rate' s' = Aborts"
proof -
  assume fd: "fd \<noteq> 0" and i: "oss_init fd ioctl thread rate s = Returns (r, s')"
  have "od_fd s' \<noteq> 0" using fd i
    by (auto simp: oss_init_def oss_open_def Let_def split: ending.splits if_splits dest!: oss_set_all_fd)
  then show ?thesis by (simp add: oss_init_def oss_open_def)
qed

theorem oss_opens_once_witness:
  "oss_init 3 (\<lambda>_. 0) (Some 1) 48000 (oss_idle\<lparr>od_fd := 3, od_set := [Dsp_channels 1, Dsp_setfmt, Dsp_speed 48000],
     od_running := True, od_thread := 1, od_bufs := True\<rparr>) = Aborts"
  by (rule oss_opens_once [of 3 "\<lambda>_. 0" "Some 1" 48000 oss_idle 0])
    (simp_all add: oss_init_def oss_open_def oss_idle_def)

section \<open>JACK and PortAudio\<close>

text \<open>C32: with a server that answers, JACK is opened with its ports linked to those of the card, whichever of them can be;
  with either environment variable set, it writes past the end of the list of words.\<close>

theorem jack_opens:
  assumes "0 \<le> pid" "pid < 100000" "js_opens sv" "js_activates sv = 0"
    and "js_captures sv = Some xs" "js_playbacks sv = Some ys"
  shows "jack_init sv env pid jack_idle =
    (if env ''SVC_JACK_INPUT'' = None \<and> env ''SVC_JACK_OUTPUT'' = None
     then Inr (0, \<lparr>jk_client = PcmOpen, jk_ports = [''input'', ''output''], jk_active = True,
       jk_links = [(p, q) \<leftarrow> map (\<lambda>p. (p, js_name sv ''input'')) xs @ map (\<lambda>p. (js_name sv ''output'', p)) ys.
         js_connects sv p q = 0]\<rparr>)
     else Inl OutOfBounds)"
proof -
  have none: "jack_ports None ports = Inr ports" for ports by (simp add: jack_ports_def getenv_array_def)
  have some: "jack_ports (Some v) ports = Inl OutOfBounds" for v ports by (simp add: jack_ports_def jack_env_overflows)
  show ?thesis using assms
    by (cases "env ''SVC_JACK_INPUT''"; cases "env ''SVC_JACK_OUTPUT''")
      (simp_all add: jack_init_def jack_name Let_def none some jack_links_def jack_idle_def)
qed

definition desk :: jack_server where
  "desk = \<lparr>js_opens = True, js_activates = 0, js_captures = Some [''system:capture_1''],
     js_playbacks = Some [''system:playback_1'', ''system:playback_2''],
     js_connects = (\<lambda>p q. if q = ''system:playback_2'' then 17 else 0), js_name = (\<lambda>p. ''SVC-42:'' @ p)\<rparr>"

theorem jack_opens_witness:
  "jack_init desk (\<lambda>_. None) 42 jack_idle = Inr (0, \<lparr>jk_client = PcmOpen, jk_ports = [''input'', ''output''], jk_active = True,
     jk_links = [(''system:capture_1'', ''SVC-42:input''), (''SVC-42:output'', ''system:playback_1'')]\<rparr>) \<and>
   jack_init desk [''SVC_JACK_OUTPUT'' \<mapsto> ''a b''] 42 jack_idle = Inl OutOfBounds"
  using jack_opens [of 42 desk "[''system:capture_1'']" "[''system:playback_1'', ''system:playback_2'']" "\<lambda>_. None"]
    jack_opens [of 42 desk "[''system:capture_1'']" "[''system:playback_1'', ''system:playback_2'']" "[''SVC_JACK_OUTPUT'' \<mapsto> ''a b'']"]
  by (simp add: desk_def)

text \<open>Opened and closed any number of times, PortAudio is closed in the end unless one of its calls failed.\<close>

theorem portaudio_sessions:
  "\<not> pa_started s \<Longrightarrow>
   gives (foldR (sound_card.episode (\<lambda>s. Inr (pa_init noerror rate n s)) (\<lambda>s. Inr (pa_close noerror s))) us (0, s))
     (\<lambda>(r, s'). r = 0 \<longrightarrow> \<not> (pa_ready s' \<and> pa_stream s' = PcmOpen \<and> pa_started s'))"
  by (rule pa.episodes_give) simp_all

section \<open>The end of the library\<close>



end
