(* ===== verification/Spec2Isabelle.thy ===== *)
theory Spec2Isabelle
  imports TextProps VoiceProps SoundProps NetProps GuiProps PeerProps MainProps WorldProps BaseProps DeviceProps
begin

text \<open>
  The voice chat system svc: its string library, its voice library, the server with its
  scripts, the client, the graphical client and the peer-to-peer program, modelled from the
  C and C++ sources under \<open>src/\<close>, with what makes them correct.

  \<^bold>\<open>The program.\<close>  The server (\<open>src/network/svcenet/server/main.c\<close>, \<open>svcd\<close>) keeps a dictionary of
  its own and a table of peers, each with public and private data; scripts in Jim decide who
  is let in, who hears whom and what data there is.  Whatever changed goes to all the peers as
  commands, one to a line.  A sample script,
  \<open>main.tcl\<close>, passes voices on by channels.  The client (\<open>client/main.c\<close>, \<open>svcc\<close>) builds its view of the
  server from these lines, gives every other peer a voice of the voice library
  (\<open>src/libsvc\<close>), sends what the microphone says and plays what arrives; it reads commands
  from its standard input and prints what happens.  The graphical client (\<open>wx/\<close>) runs it as
  a process and shows what it prints.  The peer-to-peer program (\<open>src/network/svcp2p/main.c\<close>) uses
  the voice library without a server.  All of them rest on the strings, lists, dictionaries and
  the lexer of \<open>src/common\<close>; \<open>basedir.c\<close> there finds the directories of a user's files.

  \<^bold>\<open>How C is modelled\<close> (\<open>Prelude\<close>).  A function returns \<open>'a res\<close>: \<open>Inl\<close> of a fault
  (a bad pointer, an access out of bounds, a read of an indeterminate byte, a loop that does
  not end) or \<open>Inr\<close> of its result, joined by \<open>bindR\<close> and \<open>foldR\<close>; \<open>gives m P\<close> says that
  \<open>m\<close> returns a result with \<open>P\<close>, so it is total correctness.  Integers have the widths of the
  code.  A block of memory is a list of bytes that may be indeterminate.  A linked list lives
  in a store of cells (\<open>LinkedList\<close>); its \<open>while\<close> loops have the number of cells ever
  allocated as fuel, enough since a well-formed chain visits no cell twice.  Locks are not
  modelled where an operation holds one from its first to its last statement; the packet queue,
  whose two mutexes matter, is a step relation.

  \<^bold>\<open>The theories.\<close>
  \<^item> \<open>Dstr\<close>, \<open>DstrSpec\<close>: \<open>dstr.c\<close>, a definition for each function, and what it does to the bytes
    that \<open>drep\<close> and \<open>dholds\<close> abstract a string to.  Lengths are below \<open>dmax\<close> (2^32 - 64), up to
    which the rounding of sizes does not wrap.
  \<^item> \<open>LinkedList\<close>, \<open>DstrList\<close>, \<open>Split\<close>: the lists, vectors and splitting of \<open>dstrutils.c\<close>; \<open>dlrep\<close> abstracts a
    list of strings.  Splitting may run for ever and is a \<open>partial_function\<close>.
  \<^item> \<open>Lexer\<close>: \<open>dstrlex_parse\<close> and \<open>dstrlex_escape\<close> against the lexer \<open>lex\<close> on plain strings.  The buffer
    for a word overflows at 32 bytes (a flaw of \<open>dcatc\<close>): \<open>lex_fits\<close> holds of the texts that do
    not get there, and the theorems on commands assume it.
  \<^item> \<open>Dictionary\<close>, \<open>Dsdict\<close>, \<open>DataDict\<close>: the locale \<open>dictionary\<close> states what a user of a dictionary relies on;
    it is interpreted by the client's \<open>dsdict\<close> and by the server's \<open>DataDict\<close>.
  \<^item> \<open>Audio\<close>, \<open>PacketQueue\<close>, \<open>PacketCage\<close>, \<open>LibSvc\<close>: \<open>src/libsvc\<close>.  The locale \<open>fifo\<close> is what a user of the packet
    queue relies on; it is interpreted by the ring of buffers.  \<open>sinv\<close> is the invariant of the list of
    voices, \<open>cage_ok\<close> that of the jitter buffer of each.
  \<^item> \<open>SoundCard\<close>: the threads and callbacks of the sound card back ends, turn by turn; a device is what its
    calls return.  \<open>SoundDevice\<close>: how they open, configure and close their devices; the locale \<open>sound_card\<close> is what
    \<open>audio_api.h\<close> promises, interpreted by JACK and PortAudio (ALSA and OSS break it: \<open>alsa_init_blind\<close>,
    \<open>oss_closes_never\<close>).
  \<^item> \<open>Shutdown\<close>: \<open>svc_close\<close> with the sending thread and the callback that run beside it, as a step relation.
  \<^item> \<open>Wire\<close>, \<open>Decimal\<close>: the numbers of the protocols, binary and decimal.
  \<^item> \<open>Server\<close>, \<open>ServerText\<close>, \<open>ServerSpec\<close>, \<open>ServerScript\<close>: the server's state, the commands of the scripts, the handlers
    of events and the packets it writes; \<open>srep s sd ps\<close> abstracts a server to association lists
    and a table of optional peers.
  \<^item> \<open>Client\<close>, \<open>ClientSpec\<close>, \<open>ClientMsg\<close>, \<open>ClientLife\<close>: the client's handlers; \<open>crep cl a\<close> abstracts it to its number, the
    server's data and the peers it knows; each command of a packet implements the abstract
    one (\<open>alines\<close>); \<open>conn_ok\<close> is the invariant of the connection.
  \<^item> \<open>Session\<close>, \<open>Sync\<close>, \<open>Protocol\<close>: both ends together.  \<open>session\<close> is the run of a server with its scripts, the
    packets on their way to one client, and that client; \<open>good\<close> bounds the data so that packets fit
    (texts of entries together below 2^24 bytes) and \<open>script_ok\<close> is what a script may do: run the
    commands it is offered.
  \<^item> \<open>SampleScript\<close>: the procedures of \<open>main.tcl\<close> over the commands of the server, in a monad of server states and
    errors; what Jim reads as a number or a truth value is a parameter (\<open>interp_ok\<close>).
  \<^item> \<open>World\<close>: the server with all its clients: who is connected, in which place, with which packets on their way.
    Every client is in a \<open>session\<close> of its own (\<open>everyone\<close>), and the places of the table are theirs (\<open>seated\<close>).
  \<^item> \<open>ServerMain\<close>: \<open>main\<close> of the server: configuration, scripts, the loop, the end.
  \<^item> \<open>ClientMain\<close>, \<open>ClientRun\<close>: \<open>main\<close> and \<open>input_thread\<close> of the client.  The loop over the queue of lines is given the
    looks it takes at the queue, with the lines and signals that came in between; it needs one look for
    every line and one more (\<open>looks_ok\<close>).  \<open>main_ok\<close> is the invariant of the loop.
  \<^item> \<open>Gui\<close>, \<open>GuiWindow\<close>, \<open>GuiLines\<close>, \<open>GuiSync\<close>: the graphical client: its parser, the state it builds of the lines of the
    client, what its window shows, and that this is what the client has (\<open>in_step\<close>).
  \<^item> \<open>PeerToPeer\<close>: the peer-to-peer program; its threads and its loop are steps in any order.
  \<^item> \<open>BaseDir\<close>, \<open>BaseSpec\<close>, \<open>BaseFind\<close>: \<open>basedir.c\<close>.  Its memory keeps the addresses that are live and what the next
    allocations answer, since this file tests each of them; \<open>xgives\<close> is \<open>gives\<close> with that memory, \<open>grows m N m'\<close> says
    that the blocks \<open>N\<close> are new and live and nothing else changed, \<open>handle_ok\<close> that a handle owns its blocks, each once.
  \<^item> \<open>TextProps\<close>, \<open>VoiceProps\<close>, \<open>SoundProps\<close>, \<open>NetProps\<close>, \<open>GuiProps\<close>, \<open>PeerProps\<close>, \<open>MainProps\<close>,
    \<open>WorldProps\<close>, \<open>BaseProps\<close>, \<open>DeviceProps\<close>: the properties, each with an instance on concrete
    values.

  \<^bold>\<open>What is shown.\<close>  Every function of the string library does what its name says, and the lexer
  is inverse to the escaping.  Both dictionaries are maps.  The cage plays packets in the order of
  their serial numbers; the queue is first in, first out, one buffer late, and never stuck.
  The server's handlers and commands implement the abstract server; the client's implement the
  abstract client; in every state of a session the packets on their way bring the client up to
  the server, and after each turn of the logic the client holds the server's public data, and
  the window shows it.  With any number of clients, all of them come to hold the same data, and a
  voice packet crosses from one through the server and its script to the voice the other has for
  the speaker.  The base directories free every block once, keep the old cache when an update
  fails, and look for files in the documented order.  A sound card that agrees to everything is opened,
  plays the sum of the voices frame after frame, and is closed.  The main programs handle every turn of their loops without a fault
  under the stated conditions.  Where the code goes wrong, that is a theorem too: the
  eleventh peer, the rejected peer, the voices at the end of a connected client, the sending thread
  that outlives the library, the home directory that is one byte too long.

  \<^bold>\<open>Parameters.\<close>  The Jim interpreter (its evaluation maps a server to a server and a result), ENet (the
  log of what is sent, and the events it reports), the CELT codec (\<open>dec\<close>, \<open>enc\<close>; the theorems
  need that a decoder writes the whole frame, \<open>decoder_writes\<close>), the arithmetic of \<open>float\<close>, name resolution and sockets,
  the environment, \<open>fopen\<close> and \<open>mkdir\<close>, what the sound libraries answer, the process of the graphical client, \<open>ToULong\<close>, and where a sorted list box puts an item.

  \<^bold>\<open>Not modelled.\<close>  \<open>codec.c\<close> only calls its library; \<open>audio_api_dummy.c\<close> does not compile;
  \<open>thread.c\<close> wraps the threads of the system and \<open>network_packet.c\<close> frees; \<open>basedir.c\<close>
  for Windows; the construction of the widgets of \<open>svcwindow.cpp\<close>; what the programs print on the
  standard error; failures of \<open>malloc\<close> outside \<open>basedir.c\<close>, which the code does not look for.
\<close>

end
